(* ===== verification/Prelude.thy ===== *)
theory Prelude
  imports Main "HOL-Library.Word" "HOL-Library.Monad_Syntax"
begin

section \<open>Shared types, machine arithmetic and ordered containers\<close>

text \<open>
  What every component theory uses.  Unsigned Rust integers are natural numbers; each
  arithmetic operation of the source that can leave its width is one of the wrapping
  operations below (the crates have no \<^verbatim>\<open>overflow-checks\<close> profile, so a release build wraps).
  \<^verbatim>\<open>saturating_sub\<close> is the truncating subtraction of \<open>nat\<close>.

  A Rust panic (a failed \<^verbatim>\<open>assert!\<close>, an \<^verbatim>\<open>expect\<close> on \<^verbatim>\<open>None\<close>, an index out of range) is the
  value \<open>None\<close> of an \<open>option\<close>; operations that may panic are written in the option monad.
  A \<^verbatim>\<open>BTreeMap\<close> is an association list in strictly increasing key order, a \<^verbatim>\<open>BTreeSet\<close> a
  strictly increasing list; \<^verbatim>\<open>range\<close> is a filter, so iteration order is that of the source.
\<close>

named_theorems wrap_simps \<open>wrapping arithmetic that does not leave its width\<close>
named_theorems btree_simps \<open>lookups and key sets of ordered maps and sets\<close>

type_synonym u8 = "8 word"
type_synonym bytes = "u8 list"
type_synonym Round = nat
type_synonym Epoch = nat
type_synonym Stake = nat
type_synonym AuthorityIndex = nat
type_synonym BlockTimestampMs = nat
type_synonym TransactionIndex = nat
type_synonym CommitIndex = nat

text \<open>A 32-byte digest, read as a big-endian number: the byte-wise lexicographic order of the
  source is then the order of the numbers.\<close>

type_synonym digest = nat

abbreviation (input) u32_max :: nat where "u32_max \<equiv> 2 ^ 32 - 1"
abbreviation (input) digest_min :: digest where "digest_min \<equiv> 0"
abbreviation (input) digest_max :: digest where "digest_max \<equiv> 2 ^ 256 - 1"

subsection \<open>Wrapping arithmetic\<close>

definition u32_add :: "nat \<Rightarrow> nat \<Rightarrow> nat" where
  "u32_add a b = (a + b) mod 2 ^ 32"

definition u32_sub :: "nat \<Rightarrow> nat \<Rightarrow> nat" where
  "u32_sub a b = (a + (2 ^ 32 - b mod 2 ^ 32)) mod 2 ^ 32"

definition u32_mul :: "nat \<Rightarrow> nat \<Rightarrow> nat" where
  "u32_mul a b = (a * b) mod 2 ^ 32"

definition u32_sat_add :: "nat \<Rightarrow> nat \<Rightarrow> nat" where
  "u32_sat_add a b = min (a + b) (2 ^ 32 - 1)"

definition u64_add :: "nat \<Rightarrow> nat \<Rightarrow> nat" where
  "u64_add a b = (a + b) mod 2 ^ 64"

definition u64_sub :: "nat \<Rightarrow> nat \<Rightarrow> nat" where
  "u64_sub a b = (a + (2 ^ 64 - b mod 2 ^ 64)) mod 2 ^ 64"

definition u64_mul :: "nat \<Rightarrow> nat \<Rightarrow> nat" where
  "u64_mul a b = (a * b) mod 2 ^ 64"

definition u64_sum :: "nat list \<Rightarrow> nat" where
  "u64_sum xs = foldl u64_add 0 xs"

lemma u32_add_eq [wrap_simps]: "a + b < 2 ^ 32 \<Longrightarrow> u32_add a b = a + b"
  by (simp add: u32_add_def)

lemma u32_add_bound: "u32_add a b < 2 ^ 32"
  by (simp add: u32_add_def)

lemma u32_sub_eq [wrap_simps]:
  assumes "b \<le> a" "a < 2 ^ 32"
  shows "u32_sub a b = a - b"
proof -
  have "b mod 2 ^ 32 = b" and "a + (2 ^ 32 - b) = (a - b) + 2 ^ 32" and "a - b < 2 ^ 32"
    using assms by auto
  then show ?thesis unfolding u32_sub_def by (simp only: mod_add_self2 mod_less)
qed

lemma u32_mul_eq [wrap_simps]: "a * b < 2 ^ 32 \<Longrightarrow> u32_mul a b = a * b"
  by (simp add: u32_mul_def)

lemma u64_add_eq [wrap_simps]: "a + b < 2 ^ 64 \<Longrightarrow> u64_add a b = a + b"
  by (simp add: u64_add_def)

lemma u64_mul_eq [wrap_simps]: "a * b < 2 ^ 64 \<Longrightarrow> u64_mul a b = a * b"
  by (simp add: u64_mul_def)

lemma u64_sub_eq [wrap_simps]:
  assumes "b \<le> a" "a < 2 ^ 64"
  shows "u64_sub a b = a - b"
proof -
  have "b mod 2 ^ 64 = b" and "a + (2 ^ 64 - b) = (a - b) + 2 ^ 64" and "a - b < 2 ^ 64"
    using assms by auto
  then show ?thesis unfolding u64_sub_def by (simp only: mod_add_self2 mod_less)
qed

lemma foldl_u64_add: "foldl u64_add a xs mod 2 ^ 64 = (a + sum_list xs) mod 2 ^ 64"
  by (induction xs arbitrary: a) (simp_all add: u64_add_def mod_add_left_eq add.assoc)

lemma foldl_u64_add_bound: "a < 2 ^ 64 \<Longrightarrow> foldl u64_add a xs < 2 ^ 64"
  by (induction xs arbitrary: a) (simp_all add: u64_add_def)

lemma u64_sum_mod: "u64_sum xs = sum_list xs mod 2 ^ 64"
  using foldl_u64_add [of 0 xs] foldl_u64_add_bound [of 0 xs] by (simp add: u64_sum_def)

lemma u64_sum_eq [wrap_simps]: "sum_list xs < 2 ^ 64 \<Longrightarrow> u64_sum xs = sum_list xs"
  by (simp add: u64_sum_mod)

subsection \<open>Vectors and loops that may panic\<close>

definition vec_get :: "'a list \<Rightarrow> nat \<Rightarrow> 'a option" where
  "vec_get xs i = (if i < length xs then Some (xs ! i) else None)"

definition vec_set :: "'a list \<Rightarrow> nat \<Rightarrow> 'a \<Rightarrow> 'a list option" where
  "vec_set xs i v = (if i < length xs then Some (xs[i := v]) else None)"

fun fold_opt :: "('a \<Rightarrow> 's \<Rightarrow> 's option) \<Rightarrow> 'a list \<Rightarrow> 's \<Rightarrow> 's option" where
  "fold_opt f [] s = Some s"
| "fold_opt f (x # xs) s = (case f x s of None \<Rightarrow> None | Some s' \<Rightarrow> fold_opt f xs s')"

fun map_opt :: "('a \<Rightarrow> 'b option) \<Rightarrow> 'a list \<Rightarrow> 'b list option" where
  "map_opt f [] = Some []"
| "map_opt f (x # xs) =
     (case f x of None \<Rightarrow> None | Some y \<Rightarrow> map_option ((#) y) (map_opt f xs))"

fun filter_opt :: "('a \<Rightarrow> bool option) \<Rightarrow> 'a list \<Rightarrow> 'a list option" where
  "filter_opt f [] = Some []"
| "filter_opt f (x # xs) =
     (case f x of None \<Rightarrow> None
      | Some b \<Rightarrow> map_option (\<lambda>ys. if b then x # ys else ys) (filter_opt f xs))"

lemma vec_get_Some [simp]: "vec_get xs i = Some v \<longleftrightarrow> i < length xs \<and> xs ! i = v"
  by (auto simp: vec_get_def)

lemma vec_get_None [simp]: "vec_get xs i = None \<longleftrightarrow> length xs \<le> i"
  by (auto simp: vec_get_def)

lemma vec_set_Some [simp]: "vec_set xs i v = Some ys \<longleftrightarrow> i < length xs \<and> ys = xs[i := v]"
  by (auto simp: vec_set_def)

text \<open>The loop rule: an invariant every iteration keeps holds after the loop.\<close>

lemma fold_opt_invariant:
  assumes "fold_opt f xs s = Some t" "P s"
    and "\<And>x s s'. x \<in> set xs \<Longrightarrow> P s \<Longrightarrow> f x s = Some s' \<Longrightarrow> P s'"
  shows "P t"
  using assms
proof (induction xs arbitrary: s)
  case (Cons x xs)
  then obtain s' where s': "f x s = Some s'" "fold_opt f xs s' = Some t"
    by (auto split: option.splits)
  with Cons.prems have "P s'" by (meson list.set_intros(1))
  with s' Cons show ?case by (meson list.set_intros(2))
qed simp

lemma fold_opt_total:
  assumes "P s" and "\<And>x s. x \<in> set xs \<Longrightarrow> P s \<Longrightarrow> \<exists>s'. f x s = Some s' \<and> P s'"
  shows "\<exists>t. fold_opt f xs s = Some t \<and> P t"
  using assms
proof (induction xs arbitrary: s)
  case (Cons x xs)
  then obtain s' where s': "f x s = Some s'" "P s'" by (meson list.set_intros(1))
  with Cons have "\<exists>t. fold_opt f xs s' = Some t \<and> P t" by (meson list.set_intros(2))
  with s' show ?case by simp
qed simp

lemma fold_opt_append:
  "fold_opt f (xs @ ys) s = Option.bind (fold_opt f xs s) (fold_opt f ys)"
  by (induction xs arbitrary: s) (simp_all split: option.splits)

lemma map_opt_Some:
  "map_opt f xs = Some ys \<longleftrightarrow> length ys = length xs \<and> (\<forall>i < length xs. f (xs ! i) = Some (ys ! i))"
proof (induction xs arbitrary: ys)
  case (Cons x xs)
  then show ?case
    by (cases ys) (auto simp: less_Suc_eq_0_disj split: option.splits)
qed auto

lemma map_opt_total: "\<forall>x \<in> set xs. f x \<noteq> None \<Longrightarrow> \<exists>ys. map_opt f xs = Some ys"
  by (induction xs) (auto split: option.splits)

lemma filter_opt_Some:
  "filter_opt f xs = Some ys \<longleftrightarrow>
     (\<forall>x \<in> set xs. f x \<noteq> None) \<and> ys = filter (\<lambda>x. f x = Some True) xs"
  by (induction xs arbitrary: ys) (auto split: option.splits)

subsection \<open>BTreeMap\<close>

type_synonym ('k, 'v) btree_map = "('k \<times> 'v) list"
type_synonym 'k btree_set = "'k list"

fun btm_insert :: "'k::linorder \<Rightarrow> 'v \<Rightarrow> ('k, 'v) btree_map \<Rightarrow> ('k, 'v) btree_map" where
  "btm_insert k v [] = [(k, v)]"
| "btm_insert k v ((k', v') # m) =
     (if k < k' then (k, v) # (k', v') # m
      else if k = k' then (k, v) # m
      else (k', v') # btm_insert k v m)"

definition btm_get :: "('k, 'v) btree_map \<Rightarrow> 'k \<Rightarrow> 'v option" where
  "btm_get m k = map_of m k"

definition btm_remove :: "'k \<Rightarrow> ('k, 'v) btree_map \<Rightarrow> ('k, 'v) btree_map" where
  "btm_remove k m = filter (\<lambda>p. fst p \<noteq> k) m"

definition btm_keys :: "('k, 'v) btree_map \<Rightarrow> 'k list" where
  "btm_keys m = map fst m"

definition btm_wf :: "('k::linorder, 'v) btree_map \<Rightarrow> bool" where
  "btm_wf m \<longleftrightarrow> sorted_wrt (<) (btm_keys m)"

text \<open>\<open>range\<close> over an inclusive lower and an inclusive upper bound.\<close>

definition btm_range :: "'k::linorder \<Rightarrow> 'k \<Rightarrow> ('k, 'v) btree_map \<Rightarrow> ('k \<times> 'v) list" where
  "btm_range lo hi m = filter (\<lambda>p. lo \<le> fst p \<and> fst p \<le> hi) m"

definition bts_range :: "'k::linorder \<Rightarrow> 'k \<Rightarrow> 'k btree_set \<Rightarrow> 'k list" where
  "bts_range lo hi s = filter (\<lambda>k. lo \<le> k \<and> k \<le> hi) s"

definition bts_insert :: "'k::linorder \<Rightarrow> 'k btree_set \<Rightarrow> 'k btree_set" where
  "bts_insert k s = insort_insert k s"

definition bts_wf :: "'k::linorder btree_set \<Rightarrow> bool" where
  "bts_wf s \<longleftrightarrow> sorted_wrt (<) s"

definition bts_last :: "'k btree_set \<Rightarrow> 'k option" where
  "bts_last s = (if s = [] then None else Some (last s))"

lemma map_of_btm_insert: "map_of (btm_insert k v m) = (map_of m)(k \<mapsto> v)"
  by (induction k v m rule: btm_insert.induct) auto

lemma btm_get_insert [btree_simps]:
  "btm_get (btm_insert k v m) k' = (if k' = k then Some v else btm_get m k')"
  by (simp add: btm_get_def map_of_btm_insert)

lemma map_of_filter_key:
  "map_of (filter (\<lambda>p. fst p \<noteq> k) m) k' = (if k' = k then None else map_of m k')"
  by (induction m) auto

lemma btm_get_remove [btree_simps]:
  "btm_get (btm_remove k m) k' = (if k' = k then None else btm_get m k')"
  by (simp add: btm_get_def btm_remove_def map_of_filter_key)

lemma btm_get_Nil [simp]: "btm_get [] k = None"
  by (simp add: btm_get_def)

lemma set_btm_keys_insert [btree_simps]:
  "set (btm_keys (btm_insert k v m)) = insert k (set (btm_keys m))"
  by (induction k v m rule: btm_insert.induct) (auto simp: btm_keys_def)

lemma btm_wf_Nil [simp]: "btm_wf []"
  by (simp add: btm_wf_def btm_keys_def)

lemma btm_wf_Cons [simp]:
  "btm_wf ((k, v) # m) \<longleftrightarrow> (\<forall>k' \<in> set (btm_keys m). k < k') \<and> btm_wf m"
  by (simp add: btm_wf_def btm_keys_def)

lemma btm_keys_Nil [simp]: "btm_keys [] = []"
  by (simp add: btm_keys_def)

lemma btm_keys_Cons [simp]: "btm_keys (p # m) = fst p # btm_keys m"
  by (simp add: btm_keys_def)

lemma btm_wf_insert [btree_simps]: "btm_wf m \<Longrightarrow> btm_wf (btm_insert k v m)"
  by (induction k v m rule: btm_insert.induct) (auto simp: set_btm_keys_insert)

lemma btm_wf_remove [btree_simps]: "btm_wf m \<Longrightarrow> btm_wf (btm_remove k m)"
  by (induction m) (auto simp: btm_remove_def btm_keys_def)

lemma btm_get_in_set: "btm_wf m \<Longrightarrow> btm_get m k = Some v \<longleftrightarrow> (k, v) \<in> set m"
proof -
  assume "btm_wf m"
  then have "distinct (map fst m)"
    by (simp add: btm_wf_def btm_keys_def strict_sorted_iff)
  then show ?thesis by (simp add: btm_get_def)
qed

lemma btm_get_key: "btm_get m k = Some v \<Longrightarrow> k \<in> set (btm_keys m)"
  by (auto simp: btm_get_def btm_keys_def dest: map_of_SomeD intro: rev_image_eqI)

lemma btm_key_get: "k \<in> set (btm_keys m) \<longleftrightarrow> btm_get m k \<noteq> None"
  by (simp add: btm_get_def btm_keys_def map_of_eq_None_iff)

lemma btm_get_Cons [simp]:
  "btm_get (p # m) k = (if fst p = k then Some (snd p) else btm_get m k)"
  by (cases p) (simp add: btm_get_def)

lemma bts_insert_set [btree_simps]: "set (bts_insert k s) = insert k (set s)"
  by (simp add: bts_insert_def set_insort_insert)

lemma bts_insert_wf [btree_simps]: "bts_wf s \<Longrightarrow> bts_wf (bts_insert k s)"
  by (simp add: bts_insert_def bts_wf_def strict_sorted_iff sorted_insort_insert
      distinct_insort_insert)

lemma bts_wf_Nil [simp]: "bts_wf []"
  by (simp add: bts_wf_def)

lemma bts_wf_distinct: "bts_wf s \<Longrightarrow> distinct s"
  by (simp add: bts_wf_def strict_sorted_iff)

text \<open>The contract of an ordered map, as its clients use it.\<close>

locale ordered_map =
  fixes get :: "'m \<Rightarrow> 'k::linorder \<Rightarrow> 'v option"
    and ins :: "'k \<Rightarrow> 'v \<Rightarrow> 'm \<Rightarrow> 'm"
    and rem :: "'k \<Rightarrow> 'm \<Rightarrow> 'm"
    and entries :: "'m \<Rightarrow> ('k \<times> 'v) list"
    and invar :: "'m \<Rightarrow> bool"
  assumes get_ins: "get (ins k v m) k' = (if k' = k then Some v else get m k')"
    and get_rem: "get (rem k m) k' = (if k' = k then None else get m k')"
    and get_entries: "invar m \<Longrightarrow> get m k = Some v \<longleftrightarrow> (k, v) \<in> set (entries m)"
    and entries_sorted: "invar m \<Longrightarrow> sorted_wrt (<) (map fst (entries m))"
    and invar_ins: "invar m \<Longrightarrow> invar (ins k v m)"
    and invar_rem: "invar m \<Longrightarrow> invar (rem k m)"
begin

lemma fold_ins_other:
  "k \<notin> key ` set xs \<Longrightarrow> get (fold (\<lambda>x. ins (key x) (val x)) xs m) k = get m k"
  by (induction xs arbitrary: m) (simp_all add: get_ins)

lemma fold_ins_get:
  assumes "\<And>x y. x \<in> set xs \<Longrightarrow> y \<in> set xs \<Longrightarrow> key x = key y \<Longrightarrow> val x = val y" and "z \<in> set xs"
  shows "get (fold (\<lambda>x. ins (key x) (val x)) xs m) (key z) = Some (val z)"
  using assms
proof (induction xs arbitrary: m rule: rev_induct)
  case (snoc x xs)
  show ?case
  proof (cases "key z = key x")
    case True
    then have "val z = val x" using snoc.prems by (meson in_set_conv_decomp)
    with True show ?thesis by (simp add: get_ins)
  next
    case False
    then have "z \<in> set xs" using snoc.prems by auto
    moreover have "\<And>u v. u \<in> set xs \<Longrightarrow> v \<in> set xs \<Longrightarrow> key u = key v \<Longrightarrow> val u = val v"
      using snoc.prems(1) by simp
    ultimately have "get (fold (\<lambda>x. ins (key x) (val x)) xs m) (key z) = Some (val z)"
      using snoc.IH by blast
    with False show ?thesis by (simp add: get_ins)
  qed
qed simp

lemma invar_fold_ins: "invar m \<Longrightarrow> invar (fold (\<lambda>x. ins (key x) (val x)) xs m)"
  by (induction xs arbitrary: m) (simp_all add: invar_ins)

lemma entries_distinct: "invar m \<Longrightarrow> distinct (entries m)"
  using entries_sorted [of m] by (auto simp: strict_sorted_iff distinct_map)

end

interpretation btm: ordered_map btm_get btm_insert btm_remove "\<lambda>m. m" btm_wf
  by unfold_locales
    (simp_all add: btree_simps btm_get_in_set, simp add: btm_wf_def btm_keys_def)

end
