(* ===== verification/Committee.thy ===== *)
theory Committee
  imports Prelude
begin

section \<open>Committee\<close>

text \<open>
  \<^verbatim>\<open>meta-consensus/config/src/committee.rs\<close>: the authorities of an epoch with their stake, and
  the quorum (2f+1) and validity (f+1) thresholds.  \<open>committee_new\<close> is \<open>None\<close> where
  \<^verbatim>\<open>Committee::new\<close> fails an assertion.  \<open>stake_of\<close> and \<open>committee_wf\<close> are the specification:
  the stake of a set of authorities, and what every committee the constructor returns satisfies
  when the stakes fit into 64 bits.
\<close>

record authority =
  au_stake :: Stake
  au_address :: string
  au_hostname :: string
  au_authority_key :: bytes
  au_protocol_key :: bytes
  au_network_key :: bytes

record committee =
  c_epoch :: Epoch
  c_total_stake :: Stake
  c_quorum_threshold :: Stake
  c_validity_threshold :: Stake
  c_authorities :: "authority list"

definition committee_new :: "Epoch \<Rightarrow> authority list \<Rightarrow> committee option" where
  "committee_new epoch authorities =
     (if authorities = [] then None
      else if \<not> length authorities < 2 ^ 32 - 1 then None
      else
        let total_stake = u64_sum (map au_stake authorities) in
        if total_stake = 0 then None
        else
          let fault_tolerance = (total_stake - 1) div 3;
              quorum_threshold = u64_sub total_stake fault_tolerance;
              validity_threshold = u64_add fault_tolerance 1
          in if \<not> u64_sub (u64_mul 2 quorum_threshold) fault_tolerance > total_stake then None
             else Some \<lparr>c_epoch = epoch, c_total_stake = total_stake,
                        c_quorum_threshold = quorum_threshold,
                        c_validity_threshold = validity_threshold,
                        c_authorities = authorities\<rparr>)"

definition committee_stake :: "committee \<Rightarrow> AuthorityIndex \<Rightarrow> Stake option" where
  "committee_stake c i = map_option au_stake (vec_get (c_authorities c) i)"

definition committee_authority :: "committee \<Rightarrow> AuthorityIndex \<Rightarrow> authority option" where
  "committee_authority c i = vec_get (c_authorities c) i"

definition committee_indices :: "committee \<Rightarrow> (AuthorityIndex \<times> authority) list" where
  "committee_indices c = enumerate 0 (c_authorities c)"

definition reached_quorum :: "committee \<Rightarrow> Stake \<Rightarrow> bool" where
  "reached_quorum c s \<longleftrightarrow> s \<ge> c_quorum_threshold c"

definition reached_validity :: "committee \<Rightarrow> Stake \<Rightarrow> bool" where
  "reached_validity c s \<longleftrightarrow> s \<ge> c_validity_threshold c"

definition committee_size :: "committee \<Rightarrow> nat" where
  "committee_size c = length (c_authorities c)"

definition to_authority_index :: "committee \<Rightarrow> nat \<Rightarrow> AuthorityIndex option" where
  "to_authority_index c index = (if index < length (c_authorities c) then Some index else None)"

definition is_valid_index :: "committee \<Rightarrow> AuthorityIndex \<Rightarrow> bool" where
  "is_valid_index c index \<longleftrightarrow> index < committee_size c"

subsection \<open>Specification: stake of a set of authorities\<close>

definition stake_of :: "committee \<Rightarrow> AuthorityIndex set \<Rightarrow> Stake" where
  "stake_of c A = (\<Sum>i \<in> A \<inter> {..< committee_size c}. au_stake (c_authorities c ! i))"

definition fault_tolerance :: "committee \<Rightarrow> Stake" where
  "fault_tolerance c = (c_total_stake c - 1) div 3"

definition committee_wf :: "committee \<Rightarrow> bool" where
  "committee_wf c \<longleftrightarrow>
     c_authorities c \<noteq> [] \<and> committee_size c < 2 ^ 32 - 1 \<and>
     c_total_stake c = sum_list (map au_stake (c_authorities c)) \<and>
     0 < c_total_stake c \<and> c_total_stake c < 2 ^ 64 \<and>
     c_quorum_threshold c = c_total_stake c - fault_tolerance c \<and>
     c_validity_threshold c = fault_tolerance c + 1"

lemma stake_of_UNIV: "stake_of c UNIV = sum_list (map au_stake (c_authorities c))"
proof -
  have "sum_list (map au_stake (c_authorities c))
      = (\<Sum>i = 0..<committee_size c. map au_stake (c_authorities c) ! i)"
    by (simp add: sum_list_sum_nth committee_size_def)
  also have "\<dots> = stake_of c UNIV"
    unfolding stake_of_def by (rule sum.cong) (auto simp: committee_size_def)
  finally show ?thesis by simp
qed

lemma stake_of_empty [simp]: "stake_of c {} = 0"
  by (simp add: stake_of_def)

lemma stake_of_mono: "A \<subseteq> B \<Longrightarrow> stake_of c A \<le> stake_of c B"
  unfolding stake_of_def by (rule sum_mono2) auto

lemma stake_of_insert:
  assumes "i \<notin> A" "i < committee_size c"
  shows "stake_of c (insert i A) = stake_of c A + au_stake (c_authorities c ! i)"
  using assms by (simp add: stake_of_def)

lemma stake_of_Un_Int: "stake_of c (A \<union> B) + stake_of c (A \<inter> B) = stake_of c A + stake_of c B"
proof -
  let ?R = "{..<committee_size c}"
  let ?f = "\<lambda>i. au_stake (c_authorities c ! i)"
  have "sum ?f ((A \<inter> ?R) \<union> (B \<inter> ?R)) + sum ?f ((A \<inter> ?R) \<inter> (B \<inter> ?R))
      = sum ?f (A \<inter> ?R) + sum ?f (B \<inter> ?R)"
    by (rule sum.union_inter) auto
  moreover have "(A \<inter> ?R) \<union> (B \<inter> ?R) = (A \<union> B) \<inter> ?R" "(A \<inter> ?R) \<inter> (B \<inter> ?R) = (A \<inter> B) \<inter> ?R"
    by auto
  ultimately show ?thesis by (simp add: stake_of_def)
qed

lemma stake_of_le_total: "committee_wf c \<Longrightarrow> stake_of c A \<le> c_total_stake c"
  using stake_of_mono [of A UNIV c] by (simp add: stake_of_UNIV committee_wf_def)

lemma stake_of_bound: "committee_wf c \<Longrightarrow> stake_of c A < 2 ^ 64"
  using stake_of_le_total [of c A] by (simp add: committee_wf_def)

lemma fault_tolerance_third: "committee_wf c \<Longrightarrow> 3 * fault_tolerance c + 1 \<le> c_total_stake c"
  unfolding committee_wf_def fault_tolerance_def by linarith

lemma quorum_double:
  assumes "committee_wf c"
  shows "c_total_stake c + c_validity_threshold c \<le> 2 * c_quorum_threshold c"
proof -
  have "c_validity_threshold c = fault_tolerance c + 1"
    and "c_quorum_threshold c = c_total_stake c - fault_tolerance c"
    using assms by (simp_all add: committee_wf_def)
  then show ?thesis using fault_tolerance_third [OF assms] by linarith
qed

text \<open>Two quorums overlap in more stake than the tolerated faults.\<close>

lemma quorum_overlap:
  assumes "committee_wf c" "reached_quorum c (stake_of c A)" "reached_quorum c (stake_of c B)"
  shows "reached_validity c (stake_of c (A \<inter> B))"
  using assms stake_of_Un_Int [of c A B] stake_of_le_total [of c "A \<union> B"] quorum_double [of c]
  by (simp add: reached_quorum_def reached_validity_def)

lemma quorum_overlap_honest:
  assumes "committee_wf c" "reached_quorum c (stake_of c A)" "reached_quorum c (stake_of c B)"
    and "stake_of c byz \<le> fault_tolerance c"
  shows "\<exists>i. i \<in> A \<and> i \<in> B \<and> i \<notin> byz \<and> i < committee_size c"
proof (rule ccontr)
  assume contra: "\<not> ?thesis"
  have "stake_of c (A \<inter> B) \<le> stake_of c byz"
    unfolding stake_of_def by (rule sum_mono2) (use contra in auto)
  moreover have "fault_tolerance c < stake_of c (A \<inter> B)"
    using quorum_overlap [OF assms(1-3)] assms(1) by (simp add: reached_validity_def committee_wf_def)
  ultimately show False using assms(4) by simp
qed

subsection \<open>The constructor\<close>

lemma committee_new_Some:
  assumes "committee_new e authorities = Some c"
  defines "T \<equiv> u64_sum (map au_stake authorities)"
  shows "authorities \<noteq> [] \<and> length authorities < 2 ^ 32 - 1 \<and> T \<noteq> 0 \<and>
    c = \<lparr>c_epoch = e, c_total_stake = T, c_quorum_threshold = u64_sub T ((T - 1) div 3),
         c_validity_threshold = u64_add ((T - 1) div 3) 1, c_authorities = authorities\<rparr>"
  using assms unfolding committee_new_def Let_def
  by (metis (no_types, lifting) option.distinct(1) option.inject)

lemma committee_new_wf_aux:
  assumes "sum_list (map au_stake authorities) < 2 ^ 64" "committee_new e authorities = Some c"
  shows "committee_wf c \<and> c_epoch c = e \<and> c_authorities c = authorities"
proof -
  define T where "T = sum_list (map au_stake authorities)"
  define f where "f = (T - 1) div 3"
  have T: "T < 2 ^ 64" "f \<le> T" using assms(1) by (simp_all add: T_def f_def)
  have sum: "u64_sum (map au_stake authorities) = T" using assms(1) unfolding T_def by (rule u64_sum_eq)
  note c = committee_new_Some [OF assms(2), unfolded sum, folded f_def]
  have "f + 1 < 2 ^ 64" using T(1) by (simp add: f_def)
  then have "u64_add f 1 = f + 1" by (rule u64_add_eq)
  moreover have "u64_sub T f = T - f" using T by (intro u64_sub_eq)
  ultimately have c': "c_epoch c = e" "c_authorities c = authorities" "c_total_stake c = T"
      "c_quorum_threshold c = T - f" "c_validity_threshold c = f + 1"
    using c by (simp_all only: committee.simps)
  have "fault_tolerance c = f" unfolding fault_tolerance_def c'(3) f_def ..
  then have "committee_wf c"
    unfolding committee_wf_def committee_size_def c' T_def [symmetric] using c T(1) by blast
  with c' show ?thesis by blast
qed

text \<open>\<^verbatim>\<open>Committee::new\<close> succeeds on every non-empty list of authorities whose total stake is
  positive and below 2^63 (so its quorum assertion never fires there), and the committee it
  returns has a total that is the sum of the stakes, a quorum threshold of total - f and a
  validity threshold of f + 1 for f = (total - 1) / 3.\<close>

theorem committee_new_correct:
  assumes "authorities \<noteq> []" "length authorities < 2 ^ 32 - 1"
    and "0 < sum_list (map au_stake authorities)" "sum_list (map au_stake authorities) < 2 ^ 63"
  shows "\<exists>c. committee_new epoch authorities = Some c \<and> committee_wf c \<and>
             c_epoch c = epoch \<and> c_authorities c = authorities"
proof -
  define T where "T = sum_list (map au_stake authorities)"
  define f where "f = (T - 1) div 3"
  have T: "0 < T" "T < 2 ^ 63" using assms by (simp_all only: T_def)
  then have T2: "2 * T < 2 ^ 64" by simp
  have sum: "u64_sum (map au_stake authorities) = T"
    unfolding T_def by (rule u64_sum_eq) (use T(2) T_def in simp)
  have f: "3 * f < T" using T(1) unfolding f_def by linarith
  have q: "u64_sub T f = T - f" using f T2 by (intro u64_sub_eq) linarith+
  have "u64_mul 2 (T - f) = 2 * (T - f)" using T2 by (intro u64_mul_eq) linarith
  moreover have "u64_sub (2 * (T - f)) f = 2 * (T - f) - f"
    using f T2 by (intro u64_sub_eq) linarith+
  ultimately have "u64_sub (u64_mul 2 (u64_sub T f)) f > T" using f q by simp
  then obtain c where c: "committee_new epoch authorities = Some c"
    using assms(1,2) T(1) by (simp add: committee_new_def Let_def sum f_def)
  moreover have "committee_wf c \<and> c_epoch c = epoch \<and> c_authorities c = authorities"
    using T(2) unfolding T_def by (intro committee_new_wf_aux [OF _ c]) simp
  ultimately show ?thesis by blast
qed

definition example_authority :: "Stake \<Rightarrow> authority" where
  "example_authority s = \<lparr>au_stake = s, au_address = [], au_hostname = [], au_authority_key = [],
     au_protocol_key = [], au_network_key = []\<rparr>"

theorem committee_new_correct_witness:
  "\<exists>c. committee_new 7 (map example_authority [1, 1, 1, 1]) = Some c \<and> committee_wf c \<and>
       c_epoch c = 7 \<and> c_authorities c = map example_authority [1, 1, 1, 1]"
  using committee_new_correct [of "map example_authority [1, 1, 1, 1]" 7]
  by (simp add: example_authority_def)

text \<open>A committee of four authorities with one unit of stake each, for the witnesses.\<close>

definition committee4 :: committee where
  "committee4 = \<lparr>c_epoch = 0, c_total_stake = 4, c_quorum_threshold = 3,
     c_validity_threshold = 2, c_authorities = map example_authority [1, 1, 1, 1]\<rparr>"

lemma committee4_new: "committee_new 0 (map example_authority [1, 1, 1, 1]) = Some committee4"
  by (simp add: committee_new_def committee4_def example_authority_def Let_def u64_sum_def
      u64_add_def u64_sub_def u64_mul_def)

lemma committee4_wf: "committee_wf committee4"
  using committee_new_wf_aux [OF _ committee4_new] by (simp add: example_authority_def)

lemma committee4_size [simp]: "committee_size committee4 = 4"
  by (simp add: committee4_def committee_size_def)

lemma stake_of_committee4: "stake_of committee4 A = card (A \<inter> {..<4})"
proof -
  have "au_stake (c_authorities committee4 ! i) = 1" if "i < 4" for i
    using that by (simp add: committee4_def example_authority_def less_Suc_eq numeral_eq_Suc) auto
  then show ?thesis unfolding stake_of_def by simp
qed

text \<open>C30: quorum intersection.  Two sets of authorities that both reach the quorum threshold share
  stake of at least the validity threshold; so with faulty stake at most f they share an honest
  authority.\<close>

theorem quorum_intersection:
  assumes "committee_new epoch authorities = Some c"
    and "sum_list (map au_stake authorities) < 2 ^ 64"
    and "reached_quorum c (stake_of c A)" "reached_quorum c (stake_of c B)"
  shows "reached_validity c (stake_of c (A \<inter> B)) \<and>
         (stake_of c byz \<le> fault_tolerance c \<longrightarrow> (\<exists>i \<in> A \<inter> B - byz. i < committee_size c))"
proof -
  have wf: "committee_wf c" using committee_new_wf_aux [OF assms(2,1)] by blast
  show ?thesis
    using quorum_overlap [OF wf assms(3,4)] quorum_overlap_honest [OF wf assms(3,4), of byz] by blast
qed

theorem quorum_intersection_witness:
  "reached_validity committee4 (stake_of committee4 ({0, 1, 2} \<inter> {1, 2, 3})) \<and>
   (\<exists>i \<in> {0, 1, 2} \<inter> {1, 2, 3} - {1}. i < committee_size committee4)"
proof -
  have s: "{0, 1, 2} \<inter> {..<4} = {0, 1, 2 :: nat}" "{1, 2, 3} \<inter> {..<4} = {1, 2, 3 :: nat}"
    "{1} \<inter> {..<4} = {1 :: nat}" by auto
  have q: "reached_quorum committee4 (stake_of committee4 {0, 1, 2})"
    "reached_quorum committee4 (stake_of committee4 {1, 2, 3})"
    by (simp_all add: reached_quorum_def stake_of_committee4 s, simp_all add: committee4_def)
  have b: "stake_of committee4 {1} \<le> fault_tolerance committee4"
    by (simp add: stake_of_committee4 s fault_tolerance_def) (simp add: committee4_def)
  show ?thesis
    using quorum_intersection [OF committee4_new _ q, of "{1}"] b
    by (simp add: example_authority_def)
qed

end
