(* ===== verification/Block.thy ===== *)
theory Block
  imports Committee "HOL-Library.Product_Lexorder"
begin

section \<open>Blocks, block references and the per-epoch context\<close>

text \<open>
  \<^verbatim>\<open>meta-consensus/types/src/block.rs\<close>, \<^verbatim>\<open>meta-consensus/core/src/block.rs\<close> and the parts of
  \<^verbatim>\<open>core/src/context.rs\<close> the protocol reads.  Hashing (fastcrypto) and BCS serialisation are
  third-party code and appear as function arguments \<open>hash\<close> and \<open>bcs\<close>.
\<close>

subsection \<open>BlockRef\<close>

datatype block_ref = BlockRef (br_round: Round) (br_author: AuthorityIndex) (br_digest: digest)

text \<open>The derived \<^verbatim>\<open>Ord\<close>: lexicographic in round, author, digest.\<close>

definition block_ref_key :: "block_ref \<Rightarrow> nat \<times> nat \<times> nat" where
  "block_ref_key r = (br_round r, br_author r, br_digest r)"

lemma block_ref_key_inject [simp]: "block_ref_key r = block_ref_key s \<longleftrightarrow> r = s"
  by (cases r; cases s) (simp add: block_ref_key_def)

instantiation block_ref :: linorder
begin

definition less_eq_block_ref :: "block_ref \<Rightarrow> block_ref \<Rightarrow> bool" where
  "less_eq_block_ref r s \<longleftrightarrow> block_ref_key r \<le> block_ref_key s"

definition less_block_ref :: "block_ref \<Rightarrow> block_ref \<Rightarrow> bool" where
  "less_block_ref r s \<longleftrightarrow> block_ref_key r < block_ref_key s"

instance
  by standard (auto simp: less_eq_block_ref_def less_block_ref_def less_le)

end

lemma block_ref_less_iff:
  "(r :: block_ref) < s \<longleftrightarrow> br_round r < br_round s \<or>
     (br_round r = br_round s \<and> (br_author r < br_author s \<or>
       (br_author r = br_author s \<and> br_digest r < br_digest s)))"
  by (auto simp: less_block_ref_def block_ref_key_def)

lemma block_ref_le_iff:
  "(r :: block_ref) \<le> s \<longleftrightarrow> br_round r < br_round s \<or>
     (br_round r = br_round s \<and> (br_author r < br_author s \<or>
       (br_author r = br_author s \<and> br_digest r \<le> br_digest s)))"
  by (auto simp: less_eq_block_ref_def block_ref_key_def)

lemma block_ref_less_round: "(r :: block_ref) \<le> s \<Longrightarrow> br_round r \<le> br_round s"
  by (auto simp: block_ref_le_iff)

subsection \<open>Slot\<close>

datatype slot = Slot (slot_round: Round) (slot_authority: AuthorityIndex)

definition slot_of :: "block_ref \<Rightarrow> slot" where
  "slot_of r = Slot (br_round r) (br_author r)"

subsection \<open>Block\<close>

datatype commit_ref = CommitRef
  (cr_index: CommitIndex) (cr_digest: digest) (cr_global_exec_index: nat) (cr_epoch: nat)

definition commit_ref_new :: "CommitIndex \<Rightarrow> digest \<Rightarrow> commit_ref" where
  "commit_ref_new index d = CommitRef index d 0 0"

definition commit_ref_new_with_global ::
  "CommitIndex \<Rightarrow> digest \<Rightarrow> nat \<Rightarrow> nat \<Rightarrow> commit_ref" where
  "commit_ref_new_with_global index d global_exec_index epoch =
     CommitRef index d global_exec_index epoch"

definition has_global_context :: "commit_ref \<Rightarrow> bool" where
  "has_global_context r \<longleftrightarrow> cr_global_exec_index r > 0"

record block_transaction_votes =
  btv_block_ref :: block_ref
  btv_rejects :: "TransactionIndex list"

datatype misbehavior_proof = InvalidBlock block_ref

record misbehavior_report =
  mr_target :: AuthorityIndex
  mr_proof :: misbehavior_proof

record block_v1 =
  b1_epoch :: Epoch
  b1_round :: Round
  b1_author :: AuthorityIndex
  b1_timestamp_ms :: BlockTimestampMs
  b1_ancestors :: "block_ref list"
  b1_transactions :: "bytes list"
  b1_commit_votes :: "commit_ref list"
  b1_misbehavior_reports :: "misbehavior_report list"
  b1_epoch_change_proposal :: "bytes option"
  b1_epoch_change_votes :: "bytes list"

record block_v2 =
  b2_epoch :: Epoch
  b2_round :: Round
  b2_author :: AuthorityIndex
  b2_timestamp_ms :: BlockTimestampMs
  b2_ancestors :: "block_ref list"
  b2_transactions :: "bytes list"
  b2_transaction_votes :: "block_transaction_votes list"
  b2_commit_votes :: "commit_ref list"
  b2_misbehavior_reports :: "misbehavior_report list"
  b2_epoch_change_proposal :: "bytes option"
  b2_epoch_change_votes :: "bytes list"

datatype block = V1 block_v1 | V2 block_v2

fun block_epoch :: "block \<Rightarrow> Epoch" where
  "block_epoch (V1 b) = b1_epoch b"
| "block_epoch (V2 b) = b2_epoch b"

fun block_round :: "block \<Rightarrow> Round" where
  "block_round (V1 b) = b1_round b"
| "block_round (V2 b) = b2_round b"

fun block_author :: "block \<Rightarrow> AuthorityIndex" where
  "block_author (V1 b) = b1_author b"
| "block_author (V2 b) = b2_author b"

definition block_slot :: "block \<Rightarrow> slot" where
  "block_slot b = Slot (block_round b) (block_author b)"

fun block_timestamp_ms :: "block \<Rightarrow> BlockTimestampMs" where
  "block_timestamp_ms (V1 b) = b1_timestamp_ms b"
| "block_timestamp_ms (V2 b) = b2_timestamp_ms b"

fun block_ancestors :: "block \<Rightarrow> block_ref list" where
  "block_ancestors (V1 b) = b1_ancestors b"
| "block_ancestors (V2 b) = b2_ancestors b"

fun block_transactions :: "block \<Rightarrow> bytes list" where
  "block_transactions (V1 b) = b1_transactions b"
| "block_transactions (V2 b) = b2_transactions b"

fun block_commit_votes :: "block \<Rightarrow> commit_ref list" where
  "block_commit_votes (V1 b) = b1_commit_votes b"
| "block_commit_votes (V2 b) = b2_commit_votes b"

fun block_tx_votes :: "block \<Rightarrow> block_transaction_votes list" where
  "block_tx_votes (V1 b) = []"
| "block_tx_votes (V2 b) = b2_transaction_votes b"

fun block_misbehavior_reports :: "block \<Rightarrow> misbehavior_report list" where
  "block_misbehavior_reports (V1 b) = b1_misbehavior_reports b"
| "block_misbehavior_reports (V2 b) = b2_misbehavior_reports b"

fun block_epoch_change_proposal :: "block \<Rightarrow> bytes option" where
  "block_epoch_change_proposal (V1 b) = b1_epoch_change_proposal b"
| "block_epoch_change_proposal (V2 b) = b2_epoch_change_proposal b"

fun block_epoch_change_votes :: "block \<Rightarrow> bytes list" where
  "block_epoch_change_votes (V1 b) = b1_epoch_change_votes b"
| "block_epoch_change_votes (V2 b) = b2_epoch_change_votes b"

fun set_epoch_change_proposal :: "bytes option \<Rightarrow> block \<Rightarrow> block" where
  "set_epoch_change_proposal p (V1 b) = V1 (b\<lparr>b1_epoch_change_proposal := p\<rparr>)"
| "set_epoch_change_proposal p (V2 b) = V2 (b\<lparr>b2_epoch_change_proposal := p\<rparr>)"

fun set_epoch_change_votes :: "bytes list \<Rightarrow> block \<Rightarrow> block" where
  "set_epoch_change_votes vs (V1 b) = V1 (b\<lparr>b1_epoch_change_votes := vs\<rparr>)"
| "set_epoch_change_votes vs (V2 b) = V2 (b\<lparr>b2_epoch_change_votes := vs\<rparr>)"

record signed_block =
  sb_inner :: block
  sb_signature :: bytes

definition signed_block_new_genesis :: "block \<Rightarrow> signed_block" where
  "signed_block_new_genesis b = \<lparr>sb_inner = b, sb_signature = []\<rparr>"

record verified_block =
  vb_block :: signed_block
  vb_digest :: digest
  vb_serialized :: bytes

definition verified_block_new :: "(bytes \<Rightarrow> digest) \<Rightarrow> signed_block \<Rightarrow> bytes \<Rightarrow> verified_block" where
  "verified_block_new hash sblock serialized =
     \<lparr>vb_block = sblock, vb_digest = hash serialized, vb_serialized = serialized\<rparr>"

definition vb_round :: "verified_block \<Rightarrow> Round" where
  "vb_round b = block_round (sb_inner (vb_block b))"

definition vb_author :: "verified_block \<Rightarrow> AuthorityIndex" where
  "vb_author b = block_author (sb_inner (vb_block b))"

definition vb_ancestors :: "verified_block \<Rightarrow> block_ref list" where
  "vb_ancestors b = block_ancestors (sb_inner (vb_block b))"

definition vb_timestamp_ms :: "verified_block \<Rightarrow> BlockTimestampMs" where
  "vb_timestamp_ms b = block_timestamp_ms (sb_inner (vb_block b))"

definition vb_commit_votes :: "verified_block \<Rightarrow> commit_ref list" where
  "vb_commit_votes b = block_commit_votes (sb_inner (vb_block b))"

definition vb_reference :: "verified_block \<Rightarrow> block_ref" where
  "vb_reference b = BlockRef (vb_round b) (vb_author b) (vb_digest b)"

lemma vb_reference_sel [simp]:
  "br_round (vb_reference b) = vb_round b" "br_author (vb_reference b) = vb_author b"
  "br_digest (vb_reference b) = vb_digest b"
  by (simp_all add: vb_reference_def)

subsection \<open>Context\<close>

text \<open>The fields of \<^verbatim>\<open>Context\<close>, \<^verbatim>\<open>Parameters\<close> and \<^verbatim>\<open>ProtocolConfig\<close> that the modelled code reads;
  metrics are left out.\<close>

record consensus_context =
  ctx_epoch_start_timestamp_ms :: nat
  ctx_own_index :: AuthorityIndex
  ctx_committee :: committee
  ctx_dag_state_cached_rounds :: Round
  ctx_gc_depth :: Round
  ctx_mysticeti_fastpath :: bool
  ctx_mysticeti_num_leaders_per_round :: "nat option"
  ctx_consensus_bad_nodes_stake_threshold :: nat

subsection \<open>Genesis\<close>

abbreviation (input) GENESIS_ROUND :: Round where "GENESIS_ROUND \<equiv> 0"

definition block_v1_genesis :: "consensus_context \<Rightarrow> AuthorityIndex \<Rightarrow> block_v1" where
  "block_v1_genesis ctx author =
     \<lparr>b1_epoch = c_epoch (ctx_committee ctx), b1_round = GENESIS_ROUND, b1_author = author,
      b1_timestamp_ms = ctx_epoch_start_timestamp_ms ctx, b1_ancestors = [],
      b1_transactions = [], b1_commit_votes = [], b1_misbehavior_reports = [],
      b1_epoch_change_proposal = None, b1_epoch_change_votes = []\<rparr>"

definition block_v2_genesis :: "consensus_context \<Rightarrow> AuthorityIndex \<Rightarrow> block_v2" where
  "block_v2_genesis ctx author =
     \<lparr>b2_epoch = c_epoch (ctx_committee ctx), b2_round = GENESIS_ROUND, b2_author = author,
      b2_timestamp_ms = ctx_epoch_start_timestamp_ms ctx, b2_ancestors = [],
      b2_transactions = [], b2_transaction_votes = [], b2_commit_votes = [],
      b2_misbehavior_reports = [], b2_epoch_change_proposal = None, b2_epoch_change_votes = []\<rparr>"

definition genesis_block ::
  "(bytes \<Rightarrow> digest) \<Rightarrow> (signed_block \<Rightarrow> bytes option) \<Rightarrow> consensus_context \<Rightarrow> AuthorityIndex \<Rightarrow>
   verified_block option" where
  "genesis_block hash bcs ctx author = do {
     let sblock = signed_block_new_genesis
       (if ctx_mysticeti_fastpath ctx then V2 (block_v2_genesis ctx author)
        else V1 (block_v1_genesis ctx author));
     serialized \<leftarrow> bcs sblock;
     Some (verified_block_new hash sblock serialized)
   }"

definition genesis_blocks ::
  "(bytes \<Rightarrow> digest) \<Rightarrow> (signed_block \<Rightarrow> bytes option) \<Rightarrow> consensus_context \<Rightarrow> verified_block list option" where
  "genesis_blocks hash bcs ctx =
     map_opt (\<lambda>(i, _). genesis_block hash bcs ctx i) (committee_indices (ctx_committee ctx))"

lemma genesis_block_fields:
  "genesis_block hash bcs ctx i = Some b \<Longrightarrow>
     vb_round b = 0 \<and> vb_author b = i \<and> vb_ancestors b = [] \<and>
     vb_timestamp_ms b = ctx_epoch_start_timestamp_ms ctx"
  by (auto simp: genesis_block_def Let_def verified_block_new_def signed_block_new_genesis_def
      vb_round_def vb_author_def vb_ancestors_def vb_timestamp_ms_def block_v1_genesis_def
      block_v2_genesis_def split: bind_splits)

lemma genesis_blocks_nth:
  assumes "genesis_blocks hash bcs ctx = Some bs" "i < length bs"
  shows "genesis_block hash bcs ctx i = Some (bs ! i)"
  using assms
  by (simp add: genesis_blocks_def map_opt_Some committee_indices_def nth_enumerate_eq)

text \<open>Genesis.  \<^verbatim>\<open>genesis_blocks\<close> returns exactly one round-0 block without ancestors per
  authority, in the order of the committee, all stamped with the epoch's start time.\<close>

theorem genesis_blocks_spec:
  assumes "genesis_blocks hash bcs ctx = Some bs"
  shows "length bs = committee_size (ctx_committee ctx) \<and>
         (\<forall>i < length bs. vb_reference (bs ! i) = BlockRef 0 i (vb_digest (bs ! i)) \<and>
            vb_ancestors (bs ! i) = [] \<and>
            vb_timestamp_ms (bs ! i) = ctx_epoch_start_timestamp_ms ctx)"
proof -
  have "length bs = committee_size (ctx_committee ctx)"
    using assms by (simp add: genesis_blocks_def map_opt_Some committee_indices_def committee_size_def)
  then show ?thesis
    using genesis_block_fields [OF genesis_blocks_nth [OF assms]] by (auto simp: vb_reference_def)
qed

subsection \<open>Concrete blocks and contexts for the witnesses\<close>

definition example_block ::
  "Round \<Rightarrow> AuthorityIndex \<Rightarrow> digest \<Rightarrow> BlockTimestampMs \<Rightarrow> block_ref list \<Rightarrow> verified_block" where
  "example_block r a d ts anc =
     \<lparr>vb_block = \<lparr>sb_inner = V1 \<lparr>b1_epoch = 0, b1_round = r, b1_author = a, b1_timestamp_ms = ts,
        b1_ancestors = anc, b1_transactions = [], b1_commit_votes = [],
        b1_misbehavior_reports = [], b1_epoch_change_proposal = None, b1_epoch_change_votes = []\<rparr>,
        sb_signature = []\<rparr>, vb_digest = d, vb_serialized = []\<rparr>"

lemma example_block_sel [simp]:
  "vb_round (example_block r a d ts anc) = r" "vb_author (example_block r a d ts anc) = a"
  "vb_digest (example_block r a d ts anc) = d" "vb_ancestors (example_block r a d ts anc) = anc"
  "vb_timestamp_ms (example_block r a d ts anc) = ts"
  "vb_commit_votes (example_block r a d ts anc) = []"
  "vb_reference (example_block r a d ts anc) = BlockRef r a d"
  by (simp_all add: example_block_def vb_round_def vb_author_def vb_ancestors_def
      vb_timestamp_ms_def vb_commit_votes_def vb_reference_def)

definition context4 :: consensus_context where
  "context4 = \<lparr>ctx_epoch_start_timestamp_ms = 1000, ctx_own_index = 0, ctx_committee = committee4,
     ctx_dag_state_cached_rounds = 10, ctx_gc_depth = 5, ctx_mysticeti_fastpath = False,
     ctx_mysticeti_num_leaders_per_round = Some 1,
     ctx_consensus_bad_nodes_stake_threshold = 25\<rparr>"

theorem genesis_blocks_spec_witness:
  "\<exists>bs. genesis_blocks (\<lambda>_. 7) (\<lambda>_. Some []) context4 = Some bs \<and>
        length bs = committee_size (ctx_committee context4) \<and>
        vb_reference (bs ! 2) = BlockRef 0 2 (vb_digest (bs ! 2))"
proof -
  obtain bs where bs: "genesis_blocks (\<lambda>_. 7) (\<lambda>_. Some []) context4 = Some bs"
    by (simp add: genesis_blocks_def committee_indices_def context4_def committee4_def
        genesis_block_def Let_def)
  have "committee_size (ctx_committee context4) = 4" by (simp add: context4_def)
  with genesis_blocks_spec [OF bs] bs show ?thesis by simp
qed

end
