(* ===== verification/Stake_Aggregator.thy ===== *)
theory Stake_Aggregator
  imports Committee
begin

section \<open>Stake aggregator\<close>

text \<open>
  \<^verbatim>\<open>meta-consensus/core/src/stake_aggregator.rs\<close>.  The trait \<^verbatim>\<open>CommitteeThreshold\<close> is the locale
  \<open>committee_threshold\<close>; \<^verbatim>\<open>StakeAggregator<T>\<close> takes the trait's \<^verbatim>\<open>is_threshold\<close> as an argument.
  The locale's lemmas say that the aggregator counts each authority once and reaches its
  threshold exactly when the stake of the set of voters does.  \<open>aggregate_until\<close> is the loop
  every client runs: add votes until the threshold is reached.
\<close>

record stake_aggregator =
  sa_votes :: "AuthorityIndex btree_set"
  sa_stake :: Stake

definition aggregator_new :: stake_aggregator where
  "aggregator_new = \<lparr>sa_votes = [], sa_stake = 0\<rparr>"

definition aggregator_add ::
  "(committee \<Rightarrow> Stake \<Rightarrow> bool) \<Rightarrow> stake_aggregator \<Rightarrow> AuthorityIndex \<Rightarrow> committee \<Rightarrow>
   (bool \<times> stake_aggregator) option" where
  "aggregator_add is_threshold agg vote c =
     (if vote \<notin> set (sa_votes agg) then do {
        s \<leftarrow> committee_stake c vote;
        let agg' = \<lparr>sa_votes = bts_insert vote (sa_votes agg), sa_stake = u64_add (sa_stake agg) s\<rparr>;
        Some (is_threshold c (sa_stake agg'), agg')
      } else Some (is_threshold c (sa_stake agg), agg))"

definition aggregator_add_unique ::
  "stake_aggregator \<Rightarrow> AuthorityIndex \<Rightarrow> committee \<Rightarrow> (bool \<times> stake_aggregator) option" where
  "aggregator_add_unique agg vote c =
     (if vote \<notin> set (sa_votes agg) then do {
        s \<leftarrow> committee_stake c vote;
        Some (True, \<lparr>sa_votes = bts_insert vote (sa_votes agg), sa_stake = u64_add (sa_stake agg) s\<rparr>)
      } else Some (False, agg))"

definition reached_threshold ::
  "(committee \<Rightarrow> Stake \<Rightarrow> bool) \<Rightarrow> stake_aggregator \<Rightarrow> committee \<Rightarrow> bool" where
  "reached_threshold is_threshold agg c = is_threshold c (sa_stake agg)"

definition aggregator_clear :: "stake_aggregator \<Rightarrow> stake_aggregator" where
  "aggregator_clear agg = agg\<lparr>sa_votes := [], sa_stake := 0\<rparr>"

subsection \<open>Invariant\<close>

definition agg_inv :: "committee \<Rightarrow> stake_aggregator \<Rightarrow> bool" where
  "agg_inv c agg \<longleftrightarrow>
     bts_wf (sa_votes agg) \<and> set (sa_votes agg) \<subseteq> {..<committee_size c} \<and>
     sa_stake agg = stake_of c (set (sa_votes agg))"

lemma agg_inv_new [simp]: "agg_inv c aggregator_new"
  by (simp add: agg_inv_def aggregator_new_def)

lemma agg_inv_clear [simp]: "agg_inv c (aggregator_clear agg)"
  by (simp add: agg_inv_def aggregator_clear_def)

lemma committee_stake_Some:
  "committee_stake c i = Some s \<longleftrightarrow> i < committee_size c \<and> s = au_stake (c_authorities c ! i)"
  by (auto simp: committee_stake_def committee_size_def)

lemma committee_stake_valid:
  "i < committee_size c \<Longrightarrow> committee_stake c i = Some (au_stake (c_authorities c ! i))"
  by (simp add: committee_stake_Some)

lemma agg_inv_step:
  assumes "committee_wf c" "agg_inv c agg" "vote < committee_size c" "vote \<notin> set (sa_votes agg)"
  shows "u64_add (sa_stake agg) (au_stake (c_authorities c ! vote))
           = stake_of c (insert vote (set (sa_votes agg)))"
proof -
  have "stake_of c (insert vote (set (sa_votes agg))) < 2 ^ 64"
    using assms(1) by (rule stake_of_bound)
  then show ?thesis
    using assms by (simp add: agg_inv_def stake_of_insert u64_add_eq)
qed

lemma aggregator_add_total:
  assumes "committee_wf c" "agg_inv c agg" "vote < committee_size c"
  shows "\<exists>agg'. aggregator_add thr agg vote c
            = Some (thr c (stake_of c (insert vote (set (sa_votes agg)))), agg') \<and>
          agg_inv c agg' \<and> set (sa_votes agg') = insert vote (set (sa_votes agg))"
proof (cases "vote \<in> set (sa_votes agg)")
  case True
  then show ?thesis
    using assms by (simp add: aggregator_add_def agg_inv_def insert_absorb)
next
  case False
  then show ?thesis
    using assms agg_inv_step [OF assms False]
    by (simp add: aggregator_add_def committee_stake_valid Let_def agg_inv_def btree_simps)
qed

lemma aggregator_add_Some:
  assumes "committee_wf c" "agg_inv c agg" "aggregator_add thr agg vote c = Some (b, agg')"
  shows "b = thr c (stake_of c (set (sa_votes agg'))) \<and> agg_inv c agg' \<and>
         set (sa_votes agg') = insert vote (set (sa_votes agg))"
proof -
  have "vote < committee_size c"
    using assms(2,3)
    by (auto simp: aggregator_add_def agg_inv_def committee_stake_Some Let_def
        split: if_splits option.splits bind_splits)
  from aggregator_add_total [OF assms(1,2) this, of thr] assms(3) show ?thesis by auto
qed

subsection \<open>The client's loop\<close>

fun aggregate_until ::
  "(committee \<Rightarrow> Stake \<Rightarrow> bool) \<Rightarrow> committee \<Rightarrow> stake_aggregator \<Rightarrow> AuthorityIndex list \<Rightarrow> bool option" where
  "aggregate_until thr c agg [] = Some False"
| "aggregate_until thr c agg (v # vs) =
     (case aggregator_add thr agg v c of
        None \<Rightarrow> None
      | Some (reached, agg') \<Rightarrow> if reached then Some True else aggregate_until thr c agg' vs)"

subsection \<open>The trait CommitteeThreshold\<close>

locale committee_threshold =
  fixes is_threshold :: "committee \<Rightarrow> Stake \<Rightarrow> bool"
    and threshold :: "committee \<Rightarrow> Stake"
  assumes is_threshold_iff: "is_threshold c s \<longleftrightarrow> threshold c \<le> s"
    and threshold_pos: "committee_wf c \<Longrightarrow> 0 < threshold c"
begin

lemma is_threshold_mono: "is_threshold c s \<Longrightarrow> s \<le> t \<Longrightarrow> is_threshold c t"
  by (simp add: is_threshold_iff)

lemma not_threshold_empty: "committee_wf c \<Longrightarrow> \<not> is_threshold c (stake_of c {})"
  by (auto simp: is_threshold_iff dest: threshold_pos)

lemma aggregate_until_total:
  assumes "committee_wf c" "agg_inv c agg" "set vs \<subseteq> {..<committee_size c}"
    and "\<not> is_threshold c (stake_of c (set (sa_votes agg)))"
  shows "aggregate_until is_threshold c agg vs
           = Some (is_threshold c (stake_of c (set (sa_votes agg) \<union> set vs)))"
  using assms
proof (induction vs arbitrary: agg)
  case (Cons v vs)
  from Cons.prems obtain agg' where add: "aggregator_add is_threshold agg v c
            = Some (is_threshold c (stake_of c (insert v (set (sa_votes agg)))), agg')"
      "agg_inv c agg'" "set (sa_votes agg') = insert v (set (sa_votes agg))"
    using aggregator_add_total [of c agg v is_threshold] by auto
  show ?case
  proof (cases "is_threshold c (stake_of c (insert v (set (sa_votes agg))))")
    case True
    then have "is_threshold c (stake_of c (set (sa_votes agg) \<union> set (v # vs)))"
      by (rule is_threshold_mono) (rule stake_of_mono, auto)
    with True add show ?thesis by simp
  next
    case False
    with Cons.IH [of agg'] Cons.prems add show ?thesis by (simp add: insert_commute)
  qed
qed simp

end

definition quorum_threshold :: "committee \<Rightarrow> Stake" where
  "quorum_threshold c = c_quorum_threshold c"

definition validity_threshold :: "committee \<Rightarrow> Stake" where
  "validity_threshold c = c_validity_threshold c"

interpretation quorum: committee_threshold reached_quorum quorum_threshold
  by unfold_locales
    (auto simp: reached_quorum_def quorum_threshold_def committee_wf_def fault_tolerance_def)

interpretation validity: committee_threshold reached_validity validity_threshold
  by unfold_locales (auto simp: reached_validity_def validity_threshold_def committee_wf_def)

text \<open>C31: adding votes of valid authorities to a fresh quorum aggregator until it reports the
  threshold returns true exactly when the stake of the set of voters, each counted once, reaches
  the quorum threshold; it never panics and never wraps around.\<close>

theorem aggregator_quorum_exact:
  assumes "committee_wf c" "set votes \<subseteq> {..<committee_size c}"
  shows "aggregate_until reached_quorum c aggregator_new votes
           = Some (c_quorum_threshold c \<le> stake_of c (set votes))"
  using quorum.aggregate_until_total [OF assms(1) agg_inv_new assms(2)]
    quorum.not_threshold_empty [OF assms(1)]
  by (simp add: aggregator_new_def reached_quorum_def)

theorem aggregator_quorum_exact_witness:
  "aggregate_until reached_quorum committee4 aggregator_new [0, 1, 1, 2]
     = Some (c_quorum_threshold committee4 \<le> stake_of committee4 (set [0, 1, 1, 2]))"
  by (rule aggregator_quorum_exact [OF committee4_wf]) simp

end
