(* ===== verification/Threshold_Clock.thy ===== *)
theory Threshold_Clock
  imports Block Stake_Aggregator
begin

section \<open>Threshold clock\<close>

text \<open>
  \<^verbatim>\<open>core/src/threshold_clock.rs\<close>: the round of the next block this authority may propose.  The
  clock moves to round r+1 when a quorum of round-r blocks has been accepted, and jumps to round
  r when a block of a later round r arrives (whose ancestors contain a quorum of round r-1).
  \<open>now\<close> stands for the reading of \<^verbatim>\<open>Instant::now()\<close>; the delay metric is left out.
\<close>

record threshold_clock =
  tc_committee :: committee
  tc_aggregator :: stake_aggregator
  tc_round :: Round
  tc_quorum_ts :: nat

definition threshold_clock_new :: "Round \<Rightarrow> committee \<Rightarrow> nat \<Rightarrow> threshold_clock" where
  "threshold_clock_new round c now =
     \<lparr>tc_committee = c, tc_aggregator = aggregator_new, tc_round = round, tc_quorum_ts = now\<rparr>"

definition threshold_clock_add_block ::
  "threshold_clock \<Rightarrow> block_ref \<Rightarrow> nat \<Rightarrow> (bool \<times> threshold_clock) option" where
  "threshold_clock_add_block tc b now =
     (if br_round b < tc_round tc then Some (False, tc)
      else if br_round b = tc_round tc then do {
        (reached, agg) \<leftarrow> aggregator_add reached_quorum (tc_aggregator tc) (br_author b) (tc_committee tc);
        if reached then
          Some (True, tc\<lparr>tc_aggregator := aggregator_clear agg,
                         tc_round := u32_add (br_round b) 1, tc_quorum_ts := now\<rparr>)
        else Some (False, tc\<lparr>tc_aggregator := agg\<rparr>)
      }
      else do {
        (reached, agg) \<leftarrow> aggregator_add reached_quorum (aggregator_clear (tc_aggregator tc))
                            (br_author b) (tc_committee tc);
        Some (True, tc\<lparr>tc_aggregator := agg,
                       tc_round := (if reached then u32_add (br_round b) 1 else br_round b),
                       tc_quorum_ts := now\<rparr>)
      })"

text \<open>The blocks are accepted one after the other, with the clock readings \<open>now\<close>.\<close>

fun threshold_clock_run ::
  "threshold_clock \<Rightarrow> (block_ref \<times> nat) list \<Rightarrow> threshold_clock option" where
  "threshold_clock_run tc [] = Some tc"
| "threshold_clock_run tc ((b, now) # bs) =
     (case threshold_clock_add_block tc b now of
        None \<Rightarrow> None | Some (_, tc') \<Rightarrow> threshold_clock_run tc' bs)"

subsection \<open>Invariant\<close>

definition tc_inv :: "threshold_clock \<Rightarrow> bool" where
  "tc_inv tc \<longleftrightarrow> committee_wf (tc_committee tc) \<and> agg_inv (tc_committee tc) (tc_aggregator tc)"

definition valid_ref :: "committee \<Rightarrow> block_ref \<Rightarrow> bool" where
  "valid_ref c b \<longleftrightarrow> br_author b < committee_size c \<and> br_round b < 2 ^ 32 - 1"

text \<open>The authors of the blocks of round \<open>r\<close> in a sequence of references.\<close>

definition authors_at :: "Round \<Rightarrow> block_ref list \<Rightarrow> AuthorityIndex set" where
  "authors_at r bs = br_author ` {b \<in> set bs. br_round b = r}"

lemma tc_inv_new: "committee_wf c \<Longrightarrow> tc_inv (threshold_clock_new r c now)"
  by (simp add: tc_inv_def threshold_clock_new_def)

text \<open>One step, with the aggregator's contract used in place of its code.\<close>

lemma add_block_step:
  assumes "tc_inv tc" "valid_ref (tc_committee tc) b"
  shows "\<exists>adv tc'. threshold_clock_add_block tc b now = Some (adv, tc') \<and> tc_inv tc' \<and>
     tc_committee tc' = tc_committee tc \<and> (adv \<longleftrightarrow> tc_round tc < tc_round tc') \<and>
     tc_round tc \<le> tc_round tc' \<and>
     (br_round b < tc_round tc \<longrightarrow> tc' = tc) \<and>
     (tc_round tc \<le> br_round b \<longrightarrow>
       (let A = insert (br_author b)
                  (if br_round b = tc_round tc then set (sa_votes (tc_aggregator tc)) else {}) in
        if reached_quorum (tc_committee tc) (stake_of (tc_committee tc) A)
        then tc_round tc' = br_round b + 1 \<and>
             (br_round b = tc_round tc \<longrightarrow> set (sa_votes (tc_aggregator tc')) = {})
        else tc_round tc' = br_round b \<and> set (sa_votes (tc_aggregator tc')) = A))"
proof (cases "br_round b < tc_round tc")
  case True
  then show ?thesis using assms by (auto simp: threshold_clock_add_block_def)
next
  case False
  let ?c = "tc_committee tc"
  let ?agg = "if br_round b = tc_round tc then tc_aggregator tc else aggregator_clear (tc_aggregator tc)"
  have wf: "committee_wf ?c" "agg_inv ?c ?agg" and a: "br_author b < committee_size ?c"
    and r: "u32_add (br_round b) 1 = br_round b + 1"
    using assms by (auto simp: tc_inv_def valid_ref_def u32_add_eq)
  obtain agg' where agg': "aggregator_add reached_quorum ?agg (br_author b) ?c
      = Some (reached_quorum ?c (stake_of ?c (insert (br_author b) (set (sa_votes ?agg)))), agg')"
      "agg_inv ?c agg'" "set (sa_votes agg') = insert (br_author b) (set (sa_votes ?agg))"
    using aggregator_add_total [OF wf a, of reached_quorum] by blast
  show ?thesis
  proof (cases "br_round b = tc_round tc")
    case True
    then show ?thesis using agg' r wf(1)
      by (auto simp: threshold_clock_add_block_def tc_inv_def Let_def aggregator_clear_def agg_inv_def)
  next
    case neq: False
    have "set (sa_votes (aggregator_clear (tc_aggregator tc))) = {}"
      by (simp add: aggregator_clear_def)
    then show ?thesis using agg' r wf(1) neq \<open>\<not> br_round b < tc_round tc\<close>
      by (auto simp: threshold_clock_add_block_def tc_inv_def Let_def)
  qed
qed

subsection \<open>What the clock's round means\<close>

text \<open>The history invariant: the clock has seen the references \<open>bs\<close> since it started at \<open>start\<close>.\<close>

definition tc_hist :: "Round \<Rightarrow> threshold_clock \<Rightarrow> block_ref list \<Rightarrow> bool" where
  "tc_hist start tc bs \<longleftrightarrow>
     tc_inv tc \<and> start \<le> tc_round tc \<and> (\<forall>b \<in> set bs. br_round b \<le> tc_round tc) \<and>
     set (sa_votes (tc_aggregator tc)) = authors_at (tc_round tc) bs \<and>
     \<not> reached_quorum (tc_committee tc) (stake_of (tc_committee tc) (authors_at (tc_round tc) bs)) \<and>
     (tc_round tc = start \<or> (\<exists>b \<in> set bs. br_round b = tc_round tc) \<or>
      (0 < tc_round tc \<and>
       reached_quorum (tc_committee tc) (stake_of (tc_committee tc) (authors_at (tc_round tc - 1) bs))))"

definition no_single_quorum :: "committee \<Rightarrow> bool" where
  "no_single_quorum c \<longleftrightarrow> (\<forall>i < committee_size c. \<not> reached_quorum c (stake_of c {i}))"

lemma authors_at_snoc:
  "authors_at r (bs @ [b]) = (if br_round b = r then insert (br_author b) (authors_at r bs) else authors_at r bs)"
  by (auto simp: authors_at_def)

lemma authors_at_above: "(\<And>b. b \<in> set bs \<Longrightarrow> br_round b < r) \<Longrightarrow> authors_at r bs = {}"
  by (fastforce simp: authors_at_def)

lemma tc_hist_step:
  assumes hist: "tc_hist start tc bs" and b: "valid_ref (tc_committee tc) b"
    and single: "no_single_quorum (tc_committee tc)"
  shows "\<exists>adv tc'. threshold_clock_add_block tc b now = Some (adv, tc') \<and>
           tc_committee tc' = tc_committee tc \<and> tc_hist start tc' (bs @ [b])"
proof -
  let ?c = "tc_committee tc"
  let ?A = "insert (br_author b) (if br_round b = tc_round tc then set (sa_votes (tc_aggregator tc)) else {})"
  have wf: "committee_wf ?c" and inv: "tc_inv tc" using hist by (auto simp: tc_hist_def tc_inv_def)
  have le: "\<And>x. x \<in> set bs \<Longrightarrow> br_round x \<le> tc_round tc" using hist by (simp add: tc_hist_def)
  obtain adv tc' where step: "threshold_clock_add_block tc b now = Some (adv, tc')" "tc_inv tc'"
      "tc_committee tc' = ?c" "tc_round tc \<le> tc_round tc'"
    and less: "br_round b < tc_round tc \<longrightarrow> tc' = tc"
    and ge: "tc_round tc \<le> br_round b \<longrightarrow>
        (if reached_quorum ?c (stake_of ?c ?A)
         then tc_round tc' = br_round b + 1 \<and>
              (br_round b = tc_round tc \<longrightarrow> set (sa_votes (tc_aggregator tc')) = {})
         else tc_round tc' = br_round b \<and> set (sa_votes (tc_aggregator tc')) = ?A)"
    using add_block_step [OF inv b, of now] unfolding Let_def by blast
  have "tc_hist start tc' (bs @ [b])"
  proof (cases "br_round b < tc_round tc")
    case True
    have "authors_at r bs \<subseteq> authors_at r (bs @ [b])" for r by (auto simp: authors_at_def)
    then have "reached_quorum ?c (stake_of ?c (authors_at r bs)) \<Longrightarrow>
        reached_quorum ?c (stake_of ?c (authors_at r (bs @ [b])))" for r
      by (meson quorum.is_threshold_mono stake_of_mono)
    moreover have "authors_at (tc_round tc) (bs @ [b]) = authors_at (tc_round tc) bs"
      using True by (simp add: authors_at_snoc)
    ultimately show ?thesis using hist less True by (auto simp: tc_hist_def)
  next
    case False
    have A: "?A = authors_at (br_round b) (bs @ [b])"
    proof (cases "br_round b = tc_round tc")
      case True
      then show ?thesis using hist by (simp add: authors_at_snoc tc_hist_def)
    next
      case neq: False
      then have "authors_at (br_round b) bs = {}"
        using le False by (intro authors_at_above) fastforce
      then show ?thesis using neq by (simp add: authors_at_snoc)
    qed
    show ?thesis
    proof (cases "reached_quorum ?c (stake_of ?c ?A)")
      case True
      then have "br_round b = tc_round tc"
        using single b by (cases "br_round b = tc_round tc")
          (simp_all add: no_single_quorum_def valid_ref_def)
      moreover have "authors_at (br_round b + 1) (bs @ [b]) = {}"
        using le calculation by (intro authors_at_above) fastforce
      ultimately show ?thesis
        using ge True A step hist le quorum.not_threshold_empty [OF wf]
        by (fastforce simp: tc_hist_def)
    next
      case nq: False
      then show ?thesis
        using ge False A step hist le by (fastforce simp: tc_hist_def)
    qed
  qed
  with step show ?thesis by blast
qed

lemma threshold_clock_run_hist:
  assumes "tc_hist start tc pre" "no_single_quorum (tc_committee tc)"
    and "\<And>b. b \<in> fst ` set bs \<Longrightarrow> valid_ref (tc_committee tc) b"
  shows "\<exists>tc'. threshold_clock_run tc bs = Some tc' \<and> tc_committee tc' = tc_committee tc \<and>
           tc_hist start tc' (pre @ map fst bs)"
  using assms
proof (induction bs arbitrary: tc pre)
  case (Cons p bs)
  obtain b now where p: "p = (b, now)" by (cases p)
  obtain adv tc1 where tc1: "threshold_clock_add_block tc b now = Some (adv, tc1)"
      "tc_committee tc1 = tc_committee tc" "tc_hist start tc1 (pre @ [b])"
    using tc_hist_step [OF Cons.prems(1) _ Cons.prems(2)] Cons.prems(3) p by fastforce
  then show ?case using Cons.IH [OF tc1(3)] Cons.prems(2,3) p by simp
qed simp

text \<open>C32: the threshold clock.  Started at round start and fed any sequence of valid block references,
  the clock never panics and ends at a round R that is at least start and the round of every block
  seen; no quorum of round-R blocks has been seen; and R is justified: it is start, or a block of
  round R was seen, or a quorum of blocks of round R-1 was.  This holds for committees in which
  no authority alone is a quorum.\<close>

theorem threshold_clock_correct:
  assumes "committee_wf c" "no_single_quorum c" "\<And>b. b \<in> fst ` set bs \<Longrightarrow> valid_ref c b"
  shows "\<exists>tc. threshold_clock_run (threshold_clock_new start c now) bs = Some tc \<and>
    start \<le> tc_round tc \<and> (\<forall>b \<in> fst ` set bs. br_round b \<le> tc_round tc) \<and>
    \<not> reached_quorum c (stake_of c (authors_at (tc_round tc) (map fst bs))) \<and>
    (tc_round tc = start \<or> (\<exists>b \<in> fst ` set bs. br_round b = tc_round tc) \<or>
     (0 < tc_round tc \<and> reached_quorum c (stake_of c (authors_at (tc_round tc - 1) (map fst bs)))))"
proof -
  have "tc_hist start (threshold_clock_new start c now) []"
    using assms(1) quorum.not_threshold_empty [OF assms(1)]
    by (simp add: tc_hist_def tc_inv_new authors_at_def)
      (simp add: threshold_clock_new_def aggregator_new_def)
  from threshold_clock_run_hist [OF this, of bs] show ?thesis
    using assms(2,3) by (auto simp: threshold_clock_new_def tc_hist_def)
qed

lemma no_single_quorum_committee4: "no_single_quorum committee4"
proof -
  have "{i} \<inter> {..<4} = {i}" if "i < 4" for i :: nat using that by auto
  then show ?thesis
    by (simp add: no_single_quorum_def reached_quorum_def stake_of_committee4)
      (simp add: committee4_def)
qed

theorem threshold_clock_correct_witness:
  "\<exists>tc. threshold_clock_run (threshold_clock_new 1 committee4 0)
          [(BlockRef 1 0 5, 1), (BlockRef 1 1 6, 2), (BlockRef 1 2 7, 3)] = Some tc \<and> 1 \<le> tc_round tc"
proof -
  have "valid_ref committee4 b"
    if "b \<in> fst ` set [(BlockRef 1 0 5, 1 :: nat), (BlockRef 1 1 6, 2), (BlockRef 1 2 7, 3)]" for b
    using that by (auto simp: valid_ref_def)
  from threshold_clock_correct [OF committee4_wf no_single_quorum_committee4 this, where start = 1 and now = 0]
  show ?thesis by blast
qed

definition committee_lopsided :: committee where
  "committee_lopsided = \<lparr>c_epoch = 0, c_total_stake = 11, c_quorum_threshold = 8,
     c_validity_threshold = 4, c_authorities = map example_authority [10, 1]\<rparr>"

text \<open>The assumption of the previous property is needed.  When one authority holds a quorum by
  itself, the catch-up branch of \<^verbatim>\<open>add_block\<close> moves the clock past the block's round without
  clearing the aggregator, so the stale vote is counted for the next round: with stakes 10 and 1,
  after a block of round 20 by authority 0, one block of round 21 by authority 1 (stake 1 of 11)
  already moves the clock to round 22.\<close>

theorem threshold_clock_stale_vote:
  "committee_new 0 (map example_authority [10, 1]) = Some committee_lopsided \<and>
   map_option tc_round (threshold_clock_run (threshold_clock_new 1 committee_lopsided 0)
     [(BlockRef 20 0 5, 1), (BlockRef 21 1 6, 2)]) = Some 22 \<and>
   \<not> reached_quorum committee_lopsided (stake_of committee_lopsided {1})"
proof -
  have "{Suc 0} \<inter> {..<2} = {1 :: nat}" by auto
  then show ?thesis
    by (simp add: committee_new_def committee_lopsided_def example_authority_def Let_def u64_sum_def
        u64_add_def u64_sub_def u64_mul_def threshold_clock_new_def threshold_clock_add_block_def
        aggregator_add_def aggregator_new_def aggregator_clear_def committee_stake_def vec_get_def
        reached_quorum_def u32_add_def stake_of_def committee_size_def bts_insert_def
        insort_insert_key_def)
qed

end
