(* ===== verification/Commits.thy ===== *)
theory Commits
  imports Block
begin

section \<open>Commits, commit ranges and leader decisions\<close>

text \<open>
  \<^verbatim>\<open>core/src/commit.rs\<close>: the persisted \<^verbatim>\<open>Commit\<close>, the trusted commit with its cached digest, the
  committed sub-DAG handed to execution, commit ranges, and the leader statuses the committers
  produce.  \<open>hash\<close> is the third-party digest of the serialised commit.
\<close>

abbreviation (input) GENESIS_COMMIT_INDEX :: CommitIndex where "GENESIS_COMMIT_INDEX \<equiv> 0"
abbreviation (input) MINIMUM_WAVE_LENGTH :: Round where "MINIMUM_WAVE_LENGTH \<equiv> 3"
abbreviation (input) DEFAULT_WAVE_LENGTH :: Round where "DEFAULT_WAVE_LENGTH \<equiv> 3"

record commit =
  cm_index :: CommitIndex
  cm_previous_digest :: digest
  cm_timestamp_ms :: BlockTimestampMs
  cm_leader :: block_ref
  cm_blocks :: "block_ref list"
  cm_global_exec_index :: nat

definition commit_new ::
  "CommitIndex \<Rightarrow> digest \<Rightarrow> BlockTimestampMs \<Rightarrow> block_ref \<Rightarrow> block_ref list \<Rightarrow> nat \<Rightarrow> commit" where
  "commit_new index previous_digest timestamp_ms leader blocks global_exec_index =
     \<lparr>cm_index = index, cm_previous_digest = previous_digest, cm_timestamp_ms = timestamp_ms,
      cm_leader = leader, cm_blocks = blocks, cm_global_exec_index = global_exec_index\<rparr>"

definition commit_round :: "commit \<Rightarrow> Round" where
  "commit_round c = br_round (cm_leader c)"

record trusted_commit =
  tcm_inner :: commit
  tcm_digest :: digest
  tcm_serialized :: bytes

definition trusted_commit_new :: "(bytes \<Rightarrow> digest) \<Rightarrow> commit \<Rightarrow> bytes \<Rightarrow> trusted_commit" where
  "trusted_commit_new hash c serialized =
     \<lparr>tcm_inner = c, tcm_digest = hash serialized, tcm_serialized = serialized\<rparr>"

abbreviation tcm_index :: "trusted_commit \<Rightarrow> CommitIndex" where
  "tcm_index c \<equiv> cm_index (tcm_inner c)"

abbreviation tcm_timestamp_ms :: "trusted_commit \<Rightarrow> BlockTimestampMs" where
  "tcm_timestamp_ms c \<equiv> cm_timestamp_ms (tcm_inner c)"

abbreviation tcm_leader :: "trusted_commit \<Rightarrow> block_ref" where
  "tcm_leader c \<equiv> cm_leader (tcm_inner c)"

abbreviation tcm_blocks :: "trusted_commit \<Rightarrow> block_ref list" where
  "tcm_blocks c \<equiv> cm_blocks (tcm_inner c)"

definition trusted_commit_reference :: "trusted_commit \<Rightarrow> commit_ref" where
  "trusted_commit_reference c =
     CommitRef (tcm_index c) (tcm_digest c) (cm_global_exec_index (tcm_inner c)) 0"

record certified_commit =
  cc_commit :: trusted_commit
  cc_blocks :: "verified_block list"

record committed_sub_dag =
  csd_leader :: block_ref
  csd_blocks :: "verified_block list"
  csd_timestamp_ms :: BlockTimestampMs
  csd_commit_ref :: commit_ref
  csd_global_exec_index :: nat
  csd_decided_with_local_blocks :: bool
  csd_recovered_rejected_transactions :: bool
  csd_reputation_scores_desc :: "(AuthorityIndex \<times> nat) list"
  csd_rejected_transactions_by_block :: "(block_ref, TransactionIndex list) btree_map"

definition committed_sub_dag_new ::
  "block_ref \<Rightarrow> verified_block list \<Rightarrow> BlockTimestampMs \<Rightarrow> commit_ref \<Rightarrow> nat \<Rightarrow> committed_sub_dag" where
  "committed_sub_dag_new leader blocks timestamp_ms cref global_exec_index =
     \<lparr>csd_leader = leader, csd_blocks = blocks, csd_timestamp_ms = timestamp_ms,
      csd_commit_ref = cref, csd_global_exec_index = global_exec_index,
      csd_decided_with_local_blocks = True, csd_recovered_rejected_transactions = False,
      csd_reputation_scores_desc = [], csd_rejected_transactions_by_block = []\<rparr>"

text \<open>A stable sort by round, then author.\<close>

definition sort_sub_dag_blocks :: "verified_block list \<Rightarrow> verified_block list" where
  "sort_sub_dag_blocks blocks = sort_key (\<lambda>b. (vb_round b, vb_author b)) blocks"

lemma set_sort_sub_dag_blocks [simp]: "set (sort_sub_dag_blocks bs) = set bs"
  by (simp add: sort_sub_dag_blocks_def)

lemma distinct_map_sort_key: "distinct (map f (sort_key k xs)) = distinct (map f xs)"
  by (simp add: distinct_map)

lemma distinct_refs_sort [simp]:
  "distinct (map vb_reference (sort_sub_dag_blocks bs)) = distinct (map vb_reference bs)"
  by (simp add: sort_sub_dag_blocks_def distinct_map_sort_key)

lemma sorted_sort_sub_dag_blocks:
  "sorted (map (\<lambda>b. (vb_round b, vb_author b)) (sort_sub_dag_blocks bs))"
  by (simp add: sort_sub_dag_blocks_def)

subsection \<open>Commit ranges\<close>

datatype commit_range = CommitRange (range_first: CommitIndex) (range_next: CommitIndex)

definition commit_range_default :: commit_range where
  "commit_range_default = CommitRange 0 0"

definition commit_range_new :: "CommitIndex \<Rightarrow> CommitIndex \<Rightarrow> commit_range" where
  "commit_range_new i j = CommitRange i (u32_sat_add j 1)"

definition commit_range_start :: "commit_range \<Rightarrow> CommitIndex" where
  "commit_range_start r = range_first r"

definition commit_range_end :: "commit_range \<Rightarrow> CommitIndex" where
  "commit_range_end r = range_next r - 1"

definition commit_range_extend_to :: "commit_range \<Rightarrow> CommitIndex \<Rightarrow> commit_range option" where
  "commit_range_extend_to r other =
     (let new_end = u32_sat_add other 1
      in if range_next r \<le> new_end then Some (CommitRange (range_first r) new_end) else None)"

definition commit_range_size :: "commit_range \<Rightarrow> nat option" where
  "commit_range_size r =
     (if range_first r \<le> range_next r then Some (range_next r - range_first r) else None)"

definition commit_range_is_equal_size :: "commit_range \<Rightarrow> commit_range \<Rightarrow> bool option" where
  "commit_range_is_equal_size r s = do {
     m \<leftarrow> commit_range_size r; n \<leftarrow> commit_range_size s; Some (m = n) }"

definition commit_range_is_next_range :: "commit_range \<Rightarrow> commit_range \<Rightarrow> bool" where
  "commit_range_is_next_range r s \<longleftrightarrow> range_next r = range_first s"

text \<open>The indices a range stands for.\<close>

definition commit_range_indices :: "commit_range \<Rightarrow> CommitIndex set" where
  "commit_range_indices r = {range_first r ..< range_next r}"

text \<open>A commit range built from the inclusive bounds i..=j has exactly the indices i to j, its
  accessors return i and j and its size is their number; extending it to k adds exactly the
  indices up to k; the maximal index saturates (the range then ends before u32::MAX).\<close>

theorem commit_range_spec:
  assumes "i \<le> j" "j < 2 ^ 32 - 1" "j \<le> k" "k < 2 ^ 32 - 1"
  shows "commit_range_indices (commit_range_new i j) = {i..j} \<and>
         commit_range_start (commit_range_new i j) = i \<and>
         commit_range_end (commit_range_new i j) = j \<and>
         commit_range_size (commit_range_new i j) = Some (j - i + 1) \<and>
         commit_range_extend_to (commit_range_new i j) k = Some (commit_range_new i k) \<and>
         commit_range_is_next_range (commit_range_new i j) (commit_range_new (j + 1) k) \<and>
         commit_range_end (commit_range_new i (2 ^ 32 - 1)) = 2 ^ 32 - 2"
  using assms
  by (auto simp: commit_range_indices_def commit_range_new_def commit_range_start_def
      commit_range_end_def commit_range_size_def commit_range_extend_to_def
      commit_range_is_next_range_def u32_sat_add_def Let_def min_def)

theorem commit_range_spec_witness:
  "commit_range_indices (commit_range_new 3 5) = {3..5} \<and>
   commit_range_extend_to (commit_range_new 3 5) 8 = Some (commit_range_new 3 8)"
  using commit_range_spec [of 3 5 8] by simp

subsection \<open>Leader decisions\<close>

datatype decision = Direct | Indirect | Certified

datatype leader_status = Commit verified_block | Skip slot | Undecided slot

fun leader_status_round :: "leader_status \<Rightarrow> Round" where
  "leader_status_round (Commit b) = vb_round b"
| "leader_status_round (Skip s) = slot_round s"
| "leader_status_round (Undecided s) = slot_round s"

fun is_decided :: "leader_status \<Rightarrow> bool" where
  "is_decided (Commit _) = True"
| "is_decided (Skip _) = True"
| "is_decided (Undecided _) = False"

datatype decided_leader = DecidedCommit verified_block bool | DecidedSkip slot

fun into_decided_leader :: "leader_status \<Rightarrow> bool \<Rightarrow> decided_leader option" where
  "into_decided_leader (Commit b) direct = Some (DecidedCommit b direct)"
| "into_decided_leader (Skip s) direct = Some (DecidedSkip s)"
| "into_decided_leader (Undecided _) direct = None"

fun decided_slot :: "decided_leader \<Rightarrow> slot" where
  "decided_slot (DecidedCommit b _) = slot_of (vb_reference b)"
| "decided_slot (DecidedSkip s) = s"

fun into_committed_block :: "decided_leader \<Rightarrow> verified_block option" where
  "into_committed_block (DecidedCommit b _) = Some b"
| "into_committed_block (DecidedSkip _) = None"

lemma into_decided_leader_None: "into_decided_leader s d = None \<longleftrightarrow> \<not> is_decided s"
  by (cases s) simp_all

end
