(* ===== verification/Leader_Scoring.thy ===== *)
theory Leader_Scoring
  imports Commits Stake_Aggregator
begin

section \<open>Leader scoring\<close>

text \<open>
  \<^verbatim>\<open>core/src/leader_scoring.rs\<close>: the votes for committed leaders found in committed sub-DAGs, each
  with the stake of the blocks that strongly link to it, and the reputation scores computed from
  them.  The \<^verbatim>\<open>HashSet\<close> of leaders is a set.
\<close>

record reputation_scores =
  rs_scores_per_authority :: "nat list"
  rs_commit_range :: commit_range

definition reputation_scores_default :: reputation_scores where
  "reputation_scores_default =
     \<lparr>rs_scores_per_authority = [], rs_commit_range = commit_range_default\<rparr>"

definition highest_score :: "reputation_scores \<Rightarrow> nat" where
  "highest_score rs = fold max (rs_scores_per_authority rs) 0"

definition authorities_by_score ::
  "reputation_scores \<Rightarrow> committee \<Rightarrow> (AuthorityIndex \<times> nat) list option" where
  "authorities_by_score rs c =
     map_opt (\<lambda>(index, score). map_option (\<lambda>a. (a, score)) (to_authority_index c index))
       (enumerate 0 (rs_scores_per_authority rs))"

record scoring_subdag =
  ss_context :: consensus_context
  ss_commit_range :: "commit_range option"
  ss_leaders :: "block_ref set"
  ss_votes :: "(block_ref, stake_aggregator) btree_map"

definition scoring_subdag_new :: "consensus_context \<Rightarrow> scoring_subdag" where
  "scoring_subdag_new ctx =
     \<lparr>ss_context = ctx, ss_commit_range = None, ss_leaders = {}, ss_votes = []\<rparr>"

definition scoring_add_ancestor ::
  "verified_block \<Rightarrow> block_ref \<Rightarrow> scoring_subdag \<Rightarrow> scoring_subdag option" where
  "scoring_add_ancestor b ancestor ss =
     (if br_round ancestor \<noteq> vb_round b - 1 then Some ss
      else do {
        ss \<leftarrow> (if ancestor \<in> ss_leaders ss then
                 if btm_get (ss_votes ss) (vb_reference b) = None
                 then Some (ss\<lparr>ss_votes := btm_insert (vb_reference b) aggregator_new (ss_votes ss)\<rparr>)
                 else None
               else Some ss);
        (case btm_get (ss_votes ss) ancestor of
           None \<Rightarrow> Some ss
         | Some agg \<Rightarrow> do {
             (_, agg') \<leftarrow> aggregator_add reached_quorum agg (vb_author b) (ctx_committee (ss_context ss));
             Some (ss\<lparr>ss_votes := btm_insert ancestor agg' (ss_votes ss)\<rparr>)
           })
      })"

definition scoring_add_subdag :: "committed_sub_dag \<Rightarrow> scoring_subdag \<Rightarrow> scoring_subdag option" where
  "scoring_add_subdag subdag ss = do {
     range \<leftarrow> (case ss_commit_range ss of
        None \<Rightarrow> Some (commit_range_new (cr_index (csd_commit_ref subdag)) (cr_index (csd_commit_ref subdag)))
      | Some r \<Rightarrow> commit_range_extend_to r (cr_index (csd_commit_ref subdag)));
     let ss = ss\<lparr>ss_commit_range := Some range, ss_leaders := insert (csd_leader subdag) (ss_leaders ss)\<rparr>;
     fold_opt (\<lambda>b. fold_opt (scoring_add_ancestor b) (vb_ancestors b)) (csd_blocks subdag) ss
   }"

definition scoring_add_subdags ::
  "committed_sub_dag list \<Rightarrow> scoring_subdag \<Rightarrow> scoring_subdag option" where
  "scoring_add_subdags subdags ss = fold_opt scoring_add_subdag subdags ss"

definition distributed_votes_scores :: "scoring_subdag \<Rightarrow> nat list option" where
  "distributed_votes_scores ss =
     fold_opt (\<lambda>(vote, agg) scores. do {
         s \<leftarrow> vec_get scores (br_author vote);
         vec_set scores (br_author vote) (u64_add s (sa_stake agg)) })
       (ss_votes ss) (replicate (committee_size (ctx_committee (ss_context ss))) 0)"

definition calculate_distributed_vote_scores :: "scoring_subdag \<Rightarrow> reputation_scores option" where
  "calculate_distributed_vote_scores ss = do {
     scores \<leftarrow> distributed_votes_scores ss;
     range \<leftarrow> ss_commit_range ss;
     Some \<lparr>rs_scores_per_authority = scores, rs_commit_range = range\<rparr> }"

definition scored_subdags_count :: "scoring_subdag \<Rightarrow> nat option" where
  "scored_subdags_count ss =
     (case ss_commit_range ss of Some r \<Rightarrow> commit_range_size r | None \<Rightarrow> Some 0)"

definition scoring_is_empty :: "scoring_subdag \<Rightarrow> bool" where
  "scoring_is_empty ss \<longleftrightarrow> ss_leaders ss = {} \<and> ss_votes ss = [] \<and> ss_commit_range ss = None"

definition scoring_clear :: "scoring_subdag \<Rightarrow> scoring_subdag" where
  "scoring_clear ss = ss\<lparr>ss_leaders := {}, ss_votes := [], ss_commit_range := None\<rparr>"

subsection \<open>Invariant\<close>

text \<open>Every recorded vote is by a member of the committee and its aggregator is sound.\<close>

definition scoring_inv :: "scoring_subdag \<Rightarrow> bool" where
  "scoring_inv ss \<longleftrightarrow>
     committee_wf (ctx_committee (ss_context ss)) \<and> btm_wf (ss_votes ss) \<and>
     (\<forall>r agg. btm_get (ss_votes ss) r = Some agg \<longrightarrow>
        br_author r < committee_size (ctx_committee (ss_context ss)) \<and>
        agg_inv (ctx_committee (ss_context ss)) agg)"

definition authors_valid :: "committee \<Rightarrow> verified_block list \<Rightarrow> bool" where
  "authors_valid c bs \<longleftrightarrow> (\<forall>b \<in> set bs. vb_author b < committee_size c)"

lemma scoring_inv_new: "committee_wf (ctx_committee ctx) \<Longrightarrow> scoring_inv (scoring_subdag_new ctx)"
  by (simp add: scoring_inv_def scoring_subdag_new_def)

lemma scoring_inv_clear: "scoring_inv ss \<Longrightarrow> scoring_inv (scoring_clear ss)"
  by (simp add: scoring_inv_def scoring_clear_def)

lemma scoring_inv_insert:
  "scoring_inv ss \<Longrightarrow> br_author r < committee_size (ctx_committee (ss_context ss)) \<Longrightarrow>
   agg_inv (ctx_committee (ss_context ss)) agg \<Longrightarrow>
   scoring_inv (ss\<lparr>ss_votes := btm_insert r agg (ss_votes ss)\<rparr>)"
  by (auto simp: scoring_inv_def btree_simps split: if_splits)

lemma scoring_add_ancestor_inv:
  assumes "scoring_inv ss" "vb_author b < committee_size (ctx_committee (ss_context ss))"
    and "scoring_add_ancestor b r ss = Some ss'"
  shows "scoring_inv ss' \<and> ss_context ss' = ss_context ss"
proof (cases "br_round r = vb_round b - 1")
  case True
  let ?c = "ctx_committee (ss_context ss)"
  define mid where "mid = (if r \<in> ss_leaders ss
    then ss\<lparr>ss_votes := btm_insert (vb_reference b) aggregator_new (ss_votes ss)\<rparr> else ss)"
  have mid: "scoring_inv mid" "ss_context mid = ss_context ss"
    using assms(1,2) scoring_inv_insert [of ss "vb_reference b" aggregator_new]
    by (auto simp: mid_def)
  have cs: "(case btm_get (ss_votes mid) r of None \<Rightarrow> Some mid
      | Some agg \<Rightarrow> (aggregator_add reached_quorum agg (vb_author b) (ctx_committee (ss_context mid))) \<bind>
          (\<lambda>(_, agg'). Some (mid\<lparr>ss_votes := btm_insert r agg' (ss_votes mid)\<rparr>))) = Some ss'"
  proof (cases "r \<in> ss_leaders ss")
    case leader: True
    then have m: "mid = ss\<lparr>ss_votes := btm_insert (vb_reference b) aggregator_new (ss_votes ss)\<rparr>"
      by (simp add: mid_def)
    show ?thesis using assms(3) True leader unfolding m scoring_add_ancestor_def
      by (simp split: if_splits)
  next
    case no_leader: False
    then have m: "mid = ss" by (simp add: mid_def)
    show ?thesis using assms(3) True no_leader unfolding m scoring_add_ancestor_def by simp
  qed
  show ?thesis
  proof (cases "btm_get (ss_votes mid) r")
    case None
    with cs mid show ?thesis by simp
  next
    case (Some agg)
    then obtain x agg' where add: "aggregator_add reached_quorum agg (vb_author b) ?c = Some (x, agg')"
        "ss' = mid\<lparr>ss_votes := btm_insert r agg' (ss_votes mid)\<rparr>"
      using cs mid(2) by (auto split: bind_splits)
    have "br_author r < committee_size ?c" "agg_inv ?c agg" "committee_wf ?c"
      using mid Some by (auto simp: scoring_inv_def)
    with aggregator_add_Some [OF this(3,2) add(1)] scoring_inv_insert [OF mid(1)] mid(2) add(2)
    show ?thesis by simp
  qed
qed (use assms in \<open>simp add: scoring_add_ancestor_def\<close>)

lemma scoring_add_block_inv:
  assumes "scoring_inv ss" "vb_author b < committee_size (ctx_committee (ss_context ss))"
    and "fold_opt (scoring_add_ancestor b) as ss = Some ss'"
  shows "scoring_inv ss' \<and> ss_context ss' = ss_context ss"
  by (rule fold_opt_invariant [OF assms(3)])
    (use assms in \<open>auto dest: scoring_add_ancestor_inv\<close>)

lemma scoring_add_subdag_inv:
  assumes "scoring_inv ss" "authors_valid (ctx_committee (ss_context ss)) (csd_blocks sd)"
    and "scoring_add_subdag sd ss = Some ss'"
  shows "scoring_inv ss' \<and> ss_context ss' = ss_context ss"
proof -
  obtain rng where loop: "fold_opt (\<lambda>b. fold_opt (scoring_add_ancestor b) (vb_ancestors b)) (csd_blocks sd)
      (ss\<lparr>ss_commit_range := Some rng, ss_leaders := insert (csd_leader sd) (ss_leaders ss)\<rparr>) = Some ss'"
    using assms(3) by (auto simp: scoring_add_subdag_def Let_def split: bind_splits)
  show ?thesis
  proof (rule fold_opt_invariant [OF loop])
    show "scoring_inv (ss\<lparr>ss_commit_range := Some rng,
            ss_leaders := insert (csd_leader sd) (ss_leaders ss)\<rparr>) \<and>
          ss_context (ss\<lparr>ss_commit_range := Some rng,
            ss_leaders := insert (csd_leader sd) (ss_leaders ss)\<rparr>) = ss_context ss"
      using assms(1) by (simp add: scoring_inv_def)
  next
    fix b s s'
    assume "b \<in> set (csd_blocks sd)" "scoring_inv s \<and> ss_context s = ss_context ss"
      "fold_opt (scoring_add_ancestor b) (vb_ancestors b) s = Some s'"
    then show "scoring_inv s' \<and> ss_context s' = ss_context ss"
      using scoring_add_block_inv [of s b "vb_ancestors b" s'] assms(2)
      by (simp add: authors_valid_def)
  qed
qed

subsection \<open>Scores\<close>

text \<open>The score of an authority: the stake behind its votes.\<close>

definition vote_stakes :: "AuthorityIndex \<Rightarrow> (block_ref, stake_aggregator) btree_map \<Rightarrow> nat list" where
  "vote_stakes a votes = map (\<lambda>(_, agg). sa_stake agg) (filter (\<lambda>(r, _). br_author r = a) votes)"

lemma scores_loop:
  assumes "\<And>r agg. (r, agg) \<in> set votes \<Longrightarrow> br_author r < length scores"
  shows "\<exists>scores'. fold_opt (\<lambda>(vote, agg) scores. do {
           s \<leftarrow> vec_get scores (br_author vote);
           vec_set scores (br_author vote) (u64_add s (sa_stake agg)) }) votes scores = Some scores' \<and>
         length scores' = length scores \<and>
         (\<forall>a < length scores. scores' ! a = foldl u64_add (scores ! a) (vote_stakes a votes))"
  using assms
proof (induction votes arbitrary: scores)
  case (Cons v votes)
  obtain r agg where v: "v = (r, agg)" by (cases v)
  let ?s = "scores[br_author r := u64_add (scores ! br_author r) (sa_stake agg)]"
  have r: "br_author r < length scores" using Cons.prems [of r agg] v by simp
  obtain scores' where "fold_opt (\<lambda>(vote, agg) scores. do {
           s \<leftarrow> vec_get scores (br_author vote);
           vec_set scores (br_author vote) (u64_add s (sa_stake agg)) }) votes ?s = Some scores'"
      "length scores' = length scores"
      "\<forall>a < length scores. scores' ! a = foldl u64_add (?s ! a) (vote_stakes a votes)"
    using Cons.IH [of ?s] Cons.prems by auto
  then show ?case using r v
    by (auto simp: vec_get_def vec_set_def vote_stakes_def nth_list_update)
qed (simp add: vote_stakes_def)

text \<open>reputation scores.  For a sound scoring state whose commit range is set, the scores are
  always computed, there is one per authority, and the score of an authority is the total stake
  (each supporting authority counted once per vote) that strongly links to its votes for
  committed leaders.\<close>

theorem distributed_vote_scores_spec:
  assumes "scoring_inv ss" "ss_commit_range ss = Some rng"
    and "\<And>a. sum_list (vote_stakes a (ss_votes ss)) < 2 ^ 64"
  shows "\<exists>rs. calculate_distributed_vote_scores ss = Some rs \<and> rs_commit_range rs = rng \<and>
     length (rs_scores_per_authority rs) = committee_size (ctx_committee (ss_context ss)) \<and>
     (\<forall>a < committee_size (ctx_committee (ss_context ss)).
        rs_scores_per_authority rs ! a
          = (\<Sum>(r, agg) \<leftarrow> filter (\<lambda>(r, _). br_author r = a) (ss_votes ss).
               stake_of (ctx_committee (ss_context ss)) (set (sa_votes agg))))"
proof -
  let ?c = "ctx_committee (ss_context ss)"
  let ?n = "committee_size ?c"
  have entry: "br_author r < ?n \<and> agg_inv ?c agg" if "(r, agg) \<in> set (ss_votes ss)" for r agg
    using assms(1) that by (metis btm.get_entries scoring_inv_def)
  obtain scores where scores: "distributed_votes_scores ss = Some scores" "length scores = ?n"
      "\<forall>a < ?n. scores ! a = foldl u64_add 0 (vote_stakes a (ss_votes ss))"
    using scores_loop [of "ss_votes ss" "replicate ?n 0"] entry
    unfolding distributed_votes_scores_def by auto
  have "foldl u64_add 0 (vote_stakes a (ss_votes ss)) = sum_list (vote_stakes a (ss_votes ss))" for a
    using u64_sum_eq [OF assms(3)] by (simp add: u64_sum_def)
  moreover have "sum_list (vote_stakes a (ss_votes ss))
      = (\<Sum>(r, agg) \<leftarrow> filter (\<lambda>(r, _). br_author r = a) (ss_votes ss). stake_of ?c (set (sa_votes agg)))" for a
    unfolding vote_stakes_def using entry
    by (intro arg_cong [where f = sum_list] map_cong) (auto simp: agg_inv_def)
  ultimately show ?thesis
    using scores assms(2) by (simp add: calculate_distributed_vote_scores_def)
qed

definition example_scoring :: scoring_subdag where
  "example_scoring = \<lparr>ss_context = context4, ss_commit_range = Some (CommitRange 1 2),
     ss_leaders = {BlockRef 1 0 1},
     ss_votes = [(BlockRef 2 1 9, \<lparr>sa_votes = [0, 2], sa_stake = 2\<rparr>)]\<rparr>"

lemma example_scoring_inv: "scoring_inv example_scoring"
proof -
  have "{0, 2} \<inter> {..<4} = {0, 2 :: nat}" by auto
  then show ?thesis
    by (auto simp: scoring_inv_def example_scoring_def context4_def committee4_wf btm_get_Cons
        agg_inv_def bts_wf_def stake_of_committee4 split: if_splits)
qed

theorem distributed_vote_scores_spec_witness:
  "\<exists>rs. calculate_distributed_vote_scores example_scoring = Some rs \<and>
        rs_commit_range rs = CommitRange 1 2"
proof -
  have "ss_commit_range example_scoring = Some (CommitRange 1 2)"
    and "sum_list (vote_stakes a (ss_votes example_scoring)) < 2 ^ 64" for a
    by (simp_all add: example_scoring_def vote_stakes_def)
  from distributed_vote_scores_spec [OF example_scoring_inv this] show ?thesis by blast
qed

text \<open>The scoring state stays sound.  Adding committed sub-DAGs whose blocks are by members of
  the committee keeps the invariant: one sound aggregator per vote, votes by members only.\<close>

theorem scoring_add_subdags_sound:
  assumes "scoring_inv ss" "scoring_add_subdags sds ss = Some ss'"
    and "\<And>sd. sd \<in> set sds \<Longrightarrow> authors_valid (ctx_committee (ss_context ss)) (csd_blocks sd)"
  shows "scoring_inv ss' \<and> ss_context ss' = ss_context ss"
proof (rule fold_opt_invariant [OF assms(2) [unfolded scoring_add_subdags_def]])
  fix sd s s'
  assume "sd \<in> set sds" "scoring_inv s \<and> ss_context s = ss_context ss" "scoring_add_subdag sd s = Some s'"
  then show "scoring_inv s' \<and> ss_context s' = ss_context ss"
    using scoring_add_subdag_inv [of s sd s'] assms(3) by simp
qed (use assms(1) in simp)

lemmas scoring_eval =
  scoring_add_subdags_def scoring_add_subdag_def committed_sub_dag_new_def scoring_subdag_new_def
  scoring_add_ancestor_def aggregator_add_def aggregator_new_def committee_stake_def vec_get_def
  context4_def committee4_def Let_def commit_range_new_def commit_range_extend_to_def
  u32_sat_add_def block_ref_less_iff bts_insert_def insort_insert_key_def u64_add_def
  example_authority_def

definition example_sub_dag :: committed_sub_dag where
  "example_sub_dag = committed_sub_dag_new (BlockRef 1 0 1)
     [example_block 1 0 1 0 [], example_block 2 1 2 0 [BlockRef 1 0 1],
      example_block 3 2 3 0 [BlockRef 2 1 2]] 0 (CommitRef 1 0 0 0) 1"

theorem scoring_add_subdags_sound_witness:
  "\<exists>ss'. scoring_add_subdags [example_sub_dag] (scoring_subdag_new context4) = Some ss' \<and> scoring_inv ss'"
proof -
  have "scoring_add_subdags [example_sub_dag] (scoring_subdag_new context4) \<noteq> None"
    by (simp add: example_sub_dag_def scoring_eval)
  then obtain ss' where ss': "scoring_add_subdags [example_sub_dag] (scoring_subdag_new context4) = Some ss'"
    by blast
  moreover have "scoring_inv ss'"
    using scoring_add_subdags_sound [OF scoring_inv_new ss']
    by (auto simp: context4_def committee4_wf example_sub_dag_def committed_sub_dag_new_def
        authors_valid_def scoring_subdag_new_def)
  ultimately show ?thesis by blast
qed

text \<open>Two committed leaders of one round.  A block that strongly links to two scored leaders is
  recorded as a vote twice, and \<^verbatim>\<open>add_subdags\<close> fails its assertion: scoring supports one
  committed leader per round only.\<close>

theorem scoring_two_leaders_panic:
  "scoring_add_subdags
     [committed_sub_dag_new (BlockRef 1 0 1) [example_block 1 0 1 0 []] 0 (CommitRef 1 0 0 0) 1,
      committed_sub_dag_new (BlockRef 1 1 2)
        [example_block 1 1 2 0 [], example_block 2 1 3 0 [BlockRef 1 0 1, BlockRef 1 1 2]]
        0 (CommitRef 2 0 0 0) 2]
     (scoring_subdag_new context4) = None"
  by (simp add: scoring_eval)

end
