(* ===== verification/Mem_Store.thy ===== *)
theory Mem_Store
  imports Leader_Scoring
begin

section \<open>Storage\<close>

text \<open>
  The trait \<^verbatim>\<open>Store\<close> of \<^verbatim>\<open>core/src/storage/mod.rs\<close> and its in-memory implementation
  \<^verbatim>\<open>core/src/storage/mem_store.rs\<close>.  The locale \<open>block_storage\<close> states what clients rely on: a
  written block is read back, other blocks are untouched, and existence checks agree with reads.
  \<open>load_committed_subdag_from_store\<close> is \<^verbatim>\<open>core/src/commit.rs\<close>'s recovery of a committed sub-DAG.
  \<^verbatim>\<open>MemStore\<close>'s operations always return \<^verbatim>\<open>Ok\<close>, so results are plain values, or \<open>None\<close> where the
  code panics.
\<close>

record commit_info =
  ci_committed_rounds :: "Round list"
  ci_reputation_scores :: reputation_scores

type_synonym rejected_transactions = "(block_ref, TransactionIndex list) btree_map"

record write_batch =
  wb_blocks :: "verified_block list"
  wb_commits :: "trusted_commit list"
  wb_commit_info :: "(commit_ref \<times> commit_info) list"
  wb_finalized_commits :: "(commit_ref \<times> rejected_transactions) list"

record mem_store =
  ms_blocks :: "(nat \<times> nat \<times> nat, verified_block) btree_map"
  ms_digests_by_authorities :: "(nat \<times> nat \<times> nat) btree_set"
  ms_commits :: "(nat \<times> nat, trusted_commit) btree_map"
  ms_commit_votes :: "(nat \<times> nat \<times> block_ref) btree_set"
  ms_commit_info :: "(nat \<times> nat, commit_info) btree_map"
  ms_finalized_commits :: "(nat \<times> nat, rejected_transactions) btree_map"
  ms_genesis_blocks :: "(nat, block_ref list) btree_map"

definition mem_store_new :: mem_store where
  "mem_store_new = \<lparr>ms_blocks = [], ms_digests_by_authorities = [], ms_commits = [],
     ms_commit_votes = [], ms_commit_info = [], ms_finalized_commits = [], ms_genesis_blocks = []\<rparr>"

definition mem_write_block :: "verified_block \<Rightarrow> mem_store \<Rightarrow> mem_store" where
  "mem_write_block b ms =
     (let r = vb_reference b in
      ms\<lparr>ms_blocks := btm_insert (br_round r, br_author r, br_digest r) b (ms_blocks ms),
         ms_digests_by_authorities :=
           bts_insert (br_author r, br_round r, br_digest r) (ms_digests_by_authorities ms),
         ms_commit_votes :=
           fold (\<lambda>v. bts_insert (cr_index v, cr_digest v, r)) (vb_commit_votes b) (ms_commit_votes ms)\<rparr>)"

definition mem_write :: "mem_store \<Rightarrow> write_batch \<Rightarrow> mem_store" where
  "mem_write ms wb =
     (let ms = fold mem_write_block (wb_blocks wb) ms;
          ms = ms\<lparr>ms_commits := fold (\<lambda>c. btm_insert (tcm_index c, tcm_digest c) c)
                    (wb_commits wb) (ms_commits ms)\<rparr>;
          ms = ms\<lparr>ms_commit_info := fold (\<lambda>(r, info). btm_insert (cr_index r, cr_digest r) info)
                    (wb_commit_info wb) (ms_commit_info ms)\<rparr>
      in ms\<lparr>ms_finalized_commits := fold (\<lambda>(r, txs). btm_insert (cr_index r, cr_digest r) txs)
                    (wb_finalized_commits wb) (ms_finalized_commits ms)\<rparr>)"

definition mem_read_blocks :: "mem_store \<Rightarrow> block_ref list \<Rightarrow> verified_block option list" where
  "mem_read_blocks ms refs =
     map (\<lambda>r. btm_get (ms_blocks ms) (br_round r, br_author r, br_digest r)) refs"

definition mem_contains_blocks :: "mem_store \<Rightarrow> block_ref list \<Rightarrow> bool list" where
  "mem_contains_blocks ms refs =
     map (\<lambda>r. (br_round r, br_author r, br_digest r) \<in> set (btm_keys (ms_blocks ms))) refs"

definition mem_scan_blocks_by_author ::
  "mem_store \<Rightarrow> AuthorityIndex \<Rightarrow> Round \<Rightarrow> verified_block list option" where
  "mem_scan_blocks_by_author ms author start_round =
     (let refs = map (\<lambda>(a, round, d). BlockRef round a d)
            (bts_range (author, start_round, digest_min) (author, u32_max, digest_max)
               (ms_digests_by_authorities ms))
      in map_opt (\<lambda>block. block) (mem_read_blocks ms refs))"

text \<open>\<open>first_slice\<close> stands for \<^verbatim>\<open>VecDeque::as_slices().0\<close>, a prefix of the queue whose length the
  standard library leaves open.\<close>

definition mem_scan_last_blocks_by_author ::
  "(block_ref list \<Rightarrow> block_ref list) \<Rightarrow> mem_store \<Rightarrow> AuthorityIndex \<Rightarrow> nat \<Rightarrow> Round option \<Rightarrow>
   verified_block list option" where
  "mem_scan_last_blocks_by_author first_slice ms author num_of_rounds before_round =
     (let before = (case before_round of Some r \<Rightarrow> r | None \<Rightarrow> u32_max);
          refs = rev (take num_of_rounds (rev (map (\<lambda>(a, round, d). BlockRef round a d)
            (bts_range (author, 0, digest_min) (author, before, digest_max)
               (ms_digests_by_authorities ms)))))
      in map_opt snd (zip refs (mem_read_blocks ms (first_slice refs))))"

definition mem_read_last_commit :: "mem_store \<Rightarrow> trusted_commit option" where
  "mem_read_last_commit ms = (if ms_commits ms = [] then None else Some (snd (last (ms_commits ms))))"

text \<open>\<^verbatim>\<open>BTreeMap::range\<close> panics when its start is above its end.\<close>

definition mem_scan_commits :: "mem_store \<Rightarrow> commit_range \<Rightarrow> trusted_commit list option" where
  "mem_scan_commits ms rng =
     (if commit_range_end rng < commit_range_start rng then None
      else Some (map snd (btm_range (commit_range_start rng, digest_min)
        (commit_range_end rng, digest_max) (ms_commits ms))))"

definition mem_read_commit_votes :: "mem_store \<Rightarrow> CommitIndex \<Rightarrow> digest \<Rightarrow> block_ref list" where
  "mem_read_commit_votes ms index d =
     map (\<lambda>(_, _, r). r)
       (bts_range (index, d, BlockRef 0 0 digest_min) (index, d, BlockRef u32_max u32_max digest_max)
         (ms_commit_votes ms))"

definition mem_read_last_commit_info :: "mem_store \<Rightarrow> (commit_ref \<times> commit_info) option" where
  "mem_read_last_commit_info ms =
     (if ms_commit_info ms = [] then None
      else (case last (ms_commit_info ms) of ((i, d), info) \<Rightarrow> Some (commit_ref_new i d, info)))"

definition mem_read_last_finalized_commit :: "mem_store \<Rightarrow> commit_ref option" where
  "mem_read_last_finalized_commit ms =
     (if ms_finalized_commits ms = [] then None
      else (case last (ms_finalized_commits ms) of ((i, d), _) \<Rightarrow> Some (commit_ref_new i d)))"

definition mem_read_rejected_transactions :: "mem_store \<Rightarrow> commit_ref \<Rightarrow> rejected_transactions option" where
  "mem_read_rejected_transactions ms r = btm_get (ms_finalized_commits ms) (cr_index r, cr_digest r)"

definition mem_read_genesis_blocks :: "mem_store \<Rightarrow> Epoch \<Rightarrow> block_ref list option" where
  "mem_read_genesis_blocks ms epoch = btm_get (ms_genesis_blocks ms) epoch"

definition mem_write_genesis_blocks :: "mem_store \<Rightarrow> Epoch \<Rightarrow> block_ref list \<Rightarrow> mem_store" where
  "mem_write_genesis_blocks ms epoch refs =
     ms\<lparr>ms_genesis_blocks := btm_insert epoch refs (ms_genesis_blocks ms)\<rparr>"

subsection \<open>Recovering a committed sub-DAG\<close>

definition load_committed_subdag_from_store ::
  "mem_store \<Rightarrow> trusted_commit \<Rightarrow> (AuthorityIndex \<times> nat) list \<Rightarrow> committed_sub_dag option" where
  "load_committed_subdag_from_store ms c reputation_scores_desc = do {
     blocks \<leftarrow> map_opt (\<lambda>block. block) (mem_read_blocks ms (tcm_blocks c));
     leader \<leftarrow> (if tcm_leader c \<in> vb_reference ` set blocks then Some (tcm_leader c) else None);
     let subdag = (committed_sub_dag_new leader blocks (tcm_timestamp_ms c)
           (trusted_commit_reference c) (cm_global_exec_index (tcm_inner c)))
         \<lparr>csd_reputation_scores_desc := reputation_scores_desc\<rparr>;
     Some (case mem_read_rejected_transactions ms (trusted_commit_reference c) of
         Some rejects \<Rightarrow> subdag\<lparr>csd_decided_with_local_blocks := True,
            csd_recovered_rejected_transactions := True, csd_rejected_transactions_by_block := rejects\<rparr>
       | None \<Rightarrow> subdag\<lparr>csd_decided_with_local_blocks := False,
            csd_recovered_rejected_transactions := False\<rparr>)
   }"

subsection \<open>Invariant\<close>

text \<open>The widths of the fields of a reference, which the types of the source enforce.\<close>

definition ref_bounds :: "block_ref \<Rightarrow> bool" where
  "ref_bounds r \<longleftrightarrow> br_round r \<le> u32_max \<and> br_author r \<le> u32_max \<and> br_digest r \<le> digest_max"

definition mem_inv :: "mem_store \<Rightarrow> bool" where
  "mem_inv ms \<longleftrightarrow>
     btm_wf (ms_blocks ms) \<and> bts_wf (ms_digests_by_authorities ms) \<and>
     (\<forall>k b. btm_get (ms_blocks ms) k = Some b \<longrightarrow>
        k = (vb_round b, vb_author b, vb_digest b) \<and> ref_bounds (vb_reference b)) \<and>
     set (ms_digests_by_authorities ms)
       = (\<lambda>(r, a, d). (a, r, d)) ` set (btm_keys (ms_blocks ms))"

lemma mem_inv_new [simp]: "mem_inv mem_store_new"
  by (simp add: mem_inv_def mem_store_new_def)

lemma mem_inv_write_block:
  "mem_inv ms \<Longrightarrow> ref_bounds (vb_reference b) \<Longrightarrow> mem_inv (mem_write_block b ms)"
  by (auto simp: mem_inv_def mem_write_block_def Let_def btree_simps split: if_splits)

lemma mem_inv_fold_write_block:
  "mem_inv ms \<Longrightarrow> (\<And>b. b \<in> set bs \<Longrightarrow> ref_bounds (vb_reference b)) \<Longrightarrow>
   mem_inv (fold mem_write_block bs ms)"
  by (induction bs arbitrary: ms) (simp_all add: mem_inv_write_block)

lemma mem_write_blocks_field: "ms_blocks (mem_write ms wb) = ms_blocks (fold mem_write_block (wb_blocks wb) ms)"
  by (simp add: mem_write_def Let_def)

lemma mem_inv_write:
  assumes "mem_inv ms" "\<And>b. b \<in> set (wb_blocks wb) \<Longrightarrow> ref_bounds (vb_reference b)"
  shows "mem_inv (mem_write ms wb)"
  using mem_inv_fold_write_block [OF assms] by (simp add: mem_inv_def mem_write_def Let_def)

lemma fold_mem_write_block_blocks:
  "ms_blocks (fold mem_write_block bs ms)
     = fold (\<lambda>b. btm_insert (vb_round b, vb_author b, vb_digest b) b) bs (ms_blocks ms)"
  by (induction bs arbitrary: ms) (simp_all add: mem_write_block_def Let_def)

subsection \<open>The contract of the block table\<close>

locale block_storage =
  fixes write_batch_op :: "'s \<Rightarrow> write_batch \<Rightarrow> 's"
    and read_blocks :: "'s \<Rightarrow> block_ref list \<Rightarrow> verified_block option list"
    and contains_blocks :: "'s \<Rightarrow> block_ref list \<Rightarrow> bool list"
    and invar :: "'s \<Rightarrow> bool"
  assumes read_map: "read_blocks s rs = concat (map (\<lambda>r. read_blocks s [r]) rs)"
    and read_one: "\<exists>ob. read_blocks s [r] = [ob]"
    and contains_read: "contains_blocks s rs = map (\<lambda>ob. ob \<noteq> None) (read_blocks s rs)"
    and read_written: "b \<in> set (wb_blocks wb) \<Longrightarrow> inj_on vb_reference (set (wb_blocks wb)) \<Longrightarrow>
          read_blocks (write_batch_op s wb) [vb_reference b] = [Some b]"
    and read_other: "r \<notin> vb_reference ` set (wb_blocks wb) \<Longrightarrow>
          read_blocks (write_batch_op s wb) [r] = read_blocks s [r]"
    and invar_write: "invar s \<Longrightarrow> (\<And>b. b \<in> set (wb_blocks wb) \<Longrightarrow> ref_bounds (vb_reference b)) \<Longrightarrow>
          invar (write_batch_op s wb)"
    and read_reference: "invar s \<Longrightarrow> read_blocks s [r] = [Some b] \<Longrightarrow> vb_reference b = r"
begin

lemma read_batch:
  assumes "inj_on vb_reference (set (wb_blocks wb))" "set bs \<subseteq> set (wb_blocks wb)"
  shows "read_blocks (write_batch_op s wb) (map vb_reference bs) = map Some bs"
proof -
  have "concat (map (\<lambda>r. read_blocks (write_batch_op s wb) [r]) (map vb_reference bs)) = map Some bs"
    using assms(2) by (induction bs) (simp_all add: read_written assms(1))
  then show ?thesis by (subst read_map)
qed

lemma contains_iff: "contains_blocks s [r] = [b] \<Longrightarrow> b \<longleftrightarrow> (\<exists>x. read_blocks s [r] = [Some x])"
  using read_one [of s r] contains_read [of s "[r]"] by auto

text \<open>Writing a batch never loses a block, when equal references stand for equal blocks.\<close>

lemma write_keeps:
  assumes "read_blocks s [r] = [Some b]"
    and "\<And>b'. b' \<in> set (wb_blocks wb) \<Longrightarrow> vb_reference b' = r \<Longrightarrow> b' = b"
    and "inj_on vb_reference (set (wb_blocks wb))"
  shows "read_blocks (write_batch_op s wb) [r] = [Some b]"
proof (cases "r \<in> vb_reference ` set (wb_blocks wb)")
  case True
  then show ?thesis using assms read_written by blast
next
  case False
  then show ?thesis using assms(1) read_other by simp
qed

end

interpretation ms: block_storage mem_write mem_read_blocks mem_contains_blocks mem_inv
proof (unfold_locales, goal_cases)
  case (1 s rs)
  show ?case by (simp add: mem_read_blocks_def)
next
  case (2 s r)
  show ?case by (simp add: mem_read_blocks_def)
next
  case (3 s rs)
  show ?case by (simp add: mem_contains_blocks_def mem_read_blocks_def btm_key_get)
next
  case (4 b wb s)
  have "x = y" if "x \<in> set (wb_blocks wb)" "y \<in> set (wb_blocks wb)"
      "(vb_round x, vb_author x, vb_digest x) = (vb_round y, vb_author y, vb_digest y)" for x y
    using 4(2) that by (auto simp: inj_on_def vb_reference_def)
  from btm.fold_ins_get [of "wb_blocks wb" "\<lambda>b. (vb_round b, vb_author b, vb_digest b)" "\<lambda>b. b",
      OF this 4(1)]
  show ?case
    by (simp add: mem_read_blocks_def mem_write_blocks_field fold_mem_write_block_blocks)
next
  case (5 r wb s)
  have "(br_round r, br_author r, br_digest r) \<notin>
      (\<lambda>b. (vb_round b, vb_author b, vb_digest b)) ` set (wb_blocks wb)"
    using 5 by (cases r) (auto simp: vb_reference_def)
  from btm.fold_ins_other [OF this, of "\<lambda>b. b"] show ?case
    by (simp add: mem_read_blocks_def mem_write_blocks_field fold_mem_write_block_blocks)
next
  case (6 s wb)
  then show ?case by (rule mem_inv_write)
next
  case (7 s r b)
  then show ?case
    by (cases r) (fastforce simp: mem_read_blocks_def mem_inv_def vb_reference_def)
qed

text \<open>Storage round trip.  After a batch is written, reading the references of its blocks
  returns exactly these blocks, existence checks answer true for them, and every reference
  outside the batch reads as before.\<close>

theorem store_write_read:
  assumes "inj_on vb_reference (set (wb_blocks wb))"
  shows "mem_read_blocks (mem_write s wb) (map vb_reference (wb_blocks wb)) = map Some (wb_blocks wb) \<and>
         mem_contains_blocks (mem_write s wb) (map vb_reference (wb_blocks wb))
           = replicate (length (wb_blocks wb)) True \<and>
         (\<forall>r. r \<notin> vb_reference ` set (wb_blocks wb) \<longrightarrow>
            mem_read_blocks (mem_write s wb) [r] = mem_read_blocks s [r])"
  using ms.read_batch [OF assms order_refl, of s]
  by (simp add: ms.contains_read ms.read_other comp_def map_replicate_const)

theorem store_write_read_witness:
  "mem_read_blocks (mem_write mem_store_new
      \<lparr>wb_blocks = [example_block 1 0 5 0 [], example_block 1 1 6 0 []], wb_commits = [],
       wb_commit_info = [], wb_finalized_commits = []\<rparr>) [BlockRef 1 0 5, BlockRef 1 1 6]
     = [Some (example_block 1 0 5 0 []), Some (example_block 1 1 6 0 [])]"
proof -
  let ?wb = "\<lparr>wb_blocks = [example_block 1 0 5 0 [], example_block 1 1 6 0 []], wb_commits = [],
       wb_commit_info = [], wb_finalized_commits = []\<rparr> :: write_batch"
  have "inj_on vb_reference (set (wb_blocks ?wb))" by (simp add: inj_on_def)
  from store_write_read [OF this, of mem_store_new] show ?thesis by simp
qed

subsection \<open>Scans\<close>

lemma map_opt_id_Some: "(\<And>x. x \<in> set xs \<Longrightarrow> f x = Some (g x)) \<Longrightarrow> map_opt f xs = Some (map g xs)"
  by (induction xs) auto

lemma map_opt_map: "map_opt f (map g xs) = map_opt (\<lambda>x. f (g x)) xs"
  by (induction xs) (auto split: option.splits)

lemma author_range_D:
  "(a, r, d) \<in> set (bts_range (author, start, digest_min) (author, hi, dhi) s) \<Longrightarrow>
   (a, r, d) \<in> set s \<and> a = author \<and> start \<le> (r :: nat)"
  by (auto simp: bts_range_def)

text \<open>Scanning by author.  In a sound store the scan never hits its panic and returns exactly
  the stored blocks of the author from the start round on, ordered by round and digest.\<close>

theorem scan_blocks_by_author_spec:
  assumes "mem_inv ms"
  shows "\<exists>bs. mem_scan_blocks_by_author ms author start_round = Some bs \<and>
     set bs = {b. mem_read_blocks ms [vb_reference b] = [Some b] \<and> vb_author b = author \<and>
                  start_round \<le> vb_round b} \<and>
     sorted_wrt (\<lambda>x y. vb_reference x < vb_reference y) bs"
proof -
  let ?ks = "bts_range (author, start_round, digest_min) (author, u32_max, digest_max)
               (ms_digests_by_authorities ms)"
  let ?ref = "\<lambda>(a, round, d). BlockRef round a d"
  define blk where "blk = (\<lambda>(a, round, d). the (btm_get (ms_blocks ms) (round, a, d)))"
  have key: "\<exists>b. btm_get (ms_blocks ms) (r, a, d) = Some b \<and> vb_reference b = BlockRef r a d \<and>
      ref_bounds (BlockRef r a d)" if "(a, r, d) \<in> set (ms_digests_by_authorities ms)" for a r d
  proof -
    have "(r, a, d) \<in> set (btm_keys (ms_blocks ms))" using assms that by (auto simp: mem_inv_def)
    then obtain b where "btm_get (ms_blocks ms) (r, a, d) = Some b" by (auto simp: btm_key_get)
    with assms show ?thesis by (fastforce simp: mem_inv_def vb_reference_def)
  qed
  have sub: "set ?ks \<subseteq> set (ms_digests_by_authorities ms)" by (auto simp: bts_range_def)
  have "mem_scan_blocks_by_author ms author start_round = Some (map blk ?ks)"
    unfolding mem_scan_blocks_by_author_def Let_def mem_read_blocks_def map_opt_map
    by (rule map_opt_id_Some) (use key sub in \<open>fastforce simp: blk_def\<close>)
  moreover have "set (map blk ?ks) = {b. mem_read_blocks ms [vb_reference b] = [Some b] \<and>
      vb_author b = author \<and> start_round \<le> vb_round b}" (is "?L = ?R")
  proof (intro equalityI subsetI)
    fix b assume "b \<in> ?L"
    then obtain a r d where k: "(a, r, d) \<in> set ?ks" "b = blk (a, r, d)" by auto
    note ar = author_range_D [OF k(1)]
    with key obtain b' where "btm_get (ms_blocks ms) (r, a, d) = Some b'" "vb_reference b' = BlockRef r a d"
      by blast
    with k(2) ar show "b \<in> ?R"
      by (simp add: blk_def mem_read_blocks_def vb_reference_def)
  next
    fix b assume b: "b \<in> ?R"
    then have get: "btm_get (ms_blocks ms) (vb_round b, vb_author b, vb_digest b) = Some b"
      by (auto simp: mem_read_blocks_def)
    then have "ref_bounds (vb_reference b)" using assms by (auto simp: mem_inv_def)
    moreover have "(vb_author b, vb_round b, vb_digest b) \<in> set (ms_digests_by_authorities ms)"
      using assms btm_get_key [OF get] by (force simp: mem_inv_def)
    ultimately have "(vb_author b, vb_round b, vb_digest b) \<in> set ?ks"
      using b by (auto simp: bts_range_def ref_bounds_def)
    moreover have "blk (vb_author b, vb_round b, vb_digest b) = b" using get by (simp add: blk_def)
    ultimately show "b \<in> ?L" by (metis image_eqI list.set_map)
  qed
  moreover have "sorted_wrt (\<lambda>x y. vb_reference x < vb_reference y) (map blk ?ks)"
  proof -
    have "sorted_wrt (<) ?ks"
      using assms by (auto simp: mem_inv_def bts_wf_def bts_range_def intro: sorted_wrt_filter)
    then have "sorted_wrt (\<lambda>x y. vb_reference (blk x) < vb_reference (blk y)) ?ks"
    proof (rule sorted_wrt_mono_rel [rotated])
      fix x y assume xy: "x \<in> set ?ks" "y \<in> set ?ks" "x < y"
      obtain r d r' d' where eq: "x = (author, r, d)" "y = (author, r', d')"
        using xy(1,2) author_range_D by (metis prod_cases3)
      then have "vb_reference (blk x) = BlockRef r author d" "vb_reference (blk y) = BlockRef r' author d'"
        using key sub xy by (fastforce simp: blk_def)+
      with xy(3) eq show "vb_reference (blk x) < vb_reference (blk y)"
        by (auto simp: block_ref_less_iff)
    qed
    then show ?thesis by (simp add: sorted_wrt_map)
  qed
  ultimately show ?thesis by blast
qed

theorem scan_blocks_by_author_spec_witness:
  "\<exists>bs. mem_scan_blocks_by_author (mem_write_block (example_block 3 1 6 0 []) mem_store_new) 1 2 = Some bs"
proof -
  have "mem_inv (mem_write_block (example_block 3 1 6 0 []) mem_store_new)"
    by (rule mem_inv_write_block) (simp_all add: ref_bounds_def)
  from scan_blocks_by_author_spec [OF this] show ?thesis by blast
qed

end
