(* ===== verification/Dag_Properties.thy ===== *)
theory Dag_Properties
  imports Dag_State
begin

section \<open>Properties of the DAG state\<close>

text \<open>
  The invariant \<open>dag_inv\<close> and what the operations of \<open>Dag_State\<close> do under it: reads are
  pointwise, the optimised existence check agrees with reading, accepting a block adds exactly
  that block, and flushing persists everything that is evicted from memory.
\<close>

subsection \<open>Reads, pointwise\<close>

lemma fill_missing_map:
  "fill_missing dflt xs (map f (missing_of xs)) = map (case_sum (\<lambda>x. x) f) xs"
  by (induction xs rule: missing_of.induct) simp_all

definition stored :: "dag_state \<Rightarrow> block_ref \<Rightarrow> verified_block option" where
  "stored d r = btm_get (ms_blocks (ds_store d)) (br_round r, br_author r, br_digest r)"

lemma mem_read_stored: "mem_read_blocks (ds_store d) refs = map (stored d) refs"
  by (simp add: mem_read_blocks_def stored_def)

lemma mem_contains_stored: "mem_contains_blocks (ds_store d) refs = map (\<lambda>r. stored d r \<noteq> None) refs"
  by (simp add: mem_contains_blocks_def stored_def btm_key_get)

lemma get_blocks_map: "get_blocks d refs = map (get_block d) refs"
  by (simp add: get_block_def get_blocks_def Let_def mem_read_stored fill_missing_map comp_def)

lemma get_block_eq:
  "get_block d r =
     (if br_round r = 0 then btm_get (ds_genesis d) r
      else case btm_get (ds_recent_blocks d) r of
             Some info \<Rightarrow> Some (bi_block info) | None \<Rightarrow> stored d r)"
  unfolding get_block_def get_blocks_def Let_def mem_read_stored fill_missing_map
  by (simp add: lookup_cached_def split: option.split)

subsection \<open>Invariant\<close>

abbreviation ds_committee :: "dag_state \<Rightarrow> committee" where
  "ds_committee d \<equiv> ctx_committee (ds_context d)"

definition recent_ok :: "dag_state \<Rightarrow> bool" where
  "recent_ok d \<longleftrightarrow>
     btm_wf (ds_recent_blocks d) \<and>
     (\<forall>r info. btm_get (ds_recent_blocks d) r = Some info \<longrightarrow>
        vb_reference (bi_block info) = r \<and> 0 < br_round r \<and>
        br_author r < committee_size (ds_committee d) \<and> ref_bounds r)"

definition refs_ok :: "dag_state \<Rightarrow> bool" where
  "refs_ok d \<longleftrightarrow>
     length (ds_recent_refs_by_authority d) = committee_size (ds_committee d) \<and>
     (\<forall>a < committee_size (ds_committee d).
        bts_wf (ds_recent_refs_by_authority d ! a) \<and>
        set (ds_recent_refs_by_authority d ! a)
          = {r. btm_get (ds_recent_blocks d) r \<noteq> None \<and> br_author r = a})"

definition buffer_ok :: "dag_state \<Rightarrow> bool" where
  "buffer_ok d \<longleftrightarrow>
     (\<forall>b \<in> set (ds_blocks_to_write d).
        \<exists>info. btm_get (ds_recent_blocks d) (vb_reference b) = Some info \<and> bi_block info = b) \<and>
     (\<forall>r info. btm_get (ds_recent_blocks d) r = Some info \<longrightarrow>
        bi_block info \<in> set (ds_blocks_to_write d) \<or> stored d r = Some (bi_block info))"

definition store_ok :: "dag_state \<Rightarrow> bool" where
  "store_ok d \<longleftrightarrow>
     mem_inv (ds_store d) \<and>
     (\<forall>r b. stored d r = Some b \<longrightarrow>
        0 < br_round r \<and> br_author r < committee_size (ds_committee d) \<and>
        (\<exists>l \<in> set (ds_recent_refs_by_authority d ! br_author r). br_round r \<le> br_round l) \<and>
        (\<forall>info. btm_get (ds_recent_blocks d) r = Some info \<longrightarrow> bi_block info = b))"

definition dag_inv :: "dag_state \<Rightarrow> bool" where
  "dag_inv d \<longleftrightarrow>
     committee_wf (ds_committee d) \<and>
     tc_inv (ds_threshold_clock d) \<and> tc_committee (ds_threshold_clock d) = ds_committee d \<and>
     length (ds_evicted_rounds d) = committee_size (ds_committee d) \<and>
     length (ds_last_committed_rounds d) = committee_size (ds_committee d) \<and>
     0 < ds_cached_rounds d \<and>
     (\<forall>r b. btm_get (ds_genesis d) r = Some b \<longrightarrow> vb_reference b = r \<and> br_round r = 0) \<and>
     recent_ok d \<and> refs_ok d \<and> buffer_ok d \<and> store_ok d"

lemmas dag_inv_defs = dag_inv_def recent_ok_def refs_ok_def buffer_ok_def store_ok_def

lemma dag_inv_cong:
  assumes "ds_context d' = ds_context d" "ds_genesis d' = ds_genesis d"
    "ds_recent_blocks d' = ds_recent_blocks d"
    "ds_recent_refs_by_authority d' = ds_recent_refs_by_authority d"
    "ds_threshold_clock d' = ds_threshold_clock d" "ds_blocks_to_write d' = ds_blocks_to_write d"
    "ds_store d' = ds_store d" "ds_cached_rounds d' = ds_cached_rounds d"
    "length (ds_evicted_rounds d') = length (ds_evicted_rounds d)"
    "length (ds_last_committed_rounds d') = length (ds_last_committed_rounds d)"
  shows "dag_inv d' = dag_inv d" "get_block d' = get_block d"
proof -
  have "stored d' = stored d" by (simp add: stored_def fun_eq_iff assms)
  then show "dag_inv d' = dag_inv d" unfolding dag_inv_defs by (simp only: assms)
  show "get_block d' = get_block d"
    unfolding get_block_eq fun_eq_iff \<open>stored d' = stored d\<close> by (simp add: assms)
qed

lemma dag_inv_refs:
  assumes "dag_inv d" "a < committee_size (ds_committee d)"
  shows "a < length (ds_recent_refs_by_authority d)" "bts_wf (ds_recent_refs_by_authority d ! a)"
    and "set (ds_recent_refs_by_authority d ! a)
           = {r. btm_get (ds_recent_blocks d) r \<noteq> None \<and> br_author r = a}"
  using assms by (auto simp: dag_inv_def refs_ok_def)

lemma get_block_reference: "dag_inv d \<Longrightarrow> get_block d r = Some b \<Longrightarrow> vb_reference b = r"
proof -
  assume inv: "dag_inv d" and get: "get_block d r = Some b"
  have "stored d r = Some b \<Longrightarrow> vb_reference b = r"
    using inv ms.read_reference [of "ds_store d" r b] by (simp add: dag_inv_defs mem_read_stored)
  then show ?thesis
    using inv get by (auto simp: get_block_eq dag_inv_defs split: if_splits option.splits)
qed

subsection \<open>The state of a fresh store\<close>

lemma genesis_map_get:
  "inj_on vb_reference (set bs) \<Longrightarrow>
     btm_get (genesis_map bs) r = Some b \<longleftrightarrow> b \<in> set bs \<and> vb_reference b = r"
proof -
  assume inj: "inj_on vb_reference (set bs)"
  show ?thesis
  proof (cases "r \<in> vb_reference ` set bs")
    case True
    then obtain c where c: "c \<in> set bs" "r = vb_reference c" by blast
    have "btm_get (genesis_map bs) (vb_reference c) = Some c"
      unfolding genesis_map_def
      by (rule btm.fold_ins_get [where key = vb_reference and val = "\<lambda>b. b"])
        (use inj c(1) in \<open>auto simp: inj_on_def\<close>)
    with c inj show ?thesis by (auto simp: inj_on_def)
  next
    case False
    then have "btm_get (genesis_map bs) r = btm_get [] r"
      unfolding genesis_map_def by (rule btm.fold_ins_other)
    with False show ?thesis by auto
  qed
qed

definition fresh_dag_state ::
  "(block_ref, verified_block) btree_map \<Rightarrow> nat \<Rightarrow> consensus_context \<Rightarrow> mem_store \<Rightarrow> dag_state" where
  "fresh_dag_state genesis now ctx store =
     \<lparr>ds_context = ctx, ds_genesis = genesis, ds_recent_blocks = [],
      ds_recent_refs_by_authority = replicate (committee_size (ctx_committee ctx)) [],
      ds_threshold_clock = threshold_clock_new 1 (ctx_committee ctx) now,
      ds_evicted_rounds = replicate (committee_size (ctx_committee ctx)) 0,
      ds_highest_accepted_round = 0, ds_last_commit = None,
      ds_last_committed_rounds = replicate (committee_size (ctx_committee ctx)) 0,
      ds_scoring_subdag = scoring_subdag_new ctx, ds_pending_commit_votes = [],
      ds_blocks_to_write = [], ds_commits_to_write = [], ds_commit_info_to_write = [],
      ds_finalized_commits_to_write = [], ds_store = store,
      ds_cached_rounds = ctx_dag_state_cached_rounds ctx\<rparr>"

lemma fresh_dag_inv:
  assumes "committee_wf (ctx_committee ctx)" "0 < ctx_dag_state_cached_rounds ctx"
    and "\<And>r b. btm_get genesis r = Some b \<Longrightarrow> vb_reference b = r \<and> br_round r = 0"
    and "mem_inv store" "ms_blocks store = []"
  shows "dag_inv (fresh_dag_state genesis now ctx store)"
  using assms
  by (auto simp: dag_inv_defs fresh_dag_state_def stored_def tc_inv_new)
    (simp add: threshold_clock_new_def)

text \<open>Concrete states for the witnesses: four authorities after genesis, then one accepted block.\<close>

definition dag4 :: dag_state where
  "dag4 = fresh_dag_state (genesis_map (map (\<lambda>i. example_block 0 i 7 1000 []) [0..<4])) 0 context4 mem_store_new"

lemma dag4_context [simp]: "ds_context dag4 = context4"
  by (simp add: dag4_def fresh_dag_state_def)

lemma context4_committee [simp]: "ctx_committee context4 = committee4"
  by (simp add: context4_def)

lemma dag4_inv: "dag_inv dag4"
proof -
  have "inj_on vb_reference (set (map (\<lambda>i. example_block 0 i 7 1000 []) [0..<4]))"
    by (auto simp: inj_on_def)
  note gen = genesis_map_get [OF this]
  show ?thesis
    unfolding dag4_def
    by (rule fresh_dag_inv; (simp only: gen)?)
      (auto simp: committee4_wf mem_store_new_def context4_def mem_inv_def)
qed

subsection \<open>The optimised existence check\<close>

lemma bts_last_max: "bts_wf s \<Longrightarrow> x \<in> set s \<Longrightarrow> \<exists>l. bts_last s = Some l \<and> x \<le> l"
proof -
  assume wf: "bts_wf s" and x: "x \<in> set s"
  then have "s \<noteq> []" "sorted s" by (auto simp: bts_wf_def strict_sorted_iff)
  then have "sorted (butlast s @ [last s])" "x \<in> set (butlast s @ [last s])" using x by simp_all
  then have "x \<le> last s" by (auto simp: sorted_append)
  with \<open>s \<noteq> []\<close> show ?thesis by (simp add: bts_last_def)
qed

lemma contains_block_correct:
  assumes inv: "dag_inv d" and a: "br_author r < committee_size (ds_committee d)"
  shows "contains_block d r = Some (get_block d r \<noteq> None)"
proof -
  let ?refs = "ds_recent_refs_by_authority d ! br_author r"
  have refs: "br_author r < length (ds_recent_refs_by_authority d)" "bts_wf ?refs"
    and mem: "x \<in> set ?refs \<longleftrightarrow> btm_get (ds_recent_blocks d) x \<noteq> None \<and> br_author x = br_author r" for x
    using dag_inv_refs [OF inv a] by auto
  have gen: "r \<in> set (btm_keys (ds_genesis d)) \<longleftrightarrow> btm_get (ds_genesis d) r \<noteq> None"
    by (rule btm_key_get)
  have gen0: "btm_get (ds_genesis d) r \<noteq> None \<Longrightarrow> br_round r = 0"
    and rec0: "btm_get (ds_recent_blocks d) r \<noteq> None \<Longrightarrow> 0 < br_round r"
    and st0: "stored d r \<noteq> None \<Longrightarrow> 0 < br_round r"
    using inv by (auto simp: dag_inv_defs)
  have get: "get_block d r \<noteq> None \<longleftrightarrow> btm_get (ds_genesis d) r \<noteq> None \<or>
      btm_get (ds_recent_blocks d) r \<noteq> None \<or> stored d r \<noteq> None"
    using gen0 rec0 st0 by (auto simp: get_block_eq split: option.splits)
  have cover: "stored d r \<noteq> None \<Longrightarrow> \<exists>l. bts_last ?refs = Some l \<and> br_round r \<le> br_round l"
  proof -
    assume "stored d r \<noteq> None"
    moreover have "store_ok d" using inv by (simp add: dag_inv_def)
    ultimately obtain x where x: "x \<in> set ?refs" "br_round r \<le> br_round x"
      unfolding store_ok_def by blast
    obtain l where "bts_last ?refs = Some l" "x \<le> l" using bts_last_max [OF refs(2) x(1)] by blast
    with x(2) block_ref_less_round [of x l] show ?thesis by simp
  qed
  have "contains_block d r = Some
     (if r \<in> set ?refs \<or> r \<in> set (btm_keys (ds_genesis d)) then True
      else case bts_last ?refs of None \<Rightarrow> False
           | Some l \<Rightarrow> if br_round l < br_round r then False else stored d r \<noteq> None)"
    using refs(1) by (auto simp: contains_block_def contains_blocks_def contains_cached_def vec_get_def
        mem_contains_stored split: option.split)
  then show ?thesis
    using cover mem [of r] gen get by (fastforce split: option.splits if_splits)
qed

text \<open>The existence check.  In every well-formed DAG state \<^verbatim>\<open>contains_block\<close>, which answers
  from the cached references and skips the disk for rounds above the newest cached one, answers
  true exactly when \<^verbatim>\<open>get_block\<close> finds the block in genesis, memory or storage, and it never
  panics for an authority of the committee.\<close>

theorem contains_block_iff_get_block:
  assumes "dag_inv d" "br_author r < committee_size (ctx_committee (ds_context d))"
  shows "contains_block d r = Some (\<exists>b. get_block d r = Some b \<and> vb_reference b = r)"
  using contains_block_correct [OF assms] get_block_reference [OF assms(1), of r] by auto

theorem contains_block_iff_get_block_witness:
  "contains_block dag4 (BlockRef 0 2 7)
     = Some (\<exists>b. get_block dag4 (BlockRef 0 2 7) = Some b \<and> vb_reference b = BlockRef 0 2 7)"
  using contains_block_iff_get_block [OF dag4_inv, of "BlockRef 0 2 7"] by simp

subsection \<open>Accepting blocks\<close>

definition acceptable :: "dag_state \<Rightarrow> verified_block \<Rightarrow> bool" where
  "acceptable d b \<longleftrightarrow>
     0 < vb_round b \<and> vb_round b < 2 ^ 32 - 1 \<and> vb_author b < committee_size (ds_committee d) \<and>
     ref_bounds (vb_reference b)"

lemma vb_reference_eqD:
  "vb_reference b = r \<Longrightarrow> br_round r = vb_round b \<and> br_author r = vb_author b"
  by auto

lemma update_block_metadata_fields:
  assumes inv: "dag_inv d" and b: "acceptable d b"
  shows "\<exists>advanced clock. threshold_clock_add_block (ds_threshold_clock d) (vb_reference b) now = Some (advanced, clock) \<and>
    update_block_metadata d b now = Some (d\<lparr>
      ds_recent_blocks := btm_insert (vb_reference b)
        \<lparr>bi_block = b, bi_committed = False, bi_included = False\<rparr> (ds_recent_blocks d),
      ds_recent_refs_by_authority := (ds_recent_refs_by_authority d)
        [vb_author b := bts_insert (vb_reference b) (ds_recent_refs_by_authority d ! vb_author b)],
      ds_threshold_clock := clock,
      ds_highest_accepted_round := max (ds_highest_accepted_round d) (vb_round b)\<rparr>) \<and>
    tc_inv clock \<and> tc_committee clock = ds_committee d"
proof -
  have "valid_ref (tc_committee (ds_threshold_clock d)) (vb_reference b)"
    using inv b by (simp add: acceptable_def dag_inv_def valid_ref_def)
  then obtain adv clock where
      "threshold_clock_add_block (ds_threshold_clock d) (vb_reference b) now = Some (adv, clock)"
      "tc_inv clock" "tc_committee clock = ds_committee d"
    using add_block_step [of "ds_threshold_clock d" "vb_reference b" now] inv
    by (auto simp: dag_inv_def)
  moreover have "vb_author b < length (ds_recent_refs_by_authority d)"
    using inv b by (simp add: acceptable_def dag_inv_def refs_ok_def)
  ultimately show ?thesis
    using b by (intro exI [of _ adv] exI [of _ clock])
      (simp add: update_block_metadata_def block_info_new_def vec_get_def acceptable_def Let_def)
qed

lemma dag_inv_add:
  assumes inv: "dag_inv d" and b: "acceptable d b" and new: "get_block d (vb_reference b) = None"
    and clock: "tc_inv clock" "tc_committee clock = ds_committee d"
  shows "dag_inv (d\<lparr>
      ds_recent_blocks := btm_insert (vb_reference b)
        \<lparr>bi_block = b, bi_committed = False, bi_included = False\<rparr> (ds_recent_blocks d),
      ds_recent_refs_by_authority := (ds_recent_refs_by_authority d)
        [vb_author b := bts_insert (vb_reference b) (ds_recent_refs_by_authority d ! vb_author b)],
      ds_threshold_clock := clock,
      ds_highest_accepted_round := hr,
      ds_blocks_to_write := ds_blocks_to_write d @ [b]\<rparr>)" (is "dag_inv ?d'")
proof -
  let ?r = "vb_reference b"
  have st: "stored ?d' = stored d" by (simp add: stored_def fun_eq_iff)
  have no: "btm_get (ds_recent_blocks d) ?r = None" "stored d ?r = None"
    using new b by (auto simp: get_block_eq acceptable_def split: option.splits)
  have "recent_ok ?d'"
    using inv b by (auto simp: dag_inv_def recent_ok_def acceptable_def btree_simps)
  moreover have "refs_ok ?d'"
    using inv b by (auto simp: dag_inv_def refs_ok_def acceptable_def btree_simps nth_list_update)
  moreover have "buffer_ok ?d'"
    using inv no unfolding buffer_ok_def st by (auto simp: dag_inv_def buffer_ok_def btree_simps)
  moreover have "store_ok ?d'"
  proof -
    have "\<exists>l \<in> set (ds_recent_refs_by_authority ?d' ! br_author r). br_round r \<le> br_round l"
      if sx: "stored d r = Some x" for r x
    proof -
      have "store_ok d" using inv by (simp add: dag_inv_def)
      then obtain l where "l \<in> set (ds_recent_refs_by_authority d ! br_author r)"
          "br_round r \<le> br_round l"
        using sx unfolding store_ok_def by blast
      moreover have "set (ds_recent_refs_by_authority d ! br_author r)
          \<subseteq> set (ds_recent_refs_by_authority ?d' ! br_author r)"
        using inv b by (auto simp: dag_inv_def refs_ok_def acceptable_def nth_list_update bts_insert_set)
      ultimately show ?thesis by blast
    qed
    then show ?thesis
      using inv no unfolding store_ok_def st by (auto simp: dag_inv_def store_ok_def btree_simps)
  qed
  ultimately show ?thesis using inv clock by (simp add: dag_inv_def)
qed

text \<open>The state after a block has been accepted that is neither known nor a second own block of its slot.\<close>

lemma accept_block_new:
  assumes inv: "dag_inv d" and b: "acceptable d b" and new: "get_block d (vb_reference b) = None"
    and own: "\<not> (vb_author b = ctx_own_index (ds_context d) \<and> get_uncommitted_blocks_at_slot d (slot_of (vb_reference b)) \<noteq> [])"
  shows "\<exists>advanced clock d'. accept_block d b now = Some d' \<and> dag_inv d' \<and>
     threshold_clock_add_block (ds_threshold_clock d) (vb_reference b) now = Some (advanced, clock) \<and>
     d' = d\<lparr>
      ds_recent_blocks := btm_insert (vb_reference b)
        \<lparr>bi_block = b, bi_committed = False, bi_included = False\<rparr> (ds_recent_blocks d),
      ds_recent_refs_by_authority := (ds_recent_refs_by_authority d)
        [vb_author b := bts_insert (vb_reference b) (ds_recent_refs_by_authority d ! vb_author b)],
      ds_threshold_clock := clock,
      ds_highest_accepted_round := max (ds_highest_accepted_round d) (vb_round b),
      ds_blocks_to_write := ds_blocks_to_write d @ [b]\<rparr> \<and>
     get_block d' = (get_block d)(vb_reference b \<mapsto> b)" (is "\<exists>advanced clock d'. _ \<and> _ \<and> _ \<and> d' = ?new clock \<and> _")
proof -
  let ?r = "vb_reference b"
  have c: "contains_block d ?r = Some False"
    using contains_block_correct [OF inv, of ?r] new b by (simp add: acceptable_def)
  obtain advanced clock where clock: "threshold_clock_add_block (ds_threshold_clock d) ?r now = Some (advanced, clock)"
      "update_block_metadata d b now = Some ((?new clock)\<lparr>ds_blocks_to_write := ds_blocks_to_write d\<rparr>)"
      "tc_inv clock" "tc_committee clock = ds_committee d"
    using update_block_metadata_fields [OF inv b, of now] by auto
  have "accept_block d b now = Some (?new clock)"
    using c b own clock(2) by (auto simp: accept_block_def acceptable_def)
  moreover have "dag_inv (?new clock)" by (rule dag_inv_add [OF inv b new clock(3,4)])
  moreover have "get_block (?new clock) = (get_block d)(?r \<mapsto> b)"
  proof
    fix x
    have "stored (?new clock) x = stored d x" by (simp add: stored_def)
    then show "get_block (?new clock) x = ((get_block d)(?r \<mapsto> b)) x"
      unfolding get_block_eq using b
      by (cases "btm_get (ds_recent_blocks d) x") (simp_all add: btree_simps acceptable_def)
  qed
  ultimately show ?thesis using clock(1) by blast
qed

lemma accept_block_known:
  assumes "dag_inv d" "acceptable d b"
    and "get_block d (vb_reference b) \<noteq> None \<or>
       vb_author b = ctx_own_index (ds_context d) \<and> get_uncommitted_blocks_at_slot d (slot_of (vb_reference b)) \<noteq> []"
  shows "accept_block d b now = Some d"
  using contains_block_correct [OF assms(1), of "vb_reference b"] assms(2,3) by (auto simp: accept_block_def acceptable_def)

lemma accept_block_cases:
  assumes inv: "dag_inv d" and b: "acceptable d b"
  shows "\<exists>d'. accept_block d b now = Some d' \<and> dag_inv d' \<and> ds_context d' = ds_context d \<and>
     (d' = d \<and> (get_block d (vb_reference b) \<noteq> None \<or>
                vb_author b = ctx_own_index (ds_context d) \<and>
                get_uncommitted_blocks_at_slot d (slot_of (vb_reference b)) \<noteq> []) \<or>
      get_block d (vb_reference b) = None \<and>
      get_block d' = (get_block d)(vb_reference b \<mapsto> b) \<and> ds_last_commit d' = ds_last_commit d \<and>
      ds_highest_accepted_round d' = max (ds_highest_accepted_round d) (vb_round b) \<and>
      ds_recent_blocks d' = btm_insert (vb_reference b)
        \<lparr>bi_block = b, bi_committed = False, bi_included = False\<rparr> (ds_recent_blocks d))"
proof (cases "get_block d (vb_reference b) \<noteq> None \<or>
    vb_author b = ctx_own_index (ds_context d) \<and> get_uncommitted_blocks_at_slot d (slot_of (vb_reference b)) \<noteq> []")
  case True
  then show ?thesis using accept_block_known [OF inv b True, of now] inv by blast
next
  case False
  with accept_block_new [OF inv b, of now] show ?thesis by auto
qed

text \<open>C36: accepting a block.  For a well-formed state and a block of a valid round and author,
  \<^verbatim>\<open>accept_block\<close> does not panic and keeps the invariant.  The state is unchanged exactly when
  the block is already known or would be a second own block in its slot.  Otherwise the block's
  reference now yields the block and every other reference what it did, the block is cached as neither
  committed nor included, its reference is listed for its author, the block is queued for writing behind those already queued, the threshold clock is
  the one after adding the reference, the highest accepted round is raised to the round of the
  block, and all other fields (commits, votes, evicted rounds, store) are as before.\<close>

theorem accept_block_spec:
  assumes "dag_inv d" "acceptable d b"
  shows "\<exists>d'. accept_block d b now = Some d' \<and> dag_inv d' \<and>
     (if get_block d (vb_reference b) \<noteq> None \<or>
         vb_author b = ctx_own_index (ds_context d) \<and> get_uncommitted_blocks_at_slot d (slot_of (vb_reference b)) \<noteq> []
      then d' = d
      else get_block d' = (get_block d)(vb_reference b \<mapsto> b) \<and>
        btm_get (ds_recent_blocks d') = (btm_get (ds_recent_blocks d))
           (vb_reference b \<mapsto> \<lparr>bi_block = b, bi_committed = False, bi_included = False\<rparr>) \<and>
        (\<forall>a < committee_size (ds_committee d). set (ds_recent_refs_by_authority d' ! a) =
           set (ds_recent_refs_by_authority d ! a) \<union> (if a = vb_author b then {vb_reference b} else {})) \<and>
        (\<exists>advanced. threshold_clock_add_block (ds_threshold_clock d) (vb_reference b) now = Some (advanced, ds_threshold_clock d')) \<and>
        ds_highest_accepted_round d' = max (ds_highest_accepted_round d) (vb_round b) \<and>
        ds_blocks_to_write d' = ds_blocks_to_write d @ [b] \<and>
        d' = d\<lparr>ds_recent_blocks := ds_recent_blocks d', ds_recent_refs_by_authority := ds_recent_refs_by_authority d',
               ds_threshold_clock := ds_threshold_clock d', ds_highest_accepted_round := ds_highest_accepted_round d',
               ds_blocks_to_write := ds_blocks_to_write d'\<rparr>)"
proof (cases "get_block d (vb_reference b) \<noteq> None \<or>
    vb_author b = ctx_own_index (ds_context d) \<and> get_uncommitted_blocks_at_slot d (slot_of (vb_reference b)) \<noteq> []")
  case True
  then show ?thesis using accept_block_known [OF assms True, of now] assms(1) by simp
next
  case False
  have "length (ds_recent_refs_by_authority d) = committee_size (ds_committee d)"
    using assms(1) by (simp add: dag_inv_def refs_ok_def)
  with False accept_block_new [OF assms, of now] show ?thesis
    by (auto simp: nth_list_update btree_simps fun_eq_iff)
qed

definition block4 :: verified_block where
  "block4 = example_block 1 2 9 1001 (map (\<lambda>i. BlockRef 0 i 7) [0..<4])"

lemma block4_acceptable: "acceptable dag4 block4"
  by (simp add: acceptable_def block4_def ref_bounds_def)

theorem accept_block_spec_witness:
  "\<exists>d'. accept_block dag4 block4 5 = Some d' \<and> dag_inv d' \<and>
        get_block d' = (get_block dag4)(BlockRef 1 2 9 \<mapsto> block4) \<and>
        ds_highest_accepted_round d' = 1 \<and> ds_blocks_to_write d' = [block4] \<and> ds_last_commit d' = None"
proof -
  have "get_block dag4 (BlockRef 1 2 9) = None"
    unfolding get_block_eq by (simp add: dag4_def fresh_dag_state_def stored_def mem_store_new_def)
  then obtain d' where d': "accept_block dag4 block4 5 = Some d'" "dag_inv d'" "get_block d' = (get_block dag4)(BlockRef 1 2 9 \<mapsto> block4)"
      "ds_highest_accepted_round d' = max (ds_highest_accepted_round dag4) 1" "ds_blocks_to_write d' = ds_blocks_to_write dag4 @ [block4]"
      "d' = dag4\<lparr>ds_recent_blocks := ds_recent_blocks d', ds_recent_refs_by_authority := ds_recent_refs_by_authority d',
         ds_threshold_clock := ds_threshold_clock d', ds_highest_accepted_round := ds_highest_accepted_round d',
         ds_blocks_to_write := ds_blocks_to_write d'\<rparr>"
    using accept_block_spec [OF dag4_inv block4_acceptable, of 5] by (auto simp: block4_def context4_def)
  have "ds_last_commit d' = None" by (subst d'(6)) (simp add: dag4_def fresh_dag_state_def)
  with d'(1-5) show ?thesis by (simp add: dag4_def fresh_dag_state_def)
qed

lemma dag4_accepted:
  "\<exists>d'. accept_block dag4 block4 5 = Some d' \<and> dag_inv d' \<and>
        ds_recent_blocks d'
          = [(BlockRef 1 2 9, \<lparr>bi_block = block4, bi_committed = False, bi_included = False\<rparr>)] \<and>
        gc_round d' = 0 \<and> ds_last_commit d' = None"
proof -
  obtain d' where d': "accept_block dag4 block4 5 = Some d'" "dag_inv d'"
    using accept_block_cases [OF dag4_inv block4_acceptable, of 5] by blast
  have new: "contains_block dag4 (vb_reference block4) = Some False"
    using contains_block_correct [OF dag4_inv, of "vb_reference block4"]
    unfolding get_block_eq
    by (simp add: block4_def dag4_def fresh_dag_state_def stored_def mem_store_new_def context4_def)
  then obtain d1 where d1: "update_block_metadata dag4 block4 5 = Some d1"
      "d' = d1\<lparr>ds_blocks_to_write := ds_blocks_to_write d1 @ [block4]\<rparr>"
    using d'(1) unfolding accept_block_def
    by (auto simp: block4_def context4_def split: bind_splits)
  obtain clock where "d1 = dag4\<lparr>
      ds_recent_blocks := btm_insert (vb_reference block4)
        \<lparr>bi_block = block4, bi_committed = False, bi_included = False\<rparr> (ds_recent_blocks dag4),
      ds_recent_refs_by_authority := (ds_recent_refs_by_authority dag4)
        [vb_author block4 := bts_insert (vb_reference block4)
           (ds_recent_refs_by_authority dag4 ! vb_author block4)],
      ds_threshold_clock := clock,
      ds_highest_accepted_round := max (ds_highest_accepted_round dag4) (vb_round block4)\<rparr>"
    using update_block_metadata_fields [OF dag4_inv block4_acceptable, of 5] d1(1) by auto
  with d1(2) have "ds_recent_blocks d'
      = [(BlockRef 1 2 9, \<lparr>bi_block = block4, bi_committed = False, bi_included = False\<rparr>)]" "gc_round d' = 0" "ds_last_commit d' = None"
    by (simp_all add: btree_simps block4_def gc_round_def calculate_gc_round_def last_commit_round_def
        dag4_def fresh_dag_state_def)
  with d' show ?thesis by blast
qed

lemma accept_blocks_total:
  assumes "dag_inv d" "\<And>b. b \<in> set bs \<Longrightarrow> acceptable d b"
  shows "\<exists>d'. accept_blocks d bs now = Some d' \<and> (dag_inv d' \<and> ds_context d' = ds_context d)"
  unfolding accept_blocks_def
proof (rule fold_opt_total)
  fix b s
  assume "b \<in> set bs" and s: "dag_inv s \<and> ds_context s = ds_context d"
  then have "acceptable s b" using assms(2) by (simp add: acceptable_def)
  then show "\<exists>s'. accept_block s b now = Some s' \<and> dag_inv s' \<and> ds_context s' = ds_context d"
    using accept_block_cases [of s b now] s by fastforce
qed (use assms(1) in simp)

subsection \<open>Flags of cached blocks\<close>

text \<open>The invariant and reads do not see the \<^verbatim>\<open>committed\<close> and \<^verbatim>\<open>included\<close> flags of the cache.\<close>

lemma recent_blocks_cong:
  assumes inv: "dag_inv d" and wf: "btm_wf m"
    and same: "\<And>r. map_option bi_block (btm_get m r) = map_option bi_block (btm_get (ds_recent_blocks d) r)"
  shows "dag_inv (d\<lparr>ds_recent_blocks := m\<rparr>)" and "get_block (d\<lparr>ds_recent_blocks := m\<rparr>) = get_block d"
proof -
  let ?d = "d\<lparr>ds_recent_blocks := m\<rparr>"
  have iff: "btm_get m r \<noteq> None \<longleftrightarrow> btm_get (ds_recent_blocks d) r \<noteq> None" for r
    using same [of r] by (metis option.map_disc_iff)
  have some: "\<exists>info'. btm_get (ds_recent_blocks d) r = Some info' \<and> bi_block info' = bi_block info"
    if "btm_get m r = Some info" for r info
    using same [of r] that by (cases "btm_get (ds_recent_blocks d) r") simp_all
  have some': "\<exists>info'. btm_get m r = Some info' \<and> bi_block info' = bi_block info"
    if "btm_get (ds_recent_blocks d) r = Some info" for r info
    using same [of r] that by (cases "btm_get m r") simp_all
  have st: "stored ?d = stored d" by (simp add: stored_def fun_eq_iff)
  have "recent_ok ?d"
    using inv wf some by (fastforce simp: dag_inv_def recent_ok_def)
  moreover have "refs_ok ?d"
    using inv iff by (simp add: dag_inv_def refs_ok_def)
  moreover have "buffer_ok ?d"
  proof -
    have "buffer_ok d" using inv by (simp add: dag_inv_def)
    then show ?thesis using some some' unfolding buffer_ok_def st by simp metis
  qed
  moreover have "store_ok ?d"
  proof -
    have "store_ok d" using inv by (simp add: dag_inv_def)
    moreover have "bi_block info = b" if sb: "stored d r = Some b" "btm_get m r = Some info" for r b info
    proof -
      obtain info' where i: "btm_get (ds_recent_blocks d) r = Some info'" "bi_block info' = bi_block info"
        using some [OF sb(2)] by blast
      moreover have "bi_block info' = b"
        using \<open>store_ok d\<close> sb(1) i(1) unfolding store_ok_def by blast
      ultimately show ?thesis by simp
    qed
    ultimately show ?thesis unfolding store_ok_def st by simp
  qed
  ultimately show "dag_inv ?d" using inv by (simp add: dag_inv_def)
  show "get_block ?d = get_block d"
  proof
    fix r
    show "get_block ?d r = get_block d r"
      using same [of r] unfolding get_block_eq st
      by (cases "btm_get m r"; cases "btm_get (ds_recent_blocks d) r") auto
  qed
qed

lemma set_committed_exact:
  assumes "dag_inv d" "set_committed d r = (ok, d')"
  shows "dag_inv d' \<and> get_block d' = get_block d \<and>
    (ok \<longleftrightarrow> btm_get (ds_recent_blocks d) r \<noteq> None \<and> \<not> is_committed d r) \<and>
    (\<forall>x. is_committed d' x \<longleftrightarrow> is_committed d x \<or> ok \<and> x = r) \<and>
    fst (set_committed d' r) = False"
proof (cases "ok")
  case True
  then obtain info where info: "btm_get (ds_recent_blocks d) r = Some info" "\<not> bi_committed info"
      "d' = d\<lparr>ds_recent_blocks := btm_insert r (info\<lparr>bi_committed := True\<rparr>) (ds_recent_blocks d)\<rparr>"
    using assms(2) by (auto simp: set_committed_def split: option.splits if_splits)
  have wf: "btm_wf (btm_insert r (info\<lparr>bi_committed := True\<rparr>) (ds_recent_blocks d))"
    using assms(1) by (simp add: dag_inv_def recent_ok_def btree_simps)
  have "dag_inv d'" "get_block d' = get_block d"
    unfolding info(3) by (rule recent_blocks_cong [OF assms(1) wf]; use info(1) in \<open>simp add: btree_simps\<close>)+
  moreover have "is_committed d' x \<longleftrightarrow> is_committed d x \<or> x = r" for x
    unfolding is_committed_def info(3) by (simp add: btree_simps)
  moreover have "fst (set_committed d' r) = False"
    unfolding set_committed_def info(3) by (simp add: btree_simps)
  ultimately show ?thesis using True info(1,2) by (simp add: is_committed_def)
next
  case False
  then have "d' = d" "btm_get (ds_recent_blocks d) r = None \<or> is_committed d r"
    using assms(2) by (auto simp: set_committed_def is_committed_def split: option.splits if_splits)
  with False assms show ?thesis by (auto simp: set_committed_def is_committed_def split: option.splits)
qed

text \<open>Committing a block.  \<^verbatim>\<open>set_committed\<close> returns true exactly when the block is cached and was
  not committed yet; afterwards a cached block is committed, no other block's status changes, the
  invariant is kept and reads are unaffected.  In particular it succeeds at most once per block.\<close>

theorem set_committed_spec:
  assumes "dag_inv d" "set_committed d r = (ok, d')"
  shows "dag_inv d' \<and> get_block d' = get_block d \<and>
    (ok \<longleftrightarrow> btm_get (ds_recent_blocks d) r \<noteq> None \<and> \<not> is_committed d r) \<and>
    (\<forall>x. is_committed d' x \<longleftrightarrow> is_committed d x \<or> ok \<and> x = r) \<and>
    fst (set_committed d' r) = False"
  using set_committed_exact [OF assms] .

theorem set_committed_spec_witness:
  "\<exists>d d'. dag_inv d \<and> set_committed d (BlockRef 1 2 9) = (True, d') \<and> dag_inv d' \<and>
      is_committed d' (BlockRef 1 2 9) \<and> \<not> fst (set_committed d' (BlockRef 1 2 9))"
proof -
  obtain d where d: "dag_inv d" "btm_get (ds_recent_blocks d) (BlockRef 1 2 9)
      = Some \<lparr>bi_block = block4, bi_committed = False, bi_included = False\<rparr>"
    using dag4_accepted by auto
  obtain ok d' where s: "set_committed d (BlockRef 1 2 9) = (ok, d')" by fastforce
  have "ok" using set_committed_spec [OF d(1) s] d(2) by (simp add: is_committed_def)
  with set_committed_spec [OF d(1) s] d(1) s show ?thesis by auto
qed

subsection \<open>Flushing\<close>

lemma bts_wf_later:
  "bts_wf (x # refs) \<Longrightarrow> \<not> br_round x \<le> ev \<Longrightarrow> y \<in> set refs \<Longrightarrow> ev < br_round y"
  using block_ref_less_round [of x y] by (fastforce simp: bts_wf_def)

lemma evict_refs_spec:
  assumes "bts_wf refs" "evict_refs ev refs m = (refs', m')" "btm_wf m"
  shows "refs' = filter (\<lambda>r. ev < br_round r) refs \<and> btm_wf m' \<and>
    (\<forall>r. btm_get m' r = (if r \<in> set refs \<and> br_round r \<le> ev then None else btm_get m r))"
  using assms
proof (induction ev refs m rule: evict_refs.induct)
  case (2 ev x refs m)
  show ?case
  proof (cases "br_round x \<le> ev")
    case True
    with 2 show ?thesis by (auto simp: bts_wf_def btree_simps)
  next
    case False
    have "\<forall>y \<in> set refs. ev < br_round y" using bts_wf_later [OF 2(2) False] by blast
    with False 2(3,4) show ?thesis by (fastforce simp: filter_id_conv not_le)
  qed
qed simp

definition all_stored :: "dag_state \<Rightarrow> bool" where
  "all_stored d \<longleftrightarrow>
     (\<forall>r info. btm_get (ds_recent_blocks d) r = Some info \<longrightarrow> stored d r = Some (bi_block info))"

lemma evict_authority_spec:
  assumes inv: "dag_inv d" and st: "all_stored d" "ds_blocks_to_write d = []"
    and a: "a < committee_size (ds_committee d)"
  shows "\<exists>d'. evict_authority a d = Some d' \<and> dag_inv d' \<and> all_stored d' \<and>
     ds_blocks_to_write d' = [] \<and> ds_context d' = ds_context d \<and> ds_store d' = ds_store d \<and>
     gc_round d' = gc_round d \<and> get_block d' = get_block d \<and>
     (\<forall>r. btm_get (ds_recent_blocks d') r = btm_get (ds_recent_blocks d) r \<or>
          btm_get (ds_recent_blocks d') r = None \<and> br_round r \<le> gc_round d)"
proof -
  let ?refs = "ds_recent_refs_by_authority d ! a"
  note refs = dag_inv_refs [OF inv a]
  define ev where "ev = eviction_round (case bts_last ?refs of Some r \<Rightarrow> br_round r | None \<Rightarrow> GENESIS_ROUND)
     (gc_round d) (ds_cached_rounds d)"
  obtain refs' m' where ev': "evict_refs ev ?refs (ds_recent_blocks d) = (refs', m')" by force
  have wf: "btm_wf (ds_recent_blocks d)" using inv by (simp add: dag_inv_def recent_ok_def)
  have e: "refs' = filter (\<lambda>r. ev < br_round r) ?refs" "btm_wf m'"
      "\<And>r. btm_get m' r = (if r \<in> set ?refs \<and> br_round r \<le> ev then None else btm_get (ds_recent_blocks d) r)"
    using evict_refs_spec [OF refs(2) ev' wf] by simp_all
  let ?d = "d\<lparr>ds_recent_blocks := m',
       ds_recent_refs_by_authority := (ds_recent_refs_by_authority d)[a := refs'],
       ds_evicted_rounds := (ds_evicted_rounds d)[a := ev]\<rparr>"
  have run: "evict_authority a d = Some ?d"
    using inv a refs(1) ev' unfolding evict_authority_def calculate_authority_eviction_round_def ev_def
    by (simp add: vec_get_def vec_set_def dag_inv_def Let_def)
  have get: "btm_get m' r = (if btm_get (ds_recent_blocks d) r \<noteq> None \<and> br_author r = a \<and> br_round r \<le> ev
       then None else btm_get (ds_recent_blocks d) r)" for r
    using e(3) [of r] refs(3) by auto
  have sto: "stored ?d = stored d" by (simp add: stored_def fun_eq_iff)
  have "recent_ok ?d" using inv e(2) get by (auto simp: dag_inv_def recent_ok_def)
  moreover have "refs_ok ?d"
    using inv refs e(1) get
    by (auto simp: dag_inv_def refs_ok_def nth_list_update bts_wf_def sorted_wrt_filter)
  moreover have "buffer_ok ?d"
    using st get unfolding buffer_ok_def sto by (auto simp: all_stored_def split: if_splits)
  moreover have "store_ok ?d"
  proof -
    have "\<exists>l \<in> set (ds_recent_refs_by_authority ?d ! br_author r). br_round r \<le> br_round l"
      if r: "stored d r = Some x" for r x
    proof -
      have "store_ok d" using inv by (simp add: dag_inv_def)
      then obtain l where l: "l \<in> set (ds_recent_refs_by_authority d ! br_author r)"
          "br_round r \<le> br_round l" "0 < br_round r"
        using r unfolding store_ok_def by blast
      show ?thesis
      proof (cases "br_author r = a")
        case True
        then obtain k where k: "bts_last ?refs = Some k" "l \<le> k"
          using bts_last_max [OF refs(2)] l(1) by blast
        then have "k \<in> set ?refs" by (auto simp: bts_last_def split: if_splits)
        moreover have "ev < br_round k" "br_round r \<le> br_round k"
          using k l inv block_ref_less_round [of l k] by (auto simp: ev_def eviction_round_def dag_inv_def)
        ultimately show ?thesis using True refs(1) e(1) by auto
      qed (use l in auto)
    qed
    then show ?thesis
      using inv get unfolding store_ok_def sto by (auto simp: dag_inv_def store_ok_def)
  qed
  ultimately have "dag_inv ?d" using inv by (simp add: dag_inv_def)
  moreover have "all_stored ?d" using st(1) get unfolding all_stored_def sto by simp
  moreover have "get_block ?d r = get_block d r" for r
    using st(1) get [of r] unfolding get_block_eq sto
    by (cases "btm_get (ds_recent_blocks d) r") (auto simp: all_stored_def)
  moreover have "gc_round ?d = gc_round d"
    by (simp add: gc_round_def calculate_gc_round_def last_commit_round_def)
  moreover have "ev \<le> gc_round d" by (simp add: ev_def eviction_round_def)
  ultimately show ?thesis using run get st(2) by (auto simp: fun_eq_iff)
qed

lemma all_stored_write:
  assumes inv: "dag_inv d"
    and wb: "wb_blocks wb = ds_blocks_to_write d"
  defines "d' \<equiv> d\<lparr>ds_blocks_to_write := [], ds_commits_to_write := [], ds_commit_info_to_write := [],
      ds_finalized_commits_to_write := [], ds_store := mem_write (ds_store d) wb\<rparr>"
  shows "dag_inv d' \<and> all_stored d' \<and> get_block d' = get_block d"
proof -
  have buf: "\<exists>info. btm_get (ds_recent_blocks d) (vb_reference b) = Some info \<and> bi_block info = b"
    if "b \<in> set (wb_blocks wb)" for b
    using inv wb that by (auto simp: dag_inv_def buffer_ok_def)
  have inj: "inj_on vb_reference (set (wb_blocks wb))"
    using buf by (metis (no_types, lifting) inj_onI option.inject)
  have written: "stored d' (vb_reference b) = Some b" if "b \<in> set (wb_blocks wb)" for b
    using ms.read_written [OF that inj, of "ds_store d"]
    by (simp add: d'_def stored_def mem_read_blocks_def)
  have other: "stored d' r = stored d r" if "r \<notin> vb_reference ` set (wb_blocks wb)" for r
    using ms.read_other [OF that, of "ds_store d"] by (simp add: d'_def stored_def mem_read_blocks_def)
  have ref: "vb_reference (bi_block info) = r" "ref_bounds r" "0 < br_round r"
      "br_author r < committee_size (ds_committee d)"
    if "btm_get (ds_recent_blocks d) r = Some info" for r info
    using inv that by (auto simp: dag_inv_def recent_ok_def)
  have all: "stored d' r = Some (bi_block info)" if "btm_get (ds_recent_blocks d) r = Some info" for r info
  proof (cases "r \<in> vb_reference ` set (wb_blocks wb)")
    case True
    then obtain b where "b \<in> set (wb_blocks wb)" "r = vb_reference b" by blast
    with buf [of b] written [of b] \<open>btm_get _ r = _\<close> show ?thesis by simp
  next
    case False
    then have "bi_block info \<notin> set (wb_blocks wb)" using ref(1) [OF that] by blast
    then have "stored d r = Some (bi_block info)" using inv that wb by (auto simp: dag_inv_def buffer_ok_def)
    then show ?thesis using other [OF False] by simp
  qed
  have from_old: "stored d r = Some b \<or> (\<exists>info. btm_get (ds_recent_blocks d) r = Some info \<and> bi_block info = b)"
    if "stored d' r = Some b" for r b
    using that buf written other [of r] by (cases "r \<in> vb_reference ` set (wb_blocks wb)") force+
  have "mem_inv (ds_store d')"
    using inv buf ref unfolding d'_def
    by (simp, intro mem_inv_write) (use inv in \<open>simp add: dag_inv_def store_ok_def\<close>, blast)
  moreover have "\<exists>l \<in> set (ds_recent_refs_by_authority d ! br_author r). br_round r \<le> br_round l"
      "0 < br_round r" "br_author r < committee_size (ds_committee d)"
    if r: "stored d' r = Some b" for r b
  proof -
    consider "stored d r = Some b" | info where "btm_get (ds_recent_blocks d) r = Some info"
      using from_old [OF r] by blast
    then have "0 < br_round r \<and> br_author r < committee_size (ds_committee d) \<and>
       (\<exists>l \<in> set (ds_recent_refs_by_authority d ! br_author r). br_round r \<le> br_round l)"
    proof cases
      case 1
      moreover have "store_ok d" using inv by (simp add: dag_inv_def)
      ultimately show ?thesis unfolding store_ok_def by blast
    next
      case 2
      then show ?thesis using ref [OF 2] dag_inv_refs(3) [OF inv ref(4) [OF 2]] by auto
    qed
    then show "\<exists>l \<in> set (ds_recent_refs_by_authority d ! br_author r). br_round r \<le> br_round l"
      "0 < br_round r" "br_author r < committee_size (ds_committee d)" by simp_all
  qed
  moreover have "bi_block info = b"
    if "stored d' r = Some b" "btm_get (ds_recent_blocks d) r = Some info" for r b info
    using all [OF that(2)] that(1) by simp
  moreover have "ds_recent_refs_by_authority d' = ds_recent_refs_by_authority d"
      "ds_recent_blocks d' = ds_recent_blocks d" "ds_context d' = ds_context d"
    by (simp_all add: d'_def)
  ultimately have "store_ok d'" unfolding store_ok_def by auto
  moreover have "buffer_ok d'" using all by (simp add: buffer_ok_def d'_def)
  ultimately have "dag_inv d'" using inv by (simp add: dag_inv_def recent_ok_def refs_ok_def d'_def)
  moreover have "get_block d' r = get_block d r" for r
  proof -
    have "ds_genesis d' = ds_genesis d" "ds_recent_blocks d' = ds_recent_blocks d"
      by (simp_all add: d'_def)
    moreover have "stored d' r = stored d r" if "btm_get (ds_recent_blocks d) r = None"
      using buf other [of r] that by force
    ultimately show ?thesis unfolding get_block_eq by (cases "btm_get (ds_recent_blocks d) r") simp_all
  qed
  ultimately show ?thesis using all by (simp add: all_stored_def d'_def fun_eq_iff)
qed

lemma flush_total:
  assumes "dag_inv d"
  shows "\<exists>d'. flush d = Some d' \<and> dag_inv d' \<and> ds_blocks_to_write d' = [] \<and>
     ds_context d' = ds_context d \<and> gc_round d' = gc_round d \<and> get_block d' = get_block d \<and>
     (\<forall>r info. btm_get (ds_recent_blocks d) r = Some info \<longrightarrow>
        mem_read_blocks (ds_store d') [r] = [Some (bi_block info)] \<and>
        (btm_get (ds_recent_blocks d') r = Some info \<or> br_round r \<le> gc_round d))"
proof -
  let ?wb = "\<lparr>wb_blocks = ds_blocks_to_write d, wb_commits = ds_commits_to_write d,
      wb_commit_info = ds_commit_info_to_write d,
      wb_finalized_commits = ds_finalized_commits_to_write d\<rparr>"
  let ?d1 = "d\<lparr>ds_blocks_to_write := [], ds_commits_to_write := [], ds_commit_info_to_write := [],
      ds_finalized_commits_to_write := [], ds_store := mem_write (ds_store d) ?wb\<rparr>"
  let ?n = "committee_size (ctx_committee (ds_context d))"
  let ?empty = "ds_blocks_to_write d = [] \<and> ds_commits_to_write d = [] \<and>
      ds_commit_info_to_write d = [] \<and> ds_finalized_commits_to_write d = []"
  show ?thesis
  proof (cases ?empty)
    case True
    then have "flush d = Some d" by (simp add: flush_def)
    moreover have "all_stored d" using assms True by (simp add: dag_inv_def buffer_ok_def all_stored_def)
    ultimately show ?thesis
      using assms True by (simp add: all_stored_def mem_read_stored)
  next
    case False
    let ?P = "\<lambda>d'. dag_inv d' \<and> all_stored d' \<and> ds_blocks_to_write d' = [] \<and>
       ds_context d' = ds_context d \<and> ds_store d' = ds_store ?d1 \<and> gc_round d' = gc_round d \<and>
       get_block d' = get_block d \<and>
       (\<forall>r. btm_get (ds_recent_blocks d') r = btm_get (ds_recent_blocks d) r \<or>
            btm_get (ds_recent_blocks d') r = None \<and> br_round r \<le> gc_round d)"
    note w = all_stored_write [OF assms, of ?wb]
    have "?P ?d1"
      using w by (simp add: gc_round_def calculate_gc_round_def last_commit_round_def)
    then have "\<exists>t. fold_opt evict_authority [0..<?n] ?d1 = Some t \<and> ?P t"
    proof (rule fold_opt_total [of ?P ?d1 "[0..<?n]" evict_authority])
      fix a s assume "a \<in> set [0..<?n]" "?P s"
      then obtain s' where s': "evict_authority a s = Some s'" "dag_inv s'" "all_stored s'"
          "ds_blocks_to_write s' = []" "ds_context s' = ds_context s" "ds_store s' = ds_store s"
          "gc_round s' = gc_round s" "get_block s' = get_block s"
          "\<And>r. btm_get (ds_recent_blocks s') r = btm_get (ds_recent_blocks s) r \<or>
             btm_get (ds_recent_blocks s') r = None \<and> br_round r \<le> gc_round s"
        using evict_authority_spec [of s a] by auto
      moreover have "btm_get (ds_recent_blocks s') r = btm_get (ds_recent_blocks d) r \<or>
             btm_get (ds_recent_blocks s') r = None \<and> br_round r \<le> gc_round d" for r
        using s'(9) [of r] \<open>?P s\<close> by metis
      ultimately show "\<exists>s'. evict_authority a s = Some s' \<and> ?P s'"
        using \<open>?P s\<close> by (intro exI [of _ s']) simp
    qed
    then obtain t where t: "fold_opt evict_authority [0..<?n] ?d1 = Some t" "?P t" by blast
    have "flush d = Some t" using False t(1) unfolding flush_def Let_def by (subst if_not_P) simp_all
    moreover have "mem_read_blocks (ds_store t) [r] = [Some (bi_block info)]"
      if "btm_get (ds_recent_blocks d) r = Some info" for r info
      using w t(2) that by (simp add: all_stored_def stored_def mem_read_blocks_def)
    moreover have "btm_get (ds_recent_blocks t) r = Some info \<or> br_round r \<le> gc_round d"
      if "btm_get (ds_recent_blocks d) r = Some info" for r info
      using t(2) that by metis
    ultimately show ?thesis using t(2) by blast
  qed
qed

text \<open>C37: flushing.  From a well-formed state \<^verbatim>\<open>flush\<close> does not panic, keeps the invariant, empties
  the write buffer, leaves every block readable exactly as before, persists every block that was
  cached, and evicts from the cache only blocks at or below the garbage collection round.\<close>

theorem flush_spec:
  assumes "dag_inv d"
  shows "\<exists>d'. flush d = Some d' \<and> dag_inv d' \<and> ds_blocks_to_write d' = [] \<and>
     get_block d' = get_block d \<and>
     (\<forall>r info. btm_get (ds_recent_blocks d) r = Some info \<longrightarrow>
        mem_read_blocks (ds_store d') [r] = [Some (bi_block info)] \<and>
        (btm_get (ds_recent_blocks d') r = Some info \<or> br_round r \<le> gc_round d))"
  using flush_total [OF assms] by blast

theorem flush_spec_witness:
  "\<exists>d d' info. accept_block dag4 block4 5 = Some d \<and> flush d = Some d' \<and>
      btm_get (ds_recent_blocks d') (BlockRef 1 2 9) = Some info \<and>
      mem_read_blocks (ds_store d') [BlockRef 1 2 9] = [Some (bi_block info)]"
proof -
  obtain d where d: "accept_block dag4 block4 5 = Some d" "dag_inv d" "gc_round d = 0"
      "btm_get (ds_recent_blocks d) (BlockRef 1 2 9)
         = Some \<lparr>bi_block = block4, bi_committed = False, bi_included = False\<rparr>"
    using dag4_accepted by auto
  with flush_spec [OF d(2)] show ?thesis by fastforce
qed

end
