(* ===== verification/Dag_Traversal.thy ===== *)
theory Dag_Traversal
  imports Dag_Properties
begin

section \<open>Traversals of the DAG\<close>

text \<open>
  What the two graph searches of \<^verbatim>\<open>DagState\<close> compute: \<^verbatim>\<open>link_causal_history\<close> marks exactly the
  not yet included blocks reachable above the garbage collection round, and \<^verbatim>\<open>ancestors_at_round\<close>
  ends and returns exactly the causal ancestors of a block in an earlier round.
\<close>

subsection \<open>Linking the causal history\<close>

inductive_set link_reach ::
  "Round \<Rightarrow> (block_ref, block_info) btree_map \<Rightarrow> block_ref set \<Rightarrow> block_ref set"
  for gc :: Round and m :: "(block_ref, block_info) btree_map" and T :: "block_ref set" where
  target: "r \<in> T \<Longrightarrow> gc < br_round r \<Longrightarrow> r \<in> unlinked m \<Longrightarrow> r \<in> link_reach gc m T"
| ancestor: "x \<in> link_reach gc m T \<Longrightarrow> btm_get m x = Some info \<Longrightarrow> r \<in> set (vb_ancestors (bi_block info)) \<Longrightarrow>
     gc < br_round r \<Longrightarrow> r \<in> unlinked m \<Longrightarrow> r \<in> link_reach gc m T"

lemma link_reach_empty [simp]: "link_reach gc m {} = {}"
proof -
  have "x \<in> link_reach gc m {} \<Longrightarrow> False" for x by (induction rule: link_reach.induct) auto
  then show ?thesis by blast
qed

lemma link_reach_unlinked: "r \<in> link_reach gc m T \<Longrightarrow> r \<in> unlinked m"
  by (erule link_reach.cases) auto

lemma link_reach_skip:
  assumes "br_round r \<le> gc \<or> r \<notin> unlinked m"
  shows "link_reach gc m (insert r T) = link_reach gc m T"
proof (intro equalityI subsetI)
  fix x assume "x \<in> link_reach gc m (insert r T)"
  then show "x \<in> link_reach gc m T"
    by induction (use assms in \<open>auto intro: link_reach.intros\<close>)
next
  fix x assume "x \<in> link_reach gc m T"
  then show "x \<in> link_reach gc m (insert r T)" by induction (auto intro: link_reach.intros)
qed

lemma link_reach_mark:
  assumes r: "btm_get m r = Some info" "\<not> bi_included info" "gc < br_round r"
  shows "link_reach gc m (insert r T) = insert r
    (link_reach gc (btm_insert r (info\<lparr>bi_included := True\<rparr>) m) (T \<union> set (vb_ancestors (bi_block info))))"
    (is "?L = insert r (link_reach gc ?m ?T)")
proof (intro equalityI subsetI)
  fix x assume "x \<in> ?L"
  then show "x \<in> insert r (link_reach gc ?m ?T)"
  proof induction
    case (target x)
    then show ?case by (auto intro: link_reach.target simp: unlinked_mark)
  next
    case (ancestor y info' x)
    show ?case
    proof (cases "y = r")
      case True
      then show ?thesis using ancestor r(1) by (auto intro: link_reach.target simp: unlinked_mark)
    next
      case False
      then have "btm_get ?m y = Some info'" using ancestor by (simp add: btree_simps)
      then show ?thesis
        using ancestor False link_reach.ancestor [of y gc ?m ?T info' x] by (auto simp: unlinked_mark)
    qed
  qed
next
  have root: "r \<in> ?L" using r by (auto intro: link_reach.target simp: unlinked_def)
  fix x assume "x \<in> insert r (link_reach gc ?m ?T)"
  moreover have "x \<in> ?L" if "x \<in> link_reach gc ?m ?T"
    using that
  proof induction
    case (target x)
    then show ?case using root r(1) by (auto intro: link_reach.intros simp: unlinked_mark)
  next
    case (ancestor y info' x)
    then show ?case using root r(1)
      by (cases "y = r") (auto intro: link_reach.ancestor simp: unlinked_mark btree_simps)
  qed
  ultimately show "x \<in> ?L" using root by blast
qed

lemma link_loop_spec:
  assumes "link_loop gc m targets linked = Some (out, m')" "btm_wf m"
  shows "\<exists>new. out = linked @ new \<and> distinct new \<and> set new = link_reach gc m (set targets) \<and> btm_wf m' \<and>
     (\<forall>r. btm_get m' r = map_option (\<lambda>info. info\<lparr>bi_included := bi_included info \<or> r \<in> set new\<rparr>) (btm_get m r))"
  using assms
proof (induction gc m targets linked rule: link_loop.induct)
  case (1 gc m linked)
  then show ?case by (auto simp: option.map_ident)
next
  case (2 gc m r targets linked)
  consider (skip) "br_round r \<le> gc \<or> (\<exists>info. btm_get m r = Some info \<and> bi_included info)"
    | (mark) info where "gc < br_round r" "btm_get m r = Some info" "\<not> bi_included info"
    using 2(4) by (auto split: option.splits if_splits simp: not_le)
  then show ?case
  proof cases
    case skip
    then have "br_round r \<le> gc \<or> r \<notin> unlinked m" by (auto simp: unlinked_def)
    with skip 2 show ?thesis by (auto simp: link_reach_skip split: if_splits)
  next
    case mark
    let ?m = "btm_insert r (info\<lparr>bi_included := True\<rparr>) m"
    have run: "link_loop gc ?m (targets @ vb_ancestors (bi_block info)) (linked @ [r]) = Some (out, m')"
      using mark 2(4) by simp
    have wf: "btm_wf ?m" using 2(5) by (simp add: btree_simps)
    obtain new where new: "out = (linked @ [r]) @ new" "distinct new" "btm_wf m'"
        "set new = link_reach gc ?m (set targets \<union> set (vb_ancestors (bi_block info)))"
        "\<And>x. btm_get m' x = map_option (\<lambda>info. info\<lparr>bi_included := bi_included info \<or> x \<in> set new\<rparr>) (btm_get ?m x)"
      using 2(3) [OF _ mark(2,3) run wf] mark(1) by auto
    have "r \<notin> set new"
    proof
      assume "r \<in> set new"
      then have "r \<in> unlinked ?m" unfolding new(4) by (rule link_reach_unlinked)
      then show False by (simp add: unlinked_mark)
    qed
    moreover have "btm_get m' x = map_option (\<lambda>info. info\<lparr>bi_included := bi_included info \<or> x \<in> set (r # new)\<rparr>) (btm_get m x)" for x
      using new(5) [of x] mark(2) by (auto simp: btree_simps)
    ultimately show ?thesis
      using new link_reach_mark [OF mark(2,3,1), of "set targets"] by (intro exI [of _ "r # new"]) auto
  qed
qed

lemma link_loop_total:
  assumes "\<And>x info a. btm_get m x = Some info \<Longrightarrow> a \<in> set (vb_ancestors (bi_block info)) \<Longrightarrow> gc < br_round a \<Longrightarrow>
      btm_get m a \<noteq> None"
    and "\<And>x. x \<in> set targets \<Longrightarrow> gc < br_round x \<Longrightarrow> btm_get m x \<noteq> None"
  shows "link_loop gc m targets linked \<noteq> None"
  using assms
proof (induction gc m targets linked rule: link_loop.induct)
  case (2 gc m r targets linked)
  show ?case
  proof (cases "br_round r \<le> gc")
    case True
    then show ?thesis using 2(1) 2(4,5) by simp
  next
    case False
    then obtain info where info: "btm_get m r = Some info" using 2(5) by fastforce
    let ?m = "btm_insert r (info\<lparr>bi_included := True\<rparr>) m"
    have "link_loop gc ?m (targets @ vb_ancestors (bi_block info)) (linked @ [r]) \<noteq> None"
      if "\<not> bi_included info"
    proof (rule 2(3) [OF False info that])
      fix x info' a
      assume "btm_get ?m x = Some info'" "a \<in> set (vb_ancestors (bi_block info'))" "gc < br_round a"
      then show "btm_get ?m a \<noteq> None"
        using 2(4) info by (fastforce simp: btree_simps split: if_splits)
    next
      fix x assume "x \<in> set (targets @ vb_ancestors (bi_block info))" "gc < br_round x"
      then show "btm_get ?m x \<noteq> None" using 2(4,5) info by (auto simp: btree_simps)
    qed
    then show ?thesis using False info 2(2) [OF False info] 2(4,5) by simp
  qed
qed simp

definition cache_closed :: "dag_state \<Rightarrow> bool" where
  "cache_closed d \<longleftrightarrow>
     (\<forall>x info. btm_get (ds_recent_blocks d) x = Some info \<longrightarrow>
        (\<forall>a \<in> set (vb_ancestors (bi_block info)). gc_round d < br_round a \<longrightarrow>
           btm_get (ds_recent_blocks d) a \<noteq> None))"

text \<open>Linking.  When the causal history of the root above the garbage collection round is cached,
  \<^verbatim>\<open>link_causal_history\<close> does not panic; it returns, each once, exactly the blocks above that round
  that were not included before and are reachable from the root through such blocks, marks exactly
  these as included, and changes nothing else.\<close>

theorem link_causal_history_spec:
  assumes inv: "dag_inv d" and root: "btm_get (ds_recent_blocks d) root \<noteq> None"
    and closed: "cache_closed d"
  shows "\<exists>linked d'. link_causal_history d root = Some (linked, d') \<and> distinct linked \<and>
     set linked = link_reach (gc_round d) (ds_recent_blocks d) {root} \<and>
     dag_inv d' \<and> get_block d' = get_block d \<and>
     (\<forall>r. has_been_included d' r = map_option (\<lambda>b. b \<or> r \<in> set linked) (has_been_included d r))"
proof -
  have "link_loop (gc_round d) (ds_recent_blocks d) [root] [] \<noteq> None"
    by (rule link_loop_total) (use root closed in \<open>auto simp: cache_closed_def\<close>)
  then obtain out m where run: "link_loop (gc_round d) (ds_recent_blocks d) [root] [] = Some (out, m)" by auto
  have wf: "btm_wf (ds_recent_blocks d)" using inv by (simp add: dag_inv_def recent_ok_def)
  have s: "distinct out" "set out = link_reach (gc_round d) (ds_recent_blocks d) {root}" "btm_wf m"
      "\<And>r. btm_get m r = map_option (\<lambda>info. info\<lparr>bi_included := bi_included info \<or> r \<in> set out\<rparr>)
         (btm_get (ds_recent_blocks d) r)"
    using link_loop_spec [OF run wf] by auto
  have same: "map_option bi_block (btm_get m r) = map_option bi_block (btm_get (ds_recent_blocks d) r)" for r
    by (simp add: s(4) option.map_comp comp_def)
  have "link_causal_history d root = Some (out, d\<lparr>ds_recent_blocks := m\<rparr>)"
    using run by (simp add: link_causal_history_def)
  moreover have "has_been_included (d\<lparr>ds_recent_blocks := m\<rparr>) r
      = map_option (\<lambda>b. b \<or> r \<in> set out) (has_been_included d r)" for r
    by (simp add: has_been_included_def s(4) option.map_comp comp_def)
  ultimately show ?thesis
    using s(1,2) recent_blocks_cong [OF inv s(3) same] by blast
qed

theorem link_causal_history_spec_witness:
  "\<exists>d linked d'. accept_block dag4 block4 5 = Some d \<and>
     link_causal_history d (BlockRef 1 2 9) = Some (linked, d') \<and> set linked = {BlockRef 1 2 9} \<and>
     has_been_included d' (BlockRef 1 2 9) = Some True"
proof -
  obtain d where d: "accept_block dag4 block4 5 = Some d" "dag_inv d" "gc_round d = 0"
      "ds_recent_blocks d = [(BlockRef 1 2 9, \<lparr>bi_block = block4, bi_committed = False, bi_included = False\<rparr>)]"
    using dag4_accepted by blast
  have root: "btm_get (ds_recent_blocks d) (BlockRef 1 2 9) \<noteq> None" using d(4) by simp
  have closed: "cache_closed d"
    using d(3,4) by (auto simp: cache_closed_def block4_def split: if_splits)
  obtain linked d' where l: "link_causal_history d (BlockRef 1 2 9) = Some (linked, d')"
     "set linked = link_reach 0 (ds_recent_blocks d) {BlockRef 1 2 9}"
     "has_been_included d' (BlockRef 1 2 9)
        = map_option (\<lambda>b. b \<or> BlockRef 1 2 9 \<in> set linked) (has_been_included d (BlockRef 1 2 9))"
    using link_causal_history_spec [OF d(2) root closed] unfolding d(3) by blast
  have "link_reach 0 (ds_recent_blocks d) {BlockRef 1 2 9} = {BlockRef 1 2 9}"
    using d(4) by (auto dest: link_reach_unlinked simp: unlinked_def intro: link_reach.target
        split: if_splits)
  with l d(1,4) show ?thesis by (simp add: has_been_included_def)
qed

subsection \<open>Ancestors at an earlier round\<close>

inductive_set anc_reach :: "dag_state \<Rightarrow> Round \<Rightarrow> block_ref set \<Rightarrow> block_ref set"
  for d :: dag_state and E :: Round and T :: "block_ref set" where
  start: "r \<in> T \<Longrightarrow> r \<in> anc_reach d E T"
| parent: "x \<in> anc_reach d E T \<Longrightarrow> E < br_round x \<Longrightarrow> get_block d x = Some b \<Longrightarrow> r \<in> set (vb_ancestors b) \<Longrightarrow>
     r \<in> anc_reach d E T"

lemma anc_reach_low: "(\<And>r. r \<in> T \<Longrightarrow> br_round r \<le> E) \<Longrightarrow> anc_reach d E T = T"
proof -
  assume low: "\<And>r. r \<in> T \<Longrightarrow> br_round r \<le> E"
  have "x \<in> anc_reach d E T \<Longrightarrow> x \<in> T" for x
    by (induction rule: anc_reach.induct) (use low in \<open>fastforce+\<close>)
  then show ?thesis by (auto intro: anc_reach.start)
qed

lemma anc_reach_expand:
  assumes "E < br_round r"
  shows "anc_reach d E (insert r S) = insert r
     (anc_reach d E (S \<union> (case get_block d r of None \<Rightarrow> {} | Some b \<Rightarrow> set (vb_ancestors b))))"
    (is "?L = insert r (anc_reach d E ?T)")
proof (intro equalityI subsetI)
  fix x assume "x \<in> ?L"
  then show "x \<in> insert r (anc_reach d E ?T)"
  proof induction
    case (parent y b x)
    then show ?case by (cases "y = r") (auto intro: anc_reach.intros)
  qed (auto intro: anc_reach.start)
next
  have root: "r \<in> ?L" by (auto intro: anc_reach.start)
  have "x \<in> ?L" if "x \<in> anc_reach d E ?T" for x
    using that
  proof induction
    case (start x)
    then show ?case using root assms by (auto intro: anc_reach.intros split: option.splits)
  qed (auto intro: anc_reach.parent)
  then show "x \<in> insert r (anc_reach d E ?T) \<Longrightarrow> x \<in> ?L" for x using root by blast
qed

text \<open>Ancestors are of earlier rounds, which block verification enforces.\<close>

definition rounds_decrease :: "dag_state \<Rightarrow> bool" where
  "rounds_decrease d \<longleftrightarrow>
     (\<forall>r b. get_block d r = Some b \<longrightarrow> (\<forall>a \<in> set (vb_ancestors b). br_round a < br_round r))"

lemma fold_bts_insert:
  "set (fold bts_insert xs s) = set s \<union> set xs" "bts_wf s \<Longrightarrow> bts_wf (fold bts_insert xs s)"
  "\<exists>K. mset (fold bts_insert xs s) = mset s + K \<and> set_mset K \<subseteq> set xs"
proof (induction xs arbitrary: s)
  case (Cons x xs)
  { case 3
    have "\<exists>K. mset (bts_insert x s) = mset s + K \<and> set_mset K \<subseteq> {x}"
    proof (cases "x \<in> set s")
      case True
      then show ?thesis by (intro exI [of _ "{#}"]) (simp add: bts_insert_def insort_insert_triv)
    next
      case False
      then show ?thesis by (intro exI [of _ "{#x#}"]) (simp add: bts_insert_def insort_insert_insort)
    qed
    then obtain K where K: "mset (bts_insert x s) = mset s + K" "set_mset K \<subseteq> {x}" by blast
    obtain K' where "mset (fold bts_insert xs (bts_insert x s)) = mset (bts_insert x s) + K'"
        "set_mset K' \<subseteq> set xs"
      using Cons.IH(3) by blast
    with K show ?case by (intro exI [of _ "K + K'"]) auto }
qed (auto simp: btree_simps)

lemma bts_wf_last:
  assumes "bts_wf s" "s \<noteq> []"
  shows "set s = insert (last s) (set (butlast s))" "x \<in> set s \<Longrightarrow> x \<le> last s" "bts_wf (butlast s)"
proof -
  obtain xs y where s: "s = xs @ [y]" using assms(2) by (metis rev_exhaust)
  with assms(1) show "set s = insert (last s) (set (butlast s))" "x \<in> set s \<Longrightarrow> x \<le> last s"
      "bts_wf (butlast s)"
    by (auto simp: bts_wf_def sorted_wrt_append)
qed

abbreviation (input) anc_cond :: "Round \<Rightarrow> block_ref list \<Rightarrow> bool" where
  "anc_cond E linked \<equiv> linked \<noteq> [] \<and> E < br_round (last linked)"

lemma ancestors_step_reach:
  assumes "bts_wf linked" "anc_cond E linked"
  shows "bts_wf (ancestors_step d linked)"
    and "insert (last linked) (anc_reach d E (set (ancestors_step d linked))) = anc_reach d E (set linked)"
proof -
  have set_step: "set (ancestors_step d linked) = set (butlast linked) \<union>
      (case get_block d (last linked) of None \<Rightarrow> {} | Some b \<Rightarrow> set (vb_ancestors b))"
    by (auto simp: ancestors_step_def fold_bts_insert split: option.split)
  show "bts_wf (ancestors_step d linked)"
    using bts_wf_last(3) [OF assms(1)] assms(2)
    by (auto simp: ancestors_step_def fold_bts_insert split: option.split)
  show "insert (last linked) (anc_reach d E (set (ancestors_step d linked))) = anc_reach d E (set linked)"
    unfolding set_step using anc_reach_expand [of E "last linked" d "set (butlast linked)"] assms
      bts_wf_last(1) [OF assms(1)] by simp
qed

lemma ancestors_step_decreases:
  assumes "rounds_decrease d" "linked \<noteq> []"
  shows "(mset (ancestors_step d linked), mset linked) \<in> mult (measure br_round)"
proof -
  have split: "mset linked = mset (butlast linked) + {#last linked#}"
    using assms(2) by (metis append_butlast_last_id mset_append mset_single_iff_right)
  obtain K where K: "mset (ancestors_step d linked) = mset (butlast linked) + K"
      "\<forall>k \<in># K. br_round k < br_round (last linked)"
  proof (cases "get_block d (last linked)")
    case None
    then show ?thesis using that [of "{#}"] by (simp add: ancestors_step_def)
  next
    case (Some b)
    obtain K where "mset (fold bts_insert (vb_ancestors b) (butlast linked)) = mset (butlast linked) + K"
        "set_mset K \<subseteq> set (vb_ancestors b)"
      using fold_bts_insert(3) by blast
    with Some assms(1) show ?thesis using that [of K]
      by (auto simp: ancestors_step_def rounds_decrease_def)
  qed
  show ?thesis unfolding K(1) split
    by (rule one_step_implies_mult) (use K(2) in auto)
qed

lemma ancestors_loop:
  assumes "rounds_decrease d" "bts_wf start"
  shows "\<exists>linked. while_option (anc_cond E) (ancestors_step d) start = Some linked \<and> bts_wf linked \<and>
     set linked = {r \<in> anc_reach d E (set start). br_round r \<le> E}"
proof -
  have "\<exists>linked. while_option (anc_cond E) (ancestors_step d) start = Some linked"
  proof (rule wf_while_option_Some [where P = "\<lambda>_. True"])
    show "wf {(t, s). (True \<and> anc_cond E s) \<and> t = ancestors_step d s}"
      by (rule wf_subset [of "inv_image (mult (measure br_round)) mset"])
        (use ancestors_step_decreases [OF assms(1)] in \<open>auto simp: wf_mult\<close>)
  qed simp_all
  then obtain linked where l: "while_option (anc_cond E) (ancestors_step d) start = Some linked" by blast
  let ?P = "\<lambda>s. bts_wf s \<and> {r \<in> anc_reach d E (set s). br_round r \<le> E}
      = {r \<in> anc_reach d E (set start). br_round r \<le> E}"
  have P: "?P linked"
  proof (rule while_option_rule [OF _ l])
    fix s assume s: "?P s" "anc_cond E s"
    then have "bts_wf s" by simp
    note step = ancestors_step_reach [OF this s(2), of d]
    have "{r \<in> anc_reach d E (set (ancestors_step d s)). br_round r \<le> E}
        = {r \<in> anc_reach d E (set s). br_round r \<le> E}"
      using s(2) unfolding step(2) [symmetric] by auto
    with s step(1) show "?P (ancestors_step d s)" by simp
  qed (use assms(2) in simp)
  have "br_round r \<le> E" if "r \<in> set linked" for r
  proof -
    have "\<not> anc_cond E linked" using while_option_stop [OF l] .
    then have "br_round (last linked) \<le> E" using that by auto
    moreover have "r \<le> last linked" using bts_wf_last(2) P that by fastforce
    ultimately show ?thesis using block_ref_less_round [of r "last linked"] by simp
  qed
  then have "anc_reach d E (set linked) = set linked" by (rule anc_reach_low)
  with P l \<open>\<And>r. r \<in> set linked \<Longrightarrow> br_round r \<le> E\<close> show ?thesis by auto
qed

lemma ancestors_at_round_exact:
  assumes "rounds_decrease d"
  shows "\<exists>bs. ancestors_at_round d later_block E = Some bs \<and>
     set bs = {b. \<exists>r \<in> anc_reach d E (set (vb_ancestors later_block)). br_round r = E \<and> get_block d r = Some b}"
proof -
  let ?start = "fold bts_insert (vb_ancestors later_block) []"
  have start: "set ?start = set (vb_ancestors later_block)" "bts_wf ?start"
    by (simp_all add: fold_bts_insert)
  obtain linked where l: "while_option (anc_cond E) (ancestors_step d) ?start = Some linked"
     "set linked = {r \<in> anc_reach d E (set ?start). br_round r \<le> E}"
    using ancestors_loop [OF assms start(2)] by blast
  have low: "BlockRef E 0 0 \<le> r \<longleftrightarrow> E \<le> br_round r" for r
    by (cases r) (auto simp: block_ref_le_iff)
  show ?thesis
    using l unfolding ancestors_at_round_def low start(1)
    by (fastforce simp: List.map_filter_def image_iff)
qed

text \<open>Ancestors at a round.  When ancestors are of earlier rounds, the traversal of
  \<^verbatim>\<open>ancestors_at_round\<close> ends and returns exactly the available blocks of the earlier round that are
  reachable from the block through available blocks of later rounds.\<close>

theorem ancestors_at_round_spec:
  assumes "rounds_decrease d"
  shows "\<exists>bs. ancestors_at_round d later_block E = Some bs \<and>
     set bs = {b. \<exists>r \<in> anc_reach d E (set (vb_ancestors later_block)). br_round r = E \<and> get_block d r = Some b}"
  by (rule ancestors_at_round_exact [OF assms])

theorem ancestors_at_round_spec_witness:
  "\<exists>bs. ancestors_at_round dag4 block4 0 = Some bs \<and> example_block 0 3 7 1000 [] \<in> set bs"
proof -
  have inj: "inj_on vb_reference (set (map (\<lambda>i. example_block 0 i 7 1000 []) [0..<4]))"
    by (auto simp: inj_on_def)
  have get: "get_block dag4 r = Some b \<longleftrightarrow> (\<exists>i<4. b = example_block 0 i 7 1000 [] \<and> r = BlockRef 0 i 7)" for r b
    using genesis_map_get [OF inj, of r b] unfolding get_block_eq
    by (auto simp: dag4_def fresh_dag_state_def stored_def mem_store_new_def)
  then have "rounds_decrease dag4" by (auto simp: rounds_decrease_def)
  from ancestors_at_round_spec [OF this, of block4 0] show ?thesis
    by (auto simp: get block4_def intro!: bexI [of _ "BlockRef 0 3 7"] anc_reach.start)
qed

end
