(* ===== verification/Dag_Commits.thy ===== *)
theory Dag_Commits
  imports Dag_Properties
begin

section \<open>Commits and commit votes of the DAG state\<close>

text \<open>
  Adding commits to the state, the votes on commits it hands to new blocks, and the slot and round
  queries the committers use.
\<close>

subsection \<open>Slot and round queries\<close>

lemma slot_range_iff:
  "ref_bounds r \<Longrightarrow>
     BlockRef (slot_round s) (slot_authority s) digest_min \<le> r \<and>
     r \<le> BlockRef (slot_round s) (slot_authority s) digest_max \<longleftrightarrow> slot_of r = s"
  by (cases r; cases s) (auto simp: block_ref_le_iff ref_bounds_def slot_of_def)

lemma recent_entries:
  assumes "dag_inv d"
  shows "(r, info) \<in> set (ds_recent_blocks d) \<longleftrightarrow> btm_get (ds_recent_blocks d) r = Some info"
    and "(r, info) \<in> set (ds_recent_blocks d) \<Longrightarrow>
      vb_reference (bi_block info) = r \<and> ref_bounds r \<and> 0 < br_round r \<and>
      br_author r < committee_size (ds_committee d)"
  using assms btm_get_in_set [of "ds_recent_blocks d" r info]
  by (auto simp: dag_inv_def recent_ok_def)

definition cached_block :: "dag_state \<Rightarrow> verified_block \<Rightarrow> bool" where
  "cached_block d b \<longleftrightarrow> (\<exists>info. btm_get (ds_recent_blocks d) (vb_reference b) = Some info \<and> bi_block info = b)"

lemma set_recent_filter:
  assumes "dag_inv d"
  shows "set (map (bi_block \<circ> snd) (filter (\<lambda>p. P (fst p)) (ds_recent_blocks d)))
     = {b. cached_block d b \<and> P (vb_reference b)}"
proof -
  have "b \<in> set (map (bi_block \<circ> snd) (filter (\<lambda>p. P (fst p)) (ds_recent_blocks d))) \<longleftrightarrow>
      (\<exists>r info. (r, info) \<in> set (ds_recent_blocks d) \<and> P r \<and> b = bi_block info)" for b
    by force
  moreover have "(\<exists>r info. (r, info) \<in> set (ds_recent_blocks d) \<and> P r \<and> b = bi_block info) \<longleftrightarrow>
      cached_block d b \<and> P (vb_reference b)" (is "?L \<longleftrightarrow> ?R") for b
  proof
    assume ?L
    then obtain r info where "(r, info) \<in> set (ds_recent_blocks d)" "P r" "b = bi_block info" by blast
    with recent_entries [OF assms, of r info] show ?R by (auto simp: cached_block_def)
  next
    assume ?R
    then show ?L using recent_entries(1) [OF assms] by (auto simp: cached_block_def)
  qed
  ultimately show ?thesis by blast
qed

lemma sorted_recent_filter:
  assumes "dag_inv d"
  shows "sorted_wrt (\<lambda>x y. vb_reference x < vb_reference y)
           (map (bi_block \<circ> snd) (filter P (ds_recent_blocks d)))"
proof -
  have "sorted_wrt (\<lambda>x y. fst x < fst y) (ds_recent_blocks d)"
    using assms by (simp add: dag_inv_def recent_ok_def btm_wf_def btm_keys_def sorted_wrt_map)
  then have "sorted_wrt (\<lambda>x y. fst x < fst y) (filter P (ds_recent_blocks d))"
    by (rule sorted_wrt_filter)
  then have "sorted_wrt (\<lambda>x y. vb_reference (bi_block (snd x)) < vb_reference (bi_block (snd y)))
      (filter P (ds_recent_blocks d))"
  proof (rule sorted_wrt_mono_rel [rotated])
    fix x y assume "x \<in> set (filter P (ds_recent_blocks d))" "y \<in> set (filter P (ds_recent_blocks d))"
      "fst x < fst y"
    then show "vb_reference (bi_block (snd x)) < vb_reference (bi_block (snd y))"
      using recent_entries(2) [OF assms, of "fst x" "snd x"] recent_entries(2) [OF assms, of "fst y" "snd y"]
      by simp
  qed
  then show ?thesis by (simp add: sorted_wrt_map)
qed

lemma uncommitted_at_slot_set:
  "dag_inv d \<Longrightarrow> set (get_uncommitted_blocks_at_slot d s)
     = {b. cached_block d b \<and> slot_of (vb_reference b) = s}"
proof -
  assume inv: "dag_inv d"
  have "filter (\<lambda>p. BlockRef (slot_round s) (slot_authority s) digest_min \<le> fst p \<and>
       fst p \<le> BlockRef (slot_round s) (slot_authority s) digest_max) (ds_recent_blocks d)
     = filter (\<lambda>p. slot_of (fst p) = s) (ds_recent_blocks d)"
  proof (rule filter_cong [OF refl])
    fix p assume "p \<in> set (ds_recent_blocks d)"
    then have "ref_bounds (fst p)" using recent_entries(2) [OF inv, of "fst p" "snd p"] by simp
    from slot_range_iff [OF this, of s]
    show "(BlockRef (slot_round s) (slot_authority s) digest_min \<le> fst p \<and>
       fst p \<le> BlockRef (slot_round s) (slot_authority s) digest_max) = (slot_of (fst p) = s)" .
  qed
  then show ?thesis
    unfolding get_uncommitted_blocks_at_slot_def btm_range_def
    using set_recent_filter [OF inv, of "\<lambda>r. slot_of r = s"] by simp
qed

lemma uncommitted_at_round_exact:
  assumes "dag_inv d" "round < 2 ^ 32 - 1"
  shows "\<exists>bs. get_uncommitted_blocks_at_round d round = Some bs \<and>
     set bs = {b. cached_block d b \<and> vb_round b = round \<and> last_commit_round d < round} \<and>
     sorted_wrt (\<lambda>x y. vb_reference x < vb_reference y) bs"
proof (cases "round \<le> last_commit_round d")
  case True
  then show ?thesis by (auto simp: get_uncommitted_blocks_at_round_def)
next
  case False
  have next_round: "u32_add round 1 = Suc round" using assms(2) by (simp add: u32_add_eq)
  have range: "BlockRef round 0 0 \<le> r \<and> r < BlockRef (Suc round) 0 0 \<longleftrightarrow> br_round r = round" for r
    by (cases r) (auto simp: block_ref_le_iff block_ref_less_iff)
  have "get_uncommitted_blocks_at_round d round = Some (map (bi_block \<circ> snd)
      (filter (\<lambda>p. br_round (fst p) = round) (ds_recent_blocks d)))"
    using False unfolding get_uncommitted_blocks_at_round_def next_round Let_def range
    by (simp add: block_ref_le_iff)
  then show ?thesis
    using False set_recent_filter [OF assms(1), of "\<lambda>r. br_round r = round"]
      sorted_recent_filter [OF assms(1), of "\<lambda>p. br_round (fst p) = round"] by simp
qed

text \<open>The round query.  Above the last committed round, \<^verbatim>\<open>get_uncommitted_blocks_at_round\<close>
  returns exactly the cached blocks of the round, each once and in the order of their references;
  at or below it the answer is empty.\<close>

theorem uncommitted_at_round_spec:
  assumes "dag_inv d" "round < 2 ^ 32 - 1"
  shows "\<exists>bs. get_uncommitted_blocks_at_round d round = Some bs \<and>
     set bs = {b. cached_block d b \<and> vb_round b = round \<and> last_commit_round d < round} \<and>
     sorted_wrt (\<lambda>x y. vb_reference x < vb_reference y) bs"
  using uncommitted_at_round_exact [OF assms] .

theorem uncommitted_at_round_spec_witness:
  "\<exists>d bs. accept_block dag4 block4 5 = Some d \<and> get_uncommitted_blocks_at_round d 1 = Some bs \<and>
     block4 \<in> set bs"
proof -
  obtain d where d: "accept_block dag4 block4 5 = Some d" "dag_inv d" "ds_last_commit d = None"
      "ds_recent_blocks d = [(BlockRef 1 2 9, \<lparr>bi_block = block4, bi_committed = False, bi_included = False\<rparr>)]"
    using dag4_accepted by blast
  then show ?thesis
    using uncommitted_at_round_spec [OF d(2), of 1]
    by (auto simp: cached_block_def block4_def last_commit_round_def)
qed

subsection \<open>Adding commits\<close>

lemma Max_insert_max:
  "finite S \<Longrightarrow> Max (insert (max a b) S) = Max (insert a (insert b S))" for a b :: nat
  by (cases "S = {}") (simp_all add: max.assoc)

lemma update_committed_rounds_spec:
  assumes "\<And>r. r \<in> set refs \<Longrightarrow> br_author r < length rounds"
  shows "\<exists>rounds'. update_committed_rounds refs rounds = Some rounds' \<and> length rounds' = length rounds \<and>
     (\<forall>a < length rounds. rounds' ! a = Max (insert (rounds ! a) {br_round r |r. r \<in> set refs \<and> br_author r = a}))"
  using assms unfolding update_committed_rounds_def
proof (induction refs arbitrary: rounds)
  case (Cons x refs)
  let ?rounds = "rounds[br_author x := max (rounds ! br_author x) (br_round x)]"
  have x: "br_author x < length rounds" using Cons.prems by simp
  obtain rounds' where r': "fold_opt (\<lambda>r rounds. do {
        old \<leftarrow> vec_get rounds (br_author r);
        vec_set rounds (br_author r) (max old (br_round r)) }) refs ?rounds = Some rounds'"
      "length rounds' = length rounds"
      "\<And>a. a < length rounds \<Longrightarrow> rounds' ! a
         = Max (insert (?rounds ! a) {br_round r |r. r \<in> set refs \<and> br_author r = a})"
    using Cons.IH [of ?rounds] Cons.prems by auto
  have "rounds' ! a = Max (insert (rounds ! a) {br_round r |r. r \<in> set (x # refs) \<and> br_author r = a})"
    if a: "a < length rounds" for a
  proof (cases "a = br_author x")
    case True
    have "{br_round r |r. r \<in> set (x # refs) \<and> br_author r = a}
        = insert (br_round x) {br_round r |r. r \<in> set refs \<and> br_author r = a}"
      using True by auto
    moreover have "finite {br_round r |r. r \<in> set refs \<and> br_author r = a}" by simp
    ultimately show ?thesis
      using r'(3) [OF a] True a by (simp only: Max_insert_max nth_list_update_eq)
  next
    case False
    then have "{br_round r |r. r \<in> set (x # refs) \<and> br_author r = a}
        = {br_round r |r. r \<in> set refs \<and> br_author r = a}" by auto
    then show ?thesis using r'(3) [OF a] False by simp
  qed
  with r' x show ?case by (simp add: vec_get_def vec_set_def)
qed simp

text \<open>Adding a commit.  An old index is ignored; a gap in the indices or a timestamp that goes
  back panics; the next index becomes the last commit, every authority's last committed round
  becomes the maximum of the old one and its rounds in the commit, a vote for the commit is
  queued, and the commit is queued for storage.\<close>

theorem add_commit_spec:
  assumes "dag_inv d" "last_commit_index d < 2 ^ 32 - 1" "0 < tcm_index c"
    and "\<And>r. r \<in> set (tcm_blocks c) \<Longrightarrow> br_author r < committee_size (ds_committee d)"
  shows "(tcm_index c \<le> last_commit_index d \<longrightarrow> add_commit d c = Some d) \<and>
     (last_commit_index d + 1 < tcm_index c \<longrightarrow> add_commit d c = None) \<and>
     (tcm_index c = last_commit_index d + 1 \<longrightarrow>
        (tcm_timestamp_ms c < last_commit_timestamp_ms d \<longrightarrow> add_commit d c = None) \<and>
        (last_commit_timestamp_ms d \<le> tcm_timestamp_ms c \<longrightarrow>
           (\<exists>d'. add_commit d c = Some d' \<and> dag_inv d' \<and> get_block d' = get_block d \<and>
              last_commit_index d' = tcm_index c \<and> last_commit_timestamp_ms d' = tcm_timestamp_ms c \<and>
              (\<forall>a < committee_size (ds_committee d). ds_last_committed_rounds d' ! a
                 = Max (insert (ds_last_committed_rounds d ! a)
                     {br_round r |r. r \<in> set (tcm_blocks c) \<and> br_author r = a})) \<and>
              ds_pending_commit_votes d' = ds_pending_commit_votes d @ [trusted_commit_reference c] \<and>
              ds_commits_to_write d' = ds_commits_to_write d @ [c])))"
proof -
  have len: "length (ds_last_committed_rounds d) = committee_size (ds_committee d)"
    using assms(1) by (simp add: dag_inv_def)
  obtain rounds where rounds: "update_committed_rounds (tcm_blocks c) (ds_last_committed_rounds d) = Some rounds"
      "length rounds = length (ds_last_committed_rounds d)"
      "\<And>a. a < committee_size (ds_committee d) \<Longrightarrow> rounds ! a = Max (insert (ds_last_committed_rounds d ! a)
          {br_round r |r. r \<in> set (tcm_blocks c) \<and> br_author r = a})"
    using update_committed_rounds_spec [of "tcm_blocks c" "ds_last_committed_rounds d"] assms(4)
    unfolding len by auto
  let ?d = "d\<lparr>ds_last_commit := Some c, ds_last_committed_rounds := rounds,
      ds_pending_commit_votes := ds_pending_commit_votes d @ [trusted_commit_reference c],
      ds_commits_to_write := ds_commits_to_write d @ [c]\<rparr>"
  have inv: "dag_inv ?d" and get: "get_block ?d = get_block d"
    using dag_inv_cong [of ?d d] assms(1) rounds(2) by simp_all
  have idx: "u32_add (tcm_index l) 1 = tcm_index l + 1" if "ds_last_commit d = Some l" for l
    using assms(2) that by (simp add: last_commit_index_def u32_add_eq)
  show ?thesis
  proof (cases "ds_last_commit d")
    case None
    then show ?thesis
      using assms(3) rounds inv get
      by (auto simp: add_commit_def last_commit_index_def last_commit_timestamp_ms_def)
  next
    case (Some l)
    then show ?thesis
      using idx [OF Some] rounds inv get
      by (auto simp: add_commit_def last_commit_index_def last_commit_timestamp_ms_def)
  qed
qed

definition commit4 :: trusted_commit where
  "commit4 = \<lparr>tcm_inner = \<lparr>cm_index = 1, cm_previous_digest = 0, cm_timestamp_ms = 1001,
      cm_leader = BlockRef 1 2 9, cm_blocks = [BlockRef 1 2 9], cm_global_exec_index = 0\<rparr>,
    tcm_digest = 3, tcm_serialized = []\<rparr>"

theorem add_commit_spec_witness:
  "\<exists>d'. add_commit dag4 commit4 = Some d' \<and> dag_inv d' \<and> last_commit_index d' = 1 \<and>
     ds_last_committed_rounds d' ! 2 = 1"
proof -
  have "last_commit_index dag4 = 0" "last_commit_timestamp_ms dag4 = 0" "ds_last_committed_rounds dag4 ! 2 = 0"
    by (simp_all add: dag4_def fresh_dag_state_def last_commit_index_def last_commit_timestamp_ms_def)
  then show ?thesis
    using add_commit_spec [OF dag4_inv, of commit4]
    by (auto simp: commit4_def)
qed

subsection \<open>Commit votes\<close>

lemma take_votes_loop_spec:
  assumes "take_votes_loop limit pending seen votes = (votes', pending')"
    and "seen = cr_index ` set votes" "distinct (map cr_index votes)" "length votes \<le> limit"
  shows "\<exists>drained. pending = drained @ pending' \<and> distinct (map cr_index votes') \<and>
     length votes' \<le> limit \<and> (pending' = [] \<or> length votes' = limit) \<and>
     set votes' \<subseteq> set votes \<union> set drained \<and>
     cr_index ` set votes' = cr_index ` set votes \<union> cr_index ` set drained"
  using assms
proof (induction limit pending seen votes rule: take_votes_loop.induct)
  case (2 limit v pending seen votes)
  show ?case
  proof (cases "length votes < limit")
    case True
    let ?votes = "if cr_index v \<notin> seen then votes @ [v] else votes"
    have run: "take_votes_loop limit pending (insert (cr_index v) seen) ?votes = (votes', pending')"
      using True 2(2) by simp
    have seen: "insert (cr_index v) seen = cr_index ` set ?votes" using 2(3) by auto
    have dist: "distinct (map cr_index ?votes)" "length ?votes \<le> limit" using 2(3,4) True by auto
    obtain drained where d: "pending = drained @ pending'" "distinct (map cr_index votes')"
       "length votes' \<le> limit" "pending' = [] \<or> length votes' = limit"
       "set votes' \<subseteq> set ?votes \<union> set drained"
       "cr_index ` set votes' = cr_index ` set ?votes \<union> cr_index ` set drained"
      using 2(1) [OF True run seen dist] by blast
    moreover have "cr_index ` set ?votes = insert (cr_index v) (cr_index ` set votes)"
      using seen 2(3) by auto
    moreover have "set ?votes \<subseteq> insert v (set votes)" by auto
    ultimately show ?thesis by (intro exI [of _ "v # drained"]) auto
  next
    case False
    then show ?thesis using 2 by (intro exI [of _ "[]"]) auto
  qed
qed auto

text \<open>Commit votes.  \<^verbatim>\<open>take_commit_votes\<close> drains a prefix of the queue and returns at most \<^verbatim>\<open>limit\<close>
  votes from it, at most one per commit index and one for every index drained; the rest of the
  queue is kept, and it is empty unless the limit was reached.\<close>

theorem take_commit_votes_spec:
  "\<exists>drained. ds_pending_commit_votes d = drained @ ds_pending_commit_votes (snd (take_commit_votes d limit)) \<and>
     (let votes = fst (take_commit_votes d limit) in
      set votes \<subseteq> set drained \<and> distinct (map cr_index votes) \<and> length votes \<le> limit \<and>
      cr_index ` set votes = cr_index ` set drained \<and>
      (ds_pending_commit_votes (snd (take_commit_votes d limit)) = [] \<or> length votes = limit))"
proof -
  obtain votes pending where run: "take_votes_loop limit (ds_pending_commit_votes d) {} [] = (votes, pending)"
    by fastforce
  from take_votes_loop_spec [OF run] obtain drained where
      "ds_pending_commit_votes d = drained @ pending" "distinct (map cr_index votes)"
      "length votes \<le> limit" "pending = [] \<or> length votes = limit" "set votes \<subseteq> set drained"
      "cr_index ` set votes = cr_index ` set drained"
    by auto
  moreover have "take_commit_votes d limit = (votes, d\<lparr>ds_pending_commit_votes := pending\<rparr>)"
    by (simp add: take_commit_votes_def run)
  ultimately show ?thesis by (intro exI [of _ drained]) simp
qed

end
