(* ===== verification/Leader_Schedule.thy ===== *)
theory Leader_Schedule
  imports Dag_Commits
begin

section \<open>Leader schedule\<close>

text \<open>
  \<^verbatim>\<open>core/src/leader_schedule.rs\<close>: stake-weighted election of the leader of a round and the table
  that replaces low-scoring leaders by high-scoring ones.  The generator \<^verbatim>\<open>StdRng\<close> and the three
  sampling functions of the \<^verbatim>\<open>rand\<close> crate are not part of the repository: the record
  \<open>leader_rand\<close> holds them as functions of the 32-byte seed (the conversion of stakes to \<^verbatim>\<open>f32\<close>
  weights is part of the weighted one), and \<open>rand_ok\<close> states what their documentation promises.
\<close>

record leader_rand =
  lr_shuffle :: "bytes \<Rightarrow> (AuthorityIndex \<times> nat) list \<Rightarrow> (AuthorityIndex \<times> nat) list"
  lr_choose :: "bytes \<Rightarrow> (AuthorityIndex \<times> string \<times> Stake) list \<Rightarrow> (AuthorityIndex \<times> string \<times> Stake) option"
  lr_choose_multiple_weighted :: "bytes \<Rightarrow> nat \<Rightarrow> (AuthorityIndex \<times> Stake) list \<Rightarrow> AuthorityIndex list option"

definition rand_ok :: "leader_rand \<Rightarrow> bool" where
  "rand_ok R \<longleftrightarrow>
     (\<forall>seed xs. mset (lr_shuffle R seed xs) = mset xs) \<and>
     (\<forall>seed xs. lr_choose R seed xs = None \<longleftrightarrow> xs = []) \<and>
     (\<forall>seed xs x. lr_choose R seed xs = Some x \<longrightarrow> x \<in> set xs) \<and>
     (\<forall>seed n xs ys. lr_choose_multiple_weighted R seed n xs = Some ys \<longrightarrow>
        mset ys \<subseteq># mset (map fst xs) \<and> length ys = min n (length xs))"

subsection \<open>Swap table\<close>

record leader_swap_table =
  lst_good_nodes :: "(AuthorityIndex \<times> string \<times> Stake) list"
  lst_bad_nodes :: "(AuthorityIndex, string \<times> Stake) btree_map"
  lst_reputation_scores_desc :: "(AuthorityIndex \<times> nat) list"
  lst_reputation_scores :: reputation_scores

definition leader_swap_table_default :: leader_swap_table where
  "leader_swap_table_default =
     \<lparr>lst_good_nodes = [], lst_bad_nodes = [], lst_reputation_scores_desc = [],
      lst_reputation_scores = reputation_scores_default\<rparr>"

fun retrieve_first_nodes_loop ::
  "committee \<Rightarrow> nat \<Rightarrow> Stake \<Rightarrow> (AuthorityIndex \<times> nat) list \<Rightarrow> (AuthorityIndex \<times> string \<times> Stake) list option" where
  "retrieve_first_nodes_loop c threshold stake [] = Some []"
| "retrieve_first_nodes_loop c threshold stake ((a, score) # as) =
     (case committee_authority c a of
        None \<Rightarrow> None
      | Some au \<Rightarrow>
          let stake' = u64_add stake (au_stake au)
          in if stake' > u64_mul threshold (c_total_stake c) div 100 then Some []
             else map_option ((#) (a, au_hostname au, au_stake au))
                    (retrieve_first_nodes_loop c threshold stake' as))"

definition retrieve_first_nodes ::
  "committee \<Rightarrow> (AuthorityIndex \<times> nat) list \<Rightarrow> nat \<Rightarrow> (AuthorityIndex \<times> string \<times> Stake) list option" where
  "retrieve_first_nodes c authorities stake_threshold =
     retrieve_first_nodes_loop c stake_threshold 0 authorities"

definition u32_le_bytes :: "nat \<Rightarrow> bytes" where
  "u32_le_bytes n = map (\<lambda>i. word_of_nat (n div 256 ^ i mod 256)) [0..<4]"

definition leader_swap_table_new_inner ::
  "leader_rand \<Rightarrow> committee \<Rightarrow> nat \<Rightarrow> CommitIndex \<Rightarrow> reputation_scores \<Rightarrow> leader_swap_table option" where
  "leader_swap_table_new_inner R c swap_stake_threshold commit_index scores =
     (if swap_stake_threshold > 33 then None
      else if rs_scores_per_authority scores = [] then Some leader_swap_table_default
      else do {
        let seed = replicate 28 0 @ u32_le_bytes commit_index;
        by_score \<leftarrow> authorities_by_score scores c;
        if length by_score \<noteq> committee_size c then None
        else do {
          let desc = sort_key (\<lambda>p. - int (snd p)) (lr_shuffle R seed by_score);
          good \<leftarrow> retrieve_first_nodes c desc swap_stake_threshold;
          bad \<leftarrow> retrieve_first_nodes c (rev desc) swap_stake_threshold;
          Some \<lparr>lst_good_nodes = good,
                lst_bad_nodes = fold (\<lambda>(i, node). btm_insert i node) bad [],
                lst_reputation_scores_desc = desc, lst_reputation_scores = scores\<rparr>
        }
      })"

definition leader_swap_table_new ::
  "leader_rand \<Rightarrow> consensus_context \<Rightarrow> CommitIndex \<Rightarrow> reputation_scores \<Rightarrow> leader_swap_table option" where
  "leader_swap_table_new R ctx commit_index scores =
     leader_swap_table_new_inner R (ctx_committee ctx) (ctx_consensus_bad_nodes_stake_threshold ctx)
       commit_index scores"

definition swap_leader ::
  "leader_rand \<Rightarrow> leader_swap_table \<Rightarrow> AuthorityIndex \<Rightarrow> Round \<Rightarrow> nat \<Rightarrow> AuthorityIndex option option" where
  "swap_leader R table leader leader_round leader_offset =
     (if leader \<in> set (btm_keys (lst_bad_nodes table)) then
        (case lr_choose R (replicate 24 0 @ u32_le_bytes leader_round @ u32_le_bytes leader_offset)
                (lst_good_nodes table) of
           None \<Rightarrow> None
         | Some (idx, _, _) \<Rightarrow> Some (Some idx))
      else Some None)"

subsection \<open>Schedule\<close>

record leader_schedule =
  ls_swap_table :: leader_swap_table
  ls_context :: consensus_context
  ls_num_commits_per_schedule :: nat

abbreviation (input) CONSENSUS_COMMITS_PER_SCHEDULE :: nat where "CONSENSUS_COMMITS_PER_SCHEDULE \<equiv> 300"

definition leader_schedule_new :: "consensus_context \<Rightarrow> leader_swap_table \<Rightarrow> leader_schedule" where
  "leader_schedule_new ctx table =
     \<lparr>ls_swap_table = table, ls_context = ctx,
      ls_num_commits_per_schedule = CONSENSUS_COMMITS_PER_SCHEDULE\<rparr>"

definition leader_schedule_from_store ::
  "leader_rand \<Rightarrow> consensus_context \<Rightarrow> dag_state \<Rightarrow> leader_schedule option" where
  "leader_schedule_from_store R ctx d = do {
     table \<leftarrow> (case mem_read_last_commit_info (ds_store d) of
        None \<Rightarrow> Some leader_swap_table_default
      | Some (r, info) \<Rightarrow> leader_swap_table_new R ctx (cr_index r) (ci_reputation_scores info));
     Some (leader_schedule_new ctx table)
   }"

definition commits_until_leader_schedule_update :: "leader_schedule \<Rightarrow> dag_state \<Rightarrow> nat option" where
  "commits_until_leader_schedule_update ls d = do {
     n \<leftarrow> scored_subdags_count (ds_scoring_subdag d);
     if n \<le> ls_num_commits_per_schedule ls then Some (ls_num_commits_per_schedule ls - n) else None
   }"

definition leader_schedule_updated :: "dag_state \<Rightarrow> bool" where
  "leader_schedule_updated d = scoring_is_empty (ds_scoring_subdag d)"

definition elect_leader_stake_based ::
  "leader_rand \<Rightarrow> leader_schedule \<Rightarrow> Round \<Rightarrow> nat \<Rightarrow> AuthorityIndex option" where
  "elect_leader_stake_based R ls round offset =
     (let c = ctx_committee (ls_context ls) in
      if \<not> offset < committee_size c then None
      else do {
        order \<leftarrow> lr_choose_multiple_weighted R (replicate 28 0 @ u32_le_bytes round) (committee_size c)
                  (map (\<lambda>(i, a). (i, au_stake a)) (committee_indices c));
        vec_get order offset
      })"

definition elect_leader :: "leader_rand \<Rightarrow> leader_schedule \<Rightarrow> Round \<Rightarrow> nat \<Rightarrow> AuthorityIndex option" where
  "elect_leader R ls round leader_offset = do {
     leader \<leftarrow> elect_leader_stake_based R ls round leader_offset;
     swapped \<leftarrow> swap_leader R (ls_swap_table ls) leader round leader_offset;
     Some (case swapped of Some l \<Rightarrow> l | None \<Rightarrow> leader)
   }"

definition update_leader_swap_table ::
  "leader_schedule \<Rightarrow> leader_swap_table \<Rightarrow> leader_schedule option" where
  "update_leader_swap_table ls table =
     (let old = rs_commit_range (lst_reputation_scores (ls_swap_table ls));
          new = rs_commit_range (lst_reputation_scores table)
      in do {
        ok \<leftarrow> (if old \<noteq> commit_range_default then
                 if commit_range_is_next_range old new then commit_range_is_equal_size old new
                 else Some False
               else Some True);
        if ok then Some (ls\<lparr>ls_swap_table := table\<rparr>) else None
      })"

definition update_leader_schedule_v2 ::
  "leader_rand \<Rightarrow> leader_schedule \<Rightarrow> dag_state \<Rightarrow> (leader_schedule \<times> dag_state) option" where
  "update_leader_schedule_v2 R ls d = do {
     scores \<leftarrow> calculate_distributed_vote_scores (ds_scoring_subdag d);
     last_commit_index \<leftarrow> scoring_subdag_commit_range d;
     d \<leftarrow> add_commit_info (clear_scoring_subdag d) scores;
     table \<leftarrow> leader_swap_table_new R (ls_context ls) last_commit_index scores;
     ls \<leftarrow> update_leader_swap_table ls table;
     Some (ls, d)
   }"

subsection \<open>Stake bound of the selected nodes\<close>

definition swap_limit :: "committee \<Rightarrow> nat \<Rightarrow> Stake" where
  "swap_limit c threshold = threshold * c_total_stake c div 100"

definition node_of :: "committee \<Rightarrow> AuthorityIndex \<times> nat \<Rightarrow> AuthorityIndex \<times> string \<times> Stake" where
  "node_of c p = (fst p, au_hostname (c_authorities c ! fst p), au_stake (c_authorities c ! fst p))"

lemma retrieve_loop_spec:
  assumes wf: "committee_wf c" "threshold * c_total_stake c < 2 ^ 64"
    and "fst ` set as \<subseteq> {..<committee_size c}" "distinct (map fst as)" "S \<inter> fst ` set as = {}"
    and "stake_of c S \<le> swap_limit c threshold"
  shows "\<exists>k \<le> length as. retrieve_first_nodes_loop c threshold (stake_of c S) as
            = Some (map (node_of c) (take k as)) \<and>
          stake_of c (S \<union> fst ` set (take k as)) \<le> swap_limit c threshold \<and>
          (k < length as \<longrightarrow> swap_limit c threshold < stake_of c (S \<union> fst ` set (take (Suc k) as)))"
  using assms(3-)
proof (induction as arbitrary: S)
  case (Cons p as)
  obtain a score where p: "p = (a, score)" by fastforce
  have a: "a < committee_size c" "a \<notin> S" using Cons.prems p by auto
  then have auth: "committee_authority c a = Some (c_authorities c ! a)"
    by (simp add: committee_authority_def committee_size_def)
  have lim: "u64_mul threshold (c_total_stake c) div 100 = swap_limit c threshold"
    using wf(2) by (simp add: swap_limit_def u64_mul_eq)
  have add: "u64_add (stake_of c S) (au_stake (c_authorities c ! a)) = stake_of c (insert a S)"
    using a stake_of_insert [of a S c] stake_of_bound [OF wf(1), of "insert a S"] by (simp add: u64_add_eq)
  show ?case
  proof (cases "stake_of c (insert a S) > swap_limit c threshold")
    case True
    then show ?thesis
      using auth lim add Cons.prems(4) by (intro exI [of _ 0]) (simp add: p Let_def)
  next
    case False
    have prems: "fst ` set as \<subseteq> {..<committee_size c}" "distinct (map fst as)"
        "insert a S \<inter> fst ` set as = {}" "stake_of c (insert a S) \<le> swap_limit c threshold"
      using Cons.prems p False by auto
    obtain k where k: "k \<le> length as"
       "retrieve_first_nodes_loop c threshold (stake_of c (insert a S)) as = Some (map (node_of c) (take k as))"
       "stake_of c (insert a S \<union> fst ` set (take k as)) \<le> swap_limit c threshold"
       "k < length as \<longrightarrow> swap_limit c threshold < stake_of c (insert a S \<union> fst ` set (take (Suc k) as))"
      using Cons.IH [OF prems] by blast
    show ?thesis
      using k auth lim add False by (intro exI [of _ "Suc k"]) (simp add: p Let_def node_of_def)
  qed
qed simp

lemma retrieve_first_nodes_prefix:
  assumes "committee_wf c" "threshold * c_total_stake c < 2 ^ 64"
    and "fst ` set as \<subseteq> {..<committee_size c}" "distinct (map fst as)"
  shows "\<exists>k \<le> length as. retrieve_first_nodes c as threshold = Some (map (node_of c) (take k as)) \<and>
          stake_of c (fst ` set (take k as)) \<le> swap_limit c threshold \<and>
          (k < length as \<longrightarrow> swap_limit c threshold < stake_of c (fst ` set (take (Suc k) as)))"
  using retrieve_loop_spec [OF assms, of "{}"] by (simp add: retrieve_first_nodes_def)

text \<open>Selecting nodes by stake.  \<^verbatim>\<open>retrieve_first_nodes\<close> returns the longest prefix of the given
  authorities whose total stake stays within the threshold percentage of the committee's stake:
  it stays within, and one more authority would exceed it.\<close>

theorem retrieve_first_nodes_spec:
  assumes "committee_wf c" "threshold * c_total_stake c < 2 ^ 64"
    and "fst ` set authorities \<subseteq> {..<committee_size c}" "distinct (map fst authorities)"
  shows "\<exists>k \<le> length authorities. \<exists>nodes. retrieve_first_nodes c authorities threshold = Some nodes \<and>
          map fst nodes = map fst (take k authorities) \<and>
          100 * stake_of c (fst ` set nodes) \<le> threshold * c_total_stake c \<and>
          (k < length authorities \<longrightarrow>
             threshold * c_total_stake c < 100 * stake_of c (fst ` set (take (Suc k) authorities)))"
proof -
  obtain k where k: "k \<le> length authorities"
      "retrieve_first_nodes c authorities threshold = Some (map (node_of c) (take k authorities))"
      "stake_of c (fst ` set (take k authorities)) \<le> swap_limit c threshold"
      "k < length authorities \<longrightarrow> swap_limit c threshold < stake_of c (fst ` set (take (Suc k) authorities))"
    using retrieve_first_nodes_prefix [OF assms] by blast
  have "map fst (map (node_of c) (take k authorities)) = map fst (take k authorities)"
    by (simp add: node_of_def comp_def)
  moreover from this have "fst ` set (map (node_of c) (take k authorities)) = fst ` set (take k authorities)"
    by (metis list.set_map)
  ultimately show ?thesis
    using k by (intro exI [of _ k]) (auto simp: swap_limit_def less_eq_div_iff_mult_less_eq div_less_iff_less_mult)
qed

theorem retrieve_first_nodes_spec_witness:
  "\<exists>k nodes. retrieve_first_nodes committee4 [(2, 9), (0, 5), (1, 1)] 33 = Some nodes \<and>
     map fst nodes = map fst (take k [(2, 9), (0, 5), (1, 1 :: nat)])"
  using retrieve_first_nodes_spec [OF committee4_wf, of 33 "[(2, 9), (0, 5), (1, 1)]"]
  by (auto simp: committee4_def committee_size_def)

subsection \<open>Good and bad nodes\<close>

definition good_indices :: "leader_swap_table \<Rightarrow> AuthorityIndex set" where
  "good_indices table = fst ` set (lst_good_nodes table)"

definition bad_indices :: "leader_swap_table \<Rightarrow> AuthorityIndex set" where
  "bad_indices table = set (btm_keys (lst_bad_nodes table))"

lemma authorities_by_score_indices:
  assumes "authorities_by_score scores c = Some xs"
  shows "map fst xs = [0..<length (rs_scores_per_authority scores)]"
    and "fst ` set xs \<subseteq> {..<committee_size c}"
proof -
  let ?f = "\<lambda>(index, score). map_option (\<lambda>a. (a, score)) (to_authority_index c index)"
  have xs: "length xs = length (rs_scores_per_authority scores)"
      "\<And>i. i < length xs \<Longrightarrow> ?f (i, rs_scores_per_authority scores ! i) = Some (xs ! i)"
    using assms by (auto simp: authorities_by_score_def map_opt_Some nth_enumerate_eq)
  have i: "fst (xs ! i) = i \<and> i < committee_size c" if "i < length xs" for i
  proof -
    have "(i, rs_scores_per_authority scores ! i) = xs ! i \<and> i < committee_size c"
      using xs(2) [OF that] by (auto simp: to_authority_index_def committee_size_def split: if_splits)
    then show ?thesis by (metis fst_conv)
  qed
  then show "map fst xs = [0..<length (rs_scores_per_authority scores)]"
    using xs(1) by (intro nth_equalityI) simp_all
  show "fst ` set xs \<subseteq> {..<committee_size c}"
    using i by (metis image_subsetI in_set_conv_nth lessThan_iff)
qed

lemma fold_bad_keys:
  "set (btm_keys (fold (\<lambda>(i, node). btm_insert i node) nodes m)) = fst ` set nodes \<union> set (btm_keys m)"
  by (induction nodes arbitrary: m) (auto simp: btree_simps)

lemma take_rev_overlap:
  assumes "distinct (map fst xs)" "x \<in> fst ` set (take k xs)" "x \<in> fst ` set (take j (rev xs))"
  shows "fst ` set (take k xs) \<union> fst ` set (take j (rev xs)) = fst ` set xs"
proof -
  have rev: "set (take j (rev xs)) = set (drop (length xs - j) xs)" by (simp add: take_rev)
  have tk: "y \<in> set (take k xs) \<longleftrightarrow> (\<exists>i < length xs. i < k \<and> xs ! i = y)" for y
    by (auto simp: in_set_conv_nth)
  have dr: "y \<in> set (drop m xs) \<longleftrightarrow> (\<exists>i < length xs. m \<le> i \<and> xs ! i = y)" for y m
  proof
    assume "y \<in> set (drop m xs)"
    then obtain i where "i < length xs - m" "xs ! (m + i) = y" by (auto simp: in_set_conv_nth)
    then show "\<exists>i < length xs. m \<le> i \<and> xs ! i = y" by (intro exI [of _ "m + i"]) auto
  next
    assume "\<exists>i < length xs. m \<le> i \<and> xs ! i = y"
    then obtain i where i: "i < length xs" "m \<le> i" "xs ! i = y" by blast
    then have "drop m xs ! (i - m) = y" "i - m < length (drop m xs)" by auto
    then show "y \<in> set (drop m xs)" by (metis nth_mem)
  qed
  obtain p q where pq: "p < k" "p < length xs" "fst (xs ! p) = x" "length xs - j \<le> q" "q < length xs" "fst (xs ! q) = x"
    using assms(2,3) unfolding rev by (auto simp: tk dr)
  then have "p = q" using assms(1) by (metis distinct_conv_nth length_map nth_map)
  then have jk: "length xs - j < k" using pq by simp
  have "y \<in> set (take k xs) \<union> set (drop (length xs - j) xs)" if y: "y \<in> set xs" for y
  proof -
    obtain i where i: "i < length xs" "xs ! i = y" using y by (auto simp: in_set_conv_nth)
    then have "i < k \<or> length xs - j \<le> i" using jk by linarith
    with i show ?thesis unfolding Un_iff tk dr by blast
  qed
  then have "set xs = set (take k xs) \<union> set (drop (length xs - j) xs)"
    using set_take_subset [of k xs] set_drop_subset [of _ xs] by blast
  then show ?thesis unfolding rev by blast
qed

definition table_split :: "committee \<Rightarrow> nat \<Rightarrow> leader_swap_table \<Rightarrow> (AuthorityIndex \<times> nat) list \<Rightarrow> nat \<Rightarrow> nat \<Rightarrow> bool" where
  "table_split c threshold table desc k j \<longleftrightarrow>
     distinct (map fst desc) \<and> fst ` set desc = {..<committee_size c} \<and>
     good_indices table = fst ` set (take k desc) \<and> bad_indices table = fst ` set (take j (rev desc)) \<and>
     stake_of c (good_indices table) \<le> swap_limit c threshold \<and>
     stake_of c (bad_indices table) \<le> swap_limit c threshold"

lemma new_inner_Some:
  assumes "committee_wf c" "33 * c_total_stake c < 2 ^ 64" "rand_ok R"
    and "leader_swap_table_new_inner R c threshold commit_index scores = Some table"
  shows "table = leader_swap_table_default \<or> (\<exists>desc k j. table_split c threshold table desc k j)"
proof (cases "rs_scores_per_authority scores = []")
  case True
  then show ?thesis using assms(4) by (auto simp: leader_swap_table_new_inner_def split: if_splits)
next
  case False
  obtain by_score where bs: "authorities_by_score scores c = Some by_score" "length by_score = committee_size c"
      "threshold \<le> 33"
    using assms(4) False
    by (auto simp: leader_swap_table_new_inner_def Let_def split: if_splits bind_splits)
  define desc where "desc = sort_key (\<lambda>p. - int (snd p))
     (lr_shuffle R (replicate 28 0 @ u32_le_bytes commit_index) by_score)"
  have perm: "mset desc = mset by_score" using assms(3) by (simp add: desc_def rand_ok_def)
  have idx: "map fst by_score = [0..<committee_size c]"
    using authorities_by_score_indices(1) [OF bs(1)] bs(2) by (metis length_map length_upt minus_nat.diff_0)
  have "mset (map fst desc) = mset [0..<committee_size c]"
    using perm idx by (metis mset_map)
  then have dist: "distinct (map fst desc)" and set_d: "set (map fst desc) = {..<committee_size c}"
    by (metis mset_eq_imp_distinct_iff distinct_upt, metis atLeast_upt set_mset_mset)
  have small: "threshold * c_total_stake c < 2 ^ 64"
    using assms(2) bs(3) by (meson le_less_trans mult_le_mono1)
  have rng: "fst ` set desc \<subseteq> {..<committee_size c}" "fst ` set (rev desc) \<subseteq> {..<committee_size c}"
      "distinct (map fst (rev desc))"
    using set_d dist by (auto simp: rev_map [symmetric])
  obtain k where k: "retrieve_first_nodes c desc threshold = Some (map (node_of c) (take k desc))"
      "stake_of c (fst ` set (take k desc)) \<le> swap_limit c threshold"
    using retrieve_first_nodes_prefix [OF assms(1) small rng(1) dist] by blast
  obtain j where j: "retrieve_first_nodes c (rev desc) threshold = Some (map (node_of c) (take j (rev desc)))"
      "stake_of c (fst ` set (take j (rev desc))) \<le> swap_limit c threshold"
    using retrieve_first_nodes_prefix [OF assms(1) small rng(2,3)] by blast
  have node: "fst ` node_of c ` S = fst ` S" for S
    by (simp add: image_image node_of_def)
  have table: "table = \<lparr>lst_good_nodes = map (node_of c) (take k desc),
        lst_bad_nodes = fold (\<lambda>(i, node). btm_insert i node) (map (node_of c) (take j (rev desc))) [],
        lst_reputation_scores_desc = desc, lst_reputation_scores = scores\<rparr>"
    using assms(4) False bs k(1) j(1) unfolding leader_swap_table_new_inner_def Let_def desc_def
    by simp
  have "good_indices table = fst ` set (take k desc)" "bad_indices table = fst ` set (take j (rev desc))"
    unfolding table good_indices_def bad_indices_def by (simp_all add: fold_bad_keys node)
  with dist set_d k(2) j(2) have "table_split c threshold table desc k j" by (simp add: table_split_def)
  then show ?thesis by blast
qed

lemma swap_table_disjoint_aux:
  assumes "committee_wf c" "33 * c_total_stake c < 2 ^ 64" "rand_ok R"
    and "leader_swap_table_new_inner R c threshold commit_index scores = Some table"
  shows "good_indices table \<inter> bad_indices table = {}"
    and "good_indices table \<subseteq> {..<committee_size c}"
proof -
  have thr: "threshold \<le> 33"
    using assms(4) by (simp add: leader_swap_table_new_inner_def split: if_splits)
  consider (default) "table = leader_swap_table_default" | (nodes) desc k j where
      "table_split c threshold table desc k j"
    using new_inner_Some [OF assms] by blast
  then have "good_indices table \<inter> bad_indices table = {} \<and> good_indices table \<subseteq> {..<committee_size c}"
  proof cases
    case default
    then show ?thesis by (simp add: leader_swap_table_default_def good_indices_def bad_indices_def)
  next
    case nodes
    note t = nodes [unfolded table_split_def]
    have "x \<notin> bad_indices table" if x: "x \<in> good_indices table" for x
    proof
      assume "x \<in> bad_indices table"
      with x t have all: "good_indices table \<union> bad_indices table = {..<committee_size c}"
        using take_rev_overlap [of desc x k j] by simp
      have "stake_of c (good_indices table) \<le> swap_limit c threshold"
          "stake_of c (bad_indices table) \<le> swap_limit c threshold"
        using t by blast+
      then have "stake_of c {..<committee_size c} \<le> 2 * swap_limit c threshold"
        using stake_of_Un_Int [of c "good_indices table" "bad_indices table"] unfolding all by linarith
      moreover have "stake_of c {..<committee_size c} = c_total_stake c"
        using assms(1) stake_of_UNIV [of c] by (simp add: committee_wf_def stake_of_def)
      moreover have "100 * swap_limit c threshold \<le> 33 * c_total_stake c"
        using thr unfolding swap_limit_def
        by (meson div_times_less_eq_dividend le_trans mult_le_mono1 times_div_less_eq_dividend)
      moreover have "0 < c_total_stake c" using assms(1) by (simp add: committee_wf_def)
      ultimately show False by linarith
    qed
    moreover have "good_indices table \<subseteq> {..<committee_size c}"
      using t set_take_subset [of k desc] by blast
    ultimately show ?thesis by blast
  qed
  then show "good_indices table \<inter> bad_indices table = {}" "good_indices table \<subseteq> {..<committee_size c}"
    by blast+
qed

text \<open>C38: electing leaders.  With the sampling functions behaving as documented, a swap table built
  from any scores has disjoint good and bad nodes, and every leader \<^verbatim>\<open>elect_leader\<close> returns with it is a
  member of the committee that is not among the bad nodes; the only way to get no leader (a
  panic) is an offset out of range, a failing weighted sample, or an elected bad node when there
  is no good node.\<close>

theorem elect_leader_spec:
  assumes "committee_wf c" "33 * c_total_stake c < 2 ^ 64" "rand_ok R" "ctx_committee (ls_context ls) = c"
    and "leader_swap_table_new_inner R c threshold commit_index scores = Some (ls_swap_table ls)"
  shows "good_indices (ls_swap_table ls) \<inter> bad_indices (ls_swap_table ls) = {} \<and>
    (\<forall>l. elect_leader R ls round offset = Some l \<longrightarrow>
        l < committee_size c \<and> l \<notin> bad_indices (ls_swap_table ls)) \<and>
    (elect_leader R ls round offset = None \<longleftrightarrow>
        committee_size c \<le> offset \<or>
        lr_choose_multiple_weighted R (replicate 28 0 @ u32_le_bytes round) (committee_size c)
          (map (\<lambda>(i, a). (i, au_stake a)) (committee_indices c)) = None \<or>
        (\<exists>b \<in> bad_indices (ls_swap_table ls). elect_leader_stake_based R ls round offset = Some b) \<and>
        good_indices (ls_swap_table ls) = {})"
proof -
  let ?t = "ls_swap_table ls"
  let ?w = "lr_choose_multiple_weighted R (replicate 28 0 @ u32_le_bytes round) (committee_size c)
          (map (\<lambda>(i, a). (i, au_stake a)) (committee_indices c))"
  note dis = swap_table_disjoint_aux [OF assms(1-3,5)]
  have idx: "map fst (map (\<lambda>(i, a). (i, au_stake a)) (committee_indices c)) = [0..<committee_size c]"
    by (simp add: committee_indices_def committee_size_def comp_def case_prod_unfold map_fst_enumerate)
  have order: "set order \<subseteq> {..<committee_size c}" "length order = committee_size c" if "?w = Some order" for order
  proof -
    have "mset order \<subseteq># mset [0..<committee_size c]" "length order = committee_size c"
      using assms(3) that unfolding rand_ok_def
      by (metis idx, metis (no_types, lifting) idx length_map length_upt min.idem minus_nat.diff_0)
    then show "set order \<subseteq> {..<committee_size c}" "length order = committee_size c"
      using set_mset_mono by fastforce+
  qed
  have based: "elect_leader_stake_based R ls round offset
      = (if committee_size c \<le> offset then None else case ?w of None \<Rightarrow> None | Some order \<Rightarrow> Some (order ! offset))"
    using assms(4) order
    by (auto simp: elect_leader_stake_based_def Let_def vec_get_def split: option.splits bind_splits)
  have member: "l < committee_size c" if "elect_leader_stake_based R ls round offset = Some l" for l
    using that order unfolding based by (force split: if_splits option.splits)
  let ?seed = "replicate 24 0 @ u32_le_bytes round @ u32_le_bytes offset"
  have choose_None: "lr_choose R ?seed (lst_good_nodes ?t) = None \<longleftrightarrow> good_indices ?t = {}"
    using assms(3) by (simp add: rand_ok_def good_indices_def)
  have choose_Some: "i \<in> good_indices ?t" if "lr_choose R ?seed (lst_good_nodes ?t) = Some (i, h, s)" for i h s
    using assms(3) that unfolding rand_ok_def good_indices_def by (metis fst_conv imageI)
  have swap: "swap_leader R ?t l round offset = (if l \<in> bad_indices ?t then
      (case lr_choose R ?seed (lst_good_nodes ?t) of None \<Rightarrow> None | Some (i, _, _) \<Rightarrow> Some (Some i))
      else Some None)" for l
    by (simp add: swap_leader_def bad_indices_def)
  have "l < committee_size c \<and> l \<notin> bad_indices ?t" if l: "elect_leader R ls round offset = Some l" for l
  proof -
    obtain x y where xy: "elect_leader_stake_based R ls round offset = Some x"
        "swap_leader R ?t x round offset = Some y" "l = (case y of Some l \<Rightarrow> l | None \<Rightarrow> x)"
      using l by (auto simp: elect_leader_def split: bind_splits)
    show ?thesis
    proof (cases "x \<in> bad_indices ?t")
      case True
      then have "l \<in> good_indices ?t"
        using xy(2,3) choose_Some unfolding swap by (auto split: option.splits prod.splits)
      then show ?thesis using dis by blast
    next
      case False
      then have "l = x" using xy(2,3) unfolding swap by auto
      then show ?thesis using False member [OF xy(1)] by simp
    qed
  qed
  moreover have "elect_leader R ls round offset = None \<longleftrightarrow>
      elect_leader_stake_based R ls round offset = None \<or>
      (\<exists>b \<in> bad_indices ?t. elect_leader_stake_based R ls round offset = Some b) \<and> good_indices ?t = {}"
    using choose_None unfolding elect_leader_def swap
    by (auto split: option.splits bind_splits prod.splits if_splits)
  moreover have "elect_leader_stake_based R ls round offset = None \<longleftrightarrow> committee_size c \<le> offset \<or> ?w = None"
    unfolding based by (auto split: option.splits)
  ultimately show ?thesis using dis(1) by blast
qed

text \<open>Concrete sampling functions for the witnesses: keep the order, choose the first.\<close>

definition rand_first :: leader_rand where
  "rand_first = \<lparr>lr_shuffle = (\<lambda>seed xs. xs),
     lr_choose = (\<lambda>seed xs. case xs of [] \<Rightarrow> None | x # _ \<Rightarrow> Some x),
     lr_choose_multiple_weighted = (\<lambda>seed n xs. Some (take n (map fst xs)))\<rparr>"

lemma rand_first_ok: "rand_ok rand_first"
proof -
  have "mset (take n xs) \<subseteq># mset xs" for n and xs :: "nat list"
    by (metis append_take_drop_id mset_append mset_subset_eq_add_left)
  then have "mset (take n (map fst xs)) \<subseteq># image_mset fst (mset xs)" for n and xs :: "(nat \<times> nat) list"
    by (metis mset_map)
  then show ?thesis
    by (auto simp: rand_ok_def rand_first_def split: list.splits)
qed

definition scores_of :: "nat list \<Rightarrow> reputation_scores" where
  "scores_of xs = \<lparr>rs_scores_per_authority = xs, rs_commit_range = commit_range_new 1 3\<rparr>"

lemmas table_eval = leader_swap_table_new_inner_def scores_of_def rand_first_def authorities_by_score_def
  to_authority_index_def committee_size_def example_authority_def Let_def
  retrieve_first_nodes_def committee_authority_def vec_get_def u64_mul_def u64_add_def

theorem elect_leader_spec_witness:
  "\<exists>table. leader_swap_table_new_inner rand_first committee4 33 3 (scores_of [3, 1, 2, 0]) = Some table \<and>
     good_indices table \<inter> bad_indices table = {} \<and>
     (\<forall>l. elect_leader rand_first (leader_schedule_new context4 table) 7 3 = Some l \<longrightarrow>
        l < 4 \<and> l \<notin> bad_indices table)"
proof -
  obtain table where t: "leader_swap_table_new_inner rand_first committee4 33 3 (scores_of [3, 1, 2, 0]) = Some table"
    by (simp add: table_eval committee4_def)
  have "33 * c_total_stake committee4 < 2 ^ 64" by (simp add: committee4_def)
  moreover have "ctx_committee (ls_context (leader_schedule_new context4 table)) = committee4"
      "leader_swap_table_new_inner rand_first committee4 33 3 (scores_of [3, 1, 2, 0])
         = Some (ls_swap_table (leader_schedule_new context4 table))"
    using t by (simp_all add: leader_schedule_new_def)
  ultimately show ?thesis
    using elect_leader_spec [OF committee4_wf _ rand_first_ok, of "leader_schedule_new context4 table" 33 3
        "scores_of [3, 1, 2, 0]" 7 3] t
    by (simp add: leader_schedule_new_def)
qed

definition committee_heavy :: committee where
  "committee_heavy = \<lparr>c_epoch = 0, c_total_stake = 100, c_quorum_threshold = 67,
     c_validity_threshold = 34, c_authorities = map example_authority [60, 20, 20]\<rparr>"

text \<open>A swap without good nodes panics.  When the best-scoring authority alone holds more stake
  than the threshold, the table has no good node, while low-scoring authorities are still bad
  nodes; electing one of them as leader reaches the \<^verbatim>\<open>expect\<close> on an empty list.  Here the stakes
  are 60, 20 and 20, the threshold is 20 percent and the last authority has the lowest score.\<close>

theorem elect_leader_no_good_node:
  "committee_new 0 (map example_authority [60, 20, 20]) = Some committee_heavy \<and>
   (\<exists>table. leader_swap_table_new_inner rand_first committee_heavy 20 3 (scores_of [5, 1, 0]) = Some table \<and>
      good_indices table = {} \<and> bad_indices table = {2} \<and>
      elect_leader rand_first (leader_schedule_new (context4\<lparr>ctx_committee := committee_heavy\<rparr>) table) 7 2 = None)"
proof -
  have "committee_new 0 (map example_authority [60, 20, 20]) = Some committee_heavy"
    by (simp add: committee_new_def committee_heavy_def example_authority_def Let_def u64_sum_def
        u64_add_def u64_sub_def u64_mul_def)
  moreover obtain table where t:
      "leader_swap_table_new_inner rand_first committee_heavy 20 3 (scores_of [5, 1, 0]) = Some table"
      "lst_good_nodes table = []" "btm_keys (lst_bad_nodes table) = [2]"
    by (simp add: table_eval committee_heavy_def)
  moreover have "elect_leader rand_first (leader_schedule_new (context4\<lparr>ctx_committee := committee_heavy\<rparr>) table) 7 2 = None"
    using t(2,3)
    by (simp add: elect_leader_def elect_leader_stake_based_def swap_leader_def leader_schedule_new_def Let_def
        rand_first_def committee_indices_def committee_heavy_def committee_size_def vec_get_def)
  ultimately show ?thesis by (simp add: good_indices_def bad_indices_def)
qed

end
