(* ===== verification/Base_Committer.thy ===== *)
theory Base_Committer
  imports Dag_Traversal Leader_Schedule
begin

section \<open>Base committer\<close>

text \<open>
  \<^verbatim>\<open>core/src/base_committer.rs\<close>: the direct and the indirect decision rule for one leader slot.
  The DAG state, shared behind a lock in the source, is an argument.  The recursion of
  \<^verbatim>\<open>find_supported_block\<close> takes fuel, one more than the round of the block it starts from; the
  round decreases along ancestors, so this is always enough (\<open>support_search_total\<close>).  \<open>None\<close> is a
  panic.
\<close>

record base_committer_options =
  bo_wave_length :: nat
  bo_leader_offset :: nat
  bo_round_offset :: nat

definition base_committer_options_default :: base_committer_options where
  "base_committer_options_default =
     \<lparr>bo_wave_length = DEFAULT_WAVE_LENGTH, bo_leader_offset = 0, bo_round_offset = 0\<rparr>"

record base_committer =
  bc_context :: consensus_context
  bc_leader_schedule :: leader_schedule
  bc_options :: base_committer_options

definition base_committer_new ::
  "consensus_context \<Rightarrow> leader_schedule \<Rightarrow> base_committer_options \<Rightarrow> base_committer" where
  "base_committer_new ctx ls options = \<lparr>bc_context = ctx, bc_leader_schedule = ls, bc_options = options\<rparr>"

abbreviation bc_committee :: "base_committer \<Rightarrow> committee" where
  "bc_committee bc \<equiv> ctx_committee (bc_context bc)"

subsection \<open>Waves\<close>

definition leader_round :: "base_committer \<Rightarrow> nat \<Rightarrow> Round" where
  "leader_round bc wave =
     u32_add (u32_mul wave (bo_wave_length (bc_options bc))) (bo_round_offset (bc_options bc))"

definition decision_round :: "base_committer \<Rightarrow> nat \<Rightarrow> Round" where
  "decision_round bc wave =
     (let wave_length = bo_wave_length (bc_options bc)
      in u32_add (u32_sub (u32_add (u32_mul wave wave_length) wave_length) 1)
           (bo_round_offset (bc_options bc)))"

definition wave_number :: "base_committer \<Rightarrow> Round \<Rightarrow> nat option" where
  "wave_number bc round =
     (if bo_wave_length (bc_options bc) = 0 then None
      else Some ((round - bo_round_offset (bc_options bc)) div bo_wave_length (bc_options bc)))"

definition bc_elect_leader :: "leader_rand \<Rightarrow> base_committer \<Rightarrow> Round \<Rightarrow> slot option option" where
  "bc_elect_leader R bc round = do {
     wave \<leftarrow> wave_number bc round;
     if leader_round bc wave \<noteq> round then Some None
     else do {
       a \<leftarrow> elect_leader R (bc_leader_schedule bc) round (bo_leader_offset (bc_options bc));
       Some (Some (Slot round a))
     }
   }"

subsection \<open>Votes and certificates\<close>

text \<open>The loop over the ancestors of one block; a block found in the store is searched in turn.\<close>

function support_search ::
  "nat \<Rightarrow> (block_ref \<Rightarrow> verified_block option) \<Rightarrow> slot \<Rightarrow> block_ref list \<Rightarrow> block_ref option option" where
  "support_search fuel get s [] = Some None"
| "support_search fuel get s (a # as) =
     (if slot_of a = s then Some (Some a)
      else if br_round a \<le> slot_round s then support_search fuel get s as
      else case fuel of
             0 \<Rightarrow> None
           | Suc n \<Rightarrow>
               (case get a of
                  None \<Rightarrow> None
                | Some b \<Rightarrow>
                    (case (if vb_round b < slot_round s then Some None
                           else support_search n get s (vb_ancestors b)) of
                       None \<Rightarrow> None
                     | Some (Some r) \<Rightarrow> Some (Some r)
                     | Some None \<Rightarrow> support_search fuel get s as)))"
  by pat_completeness auto
termination
  by (relation "measures [\<lambda>(fuel, get, s, as). fuel, \<lambda>(fuel, get, s, as). length as]") auto

definition find_supported_block :: "dag_state \<Rightarrow> slot \<Rightarrow> verified_block \<Rightarrow> block_ref option option" where
  "find_supported_block d leader_slot from_block =
     (if vb_round from_block < slot_round leader_slot then Some None
      else support_search (Suc (vb_round from_block)) (get_block d) leader_slot (vb_ancestors from_block))"

definition is_vote :: "dag_state \<Rightarrow> verified_block \<Rightarrow> verified_block \<Rightarrow> bool option" where
  "is_vote d potential_vote leader_block =
     (let reference = vb_reference leader_block
      in map_option (\<lambda>support. support = Some reference)
           (find_supported_block d (slot_of reference) potential_vote))"

type_synonym vote_cache = "block_ref \<Rightarrow> bool option"

fun certificate_loop ::
  "committee \<Rightarrow> dag_state \<Rightarrow> verified_block \<Rightarrow> block_ref list \<Rightarrow> stake_aggregator \<Rightarrow> vote_cache \<Rightarrow>
   (bool \<times> vote_cache) option" where
  "certificate_loop c d leader_block [] agg all_votes = Some (False, all_votes)"
| "certificate_loop c d leader_block (r # rs) agg all_votes =
     (case (case all_votes r of
              Some v \<Rightarrow> Some (v, all_votes)
            | None \<Rightarrow>
                (case (case get_block d r of
                         Some b \<Rightarrow> is_vote d b leader_block
                       | None \<Rightarrow> if br_round r \<le> gc_round d then Some False else None) of
                   None \<Rightarrow> None
                 | Some v \<Rightarrow> Some (v, all_votes(r \<mapsto> v)))) of
        None \<Rightarrow> None
      | Some (v, all_votes') \<Rightarrow>
          if v then
            (case aggregator_add reached_quorum agg (br_author r) c of
               None \<Rightarrow> None
             | Some (reached, agg') \<Rightarrow>
                 if reached then Some (True, all_votes')
                 else certificate_loop c d leader_block rs agg' all_votes')
          else certificate_loop c d leader_block rs agg all_votes')"

definition is_certificate ::
  "committee \<Rightarrow> dag_state \<Rightarrow> verified_block \<Rightarrow> verified_block \<Rightarrow> vote_cache \<Rightarrow> (bool \<times> vote_cache) option" where
  "is_certificate c d potential_certificate leader_block all_votes =
     certificate_loop c d leader_block (vb_ancestors potential_certificate) aggregator_new all_votes"

fun any_certificate ::
  "committee \<Rightarrow> dag_state \<Rightarrow> verified_block \<Rightarrow> verified_block list \<Rightarrow> vote_cache \<Rightarrow> bool option" where
  "any_certificate c d leader_block [] all_votes = Some False"
| "any_certificate c d leader_block (b # bs) all_votes =
     (case is_certificate c d b leader_block all_votes of
        None \<Rightarrow> None
      | Some (v, all_votes') \<Rightarrow> if v then Some True else any_certificate c d leader_block bs all_votes')"

subsection \<open>Decision rules\<close>

definition decide_leader_from_anchor ::
  "base_committer \<Rightarrow> dag_state \<Rightarrow> verified_block \<Rightarrow> slot \<Rightarrow> leader_status option" where
  "decide_leader_from_anchor bc d anchor leader_slot = do {
     let leader_blocks = get_uncommitted_blocks_at_slot d leader_slot;
     wave \<leftarrow> wave_number bc (slot_round leader_slot);
     potential_certificates \<leftarrow> ancestors_at_round d anchor (decision_round bc wave);
     certified \<leftarrow> filter_opt
        (\<lambda>b. any_certificate (bc_committee bc) d b potential_certificates Map.empty) leader_blocks;
     if length certified > 1 then None
     else Some (if certified = [] then Skip leader_slot else Commit (last certified))
   }"

fun blame_loop ::
  "committee \<Rightarrow> AuthorityIndex \<Rightarrow> verified_block list \<Rightarrow> stake_aggregator \<Rightarrow> bool option" where
  "blame_loop c leader [] agg = Some False"
| "blame_loop c leader (b # bs) agg =
     (if list_all (\<lambda>a. br_author a \<noteq> leader) (vb_ancestors b) then
        (case aggregator_add reached_quorum agg (vb_author b) c of
           None \<Rightarrow> None
         | Some (reached, agg') \<Rightarrow> if reached then Some True else blame_loop c leader bs agg')
      else blame_loop c leader bs agg)"

definition enough_leader_blame ::
  "base_committer \<Rightarrow> dag_state \<Rightarrow> Round \<Rightarrow> AuthorityIndex \<Rightarrow> bool option" where
  "enough_leader_blame bc d voting_round leader = do {
     voting_blocks \<leftarrow> get_uncommitted_blocks_at_round d voting_round;
     blame_loop (bc_committee bc) leader voting_blocks aggregator_new
   }"

fun support_loop ::
  "committee \<Rightarrow> dag_state \<Rightarrow> verified_block \<Rightarrow> verified_block list \<Rightarrow> stake_aggregator \<Rightarrow> vote_cache \<Rightarrow>
   bool option" where
  "support_loop c d leader_block [] agg all_votes = Some False"
| "support_loop c d leader_block (b # bs) agg all_votes =
     (case is_certificate c d b leader_block all_votes of
        None \<Rightarrow> None
      | Some (v, all_votes') \<Rightarrow>
          if v then
            (case aggregator_add reached_quorum agg (vb_author b) c of
               None \<Rightarrow> None
             | Some (reached, agg') \<Rightarrow>
                 if reached then Some True else support_loop c d leader_block bs agg' all_votes')
          else support_loop c d leader_block bs agg all_votes')"

definition enough_leader_support ::
  "base_committer \<Rightarrow> dag_state \<Rightarrow> Round \<Rightarrow> verified_block \<Rightarrow> bool option" where
  "enough_leader_support bc d round leader_block = do {
     decision_blocks \<leftarrow> get_uncommitted_blocks_at_round d round;
     stakes \<leftarrow> map_opt (\<lambda>b. committee_stake (bc_committee bc) (vb_author b)) decision_blocks;
     if \<not> reached_quorum (bc_committee bc) (u64_sum stakes) then Some False
     else support_loop (bc_committee bc) d leader_block decision_blocks aggregator_new Map.empty
   }"

definition try_direct_decide :: "base_committer \<Rightarrow> dag_state \<Rightarrow> slot \<Rightarrow> leader_status option" where
  "try_direct_decide bc d leader = do {
     blame \<leftarrow> enough_leader_blame bc d (u32_add (slot_round leader) 1) (slot_authority leader);
     if blame then Some (Skip leader)
     else do {
       wave \<leftarrow> wave_number bc (slot_round leader);
       let leader_blocks = get_uncommitted_blocks_at_slot d leader;
       supported \<leftarrow> filter_opt (enough_leader_support bc d (decision_round bc wave)) leader_blocks;
       if length supported > 1 then None
       else Some (if supported = [] then Undecided leader else Commit (last supported))
     }
   }"

fun indirect_loop ::
  "base_committer \<Rightarrow> dag_state \<Rightarrow> slot \<Rightarrow> leader_status list \<Rightarrow> leader_status option" where
  "indirect_loop bc d leader_slot [] = Some (Undecided leader_slot)"
| "indirect_loop bc d leader_slot (Commit anchor # rest) = decide_leader_from_anchor bc d anchor leader_slot"
| "indirect_loop bc d leader_slot (Skip _ # rest) = indirect_loop bc d leader_slot rest"
| "indirect_loop bc d leader_slot (Undecided _ # rest) = Some (Undecided leader_slot)"

definition try_indirect_decide ::
  "base_committer \<Rightarrow> dag_state \<Rightarrow> slot \<Rightarrow> leader_status list \<Rightarrow> leader_status option" where
  "try_indirect_decide bc d leader_slot leaders =
     indirect_loop bc d leader_slot
       (filter (\<lambda>x. u32_add (slot_round leader_slot) (bo_wave_length (bc_options bc)) \<le> leader_status_round x)
          leaders)"

end
