(* ===== verification/Committer_Spec.thy ===== *)
theory Committer_Spec
  imports Base_Committer
begin

section \<open>What the decision rules compute\<close>

text \<open>
  A \<open>dag_view\<close> is a well-formed DAG state all of whose blocks passed verification and that is
  causally complete above its garbage collection round.  Under it the loops of the base committer
  end, never panic, and compute the plain definitions \<open>vote_of\<close> (a block votes for a leader),
  \<open>certifies\<close> (a quorum of its ancestors votes for the leader), \<open>blames\<close> and \<open>supports\<close>.
\<close>

subsection \<open>Views\<close>

definition valid_block :: "committee \<Rightarrow> verified_block \<Rightarrow> bool" where
  "valid_block c b \<longleftrightarrow>
     vb_author b < committee_size c \<and>
     (\<forall>a \<in> set (vb_ancestors b). br_round a < vb_round b \<and> br_author a < committee_size c) \<and>
     distinct (map br_author (vb_ancestors b)) \<and>
     (0 < vb_round b \<longrightarrow>
        reached_quorum c (stake_of c {br_author a |a. a \<in> set (vb_ancestors b) \<and> br_round a = vb_round b - 1}))"

definition dag_view :: "dag_state \<Rightarrow> bool" where
  "dag_view d \<longleftrightarrow>
     dag_inv d \<and>
     (\<forall>r b. get_block d r = Some b \<longrightarrow> valid_block (ds_committee d) b) \<and>
     (\<forall>r b a. get_block d r = Some b \<longrightarrow> a \<in> set (vb_ancestors b) \<longrightarrow> gc_round d < br_round a \<longrightarrow>
        get_block d a \<noteq> None) \<and>
     (\<forall>r b. get_block d r = Some b \<longrightarrow> gc_round d < br_round r \<longrightarrow> cached_block d b)"

lemma dag_viewD:
  assumes "dag_view d"
  shows "dag_inv d" "committee_wf (ds_committee d)"
    and "get_block d r = Some b \<Longrightarrow> valid_block (ds_committee d) b"
    and "get_block d r = Some b \<Longrightarrow> vb_reference b = r"
    and "get_block d r = Some b \<Longrightarrow> a \<in> set (vb_ancestors b) \<Longrightarrow> gc_round d < br_round a \<Longrightarrow>
      \<exists>x. get_block d a = Some x"
    and "get_block d r = Some b \<Longrightarrow> gc_round d < br_round r \<Longrightarrow> cached_block d b"
    and "get_block d r = Some b \<Longrightarrow> a \<in> set (vb_ancestors b) \<Longrightarrow> br_round a < br_round r"
proof -
  show inv: "dag_inv d" and valid: "get_block d r = Some b \<Longrightarrow> valid_block (ds_committee d) b"
    and "get_block d r = Some b \<Longrightarrow> gc_round d < br_round r \<Longrightarrow> cached_block d b"
    using assms by (auto simp: dag_view_def)
  show "get_block d r = Some b \<Longrightarrow> a \<in> set (vb_ancestors b) \<Longrightarrow> gc_round d < br_round a \<Longrightarrow>
      \<exists>x. get_block d a = Some x"
    using assms unfolding dag_view_def by blast
  show "committee_wf (ds_committee d)" using inv by (simp add: dag_inv_def)
  show ref: "get_block d r = Some b \<Longrightarrow> vb_reference b = r" by (rule get_block_reference [OF inv])
  show "get_block d r = Some b \<Longrightarrow> a \<in> set (vb_ancestors b) \<Longrightarrow> br_round a < br_round r"
    using valid ref by (fastforce simp: valid_block_def)
qed

lemma cached_block_get: "dag_inv d \<Longrightarrow> cached_block d b \<Longrightarrow> get_block d (vb_reference b) = Some b"
proof -
  assume inv: "dag_inv d" and "cached_block d b"
  then obtain info where i: "btm_get (ds_recent_blocks d) (vb_reference b) = Some info" "bi_block info = b"
    by (auto simp: cached_block_def)
  then have "0 < br_round (vb_reference b)"
    using inv unfolding dag_inv_def recent_ok_def by blast
  with i show ?thesis by (simp add: get_block_eq)
qed

lemma view_rounds_decrease: "dag_view d \<Longrightarrow> rounds_decrease d"
  using dag_viewD(7) by (auto simp: rounds_decrease_def)

subsection \<open>The search for the supported block\<close>

lemma support_search_total:
  assumes "\<And>r b a. get r = Some b \<Longrightarrow> a \<in> set (vb_ancestors b) \<Longrightarrow> br_round a < br_round r"
    and "\<And>r b a. get r = Some b \<Longrightarrow> a \<in> set (vb_ancestors b) \<Longrightarrow> slot_round s < br_round a \<Longrightarrow> get a \<noteq> None"
    and "\<And>a. a \<in> set as \<Longrightarrow> br_round a < fuel"
    and "\<And>a. a \<in> set as \<Longrightarrow> slot_round s < br_round a \<Longrightarrow> get a \<noteq> None"
  shows "\<exists>x. support_search fuel get s as = Some x \<and> (\<forall>r. x = Some r \<longrightarrow> slot_of r = s)"
  using assms
proof (induction fuel get s as rule: support_search.induct)
  case (2 fuel get s a as)
  have rest: "\<exists>x. support_search fuel get s as = Some x \<and> (\<forall>r. x = Some r \<longrightarrow> slot_of r = s)"
    if "slot_of a \<noteq> s" "br_round a \<le> slot_round s"
    using that 2(1) 2(4-7) by auto
  show ?case
  proof (cases "slot_of a = s \<or> br_round a \<le> slot_round s")
    case True
    then show ?thesis using rest by auto
  next
    case False
    then have F: "slot_of a \<noteq> s" "\<not> br_round a \<le> slot_round s" by auto
    obtain n where n: "fuel = Suc n" using 2(6) [of a] by (cases fuel) auto
    obtain b where b: "get a = Some b" using 2(7) [of a] F by auto
    have anc: "br_round x < n" if "x \<in> set (vb_ancestors b)" for x
      using 2(4) [OF b that] 2(6) [of a] n by simp
    have inner: "\<exists>x. (if vb_round b < slot_round s then Some None else support_search n get s (vb_ancestors b))
        = Some x \<and> (\<forall>r. x = Some r \<longrightarrow> slot_of r = s)"
      using 2(2) [OF F n b] 2(4,5) anc 2(5) [OF b] by auto
    then obtain x where x: "(if vb_round b < slot_round s then Some None else support_search n get s (vb_ancestors b))
        = Some x" "\<forall>r. x = Some r \<longrightarrow> slot_of r = s" by blast
    show ?thesis
    proof (cases x)
      case None
      have "\<exists>y. support_search fuel get s as = Some y \<and> (\<forall>r. y = Some r \<longrightarrow> slot_of r = s)"
        using 2(3) [OF F n b x(1) None] 2(4-7) by auto
      with None F n b x(1) show ?thesis by simp
    next
      case (Some r)
      with F n b x show ?thesis by simp
    qed
  qed
qed simp

text \<open>When no ancestor is above the leader's round the search is a lookup in the list.\<close>

lemma support_search_direct:
  "(\<And>a. a \<in> set as \<Longrightarrow> br_round a \<le> slot_round s) \<Longrightarrow>
     support_search fuel get s as = Some (List.find (\<lambda>a. slot_of a = s) as)"
  by (induction as) auto

lemma is_vote_total:
  assumes view: "dag_view d" and b: "get_block d r = Some b" and gc: "gc_round d \<le> vb_round L"
  shows "is_vote d b L \<noteq> None"
proof -
  let ?s = "slot_of (vb_reference L)"
  have "\<exists>x. support_search (Suc (vb_round b)) (get_block d) ?s (vb_ancestors b) = Some x \<and>
      (\<forall>r. x = Some r \<longrightarrow> slot_of r = ?s)"
  proof (rule support_search_total)
    show "br_round a < Suc (vb_round b)" if "a \<in> set (vb_ancestors b)" for a
      using dag_viewD(3) [OF view b] that by (auto simp: valid_block_def)
    show "get_block d a \<noteq> None" if "a \<in> set (vb_ancestors b)" "slot_round ?s < br_round a" for a
      using dag_viewD(5) [OF view b that(1)] that(2) gc by (auto simp: slot_of_def)
    show "get_block d a \<noteq> None" if "get_block d x = Some y" "a \<in> set (vb_ancestors y)"
        "slot_round ?s < br_round a" for x y a
      using dag_viewD(5) [OF view that(1,2)] that(3) gc by (auto simp: slot_of_def)
  qed (rule dag_viewD(7) [OF view])
  then show ?thesis by (auto simp: is_vote_def find_supported_block_def Let_def)
qed

subsection \<open>Votes\<close>

definition vote_of :: "dag_state \<Rightarrow> verified_block \<Rightarrow> block_ref \<Rightarrow> bool" where
  "vote_of d L r \<longleftrightarrow> (\<exists>b. get_block d r = Some b \<and> is_vote d b L = Some True)"

text \<open>A vote is above the leader's round; one round above, it votes for its first ancestor in the
  leader's slot.\<close>

lemma find_slot_round:
  assumes "find_supported_block d s b = Some (Some r)" "\<forall>a \<in> set (vb_ancestors b). br_round a < vb_round b"
  shows "slot_round s < vb_round b"
proof (rule ccontr)
  assume "\<not> slot_round s < vb_round b"
  then have low: "\<And>a. a \<in> set (vb_ancestors b) \<Longrightarrow> br_round a < slot_round s" using assms(2) by fastforce
  have "slot_of a \<noteq> s" if "a \<in> set (vb_ancestors b)" for a
    using low [OF that] by (auto simp: slot_of_def)
  then have "List.find (\<lambda>a. slot_of a = s) (vb_ancestors b) = None" by (simp add: find_None_iff)
  moreover have "support_search (Suc (vb_round b)) (get_block d) s (vb_ancestors b)
      = Some (List.find (\<lambda>a. slot_of a = s) (vb_ancestors b))"
    by (rule support_search_direct) (use low in fastforce)
  ultimately show False using assms(1) by (simp add: find_supported_block_def split: if_splits)
qed

lemma vote_of_round:
  assumes "dag_view d" "vote_of d L r"
  shows "vb_round L < br_round r"
proof -
  obtain b where b: "get_block d r = Some b" "is_vote d b L = Some True"
    using assms(2) by (auto simp: vote_of_def)
  then have "find_supported_block d (slot_of (vb_reference L)) b = Some (Some (vb_reference L))"
    by (auto simp: is_vote_def Let_def)
  moreover have "\<forall>a \<in> set (vb_ancestors b). br_round a < vb_round b"
    using dag_viewD(3) [OF assms(1) b(1)] by (simp add: valid_block_def)
  ultimately have "slot_round (slot_of (vb_reference L)) < vb_round b" by (rule find_slot_round)
  then show ?thesis using dag_viewD(4) [OF assms(1) b(1)] by (auto simp: slot_of_def)
qed

lemma vote_of_direct:
  assumes "dag_view d" "get_block d r = Some b" "br_round r = vb_round L + 1"
  shows "vote_of d L r \<longleftrightarrow>
    List.find (\<lambda>a. slot_of a = slot_of (vb_reference L)) (vb_ancestors b) = Some (vb_reference L)"
proof -
  have b: "vb_round b = vb_round L + 1" using dag_viewD(4) [OF assms(1,2)] assms(3) by auto
  have "br_round a \<le> slot_round (slot_of (vb_reference L))" if "a \<in> set (vb_ancestors b)" for a
    using dag_viewD(7) [OF assms(1,2) that] assms(3) by (simp add: slot_of_def)
  from support_search_direct [OF this] show ?thesis
    using assms(2) b by (auto simp: vote_of_def is_vote_def find_supported_block_def Let_def slot_of_def)
qed

subsection \<open>Certificates\<close>

definition certifies :: "dag_state \<Rightarrow> verified_block \<Rightarrow> verified_block \<Rightarrow> bool" where
  "certifies d L C \<longleftrightarrow>
     reached_quorum (ds_committee d)
       (stake_of (ds_committee d) {br_author r |r. r \<in> set (vb_ancestors C) \<and> vote_of d L r})"

definition cache_sound :: "dag_state \<Rightarrow> verified_block \<Rightarrow> vote_cache \<Rightarrow> bool" where
  "cache_sound d L votes \<longleftrightarrow> (\<forall>r v. votes r = Some v \<longrightarrow> v = vote_of d L r)"

lemma cache_lookup:
  assumes "dag_view d" "gc_round d \<le> vb_round L" "cache_sound d L votes"
    and "gc_round d < br_round r \<Longrightarrow> \<exists>x. get_block d r = Some x"
  shows "\<exists>votes'. (case votes r of Some v \<Rightarrow> Some (v, votes)
     | None \<Rightarrow> (case (case get_block d r of Some b \<Rightarrow> is_vote d b L
                     | None \<Rightarrow> if br_round r \<le> gc_round d then Some False else None) of
                 None \<Rightarrow> None | Some v \<Rightarrow> Some (v, votes(r \<mapsto> v)))) = Some (vote_of d L r, votes') \<and>
     cache_sound d L votes'"
proof (cases "votes r")
  case None
  show ?thesis
  proof (cases "get_block d r")
    case None
    then have "\<not> vote_of d L r" "br_round r \<le> gc_round d" using assms(4) by (auto simp: vote_of_def not_less [symmetric])
    with \<open>votes r = None\<close> None assms(3) show ?thesis by (auto simp: cache_sound_def)
  next
    case (Some b)
    obtain v where v: "is_vote d b L = Some v" using is_vote_total [OF assms(1) Some assms(2)] by blast
    then have "v = vote_of d L r" using Some by (auto simp: vote_of_def)
    with \<open>votes r = None\<close> Some v assms(3) show ?thesis by (auto simp: cache_sound_def)
  qed
next
  case (Some v)
  then show ?thesis using assms(3) by (auto simp: cache_sound_def)
qed

lemma certificate_loop_exact:
  assumes "dag_view d" "gc_round d \<le> vb_round L" "cache_sound d L votes"
    and "agg_inv (ds_committee d) agg"
    and "\<not> reached_quorum (ds_committee d) (stake_of (ds_committee d) (set (sa_votes agg)))"
    and "\<And>r. r \<in> set rs \<Longrightarrow> br_author r < committee_size (ds_committee d)"
    and "\<And>r. r \<in> set rs \<Longrightarrow> gc_round d < br_round r \<Longrightarrow> \<exists>x. get_block d r = Some x"
  shows "\<exists>votes'. certificate_loop (ds_committee d) d L rs agg votes
     = Some (reached_quorum (ds_committee d) (stake_of (ds_committee d)
         (set (sa_votes agg) \<union> {br_author r |r. r \<in> set rs \<and> vote_of d L r})), votes') \<and> cache_sound d L votes'"
  using assms(3-)
proof (induction rs arbitrary: agg votes)
  case Nil
  then show ?case by simp
next
  case (Cons r rs)
  let ?c = "ds_committee d"
  let ?V = "\<lambda>xs. {br_author r |r. r \<in> set xs \<and> vote_of d L r}"
  obtain votes' where v: "(case votes r of Some v \<Rightarrow> Some (v, votes)
     | None \<Rightarrow> (case (case get_block d r of Some b \<Rightarrow> is_vote d b L
                     | None \<Rightarrow> if br_round r \<le> gc_round d then Some False else None) of
                 None \<Rightarrow> None | Some v \<Rightarrow> Some (v, votes(r \<mapsto> v)))) = Some (vote_of d L r, votes')"
     "cache_sound d L votes'"
    using cache_lookup [OF assms(1,2) Cons.prems(1), of r] Cons.prems(5) by auto
  show ?case
  proof (cases "vote_of d L r")
    case False
    then have "?V (r # rs) = ?V rs" by auto
    then show ?thesis using Cons.IH [OF v(2) Cons.prems(2,3)] Cons.prems(4,5) False v(1) by simp
  next
    case True
    have wf: "committee_wf ?c" by (rule dag_viewD(2) [OF assms(1)])
    obtain agg' where a: "aggregator_add reached_quorum agg (br_author r) ?c
        = Some (reached_quorum ?c (stake_of ?c (insert (br_author r) (set (sa_votes agg)))), agg')"
        "agg_inv ?c agg'" "set (sa_votes agg') = insert (br_author r) (set (sa_votes agg))"
      using aggregator_add_total [OF wf Cons.prems(2), of "br_author r" reached_quorum] Cons.prems(4) by auto
    have V: "set (sa_votes agg) \<union> ?V (r # rs) = set (sa_votes agg') \<union> ?V rs" using True a(3) by auto
    show ?thesis
    proof (cases "reached_quorum ?c (stake_of ?c (insert (br_author r) (set (sa_votes agg))))")
      case reached: True
      then have "reached_quorum ?c (stake_of ?c (set (sa_votes agg') \<union> ?V rs))"
        by (rule quorum.is_threshold_mono) (rule stake_of_mono, auto simp: a(3))
      with reached True v a(1) show ?thesis unfolding V by simp
    next
      case not_reached: False
      then have "\<not> reached_quorum ?c (stake_of ?c (set (sa_votes agg')))" by (simp add: a(3))
      from Cons.IH [OF v(2) a(2) this] Cons.prems(4,5) obtain votes'' where
        "certificate_loop ?c d L rs agg' votes'
           = Some (reached_quorum ?c (stake_of ?c (set (sa_votes agg') \<union> ?V rs)), votes'')" "cache_sound d L votes''"
        by auto
      with not_reached True v(1) a(1) show ?thesis unfolding V by simp
    qed
  qed
qed

lemma is_certificate_exact:
  assumes "dag_view d" "gc_round d \<le> vb_round L" "cache_sound d L votes"
    and "get_block d r = Some C"
  shows "\<exists>votes'. is_certificate (ds_committee d) d C L votes = Some (certifies d L C, votes') \<and>
     cache_sound d L votes'"
proof -
  let ?c = "ds_committee d"
  have "br_author x < committee_size ?c" if "x \<in> set (vb_ancestors C)" for x
    using dag_viewD(3) [OF assms(1,4)] that by (simp add: valid_block_def)
  moreover have "\<not> reached_quorum ?c (stake_of ?c (set (sa_votes aggregator_new)))"
    using quorum.not_threshold_empty [OF dag_viewD(2) [OF assms(1)]] by (simp add: aggregator_new_def)
  ultimately show ?thesis
    using certificate_loop_exact [OF assms(1-3) agg_inv_new, of "vb_ancestors C"] dag_viewD(5) [OF assms(1,4)]
    by (auto simp: is_certificate_def certifies_def aggregator_new_def)
qed

text \<open>C5: certificates.  In every view, for a leader at or above the garbage collection round, the
  certificate check of a known block does not panic and, whatever sound answers its cache already
  holds, is true exactly when the authors of the block's ancestors that vote for the leader reach
  the quorum threshold; the cache stays sound.\<close>

theorem is_certificate_spec:
  assumes "dag_view d" "gc_round d \<le> vb_round L" "cache_sound d L votes"
    and "get_block d r = Some C"
  shows "\<exists>votes'. is_certificate (ctx_committee (ds_context d)) d C L votes
      = Some (c_quorum_threshold (ctx_committee (ds_context d))
          \<le> stake_of (ctx_committee (ds_context d)) {br_author x |x. x \<in> set (vb_ancestors C) \<and> vote_of d L x},
        votes') \<and> cache_sound d L votes'"
  using is_certificate_exact [OF assms] by (simp add: certifies_def reached_quorum_def)

lemma any_certificate_exact:
  assumes "dag_view d" "gc_round d \<le> vb_round L" "cache_sound d L votes"
    and "\<And>C. C \<in> set Cs \<Longrightarrow> get_block d (vb_reference C) = Some C"
  shows "any_certificate (ds_committee d) d L Cs votes = Some (\<exists>C \<in> set Cs. certifies d L C)"
  using assms(3,4)
proof (induction Cs arbitrary: votes)
  case (Cons C Cs)
  obtain votes' where "is_certificate (ds_committee d) d C L votes = Some (certifies d L C, votes')"
      "cache_sound d L votes'"
    using is_certificate_exact [OF assms(1,2) Cons.prems(1), of "vb_reference C" C] Cons.prems(2) by auto
  then show ?case using Cons.IH Cons.prems(2) by auto
qed simp

subsection \<open>Blame and support\<close>

lemma aggregate_new_exact:
  assumes "committee_wf c" "set as \<subseteq> {..<committee_size c}"
  shows "aggregate_until reached_quorum c aggregator_new as = Some (reached_quorum c (stake_of c (set as)))"
  using quorum.aggregate_until_total [OF assms(1) agg_inv_new assms(2)] quorum.not_threshold_empty [OF assms(1)]
  by (simp add: aggregator_new_def)

lemma blame_loop_aggregate:
  "blame_loop c leader bs agg = aggregate_until reached_quorum c agg
     (map vb_author (filter (\<lambda>b. list_all (\<lambda>a. br_author a \<noteq> leader) (vb_ancestors b)) bs))"
  by (induction c leader bs agg rule: blame_loop.induct) (auto split: option.splits)

definition blamers :: "dag_state \<Rightarrow> slot \<Rightarrow> AuthorityIndex set" where
  "blamers d s = {vb_author b |b. cached_block d b \<and> vb_round b = slot_round s + 1 \<and>
     last_commit_round d < vb_round b \<and> (\<forall>a \<in> set (vb_ancestors b). br_author a \<noteq> slot_authority s)}"

definition supporters :: "dag_state \<Rightarrow> Round \<Rightarrow> verified_block \<Rightarrow> AuthorityIndex set" where
  "supporters d r L = {vb_author b |b. cached_block d b \<and> vb_round b = r \<and>
     last_commit_round d < r \<and> certifies d L b}"

lemma round_blocks:
  assumes "dag_view d" "r < 2 ^ 32 - 1"
  obtains bs where "get_uncommitted_blocks_at_round d r = Some bs"
    "set bs = {b. cached_block d b \<and> vb_round b = r \<and> last_commit_round d < r}"
    "vb_author ` set bs \<subseteq> {..<committee_size (ds_committee d)}"
    "\<And>b. b \<in> set bs \<Longrightarrow> get_block d (vb_reference b) = Some b"
proof -
  have inv: "dag_inv d" by (rule dag_viewD(1) [OF assms(1)])
  obtain bs where bs: "get_uncommitted_blocks_at_round d r = Some bs"
      "set bs = {b. cached_block d b \<and> vb_round b = r \<and> last_commit_round d < r}"
    using uncommitted_at_round_exact [OF inv assms(2)] by blast
  have get: "get_block d (vb_reference b) = Some b" if "b \<in> set bs" for b
    using that bs(2) cached_block_get [OF inv] by simp
  have "vb_author b < committee_size (ds_committee d)" if "b \<in> set bs" for b
    using dag_viewD(3) [OF assms(1) get [OF that]] by (simp add: valid_block_def)
  with bs get that show ?thesis by blast
qed

lemma enough_leader_blame_exact:
  assumes "dag_view d" "bc_committee bc = ds_committee d" "slot_round s + 1 < 2 ^ 32 - 1"
  shows "enough_leader_blame bc d (u32_add (slot_round s) 1) (slot_authority s)
     = Some (reached_quorum (ds_committee d) (stake_of (ds_committee d) (blamers d s)))"
proof -
  have r: "u32_add (slot_round s) 1 = slot_round s + 1" using assms(3) by (simp add: u32_add_eq)
  obtain bs where bs: "get_uncommitted_blocks_at_round d (slot_round s + 1) = Some bs"
    "set bs = {b. cached_block d b \<and> vb_round b = slot_round s + 1 \<and> last_commit_round d < slot_round s + 1}"
    "vb_author ` set bs \<subseteq> {..<committee_size (ds_committee d)}"
    using round_blocks [OF assms(1,3)] by metis
  let ?as = "map vb_author (filter (\<lambda>b. list_all (\<lambda>a. br_author a \<noteq> slot_authority s) (vb_ancestors b)) bs)"
  have "set ?as = blamers d s" using bs(2) by (auto simp: blamers_def list_all_iff)
  moreover have "set ?as \<subseteq> {..<committee_size (ds_committee d)}" using bs(3) by auto
  ultimately show ?thesis
    using bs(1) aggregate_new_exact [OF dag_viewD(2) [OF assms(1)], of ?as]
    unfolding enough_leader_blame_def r blame_loop_aggregate assms(2) by simp
qed

lemma support_loop_aggregate:
  assumes "dag_view d" "gc_round d \<le> vb_round L" "cache_sound d L votes"
    and "\<And>b. b \<in> set bs \<Longrightarrow> get_block d (vb_reference b) = Some b"
  shows "support_loop (ds_committee d) d L bs agg votes
     = aggregate_until reached_quorum (ds_committee d) agg (map vb_author (filter (certifies d L) bs))"
  using assms(3,4)
proof (induction bs arbitrary: agg votes)
  case (Cons b bs)
  obtain votes' where "is_certificate (ds_committee d) d b L votes = Some (certifies d L b, votes')"
      "cache_sound d L votes'"
    using is_certificate_exact [OF assms(1,2) Cons.prems(1), of "vb_reference b" b] Cons.prems(2) by auto
  then show ?case using Cons.IH Cons.prems(2) by (auto split: option.splits)
qed simp

lemma enough_leader_support_sound:
  assumes "dag_view d" "bc_committee bc = ds_committee d" "r < 2 ^ 32 - 1" "gc_round d \<le> vb_round L"
  shows "\<exists>v. enough_leader_support bc d r L = Some v \<and>
     (v \<longrightarrow> reached_quorum (ds_committee d) (stake_of (ds_committee d) (supporters d r L)))"
proof -
  let ?c = "ds_committee d"
  obtain bs where bs: "get_uncommitted_blocks_at_round d r = Some bs"
    "set bs = {b. cached_block d b \<and> vb_round b = r \<and> last_commit_round d < r}"
    "vb_author ` set bs \<subseteq> {..<committee_size ?c}"
    "\<And>b. b \<in> set bs \<Longrightarrow> get_block d (vb_reference b) = Some b"
    using round_blocks [OF assms(1,3)] by metis
  have stakes: "map_opt (\<lambda>b. committee_stake ?c (vb_author b)) bs
      = Some (map (\<lambda>b. au_stake (c_authorities ?c ! vb_author b)) bs)"
    by (rule map_opt_id_Some) (use bs(3) in \<open>auto simp: committee_stake_Some\<close>)
  let ?as = "map vb_author (filter (certifies d L) bs)"
  have "set ?as = supporters d r L" using bs(2) by (auto simp: supporters_def)
  moreover have "set ?as \<subseteq> {..<committee_size ?c}" using bs(3) by auto
  moreover have "support_loop ?c d L bs aggregator_new Map.empty
      = aggregate_until reached_quorum ?c aggregator_new ?as"
    by (rule support_loop_aggregate [OF assms(1,4)]) (use bs(4) in \<open>auto simp: cache_sound_def\<close>)
  ultimately have "support_loop ?c d L bs aggregator_new Map.empty
      = Some (reached_quorum ?c (stake_of ?c (supporters d r L)))"
    using aggregate_new_exact [OF dag_viewD(2) [OF assms(1)], of ?as] by simp
  then show ?thesis
    using bs(1) stakes unfolding enough_leader_support_def assms(2)
    by (cases "reached_quorum ?c (u64_sum (map (\<lambda>b. au_stake (c_authorities ?c ! vb_author b)) bs))") auto
qed

subsection \<open>Wave arithmetic\<close>

definition three_rounds :: "base_committer \<Rightarrow> bool" where
  "three_rounds bc \<longleftrightarrow> bo_wave_length (bc_options bc) = 3 \<and> bo_round_offset (bc_options bc) < 3"

text \<open>The slots a committer elects leaders for, below the top of the round type.\<close>

definition leader_slot_ok :: "base_committer \<Rightarrow> Round \<Rightarrow> bool" where
  "leader_slot_ok bc r \<longleftrightarrow> r < 2 ^ 32 - 4 \<and> (\<exists>w. wave_number bc r = Some w \<and> leader_round bc w = r)"

lemma decision_round_eq:
  assumes "three_rounds bc" "leader_slot_ok bc r"
  shows "\<exists>w. wave_number bc r = Some w \<and> decision_round bc w = r + 2"
proof -
  let ?o = "bo_round_offset (bc_options bc)"
  define w where "w = (r - ?o) div 3"
  have w: "wave_number bc r = Some w" using assms(1) by (simp add: wave_number_def three_rounds_def w_def)
  have o: "?o < 3" "bo_wave_length (bc_options bc) = 3" using assms(1) by (auto simp: three_rounds_def)
  have r: "r < 2 ^ 32 - 4" "leader_round bc w = r" using assms(2) w by (auto simp: leader_slot_ok_def)
  have le: "w * 3 \<le> r" unfolding w_def by (metis diff_le_self div_times_less_eq_dividend le_trans)
  have "leader_round bc w = w * 3 + ?o"
    using le r(1) o by (simp add: leader_round_def u32_mul_def u32_add_def)
  then have eq: "w * 3 + ?o = r" using r(2) by simp
  have "u32_mul w 3 = w * 3" "u32_add (w * 3) 3 = w * 3 + 3" "u32_sub (w * 3 + 3) 1 = w * 3 + 2"
    using le r(1) by (simp_all add: u32_mul_eq u32_add_eq u32_sub_eq)
  moreover have "u32_add (w * 3 + 2) ?o = r + 2" using eq r(1) by (simp add: u32_add_eq)
  ultimately have "decision_round bc w = r + 2" using o by (simp add: decision_round_def Let_def)
  with w show ?thesis by blast
qed

end
