(* ===== verification/Dag_Recovery.thy ===== *)
theory Dag_Recovery
  imports Dag_Properties
begin

section \<open>Initialising the DAG state\<close>

text \<open>
  \<^verbatim>\<open>DagState::new\<close> (\<^verbatim>\<open>core/src/dag_state/dag_state_impl.rs\<close>): the state a fresh store gives, which
  starts every run in the invariant, and the concrete states the witnesses use.
\<close>

lemma genesis_blocks_inj: "genesis_blocks hash bcs ctx = Some bs \<Longrightarrow> inj_on vb_reference (set bs)"
proof (rule inj_onI)
  fix x y
  assume bs: "genesis_blocks hash bcs ctx = Some bs" and xy: "x \<in> set bs" "y \<in> set bs"
    "vb_reference x = vb_reference y"
  then obtain i j where ij: "i < length bs" "x = bs ! i" "j < length bs" "y = bs ! j"
    by (metis in_set_conv_nth)
  moreover have "vb_author (bs ! i) = i" "vb_author (bs ! j) = j"
    using ij genesis_block_fields [OF genesis_blocks_nth [OF bs]] by auto
  ultimately show "x = y" using xy(3) vb_reference_eqD [of x "vb_reference y"] by auto
qed

lemma recover_authority_fresh:
  assumes "a < committee_size (ctx_committee ctx)" "ms_digests_by_authorities store = []"
  shows "recover_authority first_slice now a (fresh_dag_state genesis t ctx store)
           = Some (fresh_dag_state genesis t ctx store)"
proof -
  have "(replicate (committee_size (ctx_committee ctx)) (0::nat))[a := 0]
      = replicate (committee_size (ctx_committee ctx)) 0"
    using assms(1) list_update_id [of "replicate (committee_size (ctx_committee ctx)) (0::nat)" a] by simp
  then show ?thesis
    using assms
    by (simp add: recover_authority_def fresh_dag_state_def mem_scan_last_blocks_by_author_def
        mem_scan_blocks_by_author_def mem_read_blocks_def bts_range_def eviction_round_def vec_set_def
        Let_def)
qed

lemma fold_opt_id: "(\<And>x. x \<in> set xs \<Longrightarrow> f x s = Some s) \<Longrightarrow> fold_opt f xs s = Some s"
  by (induction xs) simp_all

lemma dag_state_new_empty:
  assumes "genesis_blocks hash bcs ctx = Some bs"
  shows "dag_state_new hash bcs first_slice now ctx mem_store_new
     = Some (fresh_dag_state (genesis_map bs) now ctx
         (mem_write_genesis_blocks mem_store_new (c_epoch (ctx_committee ctx)) (map vb_reference bs)))"
proof -
  let ?store = "mem_write_genesis_blocks mem_store_new (c_epoch (ctx_committee ctx)) (map vb_reference bs)"
  let ?d = "fresh_dag_state (genesis_map bs) now ctx ?store"
  have "load_genesis hash bcs ctx mem_store_new = Some (genesis_map bs, ?store)"
    using assms by (simp add: load_genesis_def mem_read_genesis_blocks_def mem_store_new_def)
  moreover have fields: "mem_read_last_commit ?store = None" "mem_read_last_commit_info ?store = None"
      "ms_digests_by_authorities ?store = []"
    by (simp_all add: mem_read_last_commit_def mem_read_last_commit_info_def mem_store_new_def
        mem_write_genesis_blocks_def)
  moreover have "recover_commits ctx ?store
      = Some (replicate (committee_size (ctx_committee ctx)) 0, scoring_subdag_new ctx)"
    using fields by (simp add: recover_commits_def scoring_add_subdags_def Let_def)
  moreover have "fold_opt (recover_authority first_slice now)
      (map fst (committee_indices (ctx_committee ctx))) ?d = Some ?d"
  proof (rule fold_opt_id)
    fix a assume "a \<in> set (map fst (committee_indices (ctx_committee ctx)))"
    then have "a < committee_size (ctx_committee ctx)"
      by (auto simp: committee_indices_def committee_size_def in_set_enumerate_eq)
    from recover_authority_fresh [OF this fields(3)]
    show "recover_authority first_slice now a ?d = Some ?d" .
  qed
  moreover have "mem_scan_blocks_by_author ?store a r = Some []" for a r
    using fields(3) by (simp add: mem_scan_blocks_by_author_def mem_read_blocks_def bts_range_def Let_def)
  moreover have "ds_store ?d = ?store" by (simp add: fresh_dag_state_def)
  ultimately show ?thesis
    unfolding dag_state_new_def Let_def by (simp add: fresh_dag_state_def)
qed

lemma dag_state_new_exact:
  assumes "committee_wf (ctx_committee ctx)" "0 < ctx_dag_state_cached_rounds ctx"
    and "genesis_blocks hash bcs ctx = Some bs"
  shows "\<exists>d. dag_state_new hash bcs first_slice now ctx mem_store_new = Some d \<and> dag_inv d \<and>
     gc_round d = 0 \<and> (\<forall>r b. get_block d r = Some b \<longleftrightarrow> b \<in> set bs \<and> vb_reference b = r)"
proof -
  let ?store = "mem_write_genesis_blocks mem_store_new (c_epoch (ctx_committee ctx)) (map vb_reference bs)"
  let ?d = "fresh_dag_state (genesis_map bs) now ctx ?store"
  have gen: "btm_get (genesis_map bs) r = Some b \<longleftrightarrow> b \<in> set bs \<and> vb_reference b = r" for r b
    by (rule genesis_map_get [OF genesis_blocks_inj [OF assms(3)]])
  have zero: "vb_round b = 0" if "b \<in> set bs" for b
    using that genesis_block_fields [OF genesis_blocks_nth [OF assms(3)]] by (metis in_set_conv_nth)
  have "dag_inv ?d"
    using assms(1,2) gen zero
    by (intro fresh_dag_inv)
      (auto simp: mem_write_genesis_blocks_def mem_store_new_def mem_inv_def)
  moreover have "get_block ?d r = Some b \<longleftrightarrow> b \<in> set bs \<and> vb_reference b = r" for r b
    using gen zero unfolding get_block_eq
    by (auto simp: fresh_dag_state_def stored_def mem_write_genesis_blocks_def mem_store_new_def)
  moreover have "gc_round ?d = 0"
    by (simp add: gc_round_def calculate_gc_round_def last_commit_round_def fresh_dag_state_def)
  ultimately show ?thesis using dag_state_new_empty [OF assms(3)] by blast
qed

text \<open>Starting from an empty store.  \<^verbatim>\<open>DagState::new\<close> succeeds, gives a well-formed state, and the
  only readable blocks are the genesis blocks.\<close>

theorem dag_state_new_fresh:
  assumes "committee_wf (ctx_committee ctx)" "0 < ctx_dag_state_cached_rounds ctx"
    and "genesis_blocks hash bcs ctx = Some bs"
  shows "\<exists>d. dag_state_new hash bcs first_slice now ctx mem_store_new = Some d \<and> dag_inv d \<and>
     gc_round d = 0 \<and> (\<forall>r b. get_block d r = Some b \<longleftrightarrow> b \<in> set bs \<and> vb_reference b = r)"
  by (rule dag_state_new_exact [OF assms])

theorem dag_state_new_fresh_witness:
  "\<exists>bs d. genesis_blocks (\<lambda>_. 7) (\<lambda>_. Some []) context4 = Some bs \<and>
     dag_state_new (\<lambda>_. 7) (\<lambda>_. Some []) (\<lambda>refs. refs) 3 context4 mem_store_new = Some d \<and> dag_inv d"
proof -
  obtain bs where bs: "genesis_blocks (\<lambda>_. 7) (\<lambda>_. Some []) context4 = Some bs"
    by (simp add: genesis_blocks_def committee_indices_def context4_def committee4_def
        genesis_block_def Let_def)
  have "committee_wf (ctx_committee context4)" "0 < ctx_dag_state_cached_rounds context4"
    by (simp_all add: committee4_wf) (simp add: context4_def)
  from dag_state_new_fresh [OF this bs] bs show ?thesis by blast
qed

end
