(* ===== verification/Dag_Reachable.thy ===== *)
theory Dag_Reachable
  imports Committer_Spec Dag_Recovery
begin

section \<open>Reachable DAG states\<close>

text \<open>
  The steps a running authority takes on its DAG state: it starts from an empty store, accepts
  verified blocks whose ancestors above the garbage collection round are present, marks blocks as
  committed or linked, adds commits with leaders of non-decreasing round, hands out commit votes
  and flushes.  Every state reachable by such steps is a view in the sense the safety theorems
  assume.
\<close>

inductive dag_reachable ::
  "(bytes \<Rightarrow> digest) \<Rightarrow> (signed_block \<Rightarrow> bytes option) \<Rightarrow> consensus_context \<Rightarrow> dag_state \<Rightarrow> bool"
  for hash bcs ctx where
  init: "dag_state_new hash bcs first_slice now ctx mem_store_new = Some d \<Longrightarrow> dag_reachable hash bcs ctx d"
| accept: "dag_reachable hash bcs ctx d \<Longrightarrow> accept_block d b now = Some d' \<Longrightarrow> acceptable d b \<Longrightarrow>
     valid_block (ctx_committee ctx) b \<Longrightarrow>
     (\<forall>a \<in> set (vb_ancestors b). gc_round d < br_round a \<longrightarrow> get_block d a \<noteq> None) \<Longrightarrow>
     dag_reachable hash bcs ctx d'"
| mark_committed: "dag_reachable hash bcs ctx d \<Longrightarrow> set_committed d r = (ok, d') \<Longrightarrow> dag_reachable hash bcs ctx d'"
| link: "dag_reachable hash bcs ctx d \<Longrightarrow> link_causal_history d r = Some (linked, d') \<Longrightarrow>
     dag_reachable hash bcs ctx d'"
| commit: "dag_reachable hash bcs ctx d \<Longrightarrow> add_commit d c = Some d' \<Longrightarrow>
     last_commit_round d \<le> br_round (tcm_leader c) \<Longrightarrow> dag_reachable hash bcs ctx d'"
| votes: "dag_reachable hash bcs ctx d \<Longrightarrow> take_commit_votes d limit = (vs, d') \<Longrightarrow> dag_reachable hash bcs ctx d'"
| persist: "dag_reachable hash bcs ctx d \<Longrightarrow> flush d = Some d' \<Longrightarrow> dag_reachable hash bcs ctx d'"

inductive_cases dag_reachableE: "dag_reachable hash bcs ctx d"

subsection \<open>Every step keeps a view\<close>

lemma dag_view_cached_get: "dag_view d \<Longrightarrow> cached_block d b \<Longrightarrow> get_block d (vb_reference b) = Some b"
  by (rule cached_block_get [OF dag_viewD(1)])

text \<open>A step that keeps the readable blocks and the blocks cached above a garbage collection round that
  does not go down.\<close>

lemma dag_view_same_blocks:
  assumes "dag_view d" "dag_inv d'" "ds_context d' = ds_context d" "get_block d' = get_block d"
    and "gc_round d \<le> gc_round d'"
    and "\<And>b. cached_block d b \<Longrightarrow> gc_round d' < vb_round b \<Longrightarrow> cached_block d' b"
  shows "dag_view d'"
proof -
  have "cached_block d' b" if b: "get_block d r = Some b" "gc_round d' < br_round r" for r b
  proof -
    have "cached_block d b" using dag_viewD(6) [OF assms(1) b(1)] b(2) assms(5) by simp
    moreover have "vb_round b = br_round r" using dag_viewD(4) [OF assms(1) b(1)] by auto
    ultimately show ?thesis using assms(6) b(2) by simp
  qed
  moreover have "get_block d a \<noteq> None" if "get_block d r = Some b" "a \<in> set (vb_ancestors b)" "gc_round d' < br_round a" for r b a
    using dag_viewD(5) [OF assms(1) that(1,2)] that(3) assms(5) by auto
  ultimately show ?thesis
    using assms(2) dag_viewD(3) [OF assms(1)] unfolding dag_view_def assms(3,4) by blast
qed

lemma dag_view_accept:
  assumes view: "dag_view d" and b: "acceptable d b" "valid_block (ds_committee d) b"
    and anc: "\<forall>a \<in> set (vb_ancestors b). gc_round d < br_round a \<longrightarrow> get_block d a \<noteq> None"
    and run: "accept_block d b now = Some d'"
  shows "dag_view d'" "ds_context d' = ds_context d" "gc_round d' = gc_round d"
proof -
  let ?info = "\<lparr>bi_block = b, bi_committed = False, bi_included = False\<rparr>"
  obtain inv: "dag_inv d'" and ctx: "ds_context d' = ds_context d"
    and cases: "d' = d \<or> get_block d' = (get_block d)(vb_reference b \<mapsto> b) \<and> ds_last_commit d' = ds_last_commit d \<and>
        ds_recent_blocks d' = btm_insert (vb_reference b) ?info (ds_recent_blocks d)"
    using accept_block_cases [OF dag_viewD(1) [OF view] b(1), of now] run by auto
  show "ds_context d' = ds_context d" by (rule ctx)
  from cases have "dag_view d' \<and> gc_round d' = gc_round d"
  proof (elim disjE conjE)
    assume "d' = d"
    then show ?thesis using view by simp
  next
    assume get: "get_block d' = (get_block d)(vb_reference b \<mapsto> b)" and l: "ds_last_commit d' = ds_last_commit d"
      and rec: "ds_recent_blocks d' = btm_insert (vb_reference b) ?info (ds_recent_blocks d)"
    have gc: "gc_round d' = gc_round d"
      using l ctx by (simp add: gc_round_def calculate_gc_round_def last_commit_round_def)
    have new: "cached_block d' b" unfolding cached_block_def rec by (simp add: btree_simps)
    have old: "cached_block d' x" if "cached_block d x" "vb_reference x \<noteq> vb_reference b" for x
      using that unfolding cached_block_def rec by (simp add: btree_simps)
    have "cached_block d' x" if x: "get_block d' r = Some x" "gc_round d < br_round r" for r x
    proof (cases "r = vb_reference b")
      case True
      then have "x = b" using x(1) by (simp add: get)
      then show ?thesis using new by (simp only:)
    next
      case False
      then have g: "get_block d r = Some x" using x(1) by (simp add: get)
      have "cached_block d x" by (rule dag_viewD(6) [OF view g x(2)])
      moreover have "vb_reference x \<noteq> vb_reference b" using dag_viewD(4) [OF view g] False by metis
      ultimately show ?thesis by (rule old)
    qed
    moreover have "get_block d' a \<noteq> None" if "get_block d' r = Some x" "a \<in> set (vb_ancestors x)" "gc_round d < br_round a" for r x a
      using that dag_viewD(5) [OF view, of r x a] anc unfolding get by (cases "r = vb_reference b") auto
    moreover have "valid_block (ds_committee d) x" if "get_block d' r = Some x" for r x
      using that dag_viewD(3) [OF view, of r x] b(2) unfolding get by (cases "r = vb_reference b") auto
    ultimately show ?thesis using inv gc ctx unfolding dag_view_def gc ctx by blast
  qed
  then show "dag_view d'" "gc_round d' = gc_round d" by simp_all
qed

lemma cached_block_flags:
  assumes "\<And>r. map_option bi_block (btm_get m r) = map_option bi_block (btm_get (ds_recent_blocks d) r)"
  shows "cached_block (d\<lparr>ds_recent_blocks := m\<rparr>) b = cached_block d b"
  using assms [of "vb_reference b"] unfolding cached_block_def
  by (cases "btm_get m (vb_reference b)"; cases "btm_get (ds_recent_blocks d) (vb_reference b)") auto

lemma dag_view_flags:
  assumes "dag_view d" "btm_wf m"
    and "\<And>r. map_option bi_block (btm_get m r) = map_option bi_block (btm_get (ds_recent_blocks d) r)"
  shows "dag_view (d\<lparr>ds_recent_blocks := m\<rparr>)"
proof (rule dag_view_same_blocks [OF assms(1)])
  note cong = recent_blocks_cong [OF dag_viewD(1) [OF assms(1)] assms(2,3)]
  show "dag_inv (d\<lparr>ds_recent_blocks := m\<rparr>)" "get_block (d\<lparr>ds_recent_blocks := m\<rparr>) = get_block d"
    by (rule cong)+
qed (simp_all add: cached_block_flags assms(3) gc_round_def calculate_gc_round_def last_commit_round_def)

lemma dag_view_set_committed:
  assumes "dag_view d" "set_committed d r = (ok, d')"
  shows "dag_view d'"
proof (cases "d' = d")
  case False
  then obtain info where info: "btm_get (ds_recent_blocks d) r = Some info"
      "d' = d\<lparr>ds_recent_blocks := btm_insert r (info\<lparr>bi_committed := True\<rparr>) (ds_recent_blocks d)\<rparr>"
    using assms(2) by (auto simp: set_committed_def split: option.splits if_splits)
  show ?thesis unfolding info(2)
    by (rule dag_view_flags [OF assms(1)])
      (use dag_viewD(1) [OF assms(1)] info(1) in \<open>auto simp: dag_inv_def recent_ok_def btree_simps\<close>)
qed (use assms(1) in simp)

lemma dag_view_link:
  assumes "dag_view d" "link_causal_history d r = Some (linked, d')"
  shows "dag_view d'"
proof -
  have wf: "btm_wf (ds_recent_blocks d)" using dag_viewD(1) [OF assms(1)] by (simp add: dag_inv_def recent_ok_def)
  obtain m where run: "link_loop (gc_round d) (ds_recent_blocks d) [r] [] = Some (linked, m)"
      "d' = d\<lparr>ds_recent_blocks := m\<rparr>"
    using assms(2) by (auto simp: link_causal_history_def)
  obtain new where m: "btm_wf m"
      "\<And>x. btm_get m x = map_option (\<lambda>info. info\<lparr>bi_included := bi_included info \<or> x \<in> set new\<rparr>)
         (btm_get (ds_recent_blocks d) x)"
    using link_loop_spec [OF run(1) wf] by blast
  show ?thesis unfolding run(2)
    by (rule dag_view_flags [OF assms(1) m(1)]) (simp add: m(2) option.map_comp comp_def)
qed

lemma update_committed_rounds_length:
  "update_committed_rounds refs rounds = Some rounds' \<Longrightarrow> length rounds' = length rounds"
  unfolding update_committed_rounds_def
  by (erule fold_opt_invariant [where P = "\<lambda>xs. length xs = length rounds"]) (auto split: bind_splits)

lemma dag_view_commit:
  assumes "dag_view d" "add_commit d c = Some d'" "last_commit_round d \<le> br_round (tcm_leader c)"
  shows "dag_view d'" "ds_context d' = ds_context d"
proof -
  have "d' = d \<or> (\<exists>rounds. update_committed_rounds (tcm_blocks c) (ds_last_committed_rounds d) = Some rounds \<and>
      d' = d\<lparr>ds_last_commit := Some c, ds_last_committed_rounds := rounds,
        ds_pending_commit_votes := ds_pending_commit_votes d @ [trusted_commit_reference c],
        ds_commits_to_write := ds_commits_to_write d @ [c]\<rparr>)"
    using assms(2) by (auto simp: add_commit_def Let_def split: option.splits if_splits bind_splits)
  then have "dag_view d' \<and> ds_context d' = ds_context d"
  proof (elim disjE exE conjE)
    fix rounds
    assume rounds: "update_committed_rounds (tcm_blocks c) (ds_last_committed_rounds d) = Some rounds"
      and d': "d' = d\<lparr>ds_last_commit := Some c, ds_last_committed_rounds := rounds,
        ds_pending_commit_votes := ds_pending_commit_votes d @ [trusted_commit_reference c],
        ds_commits_to_write := ds_commits_to_write d @ [c]\<rparr>"
    have cong: "dag_inv d' = dag_inv d" "get_block d' = get_block d"
      by (rule dag_inv_cong; simp add: d' update_committed_rounds_length [OF rounds])+
    have "dag_view d'"
      by (rule dag_view_same_blocks [OF assms(1)])
        (use cong dag_viewD(1) [OF assms(1)] assms(3) in \<open>auto simp: d' cached_block_def gc_round_def
          calculate_gc_round_def last_commit_round_def diff_le_mono\<close>)
    then show ?thesis by (simp add: d')
  qed (use assms(1) in simp)
  then show "dag_view d'" "ds_context d' = ds_context d" by simp_all
qed

lemma dag_view_votes:
  assumes "dag_view d" "take_commit_votes d limit = (vs, d')"
  shows "dag_view d'" "ds_context d' = ds_context d"
proof -
  obtain pending where d': "d' = d\<lparr>ds_pending_commit_votes := pending\<rparr>"
    using assms(2) by (auto simp: take_commit_votes_def split: prod.splits)
  have cong: "dag_inv d' = dag_inv d" "get_block d' = get_block d"
    by (rule dag_inv_cong; simp add: d')+
  show "dag_view d'"
    by (rule dag_view_same_blocks [OF assms(1)])
      (use cong dag_viewD(1) [OF assms(1)] in \<open>auto simp: d' cached_block_def gc_round_def
          calculate_gc_round_def last_commit_round_def\<close>)
  show "ds_context d' = ds_context d" by (simp add: d')
qed

lemma dag_view_flush:
  assumes "dag_view d" "flush d = Some d'"
  shows "dag_view d'" "ds_context d' = ds_context d"
proof -
  note inv = dag_viewD(1) [OF assms(1)]
  have f: "dag_inv d'" "ds_context d' = ds_context d" "gc_round d' = gc_round d" "get_block d' = get_block d"
      "\<And>r info. btm_get (ds_recent_blocks d) r = Some info \<Longrightarrow>
         btm_get (ds_recent_blocks d') r = Some info \<or> br_round r \<le> gc_round d"
    using flush_total [OF inv] assms(2) by auto
  show "dag_view d'"
  proof (rule dag_view_same_blocks [OF assms(1) f(1,2,4)])
    fix b assume "cached_block d b" "gc_round d' < vb_round b"
    then show "cached_block d' b" using f(3,5) by (fastforce simp: cached_block_def)
  qed (simp add: f(3))
  show "ds_context d' = ds_context d" by (rule f(2))
qed

subsection \<open>The invariant of all reachable states\<close>

lemma fresh_view:
  assumes "committee_wf (ctx_committee ctx)" "0 < ctx_dag_state_cached_rounds ctx"
    and "dag_state_new hash bcs first_slice now ctx mem_store_new = Some d"
  shows "dag_view d \<and> ds_context d = ctx"
proof -
  have "genesis_blocks hash bcs ctx \<noteq> None"
  proof
    assume "genesis_blocks hash bcs ctx = None"
    then have "load_genesis hash bcs ctx mem_store_new = None"
      by (simp add: load_genesis_def mem_read_genesis_blocks_def mem_store_new_def)
    then show False using assms(3) by (simp add: dag_state_new_def)
  qed
  then obtain bs where bs: "genesis_blocks hash bcs ctx = Some bs" by blast
  note d = dag_state_new_empty [OF bs, of first_slice now, unfolded assms(3), simplified]
  note f = dag_state_new_exact [OF assms(1,2) bs, of first_slice now]
  have inv: "dag_inv d" and gc: "gc_round d = 0"
    and get: "\<And>r b. get_block d r = Some b \<longleftrightarrow> b \<in> set bs \<and> vb_reference b = r"
    using f assms(3) by auto
  have ctx: "ds_context d = ctx" by (simp add: d fresh_dag_state_def)
  have "vb_round b = 0 \<and> vb_ancestors b = [] \<and> vb_author b < committee_size (ctx_committee ctx)" if bb: "b \<in> set bs" for b
  proof -
    obtain i where i: "i < length bs" "b = bs ! i" using bb by (auto simp: in_set_conv_nth)
    have "length bs = committee_size (ctx_committee ctx)"
      using bs by (simp add: genesis_blocks_def map_opt_Some committee_indices_def committee_size_def)
    then show ?thesis using genesis_block_fields [OF genesis_blocks_nth [OF bs i(1)]] i by simp
  qed
  note g = this
  have "br_round r = 0" if "get_block d r = Some b" for r b
    using that get g vb_reference_eqD [of b r] by auto
  then show ?thesis
    using inv gc get g ctx unfolding dag_view_def by (auto simp: valid_block_def)
qed

text \<open>C27: the state machine keeps the view.  Every DAG state reachable from an empty store by accepting
  verified blocks in causal order, marking, linking, committing, handing out votes and flushing is
  a view: it is well formed, all its blocks are valid, and above the garbage collection round it is
  causally complete and held in memory.\<close>

theorem reachable_dag_view:
  assumes "dag_reachable hash bcs ctx d"
    and "committee_wf (ctx_committee ctx)" "0 < ctx_dag_state_cached_rounds ctx"
  shows "dag_view d \<and> ds_context d = ctx"
  using assms(1)
proof induction
  case (init first_slice now d)
  then show ?case using fresh_view [OF assms(2,3)] by blast
next
  case (accept d b now d')
  then show ?case using dag_view_accept [of d b now d'] by simp
next
  case (mark_committed d r ok d')
  then have "ds_context d' = ds_context d" by (auto simp: set_committed_def split: option.splits if_splits)
  with mark_committed show ?case using dag_view_set_committed [of d r ok d'] by simp
next
  case (link d r linked d')
  then have "ds_context d' = ds_context d" by (auto simp: link_causal_history_def)
  with link show ?case using dag_view_link [of d r linked d'] by simp
next
  case (commit d c d')
  then show ?case using dag_view_commit [of d c d'] by simp
next
  case (votes d limit vs d')
  then show ?case using dag_view_votes [of d limit vs d'] by simp
next
  case (persist d d')
  then show ?case using dag_view_flush [of d d'] by simp
qed

end
