(* ===== verification/Committer_Safety.thy ===== *)
theory Committer_Safety
  imports Committer_Spec
begin

section \<open>Safety of the decision rules\<close>

text \<open>
  Two authorities hold two views \<open>d\<close> and \<open>e\<close> of one execution (\<open>same_dag\<close>): digests identify
  blocks, authorities outside \<open>byz\<close> produce at most one block per round, and \<open>byz\<close> holds at most
  \<open>f\<close> of the stake.  For waves of three rounds, the default, no two decisions about a leader slot
  contradict each other, whether both are direct, one is indirect or both are.
\<close>

definition same_dag :: "AuthorityIndex set \<Rightarrow> dag_state \<Rightarrow> dag_state \<Rightarrow> bool" where
  "same_dag byz d e \<longleftrightarrow>
     dag_view d \<and> dag_view e \<and> ds_committee e = ds_committee d \<and>
     stake_of (ds_committee d) byz \<le> fault_tolerance (ds_committee d) \<and>
     (\<forall>r x y. get_block d r = Some x \<longrightarrow> get_block e r = Some y \<longrightarrow> x = y) \<and>
     (\<forall>r s. get_block d r \<noteq> None \<or> get_block e r \<noteq> None \<longrightarrow> get_block d s \<noteq> None \<or> get_block e s \<noteq> None \<longrightarrow>
        slot_of r = slot_of s \<longrightarrow> br_author r \<notin> byz \<longrightarrow> r = s)"

lemma same_dagD:
  assumes "same_dag byz d e"
  shows "dag_view d" "dag_view e" "ds_committee e = ds_committee d"
    and "stake_of (ds_committee d) byz \<le> fault_tolerance (ds_committee d)"
    and "get_block d r = Some x \<Longrightarrow> get_block e r = Some y \<Longrightarrow> x = y"
    and "get_block d r = Some x \<Longrightarrow> get_block e s = Some y \<Longrightarrow> slot_of r = slot_of s \<Longrightarrow> br_author r \<notin> byz \<Longrightarrow>
      r = s \<and> x = y"
proof -
  show "dag_view d" "dag_view e" "ds_committee e = ds_committee d"
    and "stake_of (ds_committee d) byz \<le> fault_tolerance (ds_committee d)"
    using assms by (simp_all add: same_dag_def)
  show same: "get_block d r = Some x \<Longrightarrow> get_block e r = Some y \<Longrightarrow> x = y" for r
    using assms unfolding same_dag_def by blast
  assume g: "get_block d r = Some x" "get_block e s = Some y" and h: "slot_of r = slot_of s" "br_author r \<notin> byz"
  have "r = s" using assms g h unfolding same_dag_def by blast
  with same g show "r = s \<and> x = y" by blast
qed

lemma same_dag_sym: "same_dag byz d e \<Longrightarrow> same_dag byz e d"
  unfolding same_dag_def by (auto; metis)

lemma same_dag_refl: "same_dag byz d e \<Longrightarrow> same_dag byz d d"
  unfolding same_dag_def by (auto; blast)

subsection \<open>Certificates are unique\<close>

text \<open>Two quorums of authorities, each given by blocks known in its view, share a block.\<close>

lemma quorum_common_block:
  assumes "same_dag byz d e"
    and "reached_quorum (ds_committee d) (stake_of (ds_committee d) (br_author ` R))"
    and "reached_quorum (ds_committee d) (stake_of (ds_committee d) (br_author ` S))"
    and "\<And>r. r \<in> R \<Longrightarrow> br_round r = k \<and> get_block d r \<noteq> None"
    and "\<And>r. r \<in> S \<Longrightarrow> br_round r = k \<and> get_block e r \<noteq> None"
  shows "\<exists>r x. r \<in> R \<and> r \<in> S \<and> get_block d r = Some x \<and> get_block e r = Some x"
proof -
  obtain a where a: "a \<in> br_author ` R" "a \<in> br_author ` S" "a \<notin> byz"
    using quorum_overlap_honest [OF dag_viewD(2) [OF same_dagD(1) [OF assms(1)]] assms(2,3) same_dagD(4) [OF assms(1)]]
    by blast
  then obtain r s where rs: "r \<in> R" "s \<in> S" "br_author r = a" "br_author s = a" by auto
  then obtain x y where xy: "get_block d r = Some x" "get_block e s = Some y" "br_round r = br_round s"
    using assms(4,5) by (metis not_None_eq)
  then have "r = s \<and> x = y"
    using same_dagD(6) [OF assms(1) xy(1,2)] rs a(3) by (simp add: slot_of_def)
  with rs xy show ?thesis by blast
qed

lemma vote_image: "{br_author r |r. r \<in> S \<and> P r} = br_author ` {r \<in> S. P r}"
  by auto

lemma vote_rounds:
  assumes "dag_view d" "get_block d (vb_reference C) = Some C" "vb_round C = vb_round L + 2"
    and "r \<in> set (vb_ancestors C)" "vote_of d L r"
  shows "br_round r = vb_round L + 1 \<and> get_block d r \<noteq> None"
proof -
  have "br_round r < vb_round L + 2" using dag_viewD(7) [OF assms(1,2,4)] assms(3) by simp
  moreover have "vb_round L < br_round r" by (rule vote_of_round [OF assms(1,5)])
  ultimately show ?thesis using assms(5) by (auto simp: vote_of_def)
qed

lemma certificate_unique:
  assumes sd: "same_dag byz d e" and slot: "slot_of (vb_reference L) = slot_of (vb_reference M)"
    and C: "get_block d (vb_reference C) = Some C" "vb_round C = vb_round L + 2" "certifies d L C"
    and D: "get_block e (vb_reference D) = Some D" "vb_round D = vb_round L + 2" "certifies e M D"
  shows "vb_reference L = vb_reference M"
proof -
  have rM: "vb_round M = vb_round L" using slot by (simp add: slot_of_def)
  let ?V = "{r \<in> set (vb_ancestors C). vote_of d L r}" and ?W = "{r \<in> set (vb_ancestors D). vote_of e M r}"
  note v = same_dagD [OF sd]
  have V: "br_round r = vb_round L + 1 \<and> get_block d r \<noteq> None" if "r \<in> ?V" for r
    using vote_rounds [OF v(1) C(1,2)] that by blast
  have W: "br_round r = vb_round L + 1 \<and> get_block e r \<noteq> None" if "r \<in> ?W" for r
    using vote_rounds [OF v(2) D(1), of M r] D(2) rM that by simp
  obtain r x where r: "r \<in> ?V" "r \<in> ?W" "get_block d r = Some x" "get_block e r = Some x"
    using quorum_common_block [OF sd C(3) [unfolded certifies_def vote_image]
        D(3) [unfolded certifies_def vote_image v(3)] V W] by blast
  have rr: "br_round r = vb_round L + 1" "br_round r = vb_round M + 1" using V [OF r(1)] rM by simp_all
  have "List.find (\<lambda>a. slot_of a = slot_of (vb_reference L)) (vb_ancestors x) = Some (vb_reference L)"
    using vote_of_direct [OF v(1) r(3) rr(1)] r(1) by blast
  moreover have "List.find (\<lambda>a. slot_of a = slot_of (vb_reference M)) (vb_ancestors x) = Some (vb_reference M)"
    using vote_of_direct [OF v(2) r(4) rr(2)] r(2) by blast
  ultimately show ?thesis unfolding slot by simp
qed

lemma blame_excludes_certificate:
  assumes sd: "same_dag byz d e" and slot: "slot_of (vb_reference L) = s"
    and blame: "reached_quorum (ds_committee d) (stake_of (ds_committee d) (blamers d s))"
    and C: "get_block e (vb_reference C) = Some C" "vb_round C = vb_round L + 2" "certifies e L C"
  shows False
proof -
  note v = same_dagD [OF sd]
  have inv: "dag_inv d" by (rule dag_viewD(1) [OF v(1)])
  let ?B = "{vb_reference b |b. cached_block d b \<and> vb_round b = slot_round s + 1 \<and>
     last_commit_round d < vb_round b \<and> (\<forall>a \<in> set (vb_ancestors b). br_author a \<noteq> slot_authority s)}"
  let ?V = "{r \<in> set (vb_ancestors C). vote_of e L r}"
  have "blamers d s = br_author ` ?B" by (force simp: blamers_def)
  then have q: "reached_quorum (ds_committee d) (stake_of (ds_committee d) (br_author ` ?B))" using blame by simp
  have B: "br_round r = vb_round L + 1 \<and> get_block d r \<noteq> None" if "r \<in> ?B" for r
    using that slot cached_block_get [OF inv] by (auto simp: slot_of_def)
  have V: "br_round r = vb_round L + 1 \<and> get_block e r \<noteq> None" if "r \<in> ?V" for r
    using vote_rounds [OF v(2) C(1,2)] that by blast
  obtain r x where r: "r \<in> ?B" "r \<in> ?V" "get_block d r = Some x" "get_block e r = Some x"
    using quorum_common_block [OF sd q C(3) [unfolded certifies_def vote_image v(3)] B V] by blast
  have round: "br_round r = vb_round L + 1" using vote_rounds [OF v(2) C(1,2)] r(2) by blast
  have "vb_reference L \<in> set (vb_ancestors x)"
    using vote_of_direct [OF v(2) r(4) round] r(2) by (auto simp: find_Some_iff)
  moreover have "br_author (vb_reference L) = slot_authority s" using slot by (auto simp: slot_of_def)
  moreover have "\<forall>a \<in> set (vb_ancestors x). br_author a \<noteq> slot_authority s"
    using r(1,3) cached_block_get [OF inv] by auto
  ultimately show False by blast
qed

subsection \<open>The direct rule\<close>

text \<open>A committer that can decide slot \<open>s\<close> in the view \<open>d\<close>: waves of three rounds, its committee is the
  view's, and the slot is an elected one above the garbage collection round.\<close>

definition can_decide :: "base_committer \<Rightarrow> dag_state \<Rightarrow> slot \<Rightarrow> bool" where
  "can_decide bc d s \<longleftrightarrow>
     three_rounds bc \<and> bc_committee bc = ds_committee d \<and> leader_slot_ok bc (slot_round s) \<and>
     gc_round d < slot_round s"

lemma quorum_nonempty: "committee_wf c \<Longrightarrow> reached_quorum c (stake_of c A) \<Longrightarrow> A \<noteq> {}"
  using quorum.not_threshold_empty by auto

text \<open>A leader block that a quorum supports has a certificate in the decision round.\<close>

lemma supported_certificate:
  assumes "dag_view d" "reached_quorum (ds_committee d) (stake_of (ds_committee d) (supporters d r L))"
  shows "\<exists>C. get_block d (vb_reference C) = Some C \<and> vb_round C = r \<and> certifies d L C"
  using quorum_nonempty [OF dag_viewD(2) [OF assms(1)] assms(2)]
    cached_block_get [OF dag_viewD(1) [OF assms(1)]]
  by (fastforce simp: supporters_def)

lemma slot_block:
  assumes "dag_view d" "L \<in> set (get_uncommitted_blocks_at_slot d s)"
  shows "cached_block d L" "slot_of (vb_reference L) = s" "vb_round L = slot_round s"
    "get_block d (vb_reference L) = Some L"
  using assms(2) uncommitted_at_slot_set [OF dag_viewD(1) [OF assms(1)], of s]
    cached_block_get [OF dag_viewD(1) [OF assms(1)]]
  by (auto simp: slot_of_def)

lemma slot_blocks_distinct: "dag_inv d \<Longrightarrow> distinct (map vb_reference (get_uncommitted_blocks_at_slot d s))"
  using sorted_recent_filter [of d "\<lambda>p. BlockRef (slot_round s) (slot_authority s) digest_min \<le> fst p \<and>
          fst p \<le> BlockRef (slot_round s) (slot_authority s) digest_max"]
  unfolding get_uncommitted_blocks_at_slot_def btm_range_def
  by (simp add: sorted_wrt_map [symmetric] strict_sorted_iff)

lemma filter_at_most_one:
  assumes "distinct (map f xs)" "\<And>x y. x \<in> set xs \<Longrightarrow> y \<in> set xs \<Longrightarrow> P x \<Longrightarrow> P y \<Longrightarrow> f x = f y"
  shows "filter P xs = [] \<or> (\<exists>x. filter P xs = [x])"
proof -
  have d: "distinct (map f (filter P xs))" using assms(1) by (rule distinct_map_filter)
  show ?thesis
  proof (cases "filter P xs")
    case (Cons x zs)
    show ?thesis
    proof (cases zs)
      case (Cons y ws)
      have "x \<in> set (filter P xs)" "y \<in> set (filter P xs)" using \<open>filter P xs = x # zs\<close> Cons by simp_all
      then have "f x = f y" using assms(2) by auto
      then show ?thesis using d \<open>filter P xs = x # zs\<close> Cons by simp
    qed (use Cons in simp)
  qed simp
qed

lemma unique_certified:
  assumes "same_dag byz d d" "L \<in> set (get_uncommitted_blocks_at_slot d s)" "M \<in> set (get_uncommitted_blocks_at_slot d s)"
    and "get_block d (vb_reference C) = Some C" "vb_round C = slot_round s + 2" "certifies d L C"
    and "get_block d (vb_reference D) = Some D" "vb_round D = slot_round s + 2" "certifies d M D"
  shows "vb_reference L = vb_reference M"
proof -
  have v: "dag_view d" by (rule same_dagD(1) [OF assms(1)])
  have r: "vb_round L = slot_round s" by (rule slot_block(3) [OF v assms(2)])
  have slot: "slot_of (vb_reference L) = slot_of (vb_reference M)"
    using slot_block(2) [OF v assms(2)] slot_block(2) [OF v assms(3)] by simp
  show ?thesis
    by (rule certificate_unique [OF assms(1) slot assms(4) _ assms(6,7) _ assms(9)])
      (simp_all only: assms(5,8) r)
qed

definition skip_evidence :: "dag_state \<Rightarrow> slot \<Rightarrow> bool" where
  "skip_evidence d s \<longleftrightarrow> reached_quorum (ds_committee d) (stake_of (ds_committee d) (blamers d s))"

definition commit_evidence :: "dag_state \<Rightarrow> slot \<Rightarrow> verified_block \<Rightarrow> bool" where
  "commit_evidence d s L \<longleftrightarrow>
     L \<in> set (get_uncommitted_blocks_at_slot d s) \<and>
     reached_quorum (ds_committee d) (stake_of (ds_committee d) (supporters d (slot_round s + 2) L))"

text \<open>Both kinds of evidence speak about certificates in the decision round.\<close>

lemma commit_evidence_certificate:
  assumes "dag_view d" "commit_evidence d s L"
  shows "\<exists>C. get_block d (vb_reference C) = Some C \<and> vb_round C = slot_round s + 2 \<and> certifies d L C"
  using supported_certificate [OF assms(1)] assms(2) by (auto simp: commit_evidence_def)

lemma commit_evidence_unique:
  assumes "same_dag byz d d" "commit_evidence d s L" "commit_evidence d s M"
  shows "vb_reference L = vb_reference M"
proof -
  have v: "dag_view d" by (rule same_dagD(1) [OF assms(1)])
  obtain C where C: "get_block d (vb_reference C) = Some C" "vb_round C = slot_round s + 2" "certifies d L C"
    using commit_evidence_certificate [OF v assms(2)] by blast
  obtain D where D: "get_block d (vb_reference D) = Some D" "vb_round D = slot_round s + 2" "certifies d M D"
    using commit_evidence_certificate [OF v assms(3)] by blast
  show ?thesis
    by (rule unique_certified [OF assms(1) _ _ C D]) (use assms(2,3) in \<open>simp_all add: commit_evidence_def\<close>)
qed

lemma direct_decide_cases:
  assumes sd: "same_dag byz d d" and can: "can_decide bc d s"
  obtains "try_direct_decide bc d s = Some (Skip s)" "skip_evidence d s"
  | "try_direct_decide bc d s = Some (Undecided s)"
  | L where "try_direct_decide bc d s = Some (Commit L)" "commit_evidence d s L"
proof -
  let ?c = "ds_committee d" and ?r = "slot_round s"
  let ?Ls = "get_uncommitted_blocks_at_slot d s"
  have v: "dag_view d" by (rule same_dagD(1) [OF sd])
  have c: "three_rounds bc" "bc_committee bc = ?c" "leader_slot_ok bc ?r" "gc_round d < ?r"
    using can by (auto simp: can_decide_def)
  have small: "?r + 1 < 2 ^ 32 - 1" "?r + 2 < 2 ^ 32 - 1" using c(3) by (auto simp: leader_slot_ok_def)
  obtain w where w: "wave_number bc ?r = Some w" "decision_round bc w = ?r + 2"
    using decision_round_eq [OF c(1,3)] by blast
  have blame: "enough_leader_blame bc d (u32_add ?r 1) (slot_authority s) = Some (skip_evidence d s)"
    unfolding skip_evidence_def by (rule enough_leader_blame_exact [OF v c(2) small(1)])
  define f where "f = enough_leader_support bc d (?r + 2)"
  have f: "\<exists>b. f L = Some b \<and> (b \<longrightarrow> commit_evidence d s L)" if "L \<in> set ?Ls" for L
  proof -
    have "gc_round d \<le> vb_round L" using slot_block(3) [OF v that] c(4) by simp
    from enough_leader_support_sound [OF v c(2) small(2) this] that show ?thesis
      by (auto simp: f_def commit_evidence_def)
  qed
  let ?sup = "filter (\<lambda>L. f L = Some True) ?Ls"
  have sup: "commit_evidence d s L" if "L \<in> set ?sup" for L
    using f [of L] that by auto
  have "f L \<noteq> None" if "L \<in> set ?Ls" for L using f [OF that] by blast
  then have run: "filter_opt f ?Ls = Some ?sup" by (simp add: filter_opt_Some)
  have "?sup = [] \<or> (\<exists>L. ?sup = [L])"
  proof (rule filter_at_most_one [OF slot_blocks_distinct [OF dag_viewD(1) [OF v]]])
    fix L M assume LM: "L \<in> set ?Ls" "M \<in> set ?Ls" "f L = Some True" "f M = Some True"
    show "vb_reference L = vb_reference M"
      by (rule commit_evidence_unique [OF sd]; rule sup) (simp_all add: LM)
  qed
  moreover have "try_direct_decide bc d s = (if skip_evidence d s then Some (Skip s) else if length ?sup > 1 then None
      else Some (if ?sup = [] then Undecided s else Commit (last ?sup)))"
    using blame w run unfolding try_direct_decide_def f_def by simp
  ultimately have run: "try_direct_decide bc d s = (if skip_evidence d s then Some (Skip s)
      else Some (if ?sup = [] then Undecided s else Commit (last ?sup)))" by auto
  show ?thesis
  proof (cases "skip_evidence d s")
    case True
    with run that(1) show ?thesis by simp
  next
    case False
    show ?thesis
    proof (cases "?sup = []")
      case True
      with run False that(2) show ?thesis by simp
    next
      case nonempty: False
      with run False have "try_direct_decide bc d s = Some (Commit (last ?sup))" by simp
      moreover have "commit_evidence d s (last ?sup)" using sup last_in_set [OF nonempty] .
      ultimately show ?thesis by (rule that(3))
    qed
  qed
qed

lemma evidence_same_leader:
  assumes "same_dag byz d e" "commit_evidence d s L" "commit_evidence e s M"
  shows "L = M"
proof -
  note v = same_dagD [OF assms(1)]
  have L: "L \<in> set (get_uncommitted_blocks_at_slot d s)" and M: "M \<in> set (get_uncommitted_blocks_at_slot e s)"
    using assms(2,3) by (simp_all add: commit_evidence_def)
  note l = slot_block [OF v(1) L] and m = slot_block [OF v(2) M]
  obtain C where C: "get_block d (vb_reference C) = Some C" "vb_round C = slot_round s + 2" "certifies d L C"
    using commit_evidence_certificate [OF v(1) assms(2)] by blast
  obtain D where D: "get_block e (vb_reference D) = Some D" "vb_round D = slot_round s + 2" "certifies e M D"
    using commit_evidence_certificate [OF v(2) assms(3)] by blast
  have slot: "slot_of (vb_reference L) = slot_of (vb_reference M)" using l(2) m(2) by simp
  have ref: "vb_reference L = vb_reference M"
    by (rule certificate_unique [OF assms(1) slot C(1) _ C(3) D(1) _ D(3)]) (simp_all only: C(2) D(2) l(3))
  show ?thesis by (rule v(5) [OF l(4)]) (simp only: ref m(4))
qed

lemma evidence_exclusive:
  assumes "same_dag byz d e" "skip_evidence d s" "commit_evidence e s L"
  shows False
proof -
  note v = same_dagD [OF assms(1)]
  have L: "L \<in> set (get_uncommitted_blocks_at_slot e s)" using assms(3) by (simp add: commit_evidence_def)
  obtain C where C: "get_block e (vb_reference C) = Some C" "vb_round C = slot_round s + 2" "certifies e L C"
    using commit_evidence_certificate [OF v(2) assms(3)] by blast
  show False
    by (rule blame_excludes_certificate [OF assms(1) slot_block(2) [OF v(2) L] assms(2) [unfolded skip_evidence_def] C(1) _ C(3)])
      (simp only: C(2) slot_block(3) [OF v(2) L])
qed

text \<open>C4: safety of the direct rule.  For two views of one execution with faulty stake at most f, the
  direct rule panics in neither view (there is at most one candidate), and when it decides the
  slot in both it decides the same: both skip, or both commit the same leader block.\<close>

theorem direct_decisions_agree:
  assumes "same_dag byz d e" "can_decide bc d s" "can_decide bc' e s"
  shows "\<exists>st st'. try_direct_decide bc d s = Some st \<and> try_direct_decide bc' e s = Some st' \<and>
     (is_decided st \<and> is_decided st' \<longrightarrow> st = st')"
proof -
  note sym = same_dag_sym [OF assms(1)]
  show ?thesis
  proof (cases rule: direct_decide_cases [OF same_dag_refl [OF assms(1)] assms(2)])
    case skip: 1
    then show ?thesis
      by (cases rule: direct_decide_cases [OF same_dag_refl [OF sym] assms(3)])
        (auto dest: evidence_exclusive [OF assms(1)])
  next
    case 2
    then show ?thesis by (cases rule: direct_decide_cases [OF same_dag_refl [OF sym] assms(3)]) auto
  next
    case (3 L)
    then show ?thesis
      by (cases rule: direct_decide_cases [OF same_dag_refl [OF sym] assms(3)])
        (auto dest: evidence_exclusive [OF sym] evidence_same_leader [OF assms(1)])
  qed
qed

subsection \<open>Anchors\<close>

lemma anc_reach_trans:
  assumes "x \<in> anc_reach d E T" "E < br_round x" "get_block d x = Some b" "y \<in> anc_reach d E (set (vb_ancestors b))"
  shows "y \<in> anc_reach d E T"
  using assms(4) by induction (use assms(1-3) in \<open>auto intro: anc_reach.parent\<close>)

lemma anc_reach_known:
  assumes "dag_view d" "get_block d r = Some A" "x \<in> anc_reach d E (set (vb_ancestors A))" "gc_round d < br_round x"
  shows "\<exists>b. get_block d x = Some b"
  using assms(3,4)
proof cases
  case start
  then show ?thesis using dag_viewD(5) [OF assms(1,2)] assms(4) by blast
next
  case (parent y b)
  then show ?thesis using dag_viewD(5) [OF assms(1) parent(3,4)] assms(4) by blast
qed

text \<open>A block reaches a quorum of every earlier round above the garbage collection round.\<close>

lemma anchor_quorum:
  assumes v: "dag_view d" and "get_block d r = Some A" "E < br_round r" "gc_round d < E"
  shows "reached_quorum (ds_committee d) (stake_of (ds_committee d)
     (br_author ` {x \<in> anc_reach d E (set (vb_ancestors A)). br_round x = E}))"
  using assms(2,3)
proof (induction "br_round r" arbitrary: r A rule: less_induct)
  case less
  let ?c = "ds_committee d"
  have A: "vb_round A = br_round r" using dag_viewD(4) [OF v less.prems(1)] by auto
  let ?P = "{a. a \<in> set (vb_ancestors A) \<and> br_round a = vb_round A - 1}"
  have "{br_author a |a. a \<in> set (vb_ancestors A) \<and> br_round a = vb_round A - 1} = br_author ` ?P" by auto
  then have q: "reached_quorum ?c (stake_of ?c (br_author ` ?P))"
    using dag_viewD(3) [OF v less.prems(1)] less.prems(2) A by (simp add: valid_block_def)
  show ?case
  proof (cases "br_round r = E + 1")
    case True
    then have "br_author ` ?P \<subseteq> br_author ` {x \<in> anc_reach d E (set (vb_ancestors A)). br_round x = E}"
      using A by (auto intro: anc_reach.start)
    then show ?thesis by (rule quorum.is_threshold_mono [OF q stake_of_mono])
  next
    case False
    obtain p where p: "p \<in> set (vb_ancestors A)" "br_round p = br_round r - 1"
      using quorum_nonempty [OF dag_viewD(2) [OF v] q] A by auto
    have pr: "E < br_round p" "br_round p < br_round r" using p(2) False less.prems(2) by linarith+
    then obtain b where b: "get_block d p = Some b"
      using dag_viewD(5) [OF v less.prems(1) p(1)] assms(4) by auto
    have "{x \<in> anc_reach d E (set (vb_ancestors b)). br_round x = E}
        \<subseteq> {x \<in> anc_reach d E (set (vb_ancestors A)). br_round x = E}"
      using anc_reach_trans [OF anc_reach.start [OF p(1)] pr(1) b] by blast
    then have "br_author ` {x \<in> anc_reach d E (set (vb_ancestors b)). br_round x = E}
        \<subseteq> br_author ` {x \<in> anc_reach d E (set (vb_ancestors A)). br_round x = E}" by (rule image_mono)
    then show ?thesis by (rule quorum.is_threshold_mono [OF less.hyps [OF pr(2) b pr(1)] stake_of_mono])
  qed
qed

definition anchor_certified :: "dag_state \<Rightarrow> verified_block \<Rightarrow> slot \<Rightarrow> verified_block \<Rightarrow> bool" where
  "anchor_certified d A s L \<longleftrightarrow>
     L \<in> set (get_uncommitted_blocks_at_slot d s) \<and>
     (\<exists>C. get_block d (vb_reference C) = Some C \<and> vb_round C = slot_round s + 2 \<and> certifies d L C \<and>
        vb_reference C \<in> anc_reach d (slot_round s + 2) (set (vb_ancestors A)))"

lemma anchor_decide_cases:
  assumes sd: "same_dag byz d d" and can: "can_decide bc d s"
  obtains "decide_leader_from_anchor bc d A s = Some (Skip s)" "\<And>L. \<not> anchor_certified d A s L"
  | L where "decide_leader_from_anchor bc d A s = Some (Commit L)" "anchor_certified d A s L"
proof -
  let ?r = "slot_round s" and ?Ls = "get_uncommitted_blocks_at_slot d s"
  have v: "dag_view d" by (rule same_dagD(1) [OF sd])
  have c: "three_rounds bc" "bc_committee bc = ds_committee d" "leader_slot_ok bc ?r" "gc_round d < ?r"
    using can by (auto simp: can_decide_def)
  obtain w where w: "wave_number bc ?r = Some w" "decision_round bc w = ?r + 2"
    using decision_round_eq [OF c(1,3)] by blast
  obtain Cs where Cs: "ancestors_at_round d A (?r + 2) = Some Cs"
     "set Cs = {b. \<exists>x \<in> anc_reach d (?r + 2) (set (vb_ancestors A)). br_round x = ?r + 2 \<and> get_block d x = Some b}"
    using ancestors_at_round_exact [OF view_rounds_decrease [OF v]] by blast
  have mem: "C \<in> set Cs \<longleftrightarrow> get_block d (vb_reference C) = Some C \<and> vb_round C = ?r + 2 \<and>
      vb_reference C \<in> anc_reach d (?r + 2) (set (vb_ancestors A))" for C
  proof
    assume "C \<in> set Cs"
    then obtain x where x: "x \<in> anc_reach d (?r + 2) (set (vb_ancestors A))" "br_round x = ?r + 2" "get_block d x = Some C"
      unfolding Cs(2) by blast
    then show "get_block d (vb_reference C) = Some C \<and> vb_round C = ?r + 2 \<and>
        vb_reference C \<in> anc_reach d (?r + 2) (set (vb_ancestors A))"
      using dag_viewD(4) [OF v x(3)] by auto
  next
    assume "get_block d (vb_reference C) = Some C \<and> vb_round C = ?r + 2 \<and>
        vb_reference C \<in> anc_reach d (?r + 2) (set (vb_ancestors A))"
    then show "C \<in> set Cs" unfolding Cs(2) by (simp, intro bexI [of _ "vb_reference C"]) simp_all
  qed
  define f where "f = (\<lambda>L. any_certificate (ds_committee d) d L Cs Map.empty)"
  have f: "f L = Some (anchor_certified d A s L)" if "L \<in> set ?Ls" for L
  proof -
    have "gc_round d \<le> vb_round L" using slot_block(3) [OF v that] c(4) by simp
    from any_certificate_exact [OF v this, of Map.empty Cs] mem
    have "f L = Some (\<exists>C \<in> set Cs. certifies d L C)" by (simp add: f_def cache_sound_def)
    then show ?thesis using that mem by (auto simp: anchor_certified_def)
  qed
  let ?cert = "filter (\<lambda>L. f L = Some True) ?Ls"
  have cert: "anchor_certified d A s L" if "L \<in> set ?cert" for L
    using f [of L] that by auto
  have run: "filter_opt f ?Ls = Some ?cert" using f by (simp add: filter_opt_Some)
  have "?cert = [] \<or> (\<exists>L. ?cert = [L])"
  proof (rule filter_at_most_one [OF slot_blocks_distinct [OF dag_viewD(1) [OF v]]])
    fix L M assume LM: "L \<in> set ?Ls" "M \<in> set ?Ls" "f L = Some True" "f M = Some True"
    then have "anchor_certified d A s L" "anchor_certified d A s M" using f by simp_all
    then show "vb_reference L = vb_reference M"
      unfolding anchor_certified_def using unique_certified [OF sd LM(1,2)] by blast
  qed
  then have dec: "decide_leader_from_anchor bc d A s
      = Some (if ?cert = [] then Skip s else Commit (last ?cert))"
    using w Cs(1) run unfolding decide_leader_from_anchor_def f_def c(2) by auto
  show ?thesis
  proof (cases "?cert = []")
    case True
    have "\<not> anchor_certified d A s L" for L
    proof
      assume ac: "anchor_certified d A s L"
      then have "L \<in> set ?Ls" by (simp add: anchor_certified_def)
      then have "L \<in> set ?cert" using f ac by simp
      then show False using True by simp
    qed
    with dec True that(1) show ?thesis by simp
  next
    case False
    then have "decide_leader_from_anchor bc d A s = Some (Commit (last ?cert))" using dec by simp
    then show ?thesis by (rule that(2)) (rule cert [OF last_in_set [OF False]])
  qed
qed

subsection \<open>Certificates carry over to other views\<close>

lemma vote_transfer:
  assumes sd: "same_dag byz d e" and C: "get_block d (vb_reference C) = Some C" "get_block e (vb_reference C) = Some C"
    and round: "vb_round C = vb_round L + 2" and gc: "gc_round e \<le> vb_round L"
    and r: "r \<in> set (vb_ancestors C)" "vote_of d L r"
  shows "vote_of e L r \<and> (\<exists>x. get_block e r = Some x \<and> vb_reference L \<in> set (vb_ancestors x))"
proof -
  note v = same_dagD [OF sd]
  have rr: "br_round r = vb_round L + 1" and "get_block d r \<noteq> None"
    using vote_rounds [OF v(1) C(1) round r] by simp_all
  then obtain x where x: "get_block d r = Some x" by blast
  obtain y where y: "get_block e r = Some y"
    using dag_viewD(5) [OF v(2) C(2) r(1)] rr gc by auto
  have "x = y" by (rule v(5) [OF x y])
  have f: "List.find (\<lambda>a. slot_of a = slot_of (vb_reference L)) (vb_ancestors x) = Some (vb_reference L)"
    using vote_of_direct [OF v(1) x rr] r(2) by blast
  then have "vote_of e L r" using vote_of_direct [OF v(2) y rr] \<open>x = y\<close> by simp
  moreover have "vb_reference L \<in> set (vb_ancestors y)" using f \<open>x = y\<close> by (auto simp: find_Some_iff)
  ultimately show ?thesis using y by blast
qed

lemma certificate_transfer:
  assumes sd: "same_dag byz d e" and C: "get_block d (vb_reference C) = Some C" "get_block e (vb_reference C) = Some C"
    and round: "vb_round C = slot_round s + 2" and gc: "gc_round e < slot_round s"
    and L: "L \<in> set (get_uncommitted_blocks_at_slot d s)" "certifies d L C"
  shows "certifies e L C" "L \<in> set (get_uncommitted_blocks_at_slot e s)"
proof -
  note v = same_dagD [OF sd]
  note l = slot_block [OF v(1) L(1)]
  have rL: "vb_round C = vb_round L + 2" "gc_round e \<le> vb_round L" using round l(3) gc by simp_all
  let ?V = "\<lambda>d. {r \<in> set (vb_ancestors C). vote_of d L r}"
  have q: "reached_quorum (ds_committee d) (stake_of (ds_committee d) (br_author ` ?V d))"
    using L(2) unfolding certifies_def vote_image .
  have sub: "?V d \<subseteq> ?V e" using vote_transfer [OF sd C rL] by blast
  show "certifies e L C"
    unfolding certifies_def vote_image v(3)
    by (rule quorum.is_threshold_mono [OF q stake_of_mono [OF image_mono [OF sub]]])
  obtain r where "r \<in> ?V d" using quorum_nonempty [OF dag_viewD(2) [OF v(1)] q] by auto
  then obtain x where x: "get_block e r = Some x" "vb_reference L \<in> set (vb_ancestors x)"
    using vote_transfer [OF sd C rL] by blast
  have g: "gc_round e < br_round (vb_reference L)" using gc l(3) by simp
  obtain M where M: "get_block e (vb_reference L) = Some M" using dag_viewD(5) [OF v(2) x g] by blast
  have "L = M" by (rule v(5) [OF l(4) M])
  then have "cached_block e L" using dag_viewD(6) [OF v(2) M g] by simp
  then show "L \<in> set (get_uncommitted_blocks_at_slot e s)"
    using uncommitted_at_slot_set [OF dag_viewD(1) [OF v(2)], of s] l(2) by simp
qed

text \<open>A leader that one view commits directly is certified under every anchor of any other view.\<close>

lemma direct_commit_anchor:
  assumes sd: "same_dag byz d e" and L: "commit_evidence d s L" and gc: "gc_round e < slot_round s"
    and A: "get_block e r = Some A" "slot_round s + 3 \<le> br_round r"
  shows "anchor_certified e A s L"
proof -
  note v = same_dagD [OF sd]
  have inv: "dag_inv d" by (rule dag_viewD(1) [OF v(1)])
  let ?r = "slot_round s + 2"
  let ?B = "{vb_reference b |b. cached_block d b \<and> vb_round b = ?r \<and> last_commit_round d < ?r \<and> certifies d L b}"
  let ?S = "{x \<in> anc_reach e ?r (set (vb_ancestors A)). br_round x = ?r}"
  have "supporters d ?r L = br_author ` ?B" by (force simp: supporters_def)
  then have qB: "reached_quorum (ds_committee d) (stake_of (ds_committee d) (br_author ` ?B))"
    using L by (simp add: commit_evidence_def)
  have qS: "reached_quorum (ds_committee d) (stake_of (ds_committee d) (br_author ` ?S))"
    using anchor_quorum [OF v(2) A(1), of ?r] A(2) gc unfolding v(3) by simp
  have B: "br_round x = ?r \<and> get_block d x \<noteq> None" if "x \<in> ?B" for x
    using that cached_block_get [OF inv] by auto
  have S: "br_round x = ?r \<and> get_block e x \<noteq> None" if "x \<in> ?S" for x
    using that anc_reach_known [OF v(2) A(1), of x ?r] gc by auto
  obtain x C where x: "x \<in> ?B" "x \<in> ?S" "get_block d x = Some C" "get_block e x = Some C"
    using quorum_common_block [OF sd qB qS B S] by blast
  have ref: "vb_reference C = x" by (rule dag_viewD(4) [OF v(1) x(3)])
  have C: "vb_round C = ?r" "certifies d L C" using x(1,3) cached_block_get [OF inv] by auto
  have known: "get_block d (vb_reference C) = Some C" "get_block e (vb_reference C) = Some C"
    using x(3,4) ref by simp_all
  have "L \<in> set (get_uncommitted_blocks_at_slot d s)" using L by (simp add: commit_evidence_def)
  note t = certificate_transfer [OF sd known C(1) gc this C(2)]
  show ?thesis unfolding anchor_certified_def using t known(2) C(1) x(2) ref by blast
qed

lemma direct_skip_anchor:
  assumes sd: "same_dag byz d e" and "skip_evidence d s"
  shows "\<not> anchor_certified e A s L"
proof
  assume "anchor_certified e A s L"
  then obtain C where C: "L \<in> set (get_uncommitted_blocks_at_slot e s)" "get_block e (vb_reference C) = Some C"
      "vb_round C = slot_round s + 2" "certifies e L C"
    by (auto simp: anchor_certified_def)
  note l = slot_block [OF same_dagD(2) [OF sd] C(1)]
  show False
    by (rule blame_excludes_certificate [OF sd l(2) assms(2) [unfolded skip_evidence_def] C(2) _ C(4)])
      (simp only: C(3) l(3))
qed

lemma anc_reach_transfer:
  assumes sd: "same_dag byz d e" and A: "get_block e r = Some A" and "gc_round e \<le> E"
    and "x \<in> anc_reach d E (set (vb_ancestors A))"
  shows "x \<in> anc_reach e E (set (vb_ancestors A))"
  using assms(4)
proof induction
  case (start x)
  then show ?case by (rule anc_reach.start)
next
  case (parent y b x)
  obtain b' where b': "get_block e y = Some b'"
    using anc_reach_known [OF same_dagD(2) [OF sd] A parent.IH] parent.hyps(2) assms(3) by auto
  have "b = b'" by (rule same_dagD(5) [OF sd parent.hyps(3) b'])
  then show ?case using anc_reach.parent [OF parent.IH parent.hyps(2) b'] parent.hyps(4) by simp
qed

lemma anchor_transfer:
  assumes sd: "same_dag byz d e" and A: "get_block e r = Some A" and gc: "gc_round e < slot_round s"
    and "anchor_certified d A s L"
  shows "anchor_certified e A s L"
proof -
  let ?r = "slot_round s + 2"
  obtain C where C: "L \<in> set (get_uncommitted_blocks_at_slot d s)" "get_block d (vb_reference C) = Some C"
      "vb_round C = ?r" "certifies d L C" "vb_reference C \<in> anc_reach d ?r (set (vb_ancestors A))"
    using assms(4) by (auto simp: anchor_certified_def)
  have reach: "vb_reference C \<in> anc_reach e ?r (set (vb_ancestors A))"
    by (rule anc_reach_transfer [OF sd A _ C(5)]) (use gc in simp)
  obtain D where D: "get_block e (vb_reference C) = Some D"
    using anc_reach_known [OF same_dagD(2) [OF sd] A reach] C(3) gc by auto
  have "C = D" by (rule same_dagD(5) [OF sd C(2) D])
  then have known: "get_block e (vb_reference C) = Some C" using D by simp
  show ?thesis
    using certificate_transfer [OF sd C(2) known C(3) gc C(1,4)] known C(3) reach
    unfolding anchor_certified_def by blast
qed

lemma anchor_certified_unique:
  assumes "same_dag byz d d" "anchor_certified d A s L" "anchor_certified d B s M"
  shows "L = M"
proof -
  have v: "dag_view d" by (rule same_dagD(1) [OF assms(1)])
  have L: "L \<in> set (get_uncommitted_blocks_at_slot d s)" and M: "M \<in> set (get_uncommitted_blocks_at_slot d s)"
    using assms(2,3) by (simp_all add: anchor_certified_def)
  obtain C where C: "get_block d (vb_reference C) = Some C" "vb_round C = slot_round s + 2" "certifies d L C"
    using assms(2) unfolding anchor_certified_def by blast
  obtain D where D: "get_block d (vb_reference D) = Some D" "vb_round D = slot_round s + 2" "certifies d M D"
    using assms(3) unfolding anchor_certified_def by blast
  have "vb_reference L = vb_reference M" by (rule unique_certified [OF assms(1) L M C D])
  then have "Some L = Some M" using slot_block(4) [OF v L] slot_block(4) [OF v M] by (simp only:)
  then show ?thesis by (rule option.inject [THEN iffD1])
qed

lemma same_anchor_agree:
  assumes "same_dag byz d e" "can_decide bc d s" "can_decide bc' e s"
    and "get_block d r = Some A" "get_block e r = Some A"
  shows "decide_leader_from_anchor bc d A s = decide_leader_from_anchor bc' e A s"
proof -
  note sym = same_dag_sym [OF assms(1)]
  have gc: "gc_round d < slot_round s" "gc_round e < slot_round s" using assms(2,3) by (simp_all add: can_decide_def)
  show ?thesis
  proof (cases rule: anchor_decide_cases [OF same_dag_refl [OF assms(1)] assms(2), of A])
    case 1
    then show ?thesis
      by (cases rule: anchor_decide_cases [OF same_dag_refl [OF sym] assms(3), of A])
        (auto dest: anchor_transfer [OF sym assms(4) gc(1)])
  next
    case (2 L)
    note tr = anchor_transfer [OF assms(1,5) gc(2) 2(2)]
    show ?thesis
      by (cases rule: anchor_decide_cases [OF same_dag_refl [OF sym] assms(3), of A])
        (use 2(1) tr in \<open>auto dest: anchor_certified_unique [OF same_dag_refl [OF sym] tr]\<close>)
  qed
qed

definition direct_evidence :: "dag_state \<Rightarrow> slot \<Rightarrow> leader_status \<Rightarrow> bool" where
  "direct_evidence d s st \<longleftrightarrow>
     st = Skip s \<and> skip_evidence d s \<or> (\<exists>L. st = Commit L \<and> commit_evidence d s L)"

lemma direct_evidence_agree:
  assumes "same_dag byz d e" "direct_evidence d s st" "direct_evidence e s st'"
  shows "st = st'"
  using assms evidence_same_leader [OF assms(1)] evidence_exclusive [OF assms(1)]
    evidence_exclusive [OF same_dag_sym [OF assms(1)]]
  unfolding direct_evidence_def by blast

lemma direct_anchor_agree:
  assumes "same_dag byz d e" "can_decide bc e s" "direct_evidence d s st"
    and "get_block e r = Some A" "slot_round s + 3 \<le> br_round r"
  shows "decide_leader_from_anchor bc e A s = Some st"
proof -
  note sym = same_dag_sym [OF assms(1)]
  have gc: "gc_round e < slot_round s" using assms(2) by (simp add: can_decide_def)
  consider "st = Skip s" "skip_evidence d s" | L where "st = Commit L" "commit_evidence d s L"
    using assms(3) by (auto simp: direct_evidence_def)
  then show ?thesis
  proof cases
    case 1
    note no = direct_skip_anchor [OF assms(1) 1(2), of A]
    show ?thesis
      by (cases rule: anchor_decide_cases [OF same_dag_refl [OF sym] assms(2), of A])
        (use 1(1) no in auto)
  next
    case (2 L)
    note tr = direct_commit_anchor [OF assms(1) 2(2) gc assms(4,5)]
    show ?thesis
      by (cases rule: anchor_decide_cases [OF same_dag_refl [OF sym] assms(2), of A])
        (use 2(1) tr in \<open>auto dest: anchor_certified_unique [OF same_dag_refl [OF sym] tr]\<close>)
  qed
qed

text \<open>C3: safety of the indirect rule.  When one view decides a slot directly, the indirect rule of
  any other view of the execution, from any known anchor at least three rounds later, returns the
  same decision; and from the same anchor the indirect rule returns the same decision in both
  views.  In no case does it panic.\<close>

theorem indirect_decisions_agree:
  assumes "same_dag byz d e" "can_decide bc d s" "can_decide bc' e s"
    and "get_block e r = Some A" "slot_round s + 3 \<le> br_round r"
  shows "\<exists>st st'. try_direct_decide bc d s = Some st \<and> decide_leader_from_anchor bc' e A s = Some st' \<and>
     is_decided st' \<and> (is_decided st \<longrightarrow> st = st') \<and>
     (get_block d r = Some A \<longrightarrow> decide_leader_from_anchor bc d A s = Some st')"
proof -
  obtain st where st: "try_direct_decide bc d s = Some st" "is_decided st \<Longrightarrow> direct_evidence d s st"
    by (cases rule: direct_decide_cases [OF same_dag_refl [OF assms(1)] assms(2)])
      (auto simp: direct_evidence_def)
  obtain st' where st': "decide_leader_from_anchor bc' e A s = Some st'" "is_decided st'"
    by (cases rule: anchor_decide_cases [OF same_dag_refl [OF same_dag_sym [OF assms(1)]] assms(3), of A]) auto
  have "is_decided st \<longrightarrow> st = st'"
    using direct_anchor_agree [OF assms(1,3) _ assms(4,5)] st(2) st'(1) by fastforce
  moreover have "get_block d r = Some A \<longrightarrow> decide_leader_from_anchor bc d A s = Some st'"
    using same_anchor_agree [OF assms(1-3) _ assms(4)] st'(1) by simp
  ultimately show ?thesis using st(1) st' by blast
qed

end
