(* ===== verification/Linearizer.thy ===== *)
theory Linearizer
  imports Dag_Reachable Committer_Safety
begin

section \<open>Linearizer\<close>

text \<open>
  \<^verbatim>\<open>core/src/linearizer.rs\<close>: a committed leader is expanded into the sub-DAG of its uncommitted causal
  history and a commit.  The trait \<^verbatim>\<open>BlockStoreAPI\<close> the traversal is generic over is the record
  \<open>block_store_api\<close>, its implementation for \<^verbatim>\<open>DagState\<close> the value \<open>dag_state_api\<close>.  The traversal may
  in principle not end for an arbitrary store, so its loop is a \<open>partial_function\<close>; for a DAG view it
  is shown to end.  \<open>hash\<close> and \<open>bcs\<close> are the digest and the serialisation of a commit.  Metrics and
  logging are left out.
\<close>

subsection \<open>The store interface\<close>

record 'd block_store_api =
  api_get_blocks :: "'d \<Rightarrow> block_ref list \<Rightarrow> verified_block option list"
  api_gc_round :: "'d \<Rightarrow> Round"
  api_set_committed :: "'d \<Rightarrow> block_ref \<Rightarrow> bool \<times> 'd"
  api_is_committed :: "'d \<Rightarrow> block_ref \<Rightarrow> bool"

definition dag_state_api :: "dag_state block_store_api" where
  "dag_state_api = \<lparr>api_get_blocks = get_blocks, api_gc_round = gc_round,
     api_set_committed = set_committed, api_is_committed = is_committed\<rparr>"

subsection \<open>The traversal\<close>

definition commit_ancestor ::
  "'d block_store_api \<Rightarrow> verified_block \<Rightarrow> verified_block list \<times> 'd \<Rightarrow> (verified_block list \<times> 'd) option" where
  "commit_ancestor api ancestor st =
     (case api_set_committed api (snd st) (vb_reference ancestor) of
        (ok, d') \<Rightarrow> if ok then Some (fst st @ [ancestor], d') else None)"

definition ancestors_to_commit :: "'d block_store_api \<Rightarrow> Round \<Rightarrow> 'd \<Rightarrow> verified_block \<Rightarrow> verified_block list" where
  "ancestors_to_commit api gc d x =
     List.map_filter (\<lambda>ancestor_opt. ancestor_opt)
       (api_get_blocks api d
          (filter (\<lambda>a. gc < br_round a \<and> \<not> api_is_committed api d a) (vb_ancestors x)))"

partial_function (option) linearize_loop ::
  "'d block_store_api \<Rightarrow> Round \<Rightarrow> 'd \<Rightarrow> verified_block list \<Rightarrow> verified_block list \<Rightarrow> (verified_block list \<times> 'd) option" where
  "linearize_loop api gc d buffer to_commit =
     (if buffer = [] then Some (to_commit, d)
      else Option.bind
        (fold_opt (commit_ancestor api) (ancestors_to_commit api gc d (last buffer)) (butlast buffer, d))
        (\<lambda>st. linearize_loop api gc (snd st) (fst st) (to_commit @ [last buffer])))"

text \<open>Induction over a traversal that ends.\<close>

lemma linearize_loop_induct [consumes 1, case_names finished step]:
  assumes "linearize_loop api gc d buffer to_commit = Some y"
    and "\<And>d to_commit. P d [] to_commit (to_commit, d)"
    and "\<And>d buffer x to_commit st y.
       fold_opt (commit_ancestor api) (ancestors_to_commit api gc d x) (buffer, d) = Some st \<Longrightarrow>
       P (snd st) (fst st) (to_commit @ [x]) y \<Longrightarrow> P d (buffer @ [x]) to_commit y"
  shows "P d buffer to_commit y"
proof -
  have "api' = api \<longrightarrow> gc' = gc \<longrightarrow> P d buffer to_commit y" if "linearize_loop api' gc' d buffer to_commit = Some y" for api' gc'
  proof (rule linearize_loop.raw_induct [OF _ that, where P = "\<lambda>api' gc' d buffer to_commit y. api' = api \<longrightarrow> gc' = gc \<longrightarrow> P d buffer to_commit y"],
      goal_cases)
    case (1 lp api' gc' d buffer to_commit y)
    show ?case
    proof (intro impI)
      assume eq: "api' = api" "gc' = gc"
      show "P d buffer to_commit y"
      proof (cases buffer rule: rev_cases)
        case Nil
        then show ?thesis using 1(2) assms(2) by auto
      next
        case (snoc ys x)
        then obtain st where st: "fold_opt (commit_ancestor api) (ancestors_to_commit api gc d x) (ys, d) = Some st"
            "lp api gc (snd st) (fst st) (to_commit @ [x]) = Some y"
          using 1(2) eq by (auto simp: bind_eq_Some_conv)
        show ?thesis unfolding snoc using assms(3) [OF st(1)] 1(1) [OF st(2)] by blast
      qed
    qed
  qed
  then show ?thesis using assms(1) by blast
qed

definition linearize_sub_dag ::
  "'d block_store_api \<Rightarrow> verified_block \<Rightarrow> 'd \<Rightarrow> (verified_block list \<times> 'd) option" where
  "linearize_sub_dag api leader_block d =
     (let gc = api_gc_round api d
      in case api_set_committed api d (vb_reference leader_block) of
           (ok, d1) \<Rightarrow>
             if \<not> ok then None
             else do {
               (to_commit, d2) \<leftarrow> linearize_loop api gc d1 [leader_block] [];
               if list_all (\<lambda>b. gc < vb_round b) to_commit
               then Some (sort_sub_dag_blocks to_commit, d2)
               else None
             })"

subsection \<open>Commit timestamps\<close>

datatype median_error = NoBlocksProvided | StakeBelowQuorum Stake Stake

fun median_loop :: "Stake \<Rightarrow> Stake \<Rightarrow> (BlockTimestampMs \<times> Stake) list \<Rightarrow> BlockTimestampMs option" where
  "median_loop total_stake cumulative [] = None"
| "median_loop total_stake cumulative ((ts, stake) # rest) =
     (let cumulative' = u64_add cumulative stake
      in if cumulative' > total_stake div 2 then Some ts else median_loop total_stake cumulative' rest)"

definition median_timestamps_by_stake_inner ::
  "(BlockTimestampMs \<times> Stake) list \<Rightarrow> Stake \<Rightarrow> BlockTimestampMs option" where
  "median_timestamps_by_stake_inner timestamps total_stake =
     (let ordered = sort_key fst timestamps
      in case median_loop total_stake 0 ordered of
           Some ts \<Rightarrow> Some ts
         | None \<Rightarrow> if ordered = [] then None else Some (fst (last ordered)))"

definition median_timestamp_by_stake ::
  "consensus_context \<Rightarrow> verified_block list \<Rightarrow> (median_error + BlockTimestampMs) option" where
  "median_timestamp_by_stake ctx blocks = do {
     timestamps \<leftarrow> map_opt (\<lambda>b. map_option (\<lambda>a. (vb_timestamp_ms b, au_stake a))
        (committee_authority (ctx_committee ctx) (vb_author b))) blocks;
     let total_stake = u64_sum (map snd timestamps);
     if timestamps = [] then Some (Inl NoBlocksProvided)
     else if total_stake < c_quorum_threshold (ctx_committee ctx)
       then Some (Inl (StakeBelowQuorum total_stake (c_quorum_threshold (ctx_committee ctx))))
     else map_option Inr (median_timestamps_by_stake_inner timestamps total_stake)
   }"

definition leader_parents :: "'d block_store_api \<Rightarrow> 'd \<Rightarrow> verified_block \<Rightarrow> verified_block list" where
  "leader_parents api d leader_block =
     List.map_filter (\<lambda>block_opt. block_opt)
       (api_get_blocks api d
          (filter (\<lambda>r. br_round r = u32_sub (vb_round leader_block) 1) (vb_ancestors leader_block)))"

definition calculate_commit_timestamp ::
  "'d block_store_api \<Rightarrow> consensus_context \<Rightarrow> 'd \<Rightarrow> verified_block \<Rightarrow> BlockTimestampMs \<Rightarrow> BlockTimestampMs option" where
  "calculate_commit_timestamp api ctx d leader_block last_timestamp_ms = do {
     median \<leftarrow> median_timestamp_by_stake ctx (leader_parents api d leader_block);
     let timestamp_ms = (case median of Inr ts \<Rightarrow> ts | Inl e \<Rightarrow> vb_timestamp_ms leader_block);
     Some (max timestamp_ms last_timestamp_ms)
   }"

subsection \<open>Commits\<close>

record linearizer =
  lin_context :: consensus_context
  lin_epoch_base_index :: nat
  lin_deferred_leaders :: "verified_block list"

definition linearizer_new :: "consensus_context \<Rightarrow> linearizer" where
  "linearizer_new ctx = \<lparr>lin_context = ctx, lin_epoch_base_index = 0, lin_deferred_leaders = []\<rparr>"

definition set_epoch_base_index :: "nat \<Rightarrow> linearizer \<Rightarrow> linearizer" where
  "set_epoch_base_index i lin = lin\<lparr>lin_epoch_base_index := i\<rparr>"

definition deferred_leaders_count :: "linearizer \<Rightarrow> nat" where
  "deferred_leaders_count lin = length (lin_deferred_leaders lin)"

definition try_collect_sub_dag_and_commit ::
  "(bytes \<Rightarrow> digest) \<Rightarrow> (commit \<Rightarrow> bytes option) \<Rightarrow> linearizer \<Rightarrow> dag_state \<Rightarrow> verified_block \<Rightarrow>
   ((committed_sub_dag \<times> trusted_commit) option \<times> dag_state) option" where
  "try_collect_sub_dag_and_commit hash bcs lin d leader_block = do {
     (to_commit, d') \<leftarrow> linearize_sub_dag dag_state_api leader_block d;
     timestamp_ms \<leftarrow> calculate_commit_timestamp dag_state_api (lin_context lin) d' leader_block
        (last_commit_timestamp_ms d);
     let commit_index = u32_add (last_commit_index d) 1;
     let global_exec_index = u64_add (lin_epoch_base_index lin) commit_index;
     let commit = commit_new commit_index (last_commit_digest d) timestamp_ms (vb_reference leader_block)
        (map vb_reference to_commit) global_exec_index;
     serialized \<leftarrow> bcs commit;
     let tc = trusted_commit_new hash commit serialized;
     let sub_dag = committed_sub_dag_new (vb_reference leader_block) to_commit timestamp_ms
        (trusted_commit_reference tc) global_exec_index;
     Some (Some (sub_dag, tc), d')
   }"

fun handle_leaders ::
  "(bytes \<Rightarrow> digest) \<Rightarrow> (commit \<Rightarrow> bytes option) \<Rightarrow> linearizer \<Rightarrow> dag_state \<Rightarrow> verified_block list \<Rightarrow>
   committed_sub_dag list \<Rightarrow> (committed_sub_dag list \<times> linearizer \<times> dag_state) option" where
  "handle_leaders hash bcs lin d [] sub_dags = Some (sub_dags, lin, d)"
| "handle_leaders hash bcs lin d (leader # leaders) sub_dags =
     (case try_collect_sub_dag_and_commit hash bcs lin d leader of
        None \<Rightarrow> None
      | Some (Some (sub_dag, commit), d1) \<Rightarrow>
          (case add_commit d1 commit of
             None \<Rightarrow> None
           | Some d2 \<Rightarrow> handle_leaders hash bcs lin d2 leaders (sub_dags @ [sub_dag]))
      | Some (None, d1) \<Rightarrow>
          Some (sub_dags, lin\<lparr>lin_deferred_leaders := lin_deferred_leaders lin @ leader # leaders\<rparr>, d1))"

definition handle_commit ::
  "(bytes \<Rightarrow> digest) \<Rightarrow> (commit \<Rightarrow> bytes option) \<Rightarrow> linearizer \<Rightarrow> dag_state \<Rightarrow> verified_block list \<Rightarrow>
   (committed_sub_dag list \<times> linearizer \<times> dag_state) option" where
  "handle_commit hash bcs lin d committed_leaders =
     handle_leaders hash bcs (lin\<lparr>lin_deferred_leaders := []\<rparr>) d
       (lin_deferred_leaders lin @ committed_leaders) []"

subsection \<open>What a sub-DAG is\<close>

text \<open>The uncommitted causal history of a block above a round, in terms of lookups only.\<close>

inductive_set commit_reach ::
  "(block_ref \<Rightarrow> verified_block option) \<Rightarrow> Round \<Rightarrow> (block_ref \<Rightarrow> bool) \<Rightarrow> block_ref \<Rightarrow> block_ref set"
  for get gc committed root where
  root: "root \<in> commit_reach get gc committed root"
| step: "r \<in> commit_reach get gc committed root \<Longrightarrow> get r = Some b \<Longrightarrow> a \<in> set (vb_ancestors b) \<Longrightarrow>
     gc < br_round a \<Longrightarrow> \<not> committed a \<Longrightarrow> a \<in> commit_reach get gc committed root"

lemma map_filter_known:
  "\<forall>a \<in> set xs. f a \<noteq> None \<Longrightarrow> List.map_filter (\<lambda>x. x) (map f xs) = map (the \<circ> f) xs"
  by (induction xs) (auto simp: map_filter_simps)

text \<open>What the traversal relies on.  \<open>ok\<close> is the invariant of the store and \<open>known\<close> its lookup.\<close>

locale block_store =
  fixes api :: "'d block_store_api" and ok :: "'d \<Rightarrow> bool" and known :: "'d \<Rightarrow> block_ref \<Rightarrow> verified_block option"
  assumes reads: "ok d \<Longrightarrow> api_get_blocks api d refs = map (known d) refs"
    and references: "ok d \<Longrightarrow> known d r = Some b \<Longrightarrow> vb_reference b = r"
    and complete: "ok d \<Longrightarrow> known d r = Some b \<Longrightarrow> a \<in> set (vb_ancestors b) \<Longrightarrow> api_gc_round api d < br_round a \<Longrightarrow>
      \<exists>x. known d a = Some x"
    and ancestors_distinct: "ok d \<Longrightarrow> known d r = Some b \<Longrightarrow> distinct (vb_ancestors b)"
    and marks: "ok d \<Longrightarrow> known d r = Some b \<Longrightarrow> api_gc_round api d < br_round r \<Longrightarrow> \<not> api_is_committed api d r \<Longrightarrow>
      \<exists>d'. api_set_committed api d r = (True, d') \<and> ok d' \<and> known d' = known d \<and>
        api_gc_round api d' = api_gc_round api d \<and> (\<forall>x. api_is_committed api d' x \<longleftrightarrow> api_is_committed api d x \<or> x = r)"
    and bounded: "ok d \<Longrightarrow> finite {r. api_gc_round api d < br_round r \<and> known d r \<noteq> None}"
begin

definition same_store :: "'d \<Rightarrow> 'd \<Rightarrow> bool" where
  "same_store d d' \<longleftrightarrow> ok d' \<and> known d' = known d \<and> api_gc_round api d' = api_gc_round api d"

lemma ancestors_to_commit_refs:
  assumes "ok d" "known d r = Some x"
  shows "map vb_reference (ancestors_to_commit api (api_gc_round api d) d x)
           = filter (\<lambda>a. api_gc_round api d < br_round a \<and> \<not> api_is_committed api d a) (vb_ancestors x)"
    and "b \<in> set (ancestors_to_commit api (api_gc_round api d) d x) \<Longrightarrow> known d (vb_reference b) = Some b"
proof -
  let ?P = "\<lambda>a. api_gc_round api d < br_round a \<and> \<not> api_is_committed api d a"
  have eq: "ancestors_to_commit api (api_gc_round api d) d x = map (the \<circ> known d) (filter ?P (vb_ancestors x))"
  proof -
    have "\<forall>a \<in> set (filter ?P (vb_ancestors x)). known d a \<noteq> None" using complete [OF assms] by auto
    then show ?thesis unfolding ancestors_to_commit_def reads [OF assms(1)] by (rule map_filter_known)
  qed
  have k: "known d a = Some (the (known d a))" "vb_reference (the (known d a)) = a" if "a \<in> set (filter ?P (vb_ancestors x))" for a
    using complete [OF assms, of a] that references [OF assms(1), of a] by auto
  show "map vb_reference (ancestors_to_commit api (api_gc_round api d) d x) = filter ?P (vb_ancestors x)"
    unfolding eq map_map using k(2) by (intro map_idI) simp
  show "b \<in> set (ancestors_to_commit api (api_gc_round api d) d x) \<Longrightarrow> known d (vb_reference b) = Some b"
    unfolding eq using k by auto
qed

lemma commit_ancestors_total:
  assumes "ok d" "distinct (map vb_reference bs)"
    and "\<And>b. b \<in> set bs \<Longrightarrow> known d (vb_reference b) = Some b \<and> api_gc_round api d < vb_round b \<and>
       \<not> api_is_committed api d (vb_reference b)"
  shows "\<exists>d'. fold_opt (commit_ancestor api) bs (buffer, d) = Some (buffer @ bs, d') \<and> same_store d d' \<and>
     (\<forall>x. api_is_committed api d' x \<longleftrightarrow> api_is_committed api d x \<or> x \<in> vb_reference ` set bs)"
  using assms
proof (induction bs arbitrary: buffer d)
  case (Cons b bs)
  have b: "known d (vb_reference b) = Some b" "api_gc_round api d < br_round (vb_reference b)"
      "\<not> api_is_committed api d (vb_reference b)"
    using Cons.prems(3) [of b] by (simp_all add: vb_reference_def)
  obtain d1 where d1: "api_set_committed api d (vb_reference b) = (True, d1)" "ok d1" "known d1 = known d"
      "api_gc_round api d1 = api_gc_round api d"
      "\<And>x. api_is_committed api d1 x \<longleftrightarrow> api_is_committed api d x \<or> x = vb_reference b"
    using marks [OF Cons.prems(1) b] by auto
  have "known d1 (vb_reference c) = Some c \<and> api_gc_round api d1 < vb_round c \<and> \<not> api_is_committed api d1 (vb_reference c)"
    if c: "c \<in> set bs" for c
  proof -
    have "vb_reference c \<noteq> vb_reference b" using Cons.prems(2) c by (metis distinct.simps(2) imageI list.map(2) set_map)
    then show ?thesis using Cons.prems(3) [of c] c by (simp add: d1(3-5))
  qed
  from Cons.IH [OF d1(2) _ this, of "buffer @ [b]"] Cons.prems(2) obtain d' where
      "fold_opt (commit_ancestor api) bs (buffer @ [b], d1) = Some ((buffer @ [b]) @ bs, d')" "same_store d1 d'"
      "\<forall>x. api_is_committed api d' x \<longleftrightarrow> api_is_committed api d1 x \<or> x \<in> vb_reference ` set bs"
    by auto
  moreover have "commit_ancestor api b (buffer, d) = Some (buffer @ [b], d1)" using d1(1) by (simp add: commit_ancestor_def)
  ultimately show ?case using d1(2-5) by (intro exI [of _ d']) (auto simp: same_store_def)
qed (simp add: same_store_def)

text \<open>The traversal started at \<open>root\<close> in the state \<open>d0\<close>: what is collected or queued is marked, distinct and
  part of the history, and the history of what is collected is collected or queued.\<close>

definition loop_inv :: "'d \<Rightarrow> block_ref \<Rightarrow> 'd \<Rightarrow> verified_block list \<Rightarrow> verified_block list \<Rightarrow> bool" where
  "loop_inv d0 root d buffer to_commit \<longleftrightarrow>
     same_store d0 d \<and> distinct (map vb_reference (to_commit @ buffer)) \<and>
     root \<in> vb_reference ` set (to_commit @ buffer) \<and>
     (\<forall>x. api_is_committed api d x \<longleftrightarrow> api_is_committed api d0 x \<or> x \<in> vb_reference ` set (to_commit @ buffer)) \<and>
     (\<forall>b \<in> set (to_commit @ buffer). known d0 (vb_reference b) = Some b \<and> api_gc_round api d0 < vb_round b \<and>
        \<not> api_is_committed api d0 (vb_reference b) \<and>
        vb_reference b \<in> commit_reach (known d0) (api_gc_round api d0) (api_is_committed api d0) root) \<and>
     (\<forall>b \<in> set to_commit. \<forall>a \<in> set (vb_ancestors b). api_gc_round api d0 < br_round a \<longrightarrow>
        \<not> api_is_committed api d0 a \<longrightarrow> a \<in> vb_reference ` set (to_commit @ buffer))"

lemma loop_invD:
  assumes "loop_inv d0 root d buffer to_commit"
  shows "ok d" "known d = known d0" "api_gc_round api d = api_gc_round api d0"
    and "distinct (map vb_reference (to_commit @ buffer))"
    and "root \<in> vb_reference ` set (to_commit @ buffer)"
    and "api_is_committed api d x \<longleftrightarrow> api_is_committed api d0 x \<or> x \<in> vb_reference ` set (to_commit @ buffer)"
    and "b \<in> set (to_commit @ buffer) \<Longrightarrow> known d0 (vb_reference b) = Some b"
    and "b \<in> set (to_commit @ buffer) \<Longrightarrow> api_gc_round api d0 < vb_round b"
    and "b \<in> set (to_commit @ buffer) \<Longrightarrow> \<not> api_is_committed api d0 (vb_reference b)"
    and "b \<in> set (to_commit @ buffer) \<Longrightarrow>
      vb_reference b \<in> commit_reach (known d0) (api_gc_round api d0) (api_is_committed api d0) root"
    and "b \<in> set to_commit \<Longrightarrow> a \<in> set (vb_ancestors b) \<Longrightarrow> api_gc_round api d0 < br_round a \<Longrightarrow>
      \<not> api_is_committed api d0 a \<Longrightarrow> a \<in> vb_reference ` set (to_commit @ buffer)"
  using assms unfolding loop_inv_def same_store_def by blast+

lemma loop_inv_step:
  assumes inv: "loop_inv d0 root d (buffer @ [x]) to_commit"
  shows "\<exists>bs d'. fold_opt (commit_ancestor api) (ancestors_to_commit api (api_gc_round api d0) d x) (buffer, d)
       = Some (buffer @ bs, d') \<and> loop_inv d0 root d' (buffer @ bs) (to_commit @ [x])"
proof -
  let ?gc = "api_gc_round api d0"
  let ?bs = "ancestors_to_commit api ?gc d x"
  have mem: "x \<in> set (to_commit @ buffer @ [x])" by simp
  note same = loop_invD(1-3) [OF inv] and com = loop_invD(6) [OF inv]
  note x = loop_invD(7,10) [OF inv mem]
  have refs: "map vb_reference ?bs = filter (\<lambda>a. ?gc < br_round a \<and> \<not> api_is_committed api d a) (vb_ancestors x)"
    and known: "\<And>b. b \<in> set ?bs \<Longrightarrow> known d0 (vb_reference b) = Some b"
    using ancestors_to_commit_refs [OF same(1), of "vb_reference x" x] x(1) by (auto simp: same)
  have set_refs: "vb_reference ` set ?bs = {a \<in> set (vb_ancestors x). ?gc < br_round a \<and> \<not> api_is_committed api d a}"
    using arg_cong [OF refs, of set] by simp
  have dist: "distinct (map vb_reference ?bs)"
    unfolding refs using ancestors_distinct [OF same(1), of "vb_reference x" x] x(1) by (simp add: same)
  have each: "?gc < vb_round b \<and> \<not> api_is_committed api d (vb_reference b) \<and> vb_reference b \<in> set (vb_ancestors x)"
    if "b \<in> set ?bs" for b
  proof -
    have "vb_reference b \<in> {a \<in> set (vb_ancestors x). ?gc < br_round a \<and> \<not> api_is_committed api d a}"
      using that by (simp only: set_refs [symmetric] imageI)
    then show ?thesis by (simp add: vb_reference_def)
  qed
  obtain d' where d': "fold_opt (commit_ancestor api) ?bs (buffer, d) = Some (buffer @ ?bs, d')" "same_store d d'"
      "\<And>y. api_is_committed api d' y \<longleftrightarrow> api_is_committed api d y \<or> y \<in> vb_reference ` set ?bs"
    using commit_ancestors_total [OF same(1) dist, of buffer] each known by (auto simp: same)
  have reach: "vb_reference b \<in> commit_reach (known d0) ?gc (api_is_committed api d0) root" if "b \<in> set ?bs" for b
    by (rule commit_reach.step [OF x(2,1)]) (use each [OF that] com in \<open>auto simp: vb_reference_def\<close>)
  have "loop_inv d0 root d' (buffer @ ?bs) (to_commit @ [x])"
    unfolding loop_inv_def
  proof (intro conjI)
    show "same_store d0 d'" using d'(2) same by (simp add: same_store_def)
    show "distinct (map vb_reference ((to_commit @ [x]) @ buffer @ ?bs))"
    proof -
      have "set (map vb_reference (to_commit @ buffer @ [x])) \<inter> set (map vb_reference ?bs) = {}"
      proof (rule equals0I)
        fix r assume "r \<in> set (map vb_reference (to_commit @ buffer @ [x])) \<inter> set (map vb_reference ?bs)"
        then have r: "r \<in> vb_reference ` set ?bs" "r \<in> vb_reference ` set (to_commit @ buffer @ [x])"
          by (simp_all only: Int_iff set_map)
        have "\<not> api_is_committed api d r" using r(1) unfolding set_refs by simp
        then show False using r(2) com [of r] by simp
      qed
      then have "distinct (map vb_reference (to_commit @ buffer @ [x]) @ map vb_reference ?bs)"
        using loop_invD(4) [OF inv] dist by (simp only: distinct_append)
      moreover have "mset (map vb_reference (to_commit @ buffer @ [x]) @ map vb_reference ?bs)
          = mset (map vb_reference ((to_commit @ [x]) @ buffer @ ?bs))" by simp
      ultimately show ?thesis using mset_eq_imp_distinct_iff by blast
    qed
    show "root \<in> vb_reference ` set ((to_commit @ [x]) @ buffer @ ?bs)" using loop_invD(5) [OF inv] by auto
    show "\<forall>y. api_is_committed api d' y \<longleftrightarrow>
        api_is_committed api d0 y \<or> y \<in> vb_reference ` set ((to_commit @ [x]) @ buffer @ ?bs)"
      unfolding d'(3) com by auto
    show "\<forall>b \<in> set ((to_commit @ [x]) @ buffer @ ?bs). known d0 (vb_reference b) = Some b \<and> ?gc < vb_round b \<and>
        \<not> api_is_committed api d0 (vb_reference b) \<and>
        vb_reference b \<in> commit_reach (known d0) ?gc (api_is_committed api d0) root"
    proof
      fix b assume "b \<in> set ((to_commit @ [x]) @ buffer @ ?bs)"
      then consider "b \<in> set (to_commit @ buffer @ [x])" | "b \<in> set ?bs" by auto
      then show "known d0 (vb_reference b) = Some b \<and> ?gc < vb_round b \<and> \<not> api_is_committed api d0 (vb_reference b) \<and>
          vb_reference b \<in> commit_reach (known d0) ?gc (api_is_committed api d0) root"
      proof cases
        case 1
        then show ?thesis using loop_invD(7-10) [OF inv 1] by blast
      next
        case 2
        then show ?thesis using known each reach com by blast
      qed
    qed
    show "\<forall>b \<in> set (to_commit @ [x]). \<forall>a \<in> set (vb_ancestors b). ?gc < br_round a \<longrightarrow>
        \<not> api_is_committed api d0 a \<longrightarrow> a \<in> vb_reference ` set ((to_commit @ [x]) @ buffer @ ?bs)"
    proof (intro ballI impI)
      fix b a assume b: "b \<in> set (to_commit @ [x])" and a: "a \<in> set (vb_ancestors b)" "?gc < br_round a" "\<not> api_is_committed api d0 a"
      show "a \<in> vb_reference ` set ((to_commit @ [x]) @ buffer @ ?bs)"
      proof (cases "b = x \<and> \<not> api_is_committed api d a")
        case True
        then have "a \<in> vb_reference ` set ?bs" unfolding set_refs using a by simp
        then show ?thesis by auto
      next
        case False
        have "a \<in> vb_reference ` set (to_commit @ buffer @ [x])"
        proof (cases "b = x")
          case True
          then show ?thesis using False a(3) com [of a] by blast
        next
          case False
          then show ?thesis using b loop_invD(11) [OF inv _ a] by simp
        qed
        then show ?thesis by auto
      qed
    qed
  qed
  with d'(1) show ?thesis by blast
qed

lemma loop_inv_reach:
  assumes "loop_inv d0 root d [] to_commit"
  shows "vb_reference ` set to_commit = commit_reach (known d0) (api_gc_round api d0) (api_is_committed api d0) root"
proof
  show "vb_reference ` set to_commit \<subseteq> commit_reach (known d0) (api_gc_round api d0) (api_is_committed api d0) root"
    using loop_invD(10) [OF assms] by auto
  show "commit_reach (known d0) (api_gc_round api d0) (api_is_committed api d0) root \<subseteq> vb_reference ` set to_commit"
  proof
    fix r assume "r \<in> commit_reach (known d0) (api_gc_round api d0) (api_is_committed api d0) root"
    then show "r \<in> vb_reference ` set to_commit"
    proof induction
      case (step r b a)
      then obtain c where c: "c \<in> set to_commit" "vb_reference c = r" by blast
      then have "b = c" using loop_invD(7) [OF assms, of c] step.hyps(2) by simp
      then show ?case using loop_invD(11) [OF assms c(1) _ step.hyps(4,5)] step.hyps(3) by simp
    qed (use loop_invD(5) [OF assms] in simp)
  qed
qed

lemma linearize_loop_total:
  assumes "loop_inv d0 root d buffer to_commit" "ok d0"
  shows "\<exists>res d'. linearize_loop api (api_gc_round api d0) d buffer to_commit = Some (res, d') \<and> loop_inv d0 root d' [] res"
  using assms(1)
proof (induction "card {r. api_gc_round api d0 < br_round r \<and> known d0 r \<noteq> None} - length to_commit"
    arbitrary: d buffer to_commit rule: less_induct)
  case less
  let ?K = "{r. api_gc_round api d0 < br_round r \<and> known d0 r \<noteq> None}"
  show ?case
  proof (cases buffer rule: rev_cases)
    case Nil
    then show ?thesis using less.prems by (subst linearize_loop.simps) simp
  next
    case (snoc ys x)
    obtain bs d' where step: "fold_opt (commit_ancestor api) (ancestors_to_commit api (api_gc_round api d0) d x) (ys, d)
        = Some (ys @ bs, d')" "loop_inv d0 root d' (ys @ bs) (to_commit @ [x])"
      using loop_inv_step [OF less.prems [unfolded snoc]] by blast
    have "vb_reference ` set (to_commit @ [x]) \<subseteq> ?K" "distinct (map vb_reference (to_commit @ [x]))"
      using loop_invD(4,7,8) [OF step(2)] by (auto simp: vb_reference_def)
    then have "length (to_commit @ [x]) \<le> card ?K"
      using card_mono [OF bounded [OF assms(2)], of "vb_reference ` set (to_commit @ [x])"]
        distinct_card [of "map vb_reference (to_commit @ [x])"] by simp
    then have "card ?K - length (to_commit @ [x]) < card ?K - length to_commit" by simp
    from less.hyps [OF this step(2)] step(1) snoc show ?thesis by (subst linearize_loop.simps) simp
  qed
qed

lemma linearize_sub_dag_exact:
  assumes "ok d" "known d (vb_reference L) = Some L" "api_gc_round api d < vb_round L" "\<not> api_is_committed api d (vb_reference L)"
  shows "\<exists>bs d'. linearize_sub_dag api L d = Some (bs, d') \<and> same_store d d' \<and>
     distinct (map vb_reference bs) \<and> sorted (map (\<lambda>b. (vb_round b, vb_author b)) bs) \<and>
     vb_reference ` set bs = commit_reach (known d) (api_gc_round api d) (api_is_committed api d) (vb_reference L) \<and>
     (\<forall>b \<in> set bs. known d (vb_reference b) = Some b \<and> api_gc_round api d < vb_round b \<and>
        \<not> api_is_committed api d (vb_reference b)) \<and>
     (\<forall>x. api_is_committed api d' x \<longleftrightarrow> api_is_committed api d x \<or> x \<in> vb_reference ` set bs)"
proof -
  have "api_gc_round api d < br_round (vb_reference L)" using assms(3) by (simp add: vb_reference_def)
  from marks [OF assms(1,2) this assms(4)] obtain d1 where d1: "api_set_committed api d (vb_reference L) = (True, d1)"
      "same_store d d1" "\<And>x. api_is_committed api d1 x \<longleftrightarrow> api_is_committed api d x \<or> x = vb_reference L"
    by (auto simp: same_store_def)
  have "loop_inv d (vb_reference L) d1 [L] []"
    using d1 assms commit_reach.root by (auto simp: loop_inv_def)
  from linearize_loop_total [OF this assms(1)] obtain res d' where
      run: "linearize_loop api (api_gc_round api d) d1 [L] [] = Some (res, d')" and inv: "loop_inv d (vb_reference L) d' [] res"
    by blast
  have "list_all (\<lambda>b. api_gc_round api d < vb_round b) res" using loop_invD(8) [OF inv] by (simp add: list_all_iff)
  then have "linearize_sub_dag api L d = Some (sort_sub_dag_blocks res, d')"
    using d1(1) run by (simp add: linearize_sub_dag_def)
  then show ?thesis
    using loop_inv_reach [OF inv] sorted_sort_sub_dag_blocks [of res] loop_invD [OF inv]
    by (simp add: same_store_def)
qed

end

end
