(* ===== verification/Universal_Committer.thy ===== *)
theory Universal_Committer
  imports Committer_Safety "HOL-Library.Sublist"
begin

section \<open>Universal committer\<close>

text \<open>
  \<^verbatim>\<open>core/src/universal_committer.rs\<close>: the committers of a pipeline run over the undecided rounds from
  the highest one down, and the longest decided prefix of leaders is returned.  \<open>try_decide\<close>'s two
  nested loops are \<open>decide_committers\<close> and \<open>decide_rounds\<close>; the boolean of their result says that
  the labelled \<^verbatim>\<open>break\<close> was taken.  Metrics are left out.
\<close>

record universal_committer =
  uc_context :: consensus_context
  uc_committers :: "base_committer list"

fun decide_committers ::
  "leader_rand \<Rightarrow> dag_state \<Rightarrow> slot \<Rightarrow> Round \<Rightarrow> base_committer list \<Rightarrow> (leader_status \<times> decision) list \<Rightarrow>
   (bool \<times> (leader_status \<times> decision) list) option" where
  "decide_committers R d last_decided round [] leaders = Some (False, leaders)"
| "decide_committers R d last_decided round (c # cs) leaders =
     (case bc_elect_leader R c round of
        None \<Rightarrow> None
      | Some None \<Rightarrow> decide_committers R d last_decided round cs leaders
      | Some (Some s) \<Rightarrow>
          if s = last_decided then Some (True, leaders)
          else (case try_direct_decide c d s of
                  None \<Rightarrow> None
                | Some status \<Rightarrow>
                    if is_decided status
                    then decide_committers R d last_decided round cs ((status, Direct) # leaders)
                    else (case try_indirect_decide c d s (map fst leaders) of
                            None \<Rightarrow> None
                          | Some status \<Rightarrow>
                              decide_committers R d last_decided round cs ((status, Indirect) # leaders))))"

fun decide_rounds ::
  "leader_rand \<Rightarrow> dag_state \<Rightarrow> slot \<Rightarrow> base_committer list \<Rightarrow> Round list \<Rightarrow> (leader_status \<times> decision) list \<Rightarrow>
   (leader_status \<times> decision) list option" where
  "decide_rounds R d last_decided cs [] leaders = Some leaders"
| "decide_rounds R d last_decided cs (r # rs) leaders =
     (case decide_committers R d last_decided r (rev cs) leaders of
        None \<Rightarrow> None
      | Some (stop, leaders') \<Rightarrow>
          if stop then Some leaders' else decide_rounds R d last_decided cs rs leaders')"

fun decided_prefix :: "(leader_status \<times> decision) list \<Rightarrow> decided_leader list" where
  "decided_prefix [] = []"
| "decided_prefix ((leader, dec) # leaders) =
     (if leader_status_round leader = GENESIS_ROUND then decided_prefix leaders
      else case into_decided_leader leader (dec = Direct) of
             None \<Rightarrow> []
           | Some decided \<Rightarrow> decided # decided_prefix leaders)"

definition try_decide ::
  "leader_rand \<Rightarrow> universal_committer \<Rightarrow> dag_state \<Rightarrow> slot \<Rightarrow> decided_leader list option" where
  "try_decide R uc d last_decided =
     (let last_round = (case ctx_mysticeti_num_leaders_per_round (uc_context uc) of
              Some n \<Rightarrow> if n = 1 then u32_add (slot_round last_decided) 1 else slot_round last_decided
            | None \<Rightarrow> slot_round last_decided)
      in map_option decided_prefix
           (decide_rounds R d last_decided (uc_committers uc)
              (rev [last_round..<Suc (ds_highest_accepted_round d - 2)]) []))"

definition get_leaders :: "leader_rand \<Rightarrow> universal_committer \<Rightarrow> Round \<Rightarrow> AuthorityIndex list option" where
  "get_leaders R uc round =
     map_option (\<lambda>slots. map slot_authority (List.map_filter (\<lambda>s. s) slots))
       (map_opt (\<lambda>c. bc_elect_leader R c round) (uc_committers uc))"

record universal_committer_builder =
  ub_context :: consensus_context
  ub_leader_schedule :: leader_schedule
  ub_wave_length :: Round
  ub_number_of_leaders :: nat
  ub_pipeline :: bool

definition universal_committer_builder_new ::
  "consensus_context \<Rightarrow> leader_schedule \<Rightarrow> universal_committer_builder" where
  "universal_committer_builder_new ctx ls =
     \<lparr>ub_context = ctx, ub_leader_schedule = ls, ub_wave_length = DEFAULT_WAVE_LENGTH,
      ub_number_of_leaders = 1, ub_pipeline = False\<rparr>"

definition with_number_of_leaders :: "nat \<Rightarrow> universal_committer_builder \<Rightarrow> universal_committer_builder" where
  "with_number_of_leaders n ub = ub\<lparr>ub_number_of_leaders := n\<rparr>"

definition with_pipeline :: "bool \<Rightarrow> universal_committer_builder \<Rightarrow> universal_committer_builder" where
  "with_pipeline p ub = ub\<lparr>ub_pipeline := p\<rparr>"

definition universal_committer_build :: "universal_committer_builder \<Rightarrow> universal_committer" where
  "universal_committer_build ub =
     (let stages = (if ub_pipeline ub then ub_wave_length ub else 1)
      in \<lparr>uc_context = ub_context ub,
          uc_committers = concat (map (\<lambda>round_offset.
            map (\<lambda>leader_offset. base_committer_new (ub_context ub) (ub_leader_schedule ub)
                   \<lparr>bo_wave_length = ub_wave_length ub, bo_leader_offset = leader_offset mod 2 ^ 32,
                    bo_round_offset = round_offset\<rparr>)
              [0..<ub_number_of_leaders ub]) [0..<stages])\<rparr>)"

subsection \<open>The loops as one pass over the elected slots\<close>

definition elected :: "leader_rand \<Rightarrow> base_committer list \<Rightarrow> Round \<Rightarrow> (base_committer \<times> slot) list" where
  "elected R cs round = List.map_filter
     (\<lambda>c. case bc_elect_leader R c round of Some (Some s) \<Rightarrow> Some (c, s) | _ \<Rightarrow> None) cs"

definition decide_one ::
  "dag_state \<Rightarrow> base_committer \<times> slot \<Rightarrow> (leader_status \<times> decision) list \<Rightarrow> (leader_status \<times> decision) list option" where
  "decide_one d p leaders =
     (case try_direct_decide (fst p) d (snd p) of
        None \<Rightarrow> None
      | Some status \<Rightarrow>
          if is_decided status then Some ((status, Direct) # leaders)
          else map_option (\<lambda>status. (status, Indirect) # leaders)
                 (try_indirect_decide (fst p) d (snd p) (map fst leaders)))"

fun decide_all ::
  "dag_state \<Rightarrow> (base_committer \<times> slot) list \<Rightarrow> (leader_status \<times> decision) list \<Rightarrow>
   (leader_status \<times> decision) list option" where
  "decide_all d [] leaders = Some leaders"
| "decide_all d (p # ps) leaders =
     (case decide_all d ps leaders of None \<Rightarrow> None | Some leaders' \<Rightarrow> decide_one d p leaders')"

lemma decide_all_append:
  "decide_all d (ps @ qs) leaders = (case decide_all d qs leaders of None \<Rightarrow> None | Some ls \<Rightarrow> decide_all d ps ls)"
  by (induction ps) (auto split: option.splits)

lemma elected_append: "elected R (cs @ cs') round = elected R cs round @ elected R cs' round"
  by (simp add: elected_def map_filter_def)

lemma decide_committers_all:
  assumes "\<And>c. c \<in> set cs \<Longrightarrow> bc_elect_leader R c round \<noteq> None"
    and "\<And>c. c \<in> set cs \<Longrightarrow> bc_elect_leader R c round \<noteq> Some (Some last_decided)"
  shows "decide_committers R d last_decided round cs leaders
     = map_option (Pair False) (decide_all d (elected R (rev cs) round) leaders)"
  using assms
proof (induction cs arbitrary: leaders)
  case Nil
  then show ?case by (simp add: elected_def map_filter_def)
next
  case (Cons c cs)
  obtain os where os: "bc_elect_leader R c round = Some os" "os \<noteq> Some last_decided"
    using Cons.prems(1) [of c] Cons.prems(2) [of c] by auto
  have step: "elected R (rev (c # cs)) round = elected R (rev cs) round @
      (case os of Some s \<Rightarrow> [(c, s)] | None \<Rightarrow> [])"
    unfolding rev.simps elected_append using os(1)
    by (simp add: elected_def map_filter_def split: option.split)
  show ?case
    using Cons os unfolding step
    by (cases os) (auto simp: decide_all_append decide_one_def split: option.split)
qed

lemma decide_rounds_all:
  assumes "\<And>c r. c \<in> set cs \<Longrightarrow> r \<in> set rs \<Longrightarrow> bc_elect_leader R c r \<noteq> None"
    and "\<And>c r. c \<in> set cs \<Longrightarrow> r \<in> set rs \<Longrightarrow> bc_elect_leader R c r \<noteq> Some (Some last_decided)"
  shows "decide_rounds R d last_decided cs rs leaders
     = decide_all d (concat (map (elected R cs) (rev rs))) leaders"
  using assms
proof (induction rs arbitrary: leaders)
  case (Cons r rs)
  have "decide_committers R d last_decided r (rev cs) leaders
      = map_option (Pair False) (decide_all d (elected R cs r) leaders)"
    using decide_committers_all [of "rev cs" R r last_decided d leaders] Cons.prems by simp
  then show ?case
    using Cons by (simp add: decide_all_append split: option.split)
qed simp

lemma elected_slot:
  assumes "(c, s) \<in> set (elected R cs round)"
  shows "c \<in> set cs" "slot_round s = round" "bc_elect_leader R c round = Some (Some s)"
    "\<exists>w. wave_number c round = Some w \<and> leader_round c w = round"
proof -
  show "c \<in> set cs" and e: "bc_elect_leader R c round = Some (Some s)"
    using assms by (auto simp: elected_def map_filter_def split: option.splits)
  then show "slot_round s = round" "\<exists>w. wave_number c round = Some w \<and> leader_round c w = round"
    by (auto simp: bc_elect_leader_def split: bind_splits if_splits)
qed

end
