(* ===== verification/Sequence_Agreement.thy ===== *)
theory Sequence_Agreement
  imports Universal_Committer
begin

section \<open>Agreement on the sequence of leaders\<close>

text \<open>
  The safety property of the consensus core: two authorities that start from the same last decided
  leader never decide diverging sequences.  The proof goes down from the highest slot, as the code
  does: agreement on all higher slots fixes the anchor of an indirect decision.
\<close>

subsection \<open>Decisions of one pass\<close>

text \<open>The anchor an indirect decision used: the first leader at least a wave later that is not
  skipped.\<close>

definition anchor_at :: "Round \<Rightarrow> leader_status list \<Rightarrow> nat \<Rightarrow> verified_block \<Rightarrow> bool" where
  "anchor_at r xs k A \<longleftrightarrow>
     k < length xs \<and> xs ! k = Commit A \<and> r + 3 \<le> leader_status_round (xs ! k) \<and>
     (\<forall>j < k. r + 3 \<le> leader_status_round (xs ! j) \<longrightarrow> (\<exists>s. xs ! j = Skip s))"

lemma anchor_at_Cons:
  "anchor_at r (x # xs) (Suc k) A \<longleftrightarrow>
     anchor_at r xs k A \<and> (r + 3 \<le> leader_status_round x \<longrightarrow> (\<exists>s. x = Skip s))"
  by (auto simp: anchor_at_def less_Suc_eq_0_disj)

lemma indirect_loop_anchor:
  assumes "indirect_loop bc d s (filter (\<lambda>x. slot_round s + 3 \<le> leader_status_round x) xs) = Some st"
  shows "st = Undecided s \<or> (\<exists>k A. anchor_at (slot_round s) xs k A \<and> decide_leader_from_anchor bc d A s = Some st)"
  using assms
proof (induction xs)
  case (Cons x xs)
  show ?case
  proof (cases "slot_round s + 3 \<le> leader_status_round x")
    case False
    then show ?thesis using Cons anchor_at_Cons [of "slot_round s" x xs] by auto
  next
    case True
    then show ?thesis
    proof (cases x)
      case (Commit A)
      then have "anchor_at (slot_round s) (x # xs) 0 A" using True by (simp add: anchor_at_def)
      then show ?thesis using Cons.prems True Commit by auto
    next
      case (Skip t)
      then show ?thesis using Cons True anchor_at_Cons [of "slot_round s" x xs] by auto
    next
      case (Undecided t)
      then show ?thesis using Cons.prems True by simp
    qed
  qed
qed simp

lemma indirect_loop_total:
  assumes "\<And>A. decide_leader_from_anchor bc d A s \<noteq> None"
  shows "indirect_loop bc d s xs \<noteq> None"
  using assms by (induction bc d s xs rule: indirect_loop.induct) auto

text \<open>What a status in the result of a pass says: it is about its slot, a committed leader is known,
  and a decided status has direct evidence or comes from an anchor further up the list.\<close>

definition status_ok :: "dag_state \<Rightarrow> base_committer \<times> slot \<Rightarrow> leader_status \<Rightarrow> leader_status list \<Rightarrow> bool" where
  "status_ok d p st later_sts \<longleftrightarrow>
     leader_status_round st = slot_round (snd p) \<and>
     (\<forall>L. st = Commit L \<longrightarrow> get_block d (vb_reference L) = Some L) \<and>
     (is_decided st \<longrightarrow>
        direct_evidence d (snd p) st \<or>
        (\<exists>k A. anchor_at (slot_round (snd p)) later_sts k A \<and>
           decide_leader_from_anchor (fst p) d A (snd p) = Some st))"

lemma anchor_status:
  assumes "same_dag byz d d" "can_decide bc d s" "decide_leader_from_anchor bc d A s = Some st"
  shows "leader_status_round st = slot_round s \<and> (\<forall>L. st = Commit L \<longrightarrow> get_block d (vb_reference L) = Some L)"
  using assms(3) slot_block [OF same_dagD(1) [OF assms(1)]]
  by (cases rule: anchor_decide_cases [OF assms(1,2), of A]) (auto simp: anchor_certified_def)

lemma decide_one_ok:
  assumes sd: "same_dag byz d d" and can: "can_decide (fst p) d (snd p)"
  shows "\<exists>st dec. decide_one d p leaders = Some ((st, dec) # leaders) \<and> status_ok d p st (map fst leaders)"
proof -
  obtain c s where p: "p = (c, s)" by fastforce
  note can' = can [unfolded p fst_conv snd_conv]
  have r3: "u32_add (slot_round s) (bo_wave_length (bc_options c)) = slot_round s + 3"
    using can' by (auto simp: can_decide_def three_rounds_def leader_slot_ok_def u32_add_eq)
  note known = slot_block [OF same_dagD(1) [OF sd]]
  show ?thesis
  proof (cases rule: direct_decide_cases [OF sd can'])
    case 1
    then show ?thesis by (auto simp: p decide_one_def status_ok_def direct_evidence_def)
  next
    case (3 L)
    then have "L \<in> set (get_uncommitted_blocks_at_slot d s)" by (simp add: commit_evidence_def)
    from known(3,4) [OF this] 3 show ?thesis by (auto simp: p decide_one_def status_ok_def direct_evidence_def)
  next
    case 2
    have "decide_leader_from_anchor c d A s \<noteq> None" for A
      by (cases rule: anchor_decide_cases [OF sd can', of A]) simp_all
    then have "indirect_loop c d s (filter (\<lambda>x. slot_round s + 3 \<le> leader_status_round x) (map fst leaders)) \<noteq> None"
      by (rule indirect_loop_total)
    then obtain st where st: "indirect_loop c d s (filter (\<lambda>x. slot_round s + 3 \<le> leader_status_round x) (map fst leaders)) = Some st"
      by blast
    then have run: "decide_one d p leaders = Some ((st, Indirect) # leaders)"
      using 2 by (simp add: p decide_one_def try_indirect_decide_def r3)
    have "status_ok d p st (map fst leaders)"
      using indirect_loop_anchor [OF st]
    proof
      assume "st = Undecided s"
      then show ?thesis by (simp add: p status_ok_def)
    next
      assume "\<exists>k A. anchor_at (slot_round s) (map fst leaders) k A \<and> decide_leader_from_anchor c d A s = Some st"
      then obtain k A where k: "anchor_at (slot_round s) (map fst leaders) k A"
          "decide_leader_from_anchor c d A s = Some st" by blast
      then show ?thesis using anchor_status [OF sd can' k(2)] by (auto simp: p status_ok_def)
    qed
    with run show ?thesis by blast
  qed
qed

definition pass_ok :: "dag_state \<Rightarrow> (base_committer \<times> slot) list \<Rightarrow> leader_status list \<Rightarrow> bool" where
  "pass_ok d ps sts \<longleftrightarrow>
     length sts = length ps \<and> (\<forall>i < length ps. status_ok d (ps ! i) (sts ! i) (drop (Suc i) sts))"

lemma pass_ok_Cons: "pass_ok d (p # ps) (st # sts) \<longleftrightarrow> status_ok d p st sts \<and> pass_ok d ps sts"
  by (auto simp: pass_ok_def less_Suc_eq_0_disj)

lemma decide_all_ok:
  assumes "same_dag byz d d" "\<And>p. p \<in> set ps \<Longrightarrow> can_decide (fst p) d (snd p)"
  shows "\<exists>ls. decide_all d ps [] = Some ls \<and> pass_ok d ps (map fst ls)"
  using assms(2)
proof (induction ps)
  case Nil
  then show ?case by (simp add: pass_ok_def)
next
  case (Cons p ps)
  then obtain ls where ls: "decide_all d ps [] = Some ls" "pass_ok d ps (map fst ls)" by auto
  have "can_decide (fst p) d (snd p)" using Cons.prems by simp
  from decide_one_ok [OF assms(1) this, of ls] ls show ?case by (auto simp: pass_ok_Cons)
qed

subsection \<open>Agreement of two passes\<close>

lemma pass_anchor:
  assumes "pass_ok d ps sts" "i < length ps" "anchor_at r (drop (Suc i) sts) k A"
  defines "j \<equiv> Suc i + k"
  shows "j < length ps" "sts ! j = Commit A" "get_block d (vb_reference A) = Some A" "r + 3 \<le> vb_round A"
    and "\<And>x. i < x \<Longrightarrow> x < j \<Longrightarrow> r + 3 \<le> slot_round (snd (ps ! x)) \<Longrightarrow> is_decided (sts ! x) \<and> (\<forall>B. sts ! x \<noteq> Commit B)"
proof -
  have len: "length sts = length ps" and ok: "\<And>i. i < length ps \<Longrightarrow> status_ok d (ps ! i) (sts ! i) (drop (Suc i) sts)"
    using assms(1) by (simp_all add: pass_ok_def)
  have a: "k < length (drop (Suc i) sts)" "drop (Suc i) sts ! k = Commit A"
      "r + 3 \<le> leader_status_round (drop (Suc i) sts ! k)"
      "\<And>m. m < k \<Longrightarrow> r + 3 \<le> leader_status_round (drop (Suc i) sts ! m) \<Longrightarrow> \<exists>s. drop (Suc i) sts ! m = Skip s"
    using assms(3) unfolding anchor_at_def by blast+
  show j: "j < length ps" using a(1) len by (simp add: j_def)
  have nth: "drop (Suc i) sts ! m = sts ! (Suc i + m)" for m using assms(2) len by simp
  show A: "sts ! j = Commit A" using a(2) nth by (simp add: j_def)
  show "get_block d (vb_reference A) = Some A" using ok [OF j] A by (simp add: status_ok_def)
  show "r + 3 \<le> vb_round A" using a(3) unfolding a(2) by simp
  fix x assume x: "i < x" "x < j" "r + 3 \<le> slot_round (snd (ps ! x))"
  have "x < length ps" using x(2) j by simp
  then have "leader_status_round (sts ! x) = slot_round (snd (ps ! x))" using ok by (simp add: status_ok_def)
  moreover have "drop (Suc i) sts ! (x - Suc i) = sts ! x" using nth [of "x - Suc i"] x(1) by simp
  moreover have "x - Suc i < k" using x(1,2) by (simp add: j_def)
  ultimately obtain s where "sts ! x = Skip s" using a(4) [of "x - Suc i"] x(3) by auto
  then show "is_decided (sts ! x) \<and> (\<forall>B. sts ! x \<noteq> Commit B)" by simp
qed

lemma pass_anchor_not_before:
  assumes pass: "pass_ok d ps sts" "pass_ok e qs sts'" and i: "i < length ps" "i < length qs"
    and slots: "\<And>x. x < length ps \<Longrightarrow> x < length qs \<Longrightarrow> snd (ps ! x) = snd (qs ! x)"
    and agree: "\<And>x. i < x \<Longrightarrow> x < length ps \<Longrightarrow> x < length qs \<Longrightarrow> is_decided (sts ! x) \<Longrightarrow> is_decided (sts' ! x) \<Longrightarrow>
        sts ! x = sts' ! x"
    and A: "anchor_at r (drop (Suc i) sts) k A" and B: "anchor_at r (drop (Suc i) sts') l B"
  shows "\<not> k < l"
proof
  assume "k < l"
  note a = pass_anchor [OF pass(1) i(1) A] and b = pass_anchor [OF pass(2) i(2) B]
  let ?j = "Suc i + k"
  have j: "?j < length qs" using b(1) \<open>k < l\<close> by simp
  have "leader_status_round (sts ! ?j) = slot_round (snd (ps ! ?j))"
    using pass(1) a(1) by (simp add: pass_ok_def status_ok_def)
  then have "r + 3 \<le> slot_round (snd (qs ! ?j))"
    using a(2,4) slots [OF a(1) j] by simp
  then have "is_decided (sts' ! ?j)" "\<And>X. sts' ! ?j \<noteq> Commit X"
    using b(5) [of ?j] \<open>k < l\<close> by auto
  moreover have "sts ! ?j = sts' ! ?j" using agree [of ?j] a(1,2) j calculation(1) by simp
  ultimately show False using a(2) by simp
qed

lemma pass_agree:
  assumes sd: "same_dag byz d e" and pass: "pass_ok d ps sts" "pass_ok e qs sts'"
    and can: "\<And>p. p \<in> set ps \<Longrightarrow> can_decide (fst p) d (snd p)" "\<And>p. p \<in> set qs \<Longrightarrow> can_decide (fst p) e (snd p)"
    and slots: "\<And>x. x < length ps \<Longrightarrow> x < length qs \<Longrightarrow> snd (ps ! x) = snd (qs ! x)"
    and i: "i < length ps" "i < length qs" "is_decided (sts ! i)" "is_decided (sts' ! i)"
  shows "sts ! i = sts' ! i"
  using i
proof (induction "length ps - i" arbitrary: i rule: less_induct)
  case less
  note sym = same_dag_sym [OF sd]
  let ?s = "snd (ps ! i)" and ?c = "fst (ps ! i)" and ?c' = "fst (qs ! i)"
  have s: "snd (qs ! i) = ?s" using slots less.prems(1,2) by simp
  have cd: "can_decide ?c d ?s" "can_decide ?c' e ?s" using can less.prems(1,2) s nth_mem by metis+
  have agree: "sts ! x = sts' ! x" if "i < x" "x < length ps" "x < length qs" "is_decided (sts ! x)" "is_decided (sts' ! x)" for x
    using less.hyps [of x] that by simp
  have agree': "sts' ! x = sts ! x" if "i < x" "x < length qs" "x < length ps" "is_decided (sts' ! x)" "is_decided (sts ! x)" for x
    using agree [of x] that by simp
  have slots': "snd (qs ! x) = snd (ps ! x)" if "x < length qs" "x < length ps" for x using slots that by simp
  have st: "direct_evidence d ?s (sts ! i) \<or> (\<exists>k A. anchor_at (slot_round ?s) (drop (Suc i) sts) k A \<and>
      decide_leader_from_anchor ?c d A ?s = Some (sts ! i))"
    using pass(1) less.prems(1,3) by (simp add: pass_ok_def status_ok_def)
  have st': "direct_evidence e ?s (sts' ! i) \<or> (\<exists>k A. anchor_at (slot_round ?s) (drop (Suc i) sts') k A \<and>
      decide_leader_from_anchor ?c' e A ?s = Some (sts' ! i))"
  proof -
    have "status_ok e (qs ! i) (sts' ! i) (drop (Suc i) sts')" using pass(2) less.prems(2) by (simp add: pass_ok_def)
    then show ?thesis using less.prems(4) unfolding status_ok_def s by blast
  qed
  from st show ?case
  proof (elim disjE exE conjE)
    assume dd: "direct_evidence d ?s (sts ! i)"
    from st' show ?thesis
    proof (elim disjE exE conjE)
      assume "direct_evidence e ?s (sts' ! i)"
      then show ?thesis by (rule direct_evidence_agree [OF sd dd])
    next
      fix l B assume B: "anchor_at (slot_round ?s) (drop (Suc i) sts') l B"
        "decide_leader_from_anchor ?c' e B ?s = Some (sts' ! i)"
      note b = pass_anchor [OF pass(2) less.prems(2) B(1)]
      show ?thesis using direct_anchor_agree [OF sd cd(2) dd b(3)] b(4) B(2) by simp
    qed
  next
    fix k A assume A: "anchor_at (slot_round ?s) (drop (Suc i) sts) k A"
      "decide_leader_from_anchor ?c d A ?s = Some (sts ! i)"
    note a = pass_anchor [OF pass(1) less.prems(1) A(1)]
    from st' show ?thesis
    proof (elim disjE exE conjE)
      assume ee: "direct_evidence e ?s (sts' ! i)"
      show ?thesis using direct_anchor_agree [OF sym cd(1) ee a(3)] a(4) A(2) by simp
    next
      fix l B assume B: "anchor_at (slot_round ?s) (drop (Suc i) sts') l B"
        "decide_leader_from_anchor ?c' e B ?s = Some (sts' ! i)"
      note b = pass_anchor [OF pass(2) less.prems(2) B(1)]
      have "\<not> k < l" by (rule pass_anchor_not_before [OF pass less.prems(1,2) slots agree A(1) B(1)])
      moreover have "\<not> l < k"
        by (rule pass_anchor_not_before [OF pass(2,1) less.prems(2,1) slots' agree' B(1) A(1)])
      ultimately have "k = l" by simp
      then have "A = B" using agree [of "Suc i + k"] a(1,2) b(1,2) by simp
      then have "decide_leader_from_anchor ?c d A ?s = decide_leader_from_anchor ?c' e A ?s"
        using same_anchor_agree [OF sd cd a(3)] b(3) by simp
      then show ?thesis using A(2) B(2) \<open>A = B\<close> by simp
    qed
  qed
qed

subsection \<open>Agreement of the decided sequences\<close>

text \<open>A decided leader without the flag that says whether the decision was direct.\<close>

fun decision_of :: "decided_leader \<Rightarrow> leader_status" where
  "decision_of (DecidedCommit b direct) = Commit b"
| "decision_of (DecidedSkip s) = Skip s"

lemma decided_prefix_takeWhile:
  "(\<And>l. l \<in> set ls \<Longrightarrow> leader_status_round (fst l) \<noteq> 0) \<Longrightarrow>
     map decision_of (decided_prefix ls) = takeWhile is_decided (map fst ls)"
proof (induction ls rule: decided_prefix.induct)
  case (2 leader dec leaders)
  have "leader_status_round leader \<noteq> 0" "\<And>l. l \<in> set leaders \<Longrightarrow> leader_status_round (fst l) \<noteq> 0"
    using 2(3) [of "(leader, dec)"] 2(3) by simp_all
  with 2(2) show ?case by (cases leader) simp_all
qed simp

lemma takeWhile_prefix:
  assumes "\<And>i. i < length xs \<Longrightarrow> i < length ys \<Longrightarrow> P (xs ! i) \<Longrightarrow> P (ys ! i) \<Longrightarrow> xs ! i = ys ! i"
  shows "prefix (takeWhile P xs) (takeWhile P ys) \<or> prefix (takeWhile P ys) (takeWhile P xs)"
  using assms
proof (induction xs arbitrary: ys)
  case (Cons x xs)
  show ?case
  proof (cases ys)
    case (Cons y zs)
    have "prefix (takeWhile P xs) (takeWhile P zs) \<or> prefix (takeWhile P zs) (takeWhile P xs)"
    proof (rule Cons.IH)
      fix i assume "i < length xs" "i < length zs" "P (xs ! i)" "P (zs ! i)"
      then show "xs ! i = zs ! i" using Cons.prems [of "Suc i"] \<open>ys = y # zs\<close> by simp
    qed
    moreover have "P x \<Longrightarrow> P y \<Longrightarrow> x = y" using Cons.prems [of 0] \<open>ys = y # zs\<close> by simp
    ultimately show ?thesis using \<open>ys = y # zs\<close> by auto
  qed simp
qed simp

definition committers_ok :: "leader_rand \<Rightarrow> base_committer list \<Rightarrow> dag_state \<Rightarrow> bool" where
  "committers_ok R cs d \<longleftrightarrow>
     (\<forall>c \<in> set cs. three_rounds c \<and> bc_committee c = ds_committee d \<and> (\<forall>round. bc_elect_leader R c round \<noteq> None))"

definition same_elections :: "leader_rand \<Rightarrow> base_committer list \<Rightarrow> base_committer list \<Rightarrow> bool" where
  "same_elections R cs cs' \<longleftrightarrow> list_all2 (\<lambda>c c'. bc_elect_leader R c = bc_elect_leader R c') cs cs'"

definition visited :: "leader_rand \<Rightarrow> universal_committer \<Rightarrow> dag_state \<Rightarrow> slot \<Rightarrow> (base_committer \<times> slot) list" where
  "visited R uc d last_decided = concat (map (elected R (uc_committers uc))
     [Suc (slot_round last_decided)..<Suc (ds_highest_accepted_round d - 2)])"

lemma elected_same:
  "same_elections R cs cs' \<Longrightarrow> map snd (elected R cs r) = map snd (elected R cs' r)"
  unfolding same_elections_def
  by (induction rule: list_all2_induct) (auto simp: elected_def map_filter_simps split: option.splits)

lemma visited_can_decide:
  assumes "committers_ok R (uc_committers uc) d" "gc_round d \<le> slot_round last_decided"
    and "ds_highest_accepted_round d < 2 ^ 32 - 4" "p \<in> set (visited R uc d last_decided)"
  shows "can_decide (fst p) d (snd p)" "0 < slot_round (snd p)"
proof -
  obtain r where r: "Suc (slot_round last_decided) \<le> r" "r < Suc (ds_highest_accepted_round d - 2)"
      "p \<in> set (elected R (uc_committers uc) r)"
    using assms(4) by (auto simp: visited_def)
  obtain c s where p: "p = (c, s)" by fastforce
  note e = elected_slot [OF r(3) [unfolded p]]
  show "0 < slot_round (snd p)" using r(1) e(2) p by simp
  have "r < 2 ^ 32 - 4" using r(2) assms(3) by linarith
  then show "can_decide (fst p) d (snd p)"
    using e assms(1,2) r(1) by (auto simp: p can_decide_def committers_ok_def leader_slot_ok_def)
qed

lemma visited_slots:
  assumes "same_elections R (uc_committers uc) (uc_committers uc')"
    and "x < length (visited R uc d s)" "x < length (visited R uc' e s)"
  shows "snd (visited R uc d s ! x) = snd (visited R uc' e s ! x)"
proof -
  let ?f = "\<lambda>hi. concat (map (\<lambda>r. map snd (elected R (uc_committers uc) r)) [Suc (slot_round s)..<hi])"
  have eq: "map snd (visited R uc d s) = ?f (Suc (ds_highest_accepted_round d - 2))"
      "map snd (visited R uc' e s) = ?f (Suc (ds_highest_accepted_round e - 2))"
    using elected_same [OF assms(1)] by (simp_all add: visited_def map_concat comp_def)
  have mono: "prefix (?f m) (?f n)" if "m \<le> n" for m n
  proof (cases "Suc (slot_round s) \<le> m")
    case True
    then have "[Suc (slot_round s)..<n] = [Suc (slot_round s)..<m] @ [m..<n]"
      using that by (metis le_add_diff_inverse upt_add_eq_append)
    then show ?thesis by simp
  qed simp
  have nth: "xs ! x = ys ! x" if "prefix xs ys" "x < length xs" for xs ys :: "slot list"
    using that by (auto simp: prefix_def nth_append)
  have "map snd (visited R uc d s) ! x = map snd (visited R uc' e s) ! x"
    using mono nth assms(2,3) unfolding eq [symmetric]
    by (metis eq linorder_le_cases length_map)
  then show ?thesis using assms(2,3) by simp
qed

lemma try_decide_visited:
  assumes "ctx_mysticeti_num_leaders_per_round (uc_context uc) = Some 1" "slot_round s < 2 ^ 32 - 1"
    and "committers_ok R (uc_committers uc) d"
  shows "try_decide R uc d s = map_option decided_prefix (decide_all d (visited R uc d s) [])"
proof -
  let ?rs = "[Suc (slot_round s)..<Suc (ds_highest_accepted_round d - 2)]"
  have lo: "u32_add (slot_round s) 1 = Suc (slot_round s)" using assms(2) by (simp add: u32_add_eq)
  have "decide_rounds R d s (uc_committers uc) (rev ?rs) []
      = decide_all d (concat (map (elected R (uc_committers uc)) (rev (rev ?rs)))) []"
  proof (rule decide_rounds_all)
    fix c r assume c: "c \<in> set (uc_committers uc)" "r \<in> set (rev ?rs)"
    then show "bc_elect_leader R c r \<noteq> None" using assms(3) by (simp add: committers_ok_def)
    have "slot_round x = r" if "bc_elect_leader R c r = Some (Some x)" for x
      using that by (auto simp: bc_elect_leader_def split: bind_splits if_splits)
    then show "bc_elect_leader R c r \<noteq> Some (Some s)" using c(2) by fastforce
  qed
  then show ?thesis using assms(1) lo by (simp add: try_decide_def visited_def)
qed

lemma try_decide_pass:
  assumes "same_dag byz d d" "committers_ok R (uc_committers uc) d" "gc_round d \<le> slot_round s"
    and "ds_highest_accepted_round d < 2 ^ 32 - 4" "slot_round s < 2 ^ 32 - 1"
    and "ctx_mysticeti_num_leaders_per_round (uc_context uc) = Some 1"
  shows "\<exists>xs sts. try_decide R uc d s = Some xs \<and> pass_ok d (visited R uc d s) sts \<and>
     map decision_of xs = takeWhile is_decided sts"
proof -
  note can = visited_can_decide [OF assms(2-4)]
  obtain ls where ls: "decide_all d (visited R uc d s) [] = Some ls" "pass_ok d (visited R uc d s) (map fst ls)"
    using decide_all_ok [OF assms(1) can(1), of "visited R uc d s"] by blast
  have "leader_status_round (fst l) \<noteq> 0" if l: "l \<in> set ls" for l
  proof -
    obtain i where i: "i < length ls" "l = ls ! i" using l by (auto simp: in_set_conv_nth)
    then have "i < length (visited R uc d s)" using ls(2) by (simp add: pass_ok_def)
    moreover from this have "leader_status_round (map fst ls ! i) = slot_round (snd (visited R uc d s ! i))"
      using ls(2) unfolding pass_ok_def status_ok_def by blast
    ultimately show ?thesis using can(2) [of "visited R uc d s ! i"] i by simp
  qed
  then have "map decision_of (decided_prefix ls) = takeWhile is_decided (map fst ls)"
    by (rule decided_prefix_takeWhile)
  moreover have "try_decide R uc d s = Some (decided_prefix ls)"
    using try_decide_visited [OF assms(6,5,2)] ls(1) by simp
  ultimately show ?thesis using ls(2) by blast
qed

lemma try_decide_agree_exact:
  assumes "same_dag byz d e" "slot_round s < 2 ^ 32 - 1"
    and "committers_ok R (uc_committers uc) d" "committers_ok R (uc_committers uc') e"
    and "same_elections R (uc_committers uc) (uc_committers uc')"
    and "ctx_mysticeti_num_leaders_per_round (uc_context uc) = Some 1"
    and "ctx_mysticeti_num_leaders_per_round (uc_context uc') = Some 1"
    and "gc_round d \<le> slot_round s" "gc_round e \<le> slot_round s"
    and "ds_highest_accepted_round d < 2 ^ 32 - 4" "ds_highest_accepted_round e < 2 ^ 32 - 4"
  shows "\<exists>xs ys sts sts'. try_decide R uc d s = Some xs \<and> try_decide R uc' e s = Some ys \<and>
     pass_ok d (visited R uc d s) sts \<and> map decision_of xs = takeWhile is_decided sts \<and>
     pass_ok e (visited R uc' e s) sts' \<and> map decision_of ys = takeWhile is_decided sts' \<and>
     (prefix (map decision_of xs) (map decision_of ys) \<or> prefix (map decision_of ys) (map decision_of xs))"
proof -
  note refl = same_dag_refl [OF assms(1)] same_dag_refl [OF same_dag_sym [OF assms(1)]]
  obtain xs sts where x: "try_decide R uc d s = Some xs" "pass_ok d (visited R uc d s) sts"
      "map decision_of xs = takeWhile is_decided sts"
    using try_decide_pass [OF refl(1) assms(3,8,10,2,6)] by blast
  obtain ys sts' where y: "try_decide R uc' e s = Some ys" "pass_ok e (visited R uc' e s) sts'"
      "map decision_of ys = takeWhile is_decided sts'"
    using try_decide_pass [OF refl(2) assms(4,9,11,2,7)] by blast
  note can = visited_can_decide(1) [OF assms(3,8,10)] visited_can_decide(1) [OF assms(4,9,11)]
  have len: "length sts = length (visited R uc d s)" "length sts' = length (visited R uc' e s)"
    using x(2) y(2) by (simp_all add: pass_ok_def)
  have "sts ! i = sts' ! i" if "i < length sts" "i < length sts'" "is_decided (sts ! i)" "is_decided (sts' ! i)" for i
    by (rule pass_agree [OF assms(1) x(2) y(2) can visited_slots [OF assms(5)]])
      (use that len in simp_all)
  from takeWhile_prefix [OF this]
  have "prefix (map decision_of xs) (map decision_of ys) \<or> prefix (map decision_of ys) (map decision_of xs)"
    unfolding x(3) y(3) .
  with x y show ?thesis by (intro exI [of _ xs] exI [of _ ys] exI [of _ sts] exI [of _ sts'] conjI)
qed

text \<open>C2: agreement.  Two authorities with two views of one execution (faulty stake at most f, waves of
  three rounds, one leader per round, the same elected leaders) that continue from the same last
  decided slot both get a result from \<^verbatim>\<open>try_decide\<close>, without panic, and the sequence of decisions
  (committed leader blocks and skipped slots) of one is a prefix of that of the other.\<close>

theorem try_decide_agreement:
  assumes "same_dag byz d e" "slot_round s < 2 ^ 32 - 1"
    and "committers_ok R (uc_committers uc) d" "committers_ok R (uc_committers uc') e"
    and "same_elections R (uc_committers uc) (uc_committers uc')"
    and "ctx_mysticeti_num_leaders_per_round (uc_context uc) = Some 1"
    and "ctx_mysticeti_num_leaders_per_round (uc_context uc') = Some 1"
    and "gc_round d \<le> slot_round s" "gc_round e \<le> slot_round s"
    and "ds_highest_accepted_round d < 2 ^ 32 - 4" "ds_highest_accepted_round e < 2 ^ 32 - 4"
  shows "\<exists>xs ys. try_decide R uc d s = Some xs \<and> try_decide R uc' e s = Some ys \<and>
     (prefix (map decision_of xs) (map decision_of ys) \<or> prefix (map decision_of ys) (map decision_of xs))"
  using try_decide_agree_exact [OF assms] by blast

end
