(* ===== verification/Example_Dag.thy ===== *)
theory Example_Dag
  imports Dag_Reachable Sequence_Agreement
begin

section \<open>A concrete execution\<close>

text \<open>
  The executions the witnesses of the safety theorems use: four authorities, each of which
  produces one block per round that references all blocks of the previous round.  \<open>grid_dag n\<close>
  says that a state was built from genesis by accepting the blocks of the rounds up to \<open>n\<close>.
\<close>

definition grid_block :: "Round \<Rightarrow> AuthorityIndex \<Rightarrow> verified_block" where
  "grid_block k i = example_block k i 7 (1000 + k)
     (if k = 0 then [] else map (\<lambda>j. BlockRef (k - 1) j 7) [0..<4])"

lemma grid_block_sel [simp]:
  "vb_round (grid_block k i) = k" "vb_author (grid_block k i) = i"
  "vb_reference (grid_block k i) = BlockRef k i 7"
  "vb_ancestors (grid_block k i) = (if k = 0 then [] else map (\<lambda>j. BlockRef (k - 1) j 7) [0..<4])"
  by (simp_all add: grid_block_def)

text \<open>The blocks of a state are those of the rounds below \<open>n\<close> and of the first \<open>m\<close> authorities of round \<open>n\<close>.\<close>

definition grid_upto :: "nat \<Rightarrow> nat \<Rightarrow> dag_state \<Rightarrow> bool" where
  "grid_upto n m d \<longleftrightarrow>
     dag_view d \<and> ds_context d = context4 \<and> ds_last_commit d = None \<and> ds_highest_accepted_round d \<le> n \<and>
     (\<forall>r. \<not> is_committed d r) \<and>
     (\<forall>r b. get_block d r = Some b \<longleftrightarrow> (\<exists>k i. i < 4 \<and> (k < n \<or> k = n \<and> i < m) \<and> b = grid_block k i \<and> r = BlockRef k i 7))"

lemma gc_round_no_commit: "ds_last_commit d = None \<Longrightarrow> gc_round d = 0" "ds_last_commit d = None \<Longrightarrow> last_commit_round d = 0"
  by (simp_all add: gc_round_def calculate_gc_round_def last_commit_round_def)

lemma grid_get:
  "grid_upto n m d \<Longrightarrow> get_block d r = Some b \<longleftrightarrow>
     (\<exists>k i. i < 4 \<and> (k < n \<or> k = n \<and> i < m) \<and> b = grid_block k i \<and> r = BlockRef k i 7)"
  by (simp add: grid_upto_def)

lemma quorum4: "reached_quorum committee4 (stake_of committee4 {..<4})"
  by (simp add: reached_quorum_def stake_of_committee4) (simp add: committee4_def)

lemma grid_block_valid: "i < 4 \<Longrightarrow> valid_block committee4 (grid_block k i)"
proof -
  assume i: "i < 4"
  have "{br_author a |a. a \<in> set (vb_ancestors (grid_block k i)) \<and> br_round a = vb_round (grid_block k i) - 1} = {..<4}"
    if "0 < k" using that by (auto simp: image_iff) (metis atLeastLessThan_iff block_ref.sel(1,2) zero_le)
  then show ?thesis using i quorum4 by (auto simp: valid_block_def distinct_map inj_on_def comp_def)
qed

lemma grid_genesis: "\<exists>d. d = dag4 \<and> grid_upto 0 4 d"
proof -
  have eq: "map (\<lambda>i. example_block 0 i 7 1000 []) [0..<4] = map (grid_block 0) [0..<4]" by (simp add: grid_block_def)
  have inj: "inj_on vb_reference (set (map (grid_block 0) [0..<4]))" by (auto simp: inj_on_def)
  have get: "get_block dag4 r = Some b \<longleftrightarrow> (\<exists>i < 4. b = grid_block 0 i \<and> r = BlockRef 0 i 7)" for r b
    using genesis_map_get [OF inj, of r b] unfolding get_block_eq dag4_def eq
    by (auto simp: fresh_dag_state_def stored_def mem_store_new_def)
  have "ds_last_commit dag4 = None" "ds_highest_accepted_round dag4 = 0" by (simp_all add: dag4_def fresh_dag_state_def)
  moreover have "dag_view dag4"
    unfolding dag_view_def get using dag4_inv grid_block_valid gc_round_no_commit(1) [of dag4] calculation(1) by auto
  moreover have "\<not> is_committed dag4 r" for r by (simp add: dag4_def fresh_dag_state_def is_committed_def)
  ultimately show ?thesis by (auto simp: grid_upto_def get)
qed

lemma grid_step:
  assumes g: "grid_upto n m d" and "m < 4" "0 < n" "n < 2 ^ 32 - 4"
  shows "\<exists>d'. accept_block d (grid_block n m) 5 = Some d' \<and> grid_upto n (Suc m) d'"
proof -
  let ?b = "grid_block n m"
  note view = g [unfolded grid_upto_def, THEN conjunct1]
  have ctx: "ds_context d = context4" and l: "ds_last_commit d = None" and h: "ds_highest_accepted_round d \<le> n"
    using g by (simp_all add: grid_upto_def)
  have acc: "acceptable d ?b" using assms(2-4) ctx by (simp add: acceptable_def ref_bounds_def)
  have valid: "valid_block (ds_committee d) ?b" using grid_block_valid [OF assms(2)] ctx by simp
  have anc: "\<forall>a \<in> set (vb_ancestors ?b). gc_round d < br_round a \<longrightarrow> get_block d a \<noteq> None"
    using assms(3) grid_get [OF g] by auto
  have none: "get_block d (vb_reference ?b) = None"
    using grid_get [OF g, of "vb_reference ?b"] by (cases "get_block d (vb_reference ?b)") auto
  have slot: "get_uncommitted_blocks_at_slot d (slot_of (vb_reference ?b)) = []"
  proof -
    have "\<not> (cached_block d x \<and> slot_of (vb_reference x) = slot_of (vb_reference ?b))" for x
      using dag_view_cached_get [OF view, of x] grid_get [OF g, of "vb_reference x" x] by (auto simp: slot_of_def)
    then have "set (get_uncommitted_blocks_at_slot d (slot_of (vb_reference ?b))) = {}"
      unfolding uncommitted_at_slot_set [OF dag_viewD(1) [OF view]] by blast
    then show ?thesis by simp
  qed
  obtain d' where d': "accept_block d ?b 5 = Some d'" "get_block d' = (get_block d)(vb_reference ?b \<mapsto> ?b)"
      "ds_last_commit d' = ds_last_commit d" "ds_highest_accepted_round d' = max (ds_highest_accepted_round d) n"
      "ds_recent_blocks d' = btm_insert (vb_reference ?b) \<lparr>bi_block = ?b, bi_committed = False, bi_included = False\<rparr>
         (ds_recent_blocks d)"
    using accept_block_cases [OF dag_viewD(1) [OF view] acc, of 5] none slot by auto
  note v = dag_view_accept [OF view acc valid anc d'(1)]
  have "get_block d' r = Some b \<longleftrightarrow>
      (\<exists>k i. i < 4 \<and> (k < n \<or> k = n \<and> i < Suc m) \<and> b = grid_block k i \<and> r = BlockRef k i 7)" for r b
    unfolding d'(2) using grid_get [OF g, of r b] assms(2) by (auto simp: less_Suc_eq)
  moreover have "\<not> is_committed d' r" for r
    using g unfolding grid_upto_def is_committed_def d'(5) by (auto simp: btree_simps split: option.splits)
  ultimately have "grid_upto n (Suc m) d'" using v ctx l h d'(3,4) by (simp add: grid_upto_def)
  with d'(1) show ?thesis by blast
qed

lemma grid_upto_next: "grid_upto n 4 d \<Longrightarrow> grid_upto (Suc n) 0 d"
  by (auto simp: grid_upto_def less_Suc_eq)

lemma accept_blocks_snoc:
  "accept_blocks d (bs @ [b]) now = (case accept_blocks d bs now of None \<Rightarrow> None | Some d' \<Rightarrow> accept_block d' b now)"
  by (simp add: accept_blocks_def fold_opt_append split: option.split)

definition grid_round :: "Round \<Rightarrow> verified_block list" where
  "grid_round k = map (grid_block k) [0..<4]"

definition grid :: "nat \<Rightarrow> verified_block list" where
  "grid n = concat (map grid_round [1..<Suc n])"

lemma grid_row:
  assumes "accept_blocks dag4 bs 5 = Some d" "grid_upto n 0 d" "0 < n" "n < 2 ^ 32 - 4" "m \<le> 4"
  shows "\<exists>d'. accept_blocks dag4 (bs @ map (grid_block n) [0..<m]) 5 = Some d' \<and> grid_upto n m d'"
  using assms(5)
proof (induction m)
  case 0
  then show ?case using assms(1,2) by simp
next
  case (Suc m)
  then obtain d' where d': "accept_blocks dag4 (bs @ map (grid_block n) [0..<m]) 5 = Some d'" "grid_upto n m d'" by auto
  obtain d'' where d'': "accept_block d' (grid_block n m) 5 = Some d''" "grid_upto n (Suc m) d''"
    using grid_step [OF d'(2) _ assms(3,4)] Suc.prems by auto
  have "bs @ map (grid_block n) [0..<Suc m] = (bs @ map (grid_block n) [0..<m]) @ [grid_block n m]" by simp
  then show ?case using accept_blocks_snoc [of dag4 "bs @ map (grid_block n) [0..<m]"] d'(1) d'' by auto
qed

lemma grid_accepted: "n < 2 ^ 32 - 4 \<Longrightarrow> \<exists>d. accept_blocks dag4 (grid n) 5 = Some d \<and> grid_upto n 4 d"
proof (induction n)
  case 0
  then show ?case using grid_genesis by (simp add: grid_def accept_blocks_def)
next
  case (Suc n)
  then obtain d where d: "accept_blocks dag4 (grid n) 5 = Some d" "grid_upto n 4 d" by auto
  have "grid (Suc n) = grid n @ map (grid_block (Suc n)) [0..<4]" by (simp add: grid_def grid_round_def)
  then show ?case using grid_row [OF d(1) grid_upto_next [OF d(2)], of 4] Suc.prems by simp
qed

lemma grid_same_dag:
  assumes "grid_upto n 4 d" "grid_upto k 4 e"
  shows "same_dag {3} d e"
proof -
  have byz: "stake_of committee4 {3} \<le> fault_tolerance committee4"
  proof -
    have "{3} \<inter> {..<4} = {3 :: nat}" by auto
    then show ?thesis by (simp add: stake_of_committee4 fault_tolerance_def) (simp add: committee4_def)
  qed
  have ref: "\<exists>k i. r = BlockRef k i 7 \<and> x = grid_block k i" if "get_block d r = Some x \<or> get_block e r = Some x" for r x
    using that grid_get [OF assms(1), of r x] grid_get [OF assms(2), of r x] by blast
  have one: "r = s" if r: "get_block d r \<noteq> None \<or> get_block e r \<noteq> None"
      and s: "get_block d s \<noteq> None \<or> get_block e s \<noteq> None" and eq: "slot_of r = slot_of s" for r s
  proof -
    have r7: "\<exists>k i. t = BlockRef k i 7" if t: "get_block d t \<noteq> None \<or> get_block e t \<noteq> None" for t
      using ref [of t] t by blast
    then obtain k i where "r = BlockRef k i 7" using r by blast
    moreover obtain k' i' where "s = BlockRef k' i' 7" using r7 s by blast
    ultimately show ?thesis using eq by (simp add: slot_of_def)
  qed
  have same: "x = y" if x: "get_block d r = Some x" and y: "get_block e r = Some y" for r x y
  proof -
    obtain k i where "r = BlockRef k i 7" "x = grid_block k i" using ref [of r x] x by blast
    moreover obtain k' i' where "r = BlockRef k' i' 7" "y = grid_block k' i'" using ref [of r y] y by blast
    ultimately show ?thesis by simp
  qed
  have "dag_view d" "dag_view e" "ds_committee d = committee4" "ds_committee e = committee4"
    using assms by (simp_all add: grid_upto_def)
  with byz show ?thesis unfolding same_dag_def using one same by metis
qed

subsection \<open>The theorems at the example\<close>

definition schedule4 :: leader_schedule where
  "schedule4 = leader_schedule_new context4 leader_swap_table_default"

definition committer4 :: base_committer where
  "committer4 = base_committer_new context4 schedule4 \<lparr>bo_wave_length = 3, bo_leader_offset = 0, bo_round_offset = 1\<rparr>"

definition universal4 :: universal_committer where
  "universal4 = universal_committer_build (with_pipeline True (universal_committer_builder_new context4 schedule4))"

lemma grid_committee: "grid_upto n m d \<Longrightarrow> ds_committee d = committee4"
  by (simp add: grid_upto_def)

lemma grid_gc: "grid_upto n m d \<Longrightarrow> gc_round d = 0"
  by (simp add: grid_upto_def gc_round_no_commit)

lemma committer4_can_decide: "grid_upto n m d \<Longrightarrow> can_decide committer4 d (Slot 1 0)"
  by (simp add: can_decide_def grid_committee grid_gc three_rounds_def leader_slot_ok_def wave_number_def leader_round_def
      committer4_def base_committer_new_def u32_add_def u32_mul_def)

theorem is_certificate_spec_witness:
  "\<exists>d votes'. accept_blocks dag4 (grid 3) 5 = Some d \<and>
     is_certificate committee4 d (grid_block 3 1) (grid_block 1 0) Map.empty
       = Some (c_quorum_threshold committee4
           \<le> stake_of committee4 {br_author x |x. x \<in> set (vb_ancestors (grid_block 3 1)) \<and> vote_of d (grid_block 1 0) x},
         votes')"
proof -
  obtain d where d: "accept_blocks dag4 (grid 3) 5 = Some d" "grid_upto 3 4 d" using grid_accepted [of 3] by auto
  have "dag_view d" using d(2) by (simp add: grid_upto_def)
  moreover have "get_block d (BlockRef 3 1 7) = Some (grid_block 3 1)"
    using grid_get [OF d(2), of "BlockRef 3 1 7" "grid_block 3 1"] by auto
  moreover have "cache_sound d (grid_block 1 0) Map.empty" by (simp add: cache_sound_def)
  ultimately show ?thesis
    using is_certificate_spec [of d "grid_block 1 0" Map.empty "BlockRef 3 1 7" "grid_block 3 1"] d grid_committee [OF d(2)]
      grid_gc [OF d(2)] by auto
qed

theorem direct_decisions_agree_witness:
  "\<exists>d e st st'. accept_blocks dag4 (grid 3) 5 = Some d \<and> accept_blocks dag4 (grid 5) 5 = Some e \<and>
     try_direct_decide committer4 d (Slot 1 0) = Some st \<and> try_direct_decide committer4 e (Slot 1 0) = Some st' \<and>
     (is_decided st \<and> is_decided st' \<longrightarrow> st = st')"
proof -
  obtain d where d: "accept_blocks dag4 (grid 3) 5 = Some d" "grid_upto 3 4 d" using grid_accepted [of 3] by auto
  obtain e where e: "accept_blocks dag4 (grid 5) 5 = Some e" "grid_upto 5 4 e" using grid_accepted [of 5] by auto
  show ?thesis
    using direct_decisions_agree [OF grid_same_dag [OF d(2) e(2)] committer4_can_decide [OF d(2)]
        committer4_can_decide [OF e(2)]] d(1) e(1) by blast
qed

theorem indirect_decisions_agree_witness:
  "\<exists>d e st st'. accept_blocks dag4 (grid 3) 5 = Some d \<and> accept_blocks dag4 (grid 5) 5 = Some e \<and>
     try_direct_decide committer4 d (Slot 1 0) = Some st \<and>
     decide_leader_from_anchor committer4 e (grid_block 4 2) (Slot 1 0) = Some st' \<and> is_decided st'"
proof -
  obtain d where d: "accept_blocks dag4 (grid 3) 5 = Some d" "grid_upto 3 4 d" using grid_accepted [of 3] by auto
  obtain e where e: "accept_blocks dag4 (grid 5) 5 = Some e" "grid_upto 5 4 e" using grid_accepted [of 5] by auto
  have a: "get_block e (BlockRef 4 2 7) = Some (grid_block 4 2)"
    using grid_get [OF e(2), of "BlockRef 4 2 7" "grid_block 4 2"] by auto
  have r: "slot_round (Slot 1 0) + 3 \<le> br_round (BlockRef 4 2 7)" by simp
  show ?thesis
    using indirect_decisions_agree [OF grid_same_dag [OF d(2) e(2)] committer4_can_decide [OF d(2)]
        committer4_can_decide [OF e(2)] a r] d(1) e(1) by blast
qed

lemma universal4_committers_ok: "grid_upto n m d \<Longrightarrow> committers_ok rand_first (uc_committers universal4) d"
  by (auto simp: committers_ok_def universal4_def universal_committer_build_def with_pipeline_def
      universal_committer_builder_new_def base_committer_new_def three_rounds_def grid_committee bc_elect_leader_def
      wave_number_def elect_leader_def elect_leader_stake_based_def rand_first_def schedule4_def leader_schedule_new_def
      swap_leader_def leader_swap_table_default_def vec_get_def committee_indices_def committee4_def committee_size_def Let_def
      split: bind_splits)

theorem try_decide_agreement_witness:
  "\<exists>d e xs ys. accept_blocks dag4 (grid 5) 5 = Some d \<and> accept_blocks dag4 (grid 4) 5 = Some e \<and>
     try_decide rand_first universal4 d (Slot 0 0) = Some xs \<and> try_decide rand_first universal4 e (Slot 0 0) = Some ys \<and>
     (prefix (map decision_of xs) (map decision_of ys) \<or> prefix (map decision_of ys) (map decision_of xs))"
proof -
  obtain d where d: "accept_blocks dag4 (grid 5) 5 = Some d" "grid_upto 5 4 d" using grid_accepted [of 5] by auto
  obtain e where e: "accept_blocks dag4 (grid 4) 5 = Some e" "grid_upto 4 4 e" using grid_accepted [of 4] by auto
  have h: "ds_highest_accepted_round d \<le> 5" "ds_highest_accepted_round e \<le> 4"
    using d(2) e(2) by (simp_all add: grid_upto_def)
  have same: "same_elections rand_first (uc_committers universal4) (uc_committers universal4)"
    by (simp add: same_elections_def list.rel_refl)
  have n: "ctx_mysticeti_num_leaders_per_round (uc_context universal4) = Some 1"
    by (simp add: universal4_def universal_committer_build_def with_pipeline_def universal_committer_builder_new_def
        context4_def)
  have "\<exists>xs ys. try_decide rand_first universal4 d (Slot 0 0) = Some xs \<and>
      try_decide rand_first universal4 e (Slot 0 0) = Some ys \<and>
     (prefix (map decision_of xs) (map decision_of ys) \<or> prefix (map decision_of ys) (map decision_of xs))"
    by (rule try_decide_agreement [OF grid_same_dag [OF d(2) e(2)] _ universal4_committers_ok [OF d(2)]
        universal4_committers_ok [OF e(2)] same n n])
      (use h grid_gc [OF d(2)] grid_gc [OF e(2)] in simp_all)
  with d(1) e(1) show ?thesis by blast
qed

text \<open>The state machine starts, from an empty store, in a state that is a view.\<close>

theorem reachable_dag_view_witness:
  "\<exists>d. dag_state_new (\<lambda>_. 7) (\<lambda>_. Some []) (\<lambda>refs. refs) 5 context4 mem_store_new = Some d \<and>
     dag_reachable (\<lambda>_. 7) (\<lambda>_. Some []) context4 d \<and> dag_view d"
proof -
  obtain bs where bs: "genesis_blocks (\<lambda>_. 7) (\<lambda>_. Some []) context4 = Some bs"
    by (simp add: genesis_blocks_def committee_indices_def context4_def committee4_def genesis_block_def Let_def)
  have wf: "committee_wf (ctx_committee context4)" "0 < ctx_dag_state_cached_rounds context4"
    by (simp_all add: committee4_wf) (simp add: context4_def)
  obtain d where d: "dag_state_new (\<lambda>_. 7) (\<lambda>_. Some []) (\<lambda>refs. refs) 5 context4 mem_store_new = Some d"
    using dag_state_new_exact [OF wf bs, of "\<lambda>refs. refs" 5] by auto
  then have "dag_reachable (\<lambda>_. 7) (\<lambda>_. Some []) context4 d" by (rule dag_reachable.init)
  with reachable_dag_view [OF this wf] d show ?thesis by blast
qed

end
