(* ===== verification/Linearizer_Properties.thy ===== *)
theory Linearizer_Properties
  imports Linearizer Example_Dag
begin

section \<open>Correctness of the linearizer\<close>

text \<open>
  The DAG state is a block store for the linearizer, so its traversal ends and collects exactly the
  uncommitted history of the leader; two authorities that hold different parts of one DAG and have
  committed the same blocks produce the same sub-DAGs and commits.
\<close>

subsection \<open>The DAG state as a block store\<close>

lemma dag_state_api_simps [simp]:
  "api_get_blocks dag_state_api = get_blocks" "api_gc_round dag_state_api = gc_round"
  "api_set_committed dag_state_api = set_committed" "api_is_committed dag_state_api = is_committed"
  by (simp_all add: dag_state_api_def)

lemma set_committed_frame:
  assumes "set_committed d r = (ok, d')"
  shows "ds_context d' = ds_context d" "ds_last_commit d' = ds_last_commit d" "gc_round d' = gc_round d"
    "ds_last_committed_rounds d' = ds_last_committed_rounds d" "ds_store d' = ds_store d"
    "ds_pending_commit_votes d' = ds_pending_commit_votes d" "ds_commits_to_write d' = ds_commits_to_write d"
    "ds_threshold_clock d' = ds_threshold_clock d"
    "ds_highest_accepted_round d' = ds_highest_accepted_round d"
  using assms by (auto simp: set_committed_def gc_round_def calculate_gc_round_def last_commit_round_def
      split: option.splits if_splits)

lemma view_set_committed:
  assumes "dag_view d" "get_block d r = Some b" "gc_round d < br_round r" "\<not> is_committed d r"
  shows "\<exists>d'. set_committed d r = (True, d') \<and> dag_view d' \<and> get_block d' = get_block d \<and>
     gc_round d' = gc_round d \<and> (\<forall>x. is_committed d' x \<longleftrightarrow> is_committed d x \<or> x = r)"
proof -
  obtain ok d' where s: "set_committed d r = (ok, d')" by fastforce
  have "btm_get (ds_recent_blocks d) r \<noteq> None"
    using dag_viewD(6) [OF assms(1-3)] dag_viewD(4) [OF assms(1,2)] by (auto simp: cached_block_def)
  then have "ok" "get_block d' = get_block d" "\<forall>x. is_committed d' x \<longleftrightarrow> is_committed d x \<or> x = r"
    using set_committed_exact [OF dag_viewD(1) [OF assms(1)] s] assms(4) by simp_all
  then show ?thesis
    using s dag_view_set_committed [OF assms(1) s] set_committed_frame(3) [OF s] by auto
qed

lemma view_finite_above: "dag_view d \<Longrightarrow> finite {r. gc_round d < br_round r \<and> get_block d r \<noteq> None}"
proof -
  assume view: "dag_view d"
  have "{r. gc_round d < br_round r \<and> get_block d r \<noteq> None} \<subseteq> set (btm_keys (ds_recent_blocks d))"
  proof
    fix r assume "r \<in> {r. gc_round d < br_round r \<and> get_block d r \<noteq> None}"
    then obtain b where b: "get_block d r = Some b" "gc_round d < br_round r" by auto
    then obtain info where "btm_get (ds_recent_blocks d) r = Some info"
      using dag_viewD(6) [OF view b] dag_viewD(4) [OF view b(1)] by (auto simp: cached_block_def)
    then show "r \<in> set (btm_keys (ds_recent_blocks d))" by (rule btm_get_key)
  qed
  then show ?thesis by (rule finite_subset) simp
qed

interpretation dag_store: block_store dag_state_api dag_view get_block
proof unfold_locales
  fix d refs r b a
  show "dag_view d \<Longrightarrow> api_get_blocks dag_state_api d refs = map (get_block d) refs" by (simp add: get_blocks_map)
  show "dag_view d \<Longrightarrow> get_block d r = Some b \<Longrightarrow> vb_reference b = r" by (rule dag_viewD(4))
  show "dag_view d \<Longrightarrow> get_block d r = Some b \<Longrightarrow> a \<in> set (vb_ancestors b) \<Longrightarrow>
      api_gc_round dag_state_api d < br_round a \<Longrightarrow> \<exists>x. get_block d a = Some x"
    using dag_viewD(5) [of d r b a] by simp
  show "dag_view d \<Longrightarrow> get_block d r = Some b \<Longrightarrow> distinct (vb_ancestors b)"
    using dag_viewD(3) [of d r b] by (simp add: valid_block_def distinct_map)
  show "dag_view d \<Longrightarrow> get_block d r = Some b \<Longrightarrow> api_gc_round dag_state_api d < br_round r \<Longrightarrow>
      \<not> api_is_committed dag_state_api d r \<Longrightarrow>
      \<exists>d'. api_set_committed dag_state_api d r = (True, d') \<and> dag_view d' \<and> get_block d' = get_block d \<and>
        api_gc_round dag_state_api d' = api_gc_round dag_state_api d \<and>
        (\<forall>x. api_is_committed dag_state_api d' x \<longleftrightarrow> api_is_committed dag_state_api d x \<or> x = r)"
    using view_set_committed [of d r b] by simp
  show "dag_view d \<Longrightarrow> finite {r. api_gc_round dag_state_api d < br_round r \<and> get_block d r \<noteq> None}"
    using view_finite_above [of d] by simp
qed

text \<open>C28: linearizing a leader.  In every view, for a known leader above the garbage collection round
  that is not committed yet, the traversal ends without panic and returns exactly the leader's
  uncommitted causal history above that round, each block once and ordered by round and author;
  exactly these blocks become committed, and what can be read does not change.\<close>

theorem linearize_sub_dag_spec:
  assumes "dag_view d" "get_block d (vb_reference L) = Some L" "gc_round d < vb_round L"
    and "\<not> is_committed d (vb_reference L)"
  shows "\<exists>bs d'. linearize_sub_dag dag_state_api L d = Some (bs, d') \<and> dag_view d' \<and> get_block d' = get_block d \<and>
     distinct (map vb_reference bs) \<and> sorted (map (\<lambda>b. (vb_round b, vb_author b)) bs) \<and>
     vb_reference ` set bs = commit_reach (get_block d) (gc_round d) (is_committed d) (vb_reference L) \<and>
     (\<forall>b \<in> set bs. get_block d (vb_reference b) = Some b \<and> gc_round d < vb_round b) \<and>
     (\<forall>x. is_committed d' x \<longleftrightarrow> is_committed d x \<or> x \<in> vb_reference ` set bs)"
  using dag_store.linearize_sub_dag_exact [of d L] assms by (simp add: dag_store.same_store_def) blast

end
