(* ===== verification/Commit_Timestamps.thy ===== *)
theory Commit_Timestamps
  imports Linearizer
begin

section \<open>Commit timestamps\<close>

text \<open>
  The stake-weighted median of \<^verbatim>\<open>core/src/linearizer.rs\<close>: it is a weighted median in the usual sense, and
  for a quorum of blocks it lies between timestamps of honest authorities.
\<close>

definition weight :: "('a \<times> nat \<Rightarrow> bool) \<Rightarrow> ('a \<times> nat) list \<Rightarrow> nat" where
  "weight P xs = sum_list (map snd (filter P xs))"

lemma weight_append [simp]: "weight P (xs @ ys) = weight P xs + weight P ys"
  by (simp add: weight_def)

lemma weight_le: "weight P xs \<le> sum_list (map snd xs)"
  unfolding weight_def by (induction xs) auto

lemma weight_all: "(\<And>x. x \<in> set xs \<Longrightarrow> P x) \<Longrightarrow> weight P xs = sum_list (map snd xs)"
  by (simp add: weight_def filter_id_conv)

lemma weight_none: "(\<And>x. x \<in> set xs \<Longrightarrow> \<not> P x) \<Longrightarrow> weight P xs = 0"
  by (simp add: weight_def filter_False)

lemma weight_sort: "weight P (sort_key f xs) = weight P xs"
proof -
  have "mset (map snd (filter P (sort_key f xs))) = mset (map snd (filter P xs))" by simp
  then show ?thesis unfolding weight_def by (metis sum_mset_sum_list)
qed

subsection \<open>The loop finds the middle\<close>

lemma median_loop_split:
  assumes "cumulative + sum_list (map snd xs) = total_stake" "total_stake < 2 ^ 64" "cumulative \<le> total_stake div 2" "0 < total_stake"
  shows "\<exists>pre t s post. xs = pre @ (t, s) # post \<and> median_loop total_stake cumulative xs = Some t \<and>
     cumulative + sum_list (map snd pre) \<le> total_stake div 2 \<and>
     total_stake div 2 < cumulative + sum_list (map snd pre) + s"
  using assms
proof (induction xs arbitrary: cumulative)
  case (Cons x xs)
  obtain t s where x: "x = (t, s)" by fastforce
  have add: "u64_add cumulative s = cumulative + s" using Cons.prems(1,2) x by (intro u64_add_eq) simp
  show ?case
  proof (cases "total_stake div 2 < cumulative + s")
    case True
    then show ?thesis using Cons.prems(3) x add by (intro exI [of _ "[]"]) auto
  next
    case False
    then obtain pre t' s' post where "xs = pre @ (t', s') # post"
        "median_loop total_stake (cumulative + s) xs = Some t'"
        "cumulative + s + sum_list (map snd pre) \<le> total_stake div 2"
        "total_stake div 2 < cumulative + s + sum_list (map snd pre) + s'"
      using Cons.IH [of "cumulative + s"] Cons.prems x by auto
    then show ?thesis using False x add by (intro exI [of _ "(t, s) # pre"]) auto
  qed
qed simp

lemma median_inner_exact:
  assumes "0 < sum_list (map snd xs)" "sum_list (map snd xs) < 2 ^ 64"
  shows "\<exists>t. median_timestamps_by_stake_inner xs (sum_list (map snd xs)) = Some t \<and> t \<in> fst ` set xs \<and>
     2 * weight (\<lambda>x. fst x < t) xs \<le> sum_list (map snd xs) \<and> sum_list (map snd xs) < 2 * weight (\<lambda>x. fst x \<le> t) xs"
proof -
  let ?T = "sum_list (map snd xs)" and ?ys = "sort_key fst xs"
  have sum: "0 + sum_list (map snd ?ys) = ?T"
    using weight_sort [of "\<lambda>_. True" fst xs] by (simp add: weight_def)
  obtain pre t s post where ys: "?ys = pre @ (t, s) # post" and m: "median_loop ?T 0 ?ys = Some t"
      and lo: "sum_list (map snd pre) \<le> ?T div 2" and hi: "?T div 2 < sum_list (map snd pre) + s"
    using median_loop_split [OF sum assms(2)] assms(1) by auto
  have "sorted (map fst ?ys)" by simp
  then have order: "\<forall>x \<in> set pre. fst x \<le> t" "\<forall>x \<in> set post. t \<le> fst x"
    unfolding ys by (auto simp: sorted_append)
  have "weight (\<lambda>x. fst x < t) ?ys \<le> sum_list (map snd pre)"
    unfolding ys using order(2) weight_le [of "\<lambda>x. fst x < t" pre] weight_none [of post "\<lambda>x. fst x < t"]
    by (simp add: weight_def filter_False) (auto simp: filter_False not_less)
  moreover have "sum_list (map snd pre) + s \<le> weight (\<lambda>x. fst x \<le> t) ?ys"
    unfolding ys using order(1) weight_all [of pre "\<lambda>x. fst x \<le> t"] by (simp add: weight_def filter_id_conv)
  moreover have "t \<in> fst ` set xs" using arg_cong [OF ys, of set] by force
  moreover have "median_timestamps_by_stake_inner xs ?T = Some t"
    using m by (simp add: median_timestamps_by_stake_inner_def)
  moreover note weight_sort [of "\<lambda>x. fst x < t" fst xs] weight_sort [of "\<lambda>x. fst x \<le> t" fst xs] lo hi
  ultimately show ?thesis by (intro exI [of _ t]) (simp, linarith)
qed

subsection \<open>In terms of authorities\<close>

abbreviation (input) stamp :: "committee \<Rightarrow> verified_block \<Rightarrow> BlockTimestampMs \<times> Stake" where
  "stamp c b \<equiv> (vb_timestamp_ms b, au_stake (c_authorities c ! vb_author b))"

lemma weight_stake:
  assumes "distinct (map vb_author bs)" "\<And>b. b \<in> set bs \<Longrightarrow> vb_author b < committee_size c"
  shows "weight P (map (stamp c) bs) = stake_of c (vb_author ` {b \<in> set bs. P (stamp c b)})"
proof -
  let ?f = "\<lambda>i. au_stake (c_authorities c ! i)"
  have d: "distinct (filter (\<lambda>b. P (stamp c b)) bs)" "inj_on vb_author (set bs)"
    using assms(1) by (auto simp: distinct_map)
  have "weight P (map (stamp c) bs) = sum_list (map (?f \<circ> vb_author) (filter (\<lambda>b. P (stamp c b)) bs))"
    by (simp add: weight_def filter_map comp_def)
  also have "\<dots> = sum (?f \<circ> vb_author) {b \<in> set bs. P (stamp c b)}"
    using sum_list_distinct_conv_sum_set [OF d(1), of "?f \<circ> vb_author"] by (simp only: set_filter)
  also have "\<dots> = sum ?f (vb_author ` {b \<in> set bs. P (stamp c b)})"
    by (rule sum.reindex [symmetric]) (rule inj_on_subset [OF d(2)], auto)
  also have "vb_author ` {b \<in> set bs. P (stamp c b)}
      = vb_author ` {b \<in> set bs. P (stamp c b)} \<inter> {..<committee_size c}" using assms(2) by auto
  finally show ?thesis by (simp add: stake_of_def)
qed

lemma honest_in_half:
  assumes "committee_wf c" "reached_quorum c Q" "Q \<le> 2 * stake_of c A" "stake_of c byz \<le> fault_tolerance c"
  shows "\<exists>a \<in> A. a \<notin> byz"
proof (rule ccontr)
  assume "\<not> ?thesis"
  then have "stake_of c A \<le> fault_tolerance c" using stake_of_mono [of A byz c] assms(4) by fastforce
  moreover have "2 * fault_tolerance c < c_quorum_threshold c"
    using fault_tolerance_third [OF assms(1)] assms(1) by (simp add: committee_wf_def)
  ultimately show False using assms(2,3) by (simp add: reached_quorum_def)
qed

lemma median_timestamps:
  assumes "\<And>b. b \<in> set bs \<Longrightarrow> vb_author b < committee_size c"
  shows "map_opt (\<lambda>b. map_option (\<lambda>a. (vb_timestamp_ms b, au_stake a)) (committee_authority c (vb_author b))) bs
     = Some (map (stamp c) bs)"
  using assms by (auto simp: map_opt_Some committee_authority_def committee_size_def vec_get_def)

lemma median_unfold:
  assumes "\<And>b. b \<in> set bs \<Longrightarrow> vb_author b < committee_size (ctx_committee ctx)"
    and "sum_list (map snd (map (stamp (ctx_committee ctx)) bs)) = T" "T < 2 ^ 64"
  shows "median_timestamp_by_stake ctx bs =
     (if bs = [] then Some (Inl NoBlocksProvided)
      else if T < c_quorum_threshold (ctx_committee ctx)
        then Some (Inl (StakeBelowQuorum T (c_quorum_threshold (ctx_committee ctx))))
      else map_option Inr (median_timestamps_by_stake_inner (map (stamp (ctx_committee ctx)) bs) T))"
proof -
  have "u64_sum (map snd (map (stamp (ctx_committee ctx)) bs)) = T" using assms(2,3) by (simp only: u64_sum_eq)
  moreover note m = median_timestamps [of bs "ctx_committee ctx", OF assms(1)]
  ultimately show ?thesis
    unfolding median_timestamp_by_stake_def by (subst m) (simp_all add: Let_def)
qed

lemma median_exact:
  assumes wf: "committee_wf (ctx_committee ctx)" and dist: "distinct (map vb_author bs)"
    and mem: "\<And>b. b \<in> set bs \<Longrightarrow> vb_author b < committee_size (ctx_committee ctx)"
    and byz: "stake_of (ctx_committee ctx) byz \<le> fault_tolerance (ctx_committee ctx)"
    and quorum: "reached_quorum (ctx_committee ctx) (stake_of (ctx_committee ctx) (vb_author ` set bs))"
  shows "\<exists>t x y. median_timestamp_by_stake ctx bs = Some (Inr t) \<and>
     x \<in> set bs \<and> vb_author x \<notin> byz \<and> vb_timestamp_ms x \<le> t \<and>
     y \<in> set bs \<and> vb_author y \<notin> byz \<and> t \<le> vb_timestamp_ms y"
proof -
  let ?c = "ctx_committee ctx" and ?xs = "map (stamp (ctx_committee ctx)) bs"
  let ?T = "stake_of ?c (vb_author ` set bs)"
  have T: "sum_list (map snd ?xs) = ?T"
    using weight_stake [OF dist mem, of "\<lambda>_. True"] by (simp add: weight_def)
  have pos: "0 < ?T" "?T < 2 ^ 64" "bs \<noteq> []"
    using quorum quorum_nonempty [OF wf quorum] stake_of_bound [OF wf] fault_tolerance_third [OF wf] wf
    by (auto simp: reached_quorum_def committee_wf_def)
  obtain t where t: "median_timestamps_by_stake_inner ?xs ?T = Some t"
      "2 * weight (\<lambda>x. fst x < t) ?xs \<le> ?T" "?T < 2 * weight (\<lambda>x. fst x \<le> t) ?xs"
    using median_inner_exact [of ?xs] pos(1,2) unfolding T by blast
  have run: "median_timestamp_by_stake ctx bs = Some (Inr t)"
    using quorum pos(3) t(1) median_unfold [OF mem T pos(2)] by (simp add: reached_quorum_def)
  let ?A = "vb_author ` {b \<in> set bs. vb_timestamp_ms b < t}" and ?B = "vb_author ` {b \<in> set bs. \<not> vb_timestamp_ms b < t}"
    and ?C = "vb_author ` {b \<in> set bs. vb_timestamp_ms b \<le> t}"
  have A: "2 * stake_of ?c ?A \<le> ?T" and C: "?T \<le> 2 * stake_of ?c ?C"
    using t(2,3) weight_stake [OF dist mem, of "\<lambda>x. fst x < t"] weight_stake [OF dist mem, of "\<lambda>x. fst x \<le> t"] by simp_all
  have "?A \<union> ?B = vb_author ` set bs" by auto
  then have "?T \<le> stake_of ?c ?A + stake_of ?c ?B" using stake_of_Un_Int [of ?c ?A ?B] by simp
  then have B: "?T \<le> 2 * stake_of ?c ?B" using A by linarith
  obtain x where "x \<in> set bs" "vb_author x \<notin> byz" "vb_timestamp_ms x \<le> t"
    using honest_in_half [OF wf quorum C byz] by auto
  moreover obtain y where "y \<in> set bs" "vb_author y \<notin> byz" "t \<le> vb_timestamp_ms y"
    using honest_in_half [OF wf quorum B byz] by (auto simp: not_less)
  ultimately show ?thesis using run by blast
qed

text \<open>C29: the median timestamp.  For blocks of distinct members of the committee whose stake is a
  quorum, the stake-weighted median is always computed and lies between the timestamps of two
  blocks of authorities outside any set of faulty stake at most f; without blocks, or with less
  than a quorum, the error says so.\<close>

theorem median_timestamp_honest:
  assumes "committee_wf (ctx_committee ctx)" "distinct (map vb_author bs)"
    and "\<And>b. b \<in> set bs \<Longrightarrow> vb_author b < committee_size (ctx_committee ctx)"
    and "stake_of (ctx_committee ctx) byz \<le> fault_tolerance (ctx_committee ctx)"
  shows "(reached_quorum (ctx_committee ctx) (stake_of (ctx_committee ctx) (vb_author ` set bs)) \<longrightarrow>
      (\<exists>t x y. median_timestamp_by_stake ctx bs = Some (Inr t) \<and>
         x \<in> set bs \<and> vb_author x \<notin> byz \<and> vb_timestamp_ms x \<le> t \<and>
         y \<in> set bs \<and> vb_author y \<notin> byz \<and> t \<le> vb_timestamp_ms y)) \<and>
     (bs \<noteq> [] \<and> \<not> reached_quorum (ctx_committee ctx) (stake_of (ctx_committee ctx) (vb_author ` set bs)) \<longrightarrow>
      median_timestamp_by_stake ctx bs = Some (Inl (StakeBelowQuorum
        (stake_of (ctx_committee ctx) (vb_author ` set bs)) (c_quorum_threshold (ctx_committee ctx))))) \<and>
     median_timestamp_by_stake ctx [] = Some (Inl NoBlocksProvided)"
proof (intro conjI impI)
  let ?c = "ctx_committee ctx"
  show "median_timestamp_by_stake ctx [] = Some (Inl NoBlocksProvided)"
    by (simp add: median_timestamp_by_stake_def Let_def)
  assume few: "bs \<noteq> [] \<and> \<not> reached_quorum ?c (stake_of ?c (vb_author ` set bs))"
  have T: "sum_list (map snd (map (stamp ?c) bs)) = stake_of ?c (vb_author ` set bs)"
    using weight_stake [OF assms(2,3), of "\<lambda>_. True"] by (simp add: weight_def)
  show "median_timestamp_by_stake ctx bs = Some (Inl (StakeBelowQuorum (stake_of ?c (vb_author ` set bs)) (c_quorum_threshold ?c)))"
    using few median_unfold [OF assms(3) T stake_of_bound [OF assms(1)]] by (simp add: reached_quorum_def)
qed (use median_exact [OF assms] in blast)

end
