(* ===== verification/Commit_Sequence.thy ===== *)
theory Commit_Sequence
  imports Linearizer_Properties Commit_Timestamps
begin

section \<open>The sequence of commits\<close>

text \<open>
  \<^verbatim>\<open>handle_commit\<close> turns every committed leader into one sub-DAG and one commit, and two authorities
  that agree on the leaders agree on the sub-DAGs.
\<close>

subsection \<open>One leader\<close>

text \<open>Only blocks up to the round of the last committed leader are committed.\<close>

definition commit_inv :: "dag_state \<Rightarrow> bool" where
  "commit_inv d \<longleftrightarrow> (\<forall>r. is_committed d r \<longrightarrow> br_round r \<le> last_commit_round d)"

lemma gc_le_last_commit: "gc_round d \<le> last_commit_round d"
  by (simp add: gc_round_def calculate_gc_round_def)

lemma commit_reach_round:
  assumes "r \<in> commit_reach (get_block d) gc committed root" "dag_view d"
  shows "br_round r \<le> br_round root"
  using assms(1)
proof induction
  case (step r b a)
  then show ?case using dag_viewD(7) [OF assms(2) step.hyps(2,3)] by simp
qed simp

lemma leader_parents_members:
  assumes "dag_view d" "get_block d r = Some L" "0 < vb_round L" "vb_round L < 2 ^ 32"
  shows "distinct (map vb_author (leader_parents dag_state_api d L))"
    and "b \<in> set (leader_parents dag_state_api d L) \<Longrightarrow> vb_author b < committee_size (ds_committee d)"
proof -
  let ?refs = "filter (\<lambda>r. br_round r = u32_sub (vb_round L) 1) (vb_ancestors L)"
  have eq: "leader_parents dag_state_api d L = List.map_filter (get_block d) ?refs"
    by (simp add: leader_parents_def get_blocks_map map_filter_def comp_def filter_map)
  have ref: "get_block d a = Some b \<Longrightarrow> vb_author b = br_author a" for a b
    using dag_viewD(4) [OF assms(1)] vb_reference_sel(2) by metis
  have dist: "distinct (map br_author ?refs)"
    using dag_viewD(3) [OF assms(1,2)] by (simp add: valid_block_def distinct_map_filter)
  have "map vb_author (List.map_filter (get_block d) xs) = map br_author (filter (\<lambda>a. get_block d a \<noteq> None) xs)" for xs
    by (induction xs) (auto simp: map_filter_simps ref)
  then show "distinct (map vb_author (leader_parents dag_state_api d L))"
    unfolding eq using distinct_map_filter [OF dist] by simp
  assume "b \<in> set (leader_parents dag_state_api d L)"
  then obtain a where "get_block d a = Some b" unfolding eq by (auto simp: map_filter_def)
  then show "vb_author b < committee_size (ds_committee d)"
    using dag_viewD(3) [OF assms(1), of a b] by (simp add: valid_block_def)
qed

lemma median_total:
  assumes "\<And>b. b \<in> set bs \<Longrightarrow> vb_author b < committee_size (ctx_committee ctx)"
  shows "median_timestamp_by_stake ctx bs \<noteq> None"
proof -
  have "median_timestamps_by_stake_inner xs total_stake \<noteq> None" if "xs \<noteq> []" for xs total_stake
    using that by (auto simp: median_timestamps_by_stake_inner_def Let_def split: option.split)
      (metis length_0_conv length_sort)
  then show ?thesis
    using median_timestamps [OF assms] unfolding median_timestamp_by_stake_def
    by (auto simp: Let_def split: bind_splits)
qed

lemma update_rounds_total:
  assumes "\<And>r. r \<in> set refs \<Longrightarrow> br_author r < length rounds"
  shows "\<exists>rounds'. update_committed_rounds refs rounds = Some rounds'"
  using update_committed_rounds_spec [of refs rounds] assms by blast

text \<open>What committing the leader \<open>L\<close> in state \<open>d\<close> gives: sub-DAG, commit and new state.\<close>

definition committed_step ::
  "(bytes \<Rightarrow> digest) \<Rightarrow> (commit \<Rightarrow> bytes option) \<Rightarrow> linearizer \<Rightarrow> dag_state \<Rightarrow> verified_block \<Rightarrow> committed_sub_dag \<Rightarrow> dag_state \<Rightarrow> bool" where
  "committed_step hash bcs lin d L sub d2 \<longleftrightarrow>
     (\<exists>c d1. try_collect_sub_dag_and_commit hash bcs lin d L = Some (Some (sub, c), d1) \<and> add_commit d1 c = Some d2 \<and>
        ds_last_commit d2 = Some c \<and> tcm_index c = last_commit_index d + 1 \<and> tcm_leader c = vb_reference L \<and>
        csd_leader sub = vb_reference L \<and> csd_commit_ref sub = trusted_commit_reference c \<and>
        csd_timestamp_ms sub = tcm_timestamp_ms c \<and> last_commit_timestamp_ms d \<le> tcm_timestamp_ms c) \<and>
     dag_view d2 \<and> commit_inv d2 \<and> get_block d2 = get_block d \<and> ds_context d2 = ds_context d \<and>
     linearize_sub_dag dag_state_api L d \<noteq> None \<and>
     csd_blocks sub = fst (the (linearize_sub_dag dag_state_api L d)) \<and>
     distinct (map vb_reference (csd_blocks sub)) \<and>
     vb_reference ` set (csd_blocks sub) = commit_reach (get_block d) (gc_round d) (is_committed d) (vb_reference L) \<and>
     (\<forall>r \<in> vb_reference ` set (csd_blocks sub). \<not> is_committed d r) \<and>
     (\<forall>r. is_committed d2 r \<longleftrightarrow> is_committed d r \<or> r \<in> vb_reference ` set (csd_blocks sub))"

definition can_commit :: "(commit \<Rightarrow> bytes option) \<Rightarrow> linearizer \<Rightarrow> dag_state \<Rightarrow> bool" where
  "can_commit bcs lin d \<longleftrightarrow>
     dag_view d \<and> commit_inv d \<and> ctx_committee (lin_context lin) = ds_committee d \<and> (\<forall>c. bcs c \<noteq> None)"

lemma linearize_keeps_last_commit:
  assumes "linearize_loop dag_state_api gc d buffer to_commit = Some y"
  shows "ds_last_commit (snd y) = ds_last_commit d \<and> ds_context (snd y) = ds_context d \<and>
     ds_last_committed_rounds (snd y) = ds_last_committed_rounds d"
proof -
  have fold: "ds_last_commit (snd st') = ds_last_commit (snd st) \<and> ds_context (snd st') = ds_context (snd st) \<and>
      ds_last_committed_rounds (snd st') = ds_last_committed_rounds (snd st)"
    if f: "fold_opt (commit_ancestor dag_state_api) bs st = Some st'" for bs st st'
    by (rule fold_opt_invariant [OF f]) (auto simp: commit_ancestor_def set_committed_frame split: prod.splits if_splits)
  show ?thesis
    using assms
  proof (induction rule: linearize_loop_induct)
    case (step d buffer x to_commit st y)
    then show ?case using fold [OF step(1)] by simp
  qed simp
qed

lemma add_commit_next:
  assumes "dag_view d" "last_commit_index d < 2 ^ 32 - 1" "tcm_index c = last_commit_index d + 1"
    and "last_commit_timestamp_ms d \<le> tcm_timestamp_ms c" "last_commit_round d \<le> br_round (tcm_leader c)"
    and "\<And>r. r \<in> set (tcm_blocks c) \<Longrightarrow> br_author r < committee_size (ds_committee d)"
  shows "\<exists>d'. add_commit d c = Some d' \<and> ds_last_commit d' = Some c \<and> dag_view d' \<and> get_block d' = get_block d \<and>
     ds_context d' = ds_context d \<and> is_committed d' = is_committed d"
proof -
  have "length (ds_last_committed_rounds d) = committee_size (ds_committee d)"
    using dag_viewD(1) [OF assms(1)] by (simp add: dag_inv_def)
  then obtain rounds where rounds: "update_committed_rounds (tcm_blocks c) (ds_last_committed_rounds d) = Some rounds"
    using update_rounds_total [of "tcm_blocks c" "ds_last_committed_rounds d"] assms(6) by auto
  let ?d = "d\<lparr>ds_last_commit := Some c, ds_last_committed_rounds := rounds,
        ds_pending_commit_votes := ds_pending_commit_votes d @ [trusted_commit_reference c],
        ds_commits_to_write := ds_commits_to_write d @ [c]\<rparr>"
  have run: "add_commit d c = Some ?d"
    using assms(2-4) rounds
    by (auto simp: add_commit_def last_commit_index_def last_commit_timestamp_ms_def u32_add_eq split: option.splits)
  have "get_block ?d = get_block d"
    by (rule dag_inv_cong(2)) (simp_all add: update_committed_rounds_length [OF rounds])
  moreover have "is_committed ?d = is_committed d" by (simp add: is_committed_def fun_eq_iff)
  ultimately show ?thesis using run dag_view_commit [OF assms(1) run assms(5)] by auto
qed

lemma committed_step_total:
  assumes can: "can_commit bcs lin d" and L: "get_block d (vb_reference L) = Some L" "last_commit_round d < vb_round L"
    and index: "last_commit_index d < 2 ^ 32 - 1"
  shows "\<exists>sub d2. committed_step hash bcs lin d L sub d2 \<and> can_commit bcs lin d2 \<and> last_commit_round d2 = vb_round L \<and>
     last_commit_index d2 = last_commit_index d + 1"
proof -
  have view: "dag_view d" and inv: "commit_inv d" and com: "ctx_committee (lin_context lin) = ds_committee d"
    and bcs: "\<And>c. bcs c \<noteq> None"
    using can by (auto simp: can_commit_def)
  have gc: "gc_round d < vb_round L" using gc_le_last_commit [of d] L(2) by simp
  have fresh: "\<not> is_committed d (vb_reference L)" using inv L(2) unfolding commit_inv_def by (metis not_less vb_reference_sel(1))
  from dag_store.linearize_sub_dag_exact [of d L, unfolded dag_state_api_simps, OF view L(1) gc fresh]
  obtain bs d1 where e: "linearize_sub_dag dag_state_api L d = Some (bs, d1)" "dag_store.same_store d d1"
      "distinct (map vb_reference bs)"
      "vb_reference ` set bs = commit_reach (get_block d) (gc_round d) (is_committed d) (vb_reference L)"
      "\<forall>b \<in> set bs. get_block d (vb_reference b) = Some b \<and> gc_round d < vb_round b \<and> \<not> is_committed d (vb_reference b)"
      "\<forall>x. is_committed d1 x \<longleftrightarrow> is_committed d x \<or> x \<in> vb_reference ` set bs"
    by (elim exE conjE) (rule that)
  then have lin1: "linearize_sub_dag dag_state_api L d = Some (bs, d1)" "dag_view d1" "get_block d1 = get_block d"
      "distinct (map vb_reference bs)"
      "vb_reference ` set bs = commit_reach (get_block d) (gc_round d) (is_committed d) (vb_reference L)"
      "\<And>b. b \<in> set bs \<Longrightarrow> get_block d (vb_reference b) = Some b \<and> \<not> is_committed d (vb_reference b)"
      "\<And>x. is_committed d1 x \<longleftrightarrow> is_committed d x \<or> x \<in> vb_reference ` set bs"
    by (simp_all add: dag_store.same_store_def)
  have frame: "ds_last_commit d1 = ds_last_commit d" "ds_context d1 = ds_context d"
  proof -
    obtain d0 res where "set_committed d (vb_reference L) = (True, d0)" "linearize_loop dag_state_api (gc_round d) d0 [L] [] = Some (res, d1)"
      using lin1(1) by (auto simp: linearize_sub_dag_def Let_def split: prod.splits if_splits bind_splits)
    then show "ds_last_commit d1 = ds_last_commit d" "ds_context d1 = ds_context d"
      using linearize_keeps_last_commit [of "gc_round d" d0 "[L]" "[]" "(res, d1)"] set_committed_frame by auto
  qed
  have last: "last_commit_index d1 = last_commit_index d" "last_commit_timestamp_ms d1 = last_commit_timestamp_ms d"
      "last_commit_round d1 = last_commit_round d"
    using frame(1) by (simp_all add: last_commit_index_def last_commit_timestamp_ms_def last_commit_round_def)
  have round: "vb_round L < 2 ^ 32"
    using dag_viewD(6) [OF view L(1)] gc dag_viewD(1) [OF view] by (fastforce simp: cached_block_def dag_inv_def recent_ok_def ref_bounds_def)
  have "get_block d1 (vb_reference L) = Some L" using L(1) lin1(3) by simp
  from leader_parents_members(2) [OF lin1(2) this _ round] obtain med where
      med: "median_timestamp_by_stake (lin_context lin) (leader_parents dag_state_api d1 L) = Some med"
    using median_total [of "leader_parents dag_state_api d1 L" "lin_context lin"] com frame(2) L(2) by fastforce
  define ts where "ts = max (case med of Inr ts \<Rightarrow> ts | Inl e \<Rightarrow> vb_timestamp_ms L) (last_commit_timestamp_ms d)"
  let ?gei = "u64_add (lin_epoch_base_index lin) (last_commit_index d + 1)"
  let ?c = "commit_new (last_commit_index d + 1) (last_commit_digest d) ts (vb_reference L) (map vb_reference bs) ?gei"
  obtain bytes where bytes: "bcs ?c = Some bytes" using bcs [of ?c] by blast
  let ?tc = "trusted_commit_new hash ?c bytes"
  let ?sub = "committed_sub_dag_new (vb_reference L) bs ts (trusted_commit_reference ?tc) ?gei"
  have idx: "u32_add (last_commit_index d) 1 = last_commit_index d + 1" using index by (intro u32_add_eq) simp
  have run: "try_collect_sub_dag_and_commit hash bcs lin d L = Some (Some (?sub, ?tc), d1)"
    using lin1(1) med bytes idx unfolding try_collect_sub_dag_and_commit_def calculate_commit_timestamp_def
    by (simp add: Let_def ts_def)
  have members: "br_author r < committee_size (ds_committee d1)" if r: "r \<in> set (tcm_blocks ?tc)" for r
  proof -
    obtain b where "b \<in> set bs" "r = vb_reference b" using r by (auto simp: trusted_commit_new_def commit_new_def)
    then show ?thesis using dag_viewD(3) [OF view, of r b] lin1(6) frame(2) by (simp add: valid_block_def)
  qed
  obtain d2 where d2: "add_commit d1 ?tc = Some d2" "ds_last_commit d2 = Some ?tc" "dag_view d2" "get_block d2 = get_block d1"
      "ds_context d2 = ds_context d1" "is_committed d2 = is_committed d1"
    using add_commit_next [OF lin1(2), of ?tc] index members L(2)
    by (simp add: last trusted_commit_new_def commit_new_def ts_def) blast
  have r2: "last_commit_round d2 = vb_round L" "last_commit_index d2 = last_commit_index d + 1"
    using d2(2) by (simp_all add: last_commit_round_def last_commit_index_def trusted_commit_new_def commit_new_def)
  have inv2: "commit_inv d2"
    unfolding commit_inv_def d2(6) lin1(7) r2 lin1(5)
  proof (intro allI impI)
    fix r assume "is_committed d r \<or> r \<in> commit_reach (get_block d) (gc_round d) (is_committed d) (vb_reference L)"
    then show "br_round r \<le> vb_round L"
      using inv L(2) commit_reach_round [OF _ view] unfolding commit_inv_def by fastforce
  qed
  have "\<forall>r \<in> vb_reference ` set bs. \<not> is_committed d r" using lin1(6) by blast
  then have "committed_step hash bcs lin d L ?sub d2"
    unfolding committed_step_def
    using run d2 inv2 lin1(1-5,7) frame
    by (intro conjI exI [of _ ?tc] exI [of _ d1])
      (auto simp: committed_sub_dag_new_def trusted_commit_new_def commit_new_def ts_def)
  then show ?thesis using r2 inv2 d2(3,5) can frame(2)
    by (intro exI [of _ ?sub] exI [of _ d2]) (auto simp: can_commit_def)
qed

subsection \<open>A sequence of leaders\<close>

fun commit_chain ::
  "(bytes \<Rightarrow> digest) \<Rightarrow> (commit \<Rightarrow> bytes option) \<Rightarrow> linearizer \<Rightarrow> dag_state \<Rightarrow> verified_block list \<Rightarrow>
   committed_sub_dag list \<Rightarrow> dag_state \<Rightarrow> bool" where
  "commit_chain hash bcs lin d (L # Ls) (sub # subs) d' \<longleftrightarrow>
     (\<exists>d2. committed_step hash bcs lin d L sub d2 \<and> commit_chain hash bcs lin d2 Ls subs d')"
| "commit_chain hash bcs lin d [] [] d' \<longleftrightarrow> d' = d"
| "commit_chain hash bcs lin d _ _ d' \<longleftrightarrow> False"

definition leaders_ready :: "dag_state \<Rightarrow> verified_block list \<Rightarrow> bool" where
  "leaders_ready d leaders \<longleftrightarrow>
     (\<forall>L \<in> set leaders. get_block d (vb_reference L) = Some L) \<and>
     sorted_wrt (<) (last_commit_round d # map vb_round leaders) \<and>
     last_commit_index d + length leaders < 2 ^ 32"

lemma committed_stepD:
  assumes "committed_step hash bcs lin d L sub d2"
  shows "dag_view d2" "commit_inv d2" "get_block d2 = get_block d" "ds_context d2 = ds_context d"
    and "csd_leader sub = vb_reference L" "cr_index (csd_commit_ref sub) = last_commit_index d + 1"
    and "csd_timestamp_ms sub = last_commit_timestamp_ms d2" "last_commit_timestamp_ms d \<le> last_commit_timestamp_ms d2"
    and "last_commit_index d2 = last_commit_index d + 1" "last_commit_round d2 = vb_round L"
    and "distinct (map vb_reference (csd_blocks sub))"
    and "r \<in> vb_reference ` set (csd_blocks sub) \<Longrightarrow> \<not> is_committed d r"
    and "is_committed d2 r \<longleftrightarrow> is_committed d r \<or> r \<in> vb_reference ` set (csd_blocks sub)"
    and "vb_reference L \<in> vb_reference ` set (csd_blocks sub)"
proof -
  obtain c where c: "ds_last_commit d2 = Some c" "tcm_index c = last_commit_index d + 1" "tcm_leader c = vb_reference L"
      "csd_leader sub = vb_reference L" "csd_commit_ref sub = trusted_commit_reference c"
      "csd_timestamp_ms sub = tcm_timestamp_ms c" "last_commit_timestamp_ms d \<le> tcm_timestamp_ms c"
    using assms unfolding committed_step_def by blast
  then show "csd_leader sub = vb_reference L" "cr_index (csd_commit_ref sub) = last_commit_index d + 1"
      "csd_timestamp_ms sub = last_commit_timestamp_ms d2" "last_commit_timestamp_ms d \<le> last_commit_timestamp_ms d2"
      "last_commit_index d2 = last_commit_index d + 1" "last_commit_round d2 = vb_round L"
    by (simp_all add: last_commit_index_def last_commit_timestamp_ms_def last_commit_round_def trusted_commit_reference_def)
  show "vb_reference L \<in> vb_reference ` set (csd_blocks sub)"
  proof -
    have "vb_reference ` set (csd_blocks sub) = commit_reach (get_block d) (gc_round d) (is_committed d) (vb_reference L)"
      using assms unfolding committed_step_def by blast
    then show ?thesis by (simp only: commit_reach.root)
  qed
qed (use assms in \<open>unfold committed_step_def, blast+\<close>)

lemma leaders_ready_next:
  assumes "committed_step hash bcs lin d L sub d2" "leaders_ready d (L # Ls)"
  shows "leaders_ready d2 Ls"
  using assms(2) committed_stepD(3,9,10) [OF assms(1)] by (simp add: leaders_ready_def)

lemma commit_chain_total:
  assumes "can_commit bcs lin d" "leaders_ready d leaders"
  shows "\<exists>subs d'. commit_chain hash bcs lin d leaders subs d' \<and> can_commit bcs lin d' \<and>
     (\<forall>acc. handle_leaders hash bcs lin d leaders acc = Some (acc @ subs, lin, d'))"
  using assms
proof (induction leaders arbitrary: d)
  case Nil
  then show ?case by (intro exI [of _ "[]"] exI [of _ d]) simp
next
  case (Cons L Ls)
  have "get_block d (vb_reference L) = Some L" "last_commit_round d < vb_round L" "last_commit_index d < 2 ^ 32 - 1"
    using Cons.prems(2) by (simp_all add: leaders_ready_def)
  from committed_step_total [OF Cons.prems(1) this, of hash] obtain sub d2 where
      s: "committed_step hash bcs lin d L sub d2" "can_commit bcs lin d2" by blast
  from Cons.IH [OF s(2) leaders_ready_next [OF s(1) Cons.prems(2)]] obtain subs d' where
      r: "commit_chain hash bcs lin d2 Ls subs d'" "can_commit bcs lin d'"
        "\<And>acc. handle_leaders hash bcs lin d2 Ls acc = Some (acc @ subs, lin, d')" by blast
  obtain c d1 where "try_collect_sub_dag_and_commit hash bcs lin d L = Some (Some (sub, c), d1)" "add_commit d1 c = Some d2"
    using s(1) unfolding committed_step_def by blast
  then have "handle_leaders hash bcs lin d (L # Ls) acc = Some (acc @ sub # subs, lin, d')" for acc
    using r(3) by simp
  moreover have "commit_chain hash bcs lin d (L # Ls) (sub # subs) d'" using s(1) r(1) by auto
  ultimately show ?case using r(2) by blast
qed

lemma commit_chain_props:
  assumes "commit_chain hash bcs lin d leaders subs d'"
  shows "map csd_leader subs = map vb_reference leaders"
    and "map (cr_index \<circ> csd_commit_ref) subs = [last_commit_index d + 1..<last_commit_index d + 1 + length leaders]"
    and "sorted (last_commit_timestamp_ms d # map csd_timestamp_ms subs)"
    and "distinct (concat (map (map vb_reference \<circ> csd_blocks) subs))"
    and "\<forall>r \<in> set (concat (map (map vb_reference \<circ> csd_blocks) subs)). \<not> is_committed d r"
    and "\<forall>r. is_committed d' r \<longleftrightarrow> is_committed d r \<or> r \<in> set (concat (map (map vb_reference \<circ> csd_blocks) subs))"
    and "get_block d' = get_block d" "ds_context d' = ds_context d"
  using assms
proof (induction hash bcs lin d leaders subs d' rule: commit_chain.induct)
  case (1 hash bcs lin d L Ls sub subs d')
  { case 1 then show ?case using "1.IH"(1) committed_stepD(5) by fastforce }
  { case 2
    then obtain d2 where "committed_step hash bcs lin d L sub d2" "commit_chain hash bcs lin d2 Ls subs d'" by auto
    then show ?case using "1.IH"(2) [of d2] committed_stepD(6,9) by (simp add: upt_conv_Cons del: upt_Suc) }
  { case 3
    then obtain d2 where "committed_step hash bcs lin d L sub d2" "commit_chain hash bcs lin d2 Ls subs d'" by auto
    then show ?case using "1.IH"(3) [of d2] committed_stepD(7,8) by fastforce }
  { case 4
    then obtain d2 where s: "committed_step hash bcs lin d L sub d2" "commit_chain hash bcs lin d2 Ls subs d'" by auto
    have "set (map vb_reference (csd_blocks sub)) \<inter> set (concat (map (map vb_reference \<circ> csd_blocks) subs)) = {}"
    proof (rule equals0I)
      fix r assume "r \<in> set (map vb_reference (csd_blocks sub)) \<inter> set (concat (map (map vb_reference \<circ> csd_blocks) subs))"
      then have r: "r \<in> vb_reference ` set (csd_blocks sub)" "r \<in> set (concat (map (map vb_reference \<circ> csd_blocks) subs))"
        by (simp_all only: Int_iff set_map)
      then show False using bspec [OF "1.IH"(5) [OF s(2)] r(2)] committed_stepD(13) [OF s(1), of r] by simp
    qed
    then show ?case using "1.IH"(4) [OF s(2)] committed_stepD(11) [OF s(1)] by simp }
  { case 5
    then obtain d2 where s: "committed_step hash bcs lin d L sub d2" "commit_chain hash bcs lin d2 Ls subs d'" by auto
    show ?case
    proof
      fix r assume "r \<in> set (concat (map (map vb_reference \<circ> csd_blocks) (sub # subs)))"
      then have "r \<in> vb_reference ` set (csd_blocks sub) \<or> r \<in> set (concat (map (map vb_reference \<circ> csd_blocks) subs))" by simp
      then show "\<not> is_committed d r" using "1.IH"(5) [OF s(2)] committed_stepD(12,13) [OF s(1), of r] by blast
    qed }
  { case 6
    then obtain d2 where s: "committed_step hash bcs lin d L sub d2" "commit_chain hash bcs lin d2 Ls subs d'" by auto
    show ?case
    proof
      fix r
      show "is_committed d' r \<longleftrightarrow> is_committed d r \<or> r \<in> set (concat (map (map vb_reference \<circ> csd_blocks) (sub # subs)))"
        using "1.IH"(6) [OF s(2)] committed_stepD(13) [OF s(1), of r] by simp
    qed }
  { case 7 then show ?case using "1.IH"(7) committed_stepD(3) by fastforce }
  { case 8 then show ?case using "1.IH"(8) committed_stepD(4) by fastforce }
qed simp_all

subsection \<open>Two authorities\<close>

text \<open>Two views of one DAG in which the same blocks were committed so far.\<close>

definition commits_alike :: "dag_state \<Rightarrow> dag_state \<Rightarrow> bool" where
  "commits_alike d e \<longleftrightarrow>
     dag_view d \<and> dag_view e \<and> ds_committee e = ds_committee d \<and>
     ctx_gc_depth (ds_context e) = ctx_gc_depth (ds_context d) \<and> ds_last_commit e = ds_last_commit d \<and>
     (\<forall>r. br_round r = 0 \<longrightarrow> get_block e r = get_block d r) \<and>
     (\<forall>r x y. get_block d r = Some x \<longrightarrow> get_block e r = Some y \<longrightarrow> x = y) \<and>
     (\<forall>r. get_block d r \<noteq> None \<longrightarrow> get_block e r \<noteq> None \<longrightarrow> gc_round d < br_round r \<longrightarrow>
        is_committed e r = is_committed d r)"

definition both_know :: "dag_state \<Rightarrow> dag_state \<Rightarrow> verified_block \<Rightarrow> bool" where
  "both_know d e b \<longleftrightarrow> get_block d (vb_reference b) = Some b \<and> get_block e (vb_reference b) = Some b"

lemma commits_alikeD:
  assumes "commits_alike d e"
  shows "dag_view d" "dag_view e" "gc_round e = gc_round d" "ds_last_commit e = ds_last_commit d"
    and "ds_committee e = ds_committee d"
    and "br_round r = 0 \<Longrightarrow> get_block e r = get_block d r"
    and "get_block d r = Some x \<Longrightarrow> get_block e r = Some y \<Longrightarrow> x = y"
    and "get_block d r = Some x \<Longrightarrow> get_block e r = Some y \<Longrightarrow> gc_round d < br_round r \<Longrightarrow> is_committed e r = is_committed d r"
  using assms unfolding commits_alike_def
  by (auto simp: gc_round_def calculate_gc_round_def last_commit_round_def)

text \<open>An ancestor above the garbage collection round is known, and the same, in both.\<close>

lemma alike_ancestor:
  assumes "commits_alike d e" "both_know d e x" "a \<in> set (vb_ancestors x)" "gc_round d < br_round a"
  shows "\<exists>b. get_block d a = Some b \<and> get_block e a = Some b \<and> vb_reference b = a"
proof -
  have x: "get_block d (vb_reference x) = Some x" "get_block e (vb_reference x) = Some x"
    using assms(2) by (simp_all add: both_know_def)
  obtain b where b: "get_block d a = Some b"
    using dag_viewD(5) [OF commits_alikeD(1) [OF assms(1)] x(1) assms(3,4)] by blast
  obtain b' where b': "get_block e a = Some b'"
    using dag_viewD(5) [OF commits_alikeD(2) [OF assms(1)] x(2) assms(3)] assms(4) commits_alikeD(3) [OF assms(1)] by auto
  have "b' = b" using commits_alikeD(7) [OF assms(1) b b'] by simp
  then show ?thesis using b b' dag_viewD(4) [OF commits_alikeD(1) [OF assms(1)] b] by blast
qed

lemma alike_ancestors_to_commit:
  assumes "commits_alike d e" "both_know d e x"
  shows "ancestors_to_commit dag_state_api (gc_round d) e x = ancestors_to_commit dag_state_api (gc_round d) d x"
    and "b \<in> set (ancestors_to_commit dag_state_api (gc_round d) d x) \<Longrightarrow> both_know d e b \<and> gc_round d < vb_round b"
proof -
  let ?refs = "\<lambda>d'. filter (\<lambda>a. gc_round d < br_round a \<and> \<not> is_committed d' a) (vb_ancestors x)"
  have same: "get_block e a = get_block d a \<and> is_committed e a = is_committed d a"
    if "a \<in> set (vb_ancestors x)" "gc_round d < br_round a" for a
    using alike_ancestor [OF assms that] commits_alikeD(8) [OF assms(1), of a] that(2) by fastforce
  have refs: "?refs e = ?refs d" using same by (intro filter_cong) auto
  show "ancestors_to_commit dag_state_api (gc_round d) e x = ancestors_to_commit dag_state_api (gc_round d) d x"
    unfolding ancestors_to_commit_def dag_state_api_simps get_blocks_map refs
    by (rule arg_cong [of _ _ "List.map_filter (\<lambda>x. x)"]) (use same in auto)
  assume "b \<in> set (ancestors_to_commit dag_state_api (gc_round d) d x)"
  then obtain a where a: "a \<in> set (vb_ancestors x)" "gc_round d < br_round a" "get_block d a = Some b"
    unfolding ancestors_to_commit_def dag_state_api_simps get_blocks_map by (auto simp: map_filter_def)
  then show "both_know d e b \<and> gc_round d < vb_round b"
    using alike_ancestor [OF assms a(1,2)] by (auto simp: both_know_def)
qed

lemma alike_mark:
  assumes "commits_alike d e" "both_know d e b" "gc_round d < vb_round b" "set_committed d (vb_reference b) = (True, d')"
  shows "\<exists>e'. set_committed e (vb_reference b) = (True, e') \<and> commits_alike d' e' \<and> get_block d' = get_block d \<and>
     get_block e' = get_block e \<and> gc_round d' = gc_round d"
proof -
  have b: "get_block d (vb_reference b) = Some b" "get_block e (vb_reference b) = Some b"
    using assms(2) by (simp_all add: both_know_def)
  note v = commits_alikeD(1,2) [OF assms(1)]
  have d: "\<not> is_committed d (vb_reference b)" "get_block d' = get_block d"
      "\<forall>x. is_committed d' x \<longleftrightarrow> is_committed d x \<or> x = vb_reference b"
    using set_committed_exact [OF dag_viewD(1) [OF v(1)] assms(4)] by simp_all
  have "\<not> is_committed e (vb_reference b)" using commits_alikeD(8) [OF assms(1) b] d(1) assms(3) by simp
  then obtain e' where e: "set_committed e (vb_reference b) = (True, e')" "dag_view e'" "get_block e' = get_block e"
      "\<forall>x. is_committed e' x \<longleftrightarrow> is_committed e x \<or> x = vb_reference b"
    using view_set_committed [OF v(2) b(2)] assms(3) commits_alikeD(3) [OF assms(1)] by auto
  note fd = set_committed_frame [OF assms(4)] and fe = set_committed_frame [OF e(1)]
  have "commits_alike d' e'"
    using assms(1) dag_view_set_committed [OF v(1) assms(4)] e(2)
    unfolding commits_alike_def fd fe d(2) e(3) using d(3) e(4) by metis
  then show ?thesis using e d(2) fd(3) by blast
qed

lemma commit_ancestor_pair:
  "commit_ancestor dag_state_api b (buffer, d) =
     (case set_committed d (vb_reference b) of (ok, d') \<Rightarrow> if ok then Some (buffer @ [b], d') else None)"
  by (simp add: commit_ancestor_def split: prod.split)

lemma alike_mark_all:
  assumes "fold_opt (commit_ancestor dag_state_api) bs (buffer, d) = Some (buffer', d')" "commits_alike d e"
    and "\<And>b. b \<in> set bs \<Longrightarrow> both_know d e b \<and> gc_round d < vb_round b"
  shows "\<exists>e'. fold_opt (commit_ancestor dag_state_api) bs (buffer, e) = Some (buffer', e') \<and> commits_alike d' e' \<and>
     get_block d' = get_block d \<and> get_block e' = get_block e \<and> gc_round d' = gc_round d \<and> buffer' = buffer @ bs"
  using assms
proof (induction bs arbitrary: buffer d e)
  case (Cons b bs)
  obtain d1 where d1: "set_committed d (vb_reference b) = (True, d1)"
      "fold_opt (commit_ancestor dag_state_api) bs (buffer @ [b], d1) = Some (buffer', d')"
    using Cons.prems(1) by (auto simp: commit_ancestor_pair split: prod.splits if_splits)
  have b: "both_know d e b" "gc_round d < vb_round b" using Cons.prems(3) by auto
  obtain e1 where e1: "set_committed e (vb_reference b) = (True, e1)" "commits_alike d1 e1" "get_block d1 = get_block d"
      "get_block e1 = get_block e" "gc_round d1 = gc_round d"
    using alike_mark [OF Cons.prems(2) b d1(1)] by blast
  have "both_know d1 e1 c \<and> gc_round d1 < vb_round c" if "c \<in> set bs" for c
    using Cons.prems(3) [of c] that by (simp add: both_know_def e1)
  from Cons.IH [OF d1(2) e1(2) this] obtain e' where
      "fold_opt (commit_ancestor dag_state_api) bs (buffer @ [b], e1) = Some (buffer', e')" "commits_alike d' e'"
      "get_block d' = get_block d1" "get_block e' = get_block e1" "gc_round d' = gc_round d1" "buffer' = (buffer @ [b]) @ bs"
    by blast
  then show ?case using e1 by (simp add: commit_ancestor_pair)
qed simp

lemma alike_linearize_loop:
  assumes "linearize_loop dag_state_api gc d buffer to_commit = Some y"
    and "commits_alike d e" "gc = gc_round d" "\<And>b. b \<in> set buffer \<Longrightarrow> both_know d e b"
  shows "\<exists>e'. linearize_loop dag_state_api gc e buffer to_commit = Some (fst y, e') \<and> commits_alike (snd y) e'"
  using assms
proof (induction arbitrary: e rule: linearize_loop_induct)
  case (finished d to_commit)
  then show ?case by (subst linearize_loop.simps) simp
next
  case (step d buffer x to_commit st y)
  have x: "both_know d e x" using step.prems(3) by simp
  note anc = alike_ancestors_to_commit [OF step.prems(1) x, folded step.prems(2)]
  obtain buffer' d' where st: "st = (buffer', d')" by fastforce
  obtain e' where e': "fold_opt (commit_ancestor dag_state_api) (ancestors_to_commit dag_state_api gc d x) (buffer, e) = Some (buffer', e')"
      "commits_alike d' e'" "get_block d' = get_block d" "get_block e' = get_block e" "gc_round d' = gc_round d"
      "buffer' = buffer @ ancestors_to_commit dag_state_api gc d x"
    using alike_mark_all [OF step.hyps(1) [unfolded st] step.prems(1)] anc(2) step.prems(2) by auto
  have "both_know d' e' b" if "b \<in> set buffer'" for b
    using that step.prems(3) [of b] anc(2) [of b] unfolding e'(6) by (auto simp: both_know_def e'(3,4))
  with step.IH [of e'] e' st step.prems(2) obtain e'' where
      "linearize_loop dag_state_api gc e' buffer' (to_commit @ [x]) = Some (fst y, e'')" "commits_alike (snd y) e''"
    by auto
  then show ?case using e'(1) by (subst linearize_loop.simps) (simp add: anc(1))
qed

lemma alike_linearize:
  assumes "commits_alike d e" "both_know d e L" "gc_round d < vb_round L" "linearize_sub_dag dag_state_api L d = Some (bs, d1)"
  shows "\<exists>e1. linearize_sub_dag dag_state_api L e = Some (bs, e1) \<and> commits_alike d1 e1"
proof -
  obtain d0 res where d0: "set_committed d (vb_reference L) = (True, d0)"
      "linearize_loop dag_state_api (gc_round d) d0 [L] [] = Some (res, d1)"
      "list_all (\<lambda>b. gc_round d < vb_round b) res" "bs = sort_sub_dag_blocks res"
    using assms(4) by (auto simp: linearize_sub_dag_def Let_def split: prod.splits if_splits bind_splits)
  obtain e0 where e0: "set_committed e (vb_reference L) = (True, e0)" "commits_alike d0 e0" "get_block d0 = get_block d"
      "get_block e0 = get_block e" "gc_round d0 = gc_round d"
    using alike_mark [OF assms(1-3) d0(1)] by blast
  obtain e1 where "linearize_loop dag_state_api (gc_round d) e0 [L] [] = Some (res, e1)" "commits_alike d1 e1"
    using alike_linearize_loop [OF d0(2) e0(2)] assms(2) by (auto simp: e0(3-5) both_know_def)
  then show ?thesis
    using e0(1) d0(3,4) commits_alikeD(3) [OF assms(1)] by (simp add: linearize_sub_dag_def)
qed

lemma alike_parents:
  assumes "commits_alike d e" "both_know d e L" "gc_round d < vb_round L - 1 \<or> vb_round L = 1" "vb_round L < 2 ^ 32"
  shows "leader_parents dag_state_api e L = leader_parents dag_state_api d L"
proof -
  have pos: "0 < vb_round L" using assms(3) by auto
  have sub: "u32_sub (vb_round L) 1 = vb_round L - 1" using pos assms(4) by (intro u32_sub_eq) auto
  have "get_block e a = get_block d a" if a: "a \<in> set (vb_ancestors L)" "br_round a = vb_round L - 1" for a
  proof (cases "vb_round L = 1")
    case True
    then show ?thesis using commits_alikeD(6) [OF assms(1)] a(2) by simp
  next
    case False
    then show ?thesis using alike_ancestor [OF assms(1,2) a(1)] assms(3) a(2) by auto
  qed
  then show ?thesis
    unfolding leader_parents_def dag_state_api_simps get_blocks_map sub
    by (intro arg_cong [of _ _ "List.map_filter (\<lambda>x. x)"]) auto
qed

lemma median_committee: "ctx_committee ctx' = ctx_committee ctx \<Longrightarrow> median_timestamp_by_stake ctx' = median_timestamp_by_stake ctx"
  by (rule ext) (simp only: median_timestamp_by_stake_def)

lemma alike_committed_step:
  assumes alike: "commits_alike d e" and know: "both_know d e L" and round: "last_commit_round d < vb_round L"
    and depth: "0 < ctx_gc_depth (ds_context d)" and can: "can_commit bcs lin d" "can_commit bcs lin' e"
    and base: "lin_epoch_base_index lin' = lin_epoch_base_index lin"
    and d: "committed_step hash bcs lin d L sub d2" and e: "committed_step hash bcs lin' e L sub' e2"
  shows "sub' = sub \<and> commits_alike d2 e2"
proof -
  note a = commits_alikeD [OF alike]
  have L: "get_block d (vb_reference L) = Some L" using know by (simp add: both_know_def)
  have gc: "gc_round d < vb_round L" using gc_le_last_commit [of d] round by simp
  have gc1: "gc_round d < vb_round L - 1 \<or> vb_round L = 1"
    using depth round by (auto simp: gc_round_def calculate_gc_round_def)
  have r32: "vb_round L < 2 ^ 32"
    using dag_viewD(6) [OF a(1) L] gc dag_viewD(1) [OF a(1)] by (fastforce simp: cached_block_def dag_inv_def recent_ok_def ref_bounds_def)
  obtain c d1 where tc: "try_collect_sub_dag_and_commit hash bcs lin d L = Some (Some (sub, c), d1)" "ds_last_commit d2 = Some c"
    using d unfolding committed_step_def by blast
  obtain c' e1' where te: "try_collect_sub_dag_and_commit hash bcs lin' e L = Some (Some (sub', c'), e1')" "ds_last_commit e2 = Some c'"
    using e unfolding committed_step_def by blast
  obtain bs where bs: "linearize_sub_dag dag_state_api L d = Some (bs, d1)"
    using tc(1) by (auto simp: try_collect_sub_dag_and_commit_def Let_def split: bind_splits prod.splits)
  obtain e1 where e1: "linearize_sub_dag dag_state_api L e = Some (bs, e1)" "commits_alike d1 e1"
    using alike_linearize [OF alike know gc bs] by blast
  have get: "get_block d1 = get_block d" "get_block e1 = get_block e" "gc_round d1 = gc_round d"
  proof -
    have "\<not> is_committed d (vb_reference L)" "\<not> is_committed e (vb_reference L)"
      using can round a(4) unfolding can_commit_def commit_inv_def last_commit_round_def by (metis not_less vb_reference_sel(1))+
    then show "get_block d1 = get_block d" "get_block e1 = get_block e" "gc_round d1 = gc_round d"
      using dag_store.linearize_sub_dag_exact [of d L] dag_store.linearize_sub_dag_exact [of e L] a(1-3) know gc bs e1(1)
      by (auto simp: dag_store.same_store_def both_know_def)
  qed
  have par: "leader_parents dag_state_api e1 L = leader_parents dag_state_api d1 L"
    using alike_parents [OF e1(2), of L] know gc1 r32 by (simp add: both_know_def get)
  have last: "last_commit_index e = last_commit_index d" "last_commit_digest e = last_commit_digest d"
      "last_commit_timestamp_ms e = last_commit_timestamp_ms d"
    using a(4) by (simp_all add: last_commit_index_def last_commit_digest_def last_commit_timestamp_ms_def)
  have "median_timestamp_by_stake (lin_context lin') = median_timestamp_by_stake (lin_context lin)"
    using can a(5) by (intro median_committee) (simp add: can_commit_def)
  then have "map_option fst (try_collect_sub_dag_and_commit hash bcs lin' e L) = map_option fst (try_collect_sub_dag_and_commit hash bcs lin d L)"
    unfolding try_collect_sub_dag_and_commit_def calculate_commit_timestamp_def bs e1(1) by (simp add: par last base Let_def map_option_bind comp_def)
  then have same: "sub' = sub" "c' = c" using tc(1) te(1) by simp_all
  have "commits_alike d2 e2"
  proof -
    have "last_commit_round d2 = vb_round L" by (rule committed_stepD(10) [OF d])
    then have mono: "gc_round d \<le> gc_round d2"
      using round committed_stepD(4) [OF d] by (auto simp: gc_round_def calculate_gc_round_def)
    have "is_committed e2 r = is_committed d2 r" if "get_block d r \<noteq> None" "get_block e r \<noteq> None" "gc_round d2 < br_round r" for r
      using committed_stepD(13) [OF d, of r] committed_stepD(13) [OF e, of r] a(8) [of r] that mono same(1) by auto
    then show ?thesis
      using alike tc(2) te(2) same(2) unfolding commits_alike_def committed_stepD(3,4) [OF d] committed_stepD(3,4) [OF e]
      using committed_stepD(1) [OF d] committed_stepD(1) [OF e] by simp
  qed
  with same show ?thesis by simp
qed

lemma alike_commit_chain:
  assumes "commits_alike d e" "0 < ctx_gc_depth (ds_context d)" "can_commit bcs lin d" "can_commit bcs lin' e"
    and "lin_epoch_base_index lin' = lin_epoch_base_index lin"
    and "\<And>L. L \<in> set leaders \<Longrightarrow> both_know d e L" "sorted_wrt (<) (last_commit_round d # map vb_round leaders)"
    and "commit_chain hash bcs lin d leaders subs d'" "commit_chain hash bcs lin' e leaders subs' e'"
  shows "subs' = subs \<and> commits_alike d' e'"
  using assms
proof (induction leaders arbitrary: d e subs subs')
  case Nil
  then show ?case by (cases subs; cases subs') auto
next
  case (Cons L Ls)
  obtain sub ss where "subs = sub # ss" using Cons.prems(8) by (cases subs) auto
  with Cons.prems(8) obtain d2 where d2: "subs = sub # ss" "committed_step hash bcs lin d L sub d2" "commit_chain hash bcs lin d2 Ls ss d'" by auto
  obtain sub' ss' where "subs' = sub' # ss'" using Cons.prems(9) by (cases subs') auto
  with Cons.prems(9) obtain e2 where e2: "subs' = sub' # ss'" "committed_step hash bcs lin' e L sub' e2" "commit_chain hash bcs lin' e2 Ls ss' e'" by auto
  have "both_know d e L" "last_commit_round d < vb_round L" using Cons.prems(6,7) by auto
  from alike_committed_step [OF Cons.prems(1) this Cons.prems(2-5) d2(2) e2(2)]
  have s: "sub' = sub" "commits_alike d2 e2" by auto
  have "0 < ctx_gc_depth (ds_context d2)" "can_commit bcs lin d2" "can_commit bcs lin' e2"
    using Cons.prems(2-4) committed_stepD [OF d2(2)] committed_stepD [OF e2(2)] by (auto simp: can_commit_def)
  from Cons.IH [OF s(2) this Cons.prems(5) _ _ d2(3) e2(3)] Cons.prems(6,7)
  show ?case using s(1) d2(1) e2(1) committed_stepD(3,10) [OF d2(2)] committed_stepD(3) [OF e2(2)]
    by (simp add: both_know_def)
qed

lemma handle_commit_chain:
  assumes "can_commit bcs lin d" "leaders_ready d leaders" "lin_deferred_leaders lin = []"
  shows "\<exists>subs d'. handle_commit hash bcs lin d leaders = Some (subs, lin, d') \<and> can_commit bcs lin d' \<and>
     commit_chain hash bcs lin d leaders subs d'"
proof -
  have "lin\<lparr>lin_deferred_leaders := []\<rparr> = lin" using assms(3) by (cases lin) simp
  then have "handle_commit hash bcs lin d leaders = handle_leaders hash bcs lin d leaders []"
    by (simp only: handle_commit_def assms(3) append_Nil)
  then show ?thesis using commit_chain_total [OF assms(1,2), of hash] by fastforce
qed

text \<open>Handling committed leaders.  For known leaders of increasing rounds above the last commit,
  \<^verbatim>\<open>handle_commit\<close> ends without panic and returns one sub-DAG per leader, with consecutive commit
  indices and timestamps that never go back; no block occurs twice in all sub-DAGs or was committed
  before, exactly the returned blocks become committed, no leader is deferred, and the state stays
  a view in which further leaders can be committed.\<close>

theorem handle_commit_spec:
  assumes "can_commit bcs lin d" "leaders_ready d leaders" "lin_deferred_leaders lin = []"
  shows "\<exists>subs d'. handle_commit hash bcs lin d leaders = Some (subs, lin, d') \<and> can_commit bcs lin d' \<and>
     map csd_leader subs = map vb_reference leaders \<and>
     map (cr_index \<circ> csd_commit_ref) subs = [last_commit_index d + 1..<last_commit_index d + 1 + length leaders] \<and>
     sorted (last_commit_timestamp_ms d # map csd_timestamp_ms subs) \<and>
     distinct (concat (map (map vb_reference \<circ> csd_blocks) subs)) \<and>
     (\<forall>r \<in> set (concat (map (map vb_reference \<circ> csd_blocks) subs)). \<not> is_committed d r) \<and>
     (\<forall>r. is_committed d' r \<longleftrightarrow> is_committed d r \<or> r \<in> set (concat (map (map vb_reference \<circ> csd_blocks) subs)))"
proof -
  obtain subs d' where r: "handle_commit hash bcs lin d leaders = Some (subs, lin, d')" "can_commit bcs lin d'"
      "commit_chain hash bcs lin d leaders subs d'"
    using handle_commit_chain [OF assms] by blast
  show ?thesis
    using r(1,2) commit_chain_props [OF r(3)] by (intro exI [of _ subs] exI [of _ d'] conjI)
qed

text \<open>Agreement of sub-DAGs.  Two authorities whose views of one DAG have the same commits so far and
  that commit the same leaders produce exactly the same sub-DAGs (blocks, order, timestamps,
  indices, digests), and have the same commits afterwards.\<close>

theorem handle_commit_agreement:
  assumes "commits_alike d e" "0 < ctx_gc_depth (ds_context d)" "can_commit bcs lin d" "can_commit bcs lin' e"
    and "lin_epoch_base_index lin' = lin_epoch_base_index lin" "lin_deferred_leaders lin = []" "lin_deferred_leaders lin' = []"
    and "leaders_ready d leaders" "leaders_ready e leaders"
  shows "\<exists>subs d' e'. handle_commit hash bcs lin d leaders = Some (subs, lin, d') \<and>
     handle_commit hash bcs lin' e leaders = Some (subs, lin', e') \<and> commits_alike d' e'"
proof -
  obtain subs d' where d: "handle_commit hash bcs lin d leaders = Some (subs, lin, d')" "commit_chain hash bcs lin d leaders subs d'"
    using handle_commit_chain [OF assms(3,8,6)] by blast
  obtain subs' e' where e: "handle_commit hash bcs lin' e leaders = Some (subs', lin', e')" "commit_chain hash bcs lin' e leaders subs' e'"
    using handle_commit_chain [OF assms(4,9,7)] by blast
  have "both_know d e L" if "L \<in> set leaders" for L
    using assms(8,9) that by (simp add: both_know_def leaders_ready_def)
  then have "subs' = subs \<and> commits_alike d' e'"
    using alike_commit_chain [OF assms(1-5) _ _ d(2) e(2)] assms(8) by (simp add: leaders_ready_def)
  with d(1) e(1) show ?thesis by blast
qed

end
