(* ===== verification/Consensus_Agreement.thy ===== *)
theory Consensus_Agreement
  imports Commit_Sequence
begin

section \<open>Agreement on the committed sub-DAGs\<close>

text \<open>
  The composition of the committer and the linearizer, as \<^verbatim>\<open>Core::try_commit\<close> composes them: decide
  leaders, keep the committed ones, expand them into sub-DAGs.
\<close>

definition committed_leaders :: "decided_leader list \<Rightarrow> verified_block list" where
  "committed_leaders decided = List.map_filter into_committed_block decided"

fun committed_of :: "leader_status list \<Rightarrow> verified_block list" where
  "committed_of [] = []"
| "committed_of (Commit b # sts) = b # committed_of sts"
| "committed_of (Skip s # sts) = committed_of sts"
| "committed_of (Undecided s # sts) = committed_of sts"

lemma committed_leaders_of: "committed_leaders xs = committed_of (map decision_of xs)"
proof (induction xs)
  case (Cons x xs)
  then show ?case by (cases x) (simp_all add: committed_leaders_def map_filter_simps)
qed (simp add: committed_leaders_def map_filter_simps)

lemma committed_of_append [simp]: "committed_of (xs @ ys) = committed_of xs @ committed_of ys"
  by (induction xs rule: committed_of.induct) simp_all

lemma set_committed_of: "b \<in> set (committed_of sts) \<longleftrightarrow> Commit b \<in> set sts"
  by (induction sts rule: committed_of.induct) auto

lemma committed_of_length: "length (committed_of sts) \<le> length sts"
  by (induction sts rule: committed_of.induct) auto

lemma committed_of_sorted:
  assumes "sorted_wrt (<) (map leader_status_round sts)" "\<And>st. st \<in> set sts \<Longrightarrow> r < leader_status_round st"
  shows "sorted_wrt (<) (r # map vb_round (committed_of sts))"
proof -
  have "sorted_wrt (<) (map vb_round (committed_of sts))"
    using assms(1)
  proof (induction sts rule: committed_of.induct)
    case (2 b sts)
    then show ?case by (fastforce simp: set_committed_of)
  qed simp_all
  moreover have "r < vb_round b" if "b \<in> set (committed_of sts)" for b
    using assms(2) [of "Commit b"] that by (simp add: set_committed_of)
  ultimately show ?thesis by simp
qed

subsection \<open>One leader per round\<close>

definition single_leader :: "leader_rand \<Rightarrow> base_committer list \<Rightarrow> bool" where
  "single_leader R cs \<longleftrightarrow> (\<forall>r. length (elected R cs r) \<le> 1)"

text \<open>The pipelined committer with one leader per round, as \<^verbatim>\<open>Core::new\<close> builds it, has that property.\<close>

lemma elect_round_offset:
  assumes "bc_elect_leader R c r = Some (Some s)" "three_rounds c"
  shows "r mod 3 = bo_round_offset (bc_options c)"
proof -
  define k where "k = bo_round_offset (bc_options c)"
  have k: "k < 3" using assms(2) by (simp add: three_rounds_def k_def)
  have "leader_round c ((r - k) div 3) = r"
    using assms by (auto simp: bc_elect_leader_def wave_number_def three_rounds_def k_def split: bind_splits if_splits)
  then have eq: "((r - k) div 3 * 3 mod 2 ^ 32 + k) mod 2 ^ 32 = r"
    unfolding leader_round_def u32_add_def u32_mul_def k_def [symmetric] using assms(2) by (simp only: three_rounds_def)
  have "r < 2 ^ 32" using eq mod_less_divisor [of "2 ^ 32"] by (metis zero_less_numeral zero_less_power)
  moreover have "(r - k) div 3 * 3 \<le> r" by simp
  ultimately have small: "(r - k) div 3 * 3 mod 2 ^ 32 = (r - k) div 3 * 3" by simp
  have "(r - k) div 3 * 3 + k = r"
  proof (cases "k \<le> r")
    case True
    then have "(r - k) div 3 * 3 + k \<le> r" using div_times_less_eq_dividend [of "r - k" 3] by linarith
    then show ?thesis using eq small \<open>r < 2 ^ 32\<close> by simp
  next
    case False
    then show ?thesis using eq small k by simp
  qed
  then have "r = k + (r - k) div 3 * 3" by simp
  then have "r mod 3 = k mod 3" by (metis mod_mult_self1 mult.commute)
  then show ?thesis using k by (simp add: k_def)
qed

lemma pipeline_single_leader:
  "single_leader R (uc_committers (universal_committer_build (with_pipeline True (universal_committer_builder_new ctx ls))))"
proof -
  let ?c = "\<lambda>k. base_committer_new ctx ls \<lparr>bo_wave_length = 3, bo_leader_offset = 0, bo_round_offset = k\<rparr>"
  have cs: "uc_committers (universal_committer_build (with_pipeline True (universal_committer_builder_new ctx ls))) = map ?c [0..<3]"
    by (simp add: universal_committer_build_def with_pipeline_def universal_committer_builder_new_def Let_def concat_map_singleton)
  have el: "r mod 3 = k" if "bc_elect_leader R (?c k) r = Some (Some s)" "k < 3" for k r s
    using elect_round_offset [OF that(1)] that(2) by (simp add: three_rounds_def base_committer_new_def)
  have "length (elected R (map ?c [0..<3]) r) \<le> 1" for r
  proof -
    have split: "elected R (map ?c [0..<3]) r = elected R [?c 0] r @ elected R [?c 1] r @ elected R [?c 2] r"
    proof -
      have "map ?c [0..<3] = [?c 0] @ [?c 1] @ [?c 2]" by (simp add: upt_rec numeral_2_eq_2)
      then show ?thesis by (simp only: elected_append)
    qed
    have none: "elected R [?c k] r = []" if k: "k < 3" "r mod 3 \<noteq> k" for k
    proof -
      have "bc_elect_leader R (?c k) r \<noteq> Some (Some s)" for s using el [of k r s] k by blast
      then show ?thesis by (simp add: elected_def map_filter_simps split: option.split)
    qed
    have le: "length (elected R [?c k] r) \<le> 1" for k
      by (simp add: elected_def map_filter_simps split: option.split)
    consider "r mod 3 = 0" | "r mod 3 = 1" | "r mod 3 = 2" by linarith
    then show ?thesis unfolding split using le none [of 0] none [of 1] none [of 2] by cases simp_all
  qed
  then show ?thesis by (simp add: single_leader_def cs)
qed

lemma visited_rounds:
  assumes "single_leader R (uc_committers uc)"
  shows "sorted_wrt (<) (slot_round s # map (slot_round \<circ> snd) (visited R uc d s))"
    and "length (visited R uc d s) \<le> ds_highest_accepted_round d"
proof -
  have round: "slot_round (snd p) = r" if "p \<in> set (elected R (uc_committers uc) r)" for p r
    using elected_slot(2) [of "fst p" "snd p"] that by simp
  have one: "length (elected R (uc_committers uc) r) \<le> 1" for r using assms by (simp add: single_leader_def)
  have "sorted_wrt (<) (lo # map (slot_round \<circ> snd) (concat (map (elected R (uc_committers uc)) [Suc lo..<hi])))
      \<and> length (concat (map (elected R (uc_committers uc)) [Suc lo..<hi])) \<le> hi - Suc lo" for lo hi
  proof (induction "hi - Suc lo" arbitrary: lo)
    case (Suc n)
    then have upt: "[Suc lo..<hi] = Suc lo # [Suc (Suc lo)..<hi]" by (intro upt_conv_Cons) simp
    have IH: "sorted_wrt (<) (Suc lo # map (slot_round \<circ> snd) (concat (map (elected R (uc_committers uc)) [Suc (Suc lo)..<hi])))"
        "length (concat (map (elected R (uc_committers uc)) [Suc (Suc lo)..<hi])) \<le> hi - Suc (Suc lo)"
      using Suc(1) [of "Suc lo"] Suc(2) by auto
    show ?case
    proof (cases "elected R (uc_committers uc) (Suc lo)")
      case Nil
      then show ?thesis using IH upt by fastforce
    next
      case (Cons p ps)
      then have "ps = []" "slot_round (snd p) = Suc lo" using one [of "Suc lo"] round [of p "Suc lo"] by auto
      then show ?thesis using IH upt Cons Suc(2) by fastforce
    qed
  qed simp
  from this [of "slot_round s" "Suc (ds_highest_accepted_round d - 2)"]
  show "sorted_wrt (<) (slot_round s # map (slot_round \<circ> snd) (visited R uc d s))"
    and "length (visited R uc d s) \<le> ds_highest_accepted_round d"
    by (auto simp: visited_def)
qed

lemma decided_ready:
  assumes pass: "pass_ok d (visited R uc d s) sts" and single: "single_leader R (uc_committers uc)"
    and last: "last_commit_round d \<le> slot_round s" "last_commit_index d + ds_highest_accepted_round d < 2 ^ 32"
  shows "leaders_ready d (committed_of (takeWhile is_decided sts))"
proof -
  let ?v = "visited R uc d s" and ?ds = "takeWhile is_decided sts"
  have len: "length sts = length ?v" using pass by (simp add: pass_ok_def)
  have ok: "status_ok d (?v ! i) (sts ! i) (drop (Suc i) sts)" if "i < length sts" for i
    using pass that by (simp add: pass_ok_def)
  then have "leader_status_round (sts ! i) = slot_round (snd (?v ! i))" if "i < length sts" for i
    using that unfolding status_ok_def by blast
  then have rounds: "map leader_status_round sts = map (slot_round \<circ> snd) ?v"
    using len by (intro nth_equalityI) simp_all
  have split: "sts = ?ds @ dropWhile is_decided sts" by simp
  have sorted: "sorted_wrt (<) (slot_round s # map leader_status_round sts)"
    using visited_rounds(1) [OF single, of s d] rounds by simp
  then have "sorted_wrt (<) (map leader_status_round ?ds)"
    by (metis sorted_wrt_append map_append split sorted_wrt.simps(2))
  moreover have "last_commit_round d < leader_status_round st" if "st \<in> set ?ds" for st
    using sorted last(1) set_takeWhileD [OF that] by fastforce
  ultimately have "sorted_wrt (<) (last_commit_round d # map vb_round (committed_of ?ds))"
    by (rule committed_of_sorted)
  moreover have "get_block d (vb_reference L) = Some L" if L: "L \<in> set (committed_of ?ds)" for L
  proof -
    have "Commit L \<in> set sts" using L set_takeWhileD by (fastforce simp: set_committed_of)
    then obtain i where i: "i < length sts" "sts ! i = Commit L" by (auto simp: in_set_conv_nth)
    from ok [OF i(1)] i(2) show ?thesis by (simp add: status_ok_def)
  qed
  moreover have "length (committed_of ?ds) \<le> ds_highest_accepted_round d"
    using committed_of_length [of ?ds] length_takeWhile_le [of is_decided sts] len visited_rounds(2) [OF single, of d s] by simp
  ultimately show ?thesis using last(2) by (simp add: leaders_ready_def)
qed

subsection \<open>End-to-end agreement\<close>

lemma commit_chain_append:
  assumes "commit_chain hash bcs lin d (Ls @ Ms) subs d'"
  shows "\<exists>subs1 subs2 d1. subs = subs1 @ subs2 \<and> commit_chain hash bcs lin d Ls subs1 d1 \<and> commit_chain hash bcs lin d1 Ms subs2 d'"
  using assms
proof (induction Ls arbitrary: d subs)
  case (Cons L Ls)
  obtain sub ss where "subs = sub # ss" using Cons.prems by (cases subs) auto
  with Cons.prems obtain d2 where d2: "subs = sub # ss" "committed_step hash bcs lin d L sub d2"
      "commit_chain hash bcs lin d2 (Ls @ Ms) ss d'" by auto
  from Cons.IH [OF d2(3)] obtain subs1 subs2 d1 where "ss = subs1 @ subs2" "commit_chain hash bcs lin d2 Ls subs1 d1"
      "commit_chain hash bcs lin d1 Ms subs2 d'" by blast
  with d2 show ?case by (intro exI [of _ "sub # subs1"] exI [of _ subs2] exI [of _ d1]) auto
next
  case Nil
  then show ?case by (intro exI [of _ "[]"] exI [of _ subs] exI [of _ d]) simp
qed

lemma alike_commits_sym:
  assumes "commits_alike d e"
  shows "commits_alike e d"
  using assms commits_alikeD(3) [OF assms] unfolding commits_alike_def by metis

lemma sub_dags_prefix:
  assumes "commits_alike d e" "0 < ctx_gc_depth (ds_context d)" "can_commit bcs lin d" "can_commit bcs lin' e"
    and "lin_epoch_base_index lin' = lin_epoch_base_index lin" "leaders_ready d Ls" "leaders_ready e (Ls @ Ms)"
    and "commit_chain hash bcs lin d Ls subs d'" "commit_chain hash bcs lin' e (Ls @ Ms) subs' e'"
  shows "prefix subs subs'"
proof -
  obtain subs1 subs2 e1 where s: "subs' = subs1 @ subs2" "commit_chain hash bcs lin' e Ls subs1 e1"
    using commit_chain_append [OF assms(9)] by blast
  have "both_know d e L" if "L \<in> set Ls" for L
    using assms(6,7) that by (simp add: both_know_def leaders_ready_def)
  then have "subs1 = subs"
    using alike_commit_chain [OF assms(1-5) _ _ assms(8) s(2)] assms(6) by (simp add: leaders_ready_def)
  then show ?thesis using s(1) by simp
qed

text \<open>C1: agreement of the whole commit path.  Two authorities with views of one execution (faulty stake
  at most f) that have the same commits so far and continue from the same last decided slot each
  decide leaders and expand the committed ones into sub-DAGs, without panic, and the sequence of
  sub-DAGs handed to execution by one is a prefix of that of the other.  Both run with one leader per
  round and elect the same leaders, and rounds and commit indices are away from the end of \<^verbatim>\<open>u32\<close>.\<close>

theorem sub_dag_agreement:
  assumes "same_dag byz d e" "commits_alike d e" "0 < ctx_gc_depth (ds_context d)"
    and "slot_round s < 2 ^ 32 - 1" "last_commit_round d \<le> slot_round s"
    and "committers_ok R (uc_committers uc) d" "committers_ok R (uc_committers uc') e"
    and "same_elections R (uc_committers uc) (uc_committers uc')"
    and "single_leader R (uc_committers uc)" "single_leader R (uc_committers uc')"
    and "ctx_mysticeti_num_leaders_per_round (uc_context uc) = Some 1"
    and "ctx_mysticeti_num_leaders_per_round (uc_context uc') = Some 1"
    and "ds_highest_accepted_round d < 2 ^ 32 - 4" "ds_highest_accepted_round e < 2 ^ 32 - 4"
    and "last_commit_index d + ds_highest_accepted_round d < 2 ^ 32" "last_commit_index e + ds_highest_accepted_round e < 2 ^ 32"
    and "can_commit bcs lin d" "can_commit bcs lin' e" "lin_epoch_base_index lin' = lin_epoch_base_index lin"
    and "lin_deferred_leaders lin = []" "lin_deferred_leaders lin' = []"
  shows "\<exists>xs ys subs subs' d' e'. try_decide R uc d s = Some xs \<and> try_decide R uc' e s = Some ys \<and>
     handle_commit hash bcs lin d (committed_leaders xs) = Some (subs, lin, d') \<and>
     handle_commit hash bcs lin' e (committed_leaders ys) = Some (subs', lin', e') \<and>
     (prefix subs subs' \<or> prefix subs' subs)"
proof -
  note a = commits_alikeD [OF assms(2)]
  have last: "last_commit_round e \<le> slot_round s" using assms(5) a(4) by (simp add: last_commit_round_def)
  have gc: "gc_round d \<le> slot_round s" "gc_round e \<le> slot_round s"
    using gc_le_last_commit [of d] assms(5) a(3) by simp_all
  obtain xs ys sts sts' where t: "try_decide R uc d s = Some xs" "try_decide R uc' e s = Some ys"
      "pass_ok d (visited R uc d s) sts" "map decision_of xs = takeWhile is_decided sts"
      "pass_ok e (visited R uc' e s) sts'" "map decision_of ys = takeWhile is_decided sts'"
      "prefix (map decision_of xs) (map decision_of ys) \<or> prefix (map decision_of ys) (map decision_of xs)"
    using try_decide_agree_exact [OF assms(1,4,6-8,11,12) gc assms(13,14)] by blast
  let ?xs = "committed_leaders xs" and ?ys = "committed_leaders ys"
  have ready: "leaders_ready d ?xs" "leaders_ready e ?ys"
    using decided_ready [OF t(3) assms(9,5,15)] decided_ready [OF t(5) assms(10) last assms(16)]
    by (simp_all add: committed_leaders_of t(4,6))
  obtain subs d' where x: "handle_commit hash bcs lin d ?xs = Some (subs, lin, d')" "commit_chain hash bcs lin d ?xs subs d'"
    using handle_commit_chain [OF assms(17) ready(1) assms(20)] by blast
  obtain subs' e' where y: "handle_commit hash bcs lin' e ?ys = Some (subs', lin', e')" "commit_chain hash bcs lin' e ?ys subs' e'"
    using handle_commit_chain [OF assms(18) ready(2) assms(21)] by blast
  have depth: "0 < ctx_gc_depth (ds_context e)" using assms(2,3) by (simp add: commits_alike_def)
  have "prefix subs subs' \<or> prefix subs' subs"
    using t(7)
  proof
    assume "prefix (map decision_of xs) (map decision_of ys)"
    then obtain Ms where Ms: "?ys = ?xs @ Ms" by (auto simp: committed_leaders_of prefix_def)
    show ?thesis
      using sub_dags_prefix [OF assms(2,3,17-19) ready(1) _ x(2)] ready(2) y(2) unfolding Ms by blast
  next
    assume "prefix (map decision_of ys) (map decision_of xs)"
    then obtain Ms where Ms: "?xs = ?ys @ Ms" by (auto simp: committed_leaders_of prefix_def)
    show ?thesis
      using sub_dags_prefix [OF alike_commits_sym [OF assms(2)] depth assms(18,17) assms(19) [symmetric] ready(2) _ y(2)] ready(1) x(2)
      unfolding Ms by blast
  qed
  with t(1,2) x(1) y(1) show ?thesis by blast
qed

end
