(* ===== verification/Example_Commits.thy ===== *)
theory Example_Commits
  imports Consensus_Agreement
begin

section \<open>Commits of the concrete execution\<close>

text \<open>The theorems on the linearizer at the states of \<open>Example_Dag\<close>.\<close>

definition linearizer4 :: linearizer where
  "linearizer4 = set_epoch_base_index 100 (linearizer_new context4)"

lemma linearizer4_simps [simp]:
  "lin_context linearizer4 = context4" "lin_epoch_base_index linearizer4 = 100" "lin_deferred_leaders linearizer4 = []"
  by (simp_all add: linearizer4_def set_epoch_base_index_def linearizer_new_def)

lemma grid_last_commit: "grid_upto n m d \<Longrightarrow> last_commit_round d = 0" "grid_upto n m d \<Longrightarrow> last_commit_index d = 0"
  by (simp_all add: grid_upto_def last_commit_round_def last_commit_index_def)

lemma grid_can_commit: "grid_upto n m d \<Longrightarrow> can_commit (\<lambda>_. Some []) linearizer4 d"
  by (simp add: can_commit_def grid_upto_def commit_inv_def)

lemma grid_alike: "grid_upto n 4 d \<Longrightarrow> grid_upto k 4 e \<Longrightarrow> commits_alike d e"
proof -
  assume g: "grid_upto n 4 d" "grid_upto k 4 e"
  have "get_block e r = get_block d r" if "br_round r = 0" for r
  proof -
    have "get_block f r = (if br_digest r = 7 \<and> br_author r < 4 then Some (grid_block 0 (br_author r)) else None)"
      if f: "grid_upto l 4 f" for l f
    proof (cases "get_block f r")
      case None
      have "\<not> (br_digest r = 7 \<and> br_author r < 4)"
        using None grid_get [OF f, of r "grid_block 0 (br_author r)"] \<open>br_round r = 0\<close> by (cases r) auto
      then show ?thesis using None by simp
    next
      case (Some b)
      then show ?thesis using grid_get [OF f, of r b] \<open>br_round r = 0\<close> by auto
    qed
    from this [OF g(1)] this [OF g(2)] show ?thesis by simp
  qed
  moreover have "dag_view d" "dag_view e" "ds_context d = context4" "ds_context e = context4"
      "ds_last_commit d = None" "ds_last_commit e = None" "\<And>r. \<not> is_committed d r" "\<And>r. \<not> is_committed e r"
    using g by (simp_all add: grid_upto_def)
  moreover have "x = y" if "get_block d r = Some x" "get_block e r = Some y" for r x y
    using same_dagD(5) [OF grid_same_dag [OF g] that] .
  ultimately show ?thesis unfolding commits_alike_def by simp
qed

lemma grid_known: "grid_upto n 4 d \<Longrightarrow> k \<le> n \<Longrightarrow> i < 4 \<Longrightarrow> get_block d (BlockRef k i 7) = Some (grid_block k i)"
  using grid_get [of n 4 d "BlockRef k i 7" "grid_block k i"] by auto

theorem linearize_sub_dag_spec_witness:
  "\<exists>d bs d'. accept_blocks dag4 (grid 3) 5 = Some d \<and>
     linearize_sub_dag dag_state_api (grid_block 2 1) d = Some (bs, d') \<and> dag_view d' \<and>
     vb_reference ` set bs = commit_reach (get_block d) 0 (is_committed d) (BlockRef 2 1 7)"
proof -
  obtain d where d: "accept_blocks dag4 (grid 3) 5 = Some d" "grid_upto 3 4 d" using grid_accepted [of 3] by auto
  have "dag_view d" "\<not> is_committed d (vb_reference (grid_block 2 1))" "gc_round d < vb_round (grid_block 2 1)"
      "get_block d (vb_reference (grid_block 2 1)) = Some (grid_block 2 1)"
    using d(2) grid_gc [OF d(2)] grid_known [OF d(2), of 2 1] by (simp_all add: grid_upto_def)
  from linearize_sub_dag_spec [OF this(1,4,3,2)] d(1) grid_gc [OF d(2)] show ?thesis by auto
qed

lemma stake_of_three: "stake_of committee4 {0, 1, 2} = 3" "stake_of committee4 {3} = 1"
proof -
  have "{0, 1, 2} \<inter> {..<4} = {0, 1, 2 :: nat}" "{3} \<inter> {..<4} = {3 :: nat}" by auto
  then show "stake_of committee4 {0, 1, 2} = 3" "stake_of committee4 {3} = 1" by (simp_all add: stake_of_committee4)
qed

theorem median_timestamp_honest_witness:
  "\<exists>t x y. median_timestamp_by_stake context4 (map (grid_block 1) [0, 1, 2]) = Some (Inr t) \<and>
     x \<in> set (map (grid_block 1) [0, 1, 2]) \<and> vb_timestamp_ms x \<le> t \<and>
     y \<in> set (map (grid_block 1) [0, 1, 2]) \<and> t \<le> vb_timestamp_ms y"
proof -
  have a: "distinct (map vb_author (map (grid_block 1) [0, 1, 2]))" by simp
  have b: "vb_author b < committee_size (ctx_committee context4)" if "b \<in> set (map (grid_block 1) [0, 1, 2])" for b
    using that by auto
  have c: "stake_of (ctx_committee context4) {3} \<le> fault_tolerance (ctx_committee context4)"
    using stake_of_three(2) by (simp add: fault_tolerance_def) (simp add: committee4_def)
  have "vb_author ` set (map (grid_block 1) [0, 1, 2]) = {0, 1, 2}" by auto
  then have "reached_quorum (ctx_committee context4) (stake_of (ctx_committee context4) (vb_author ` set (map (grid_block 1) [0, 1, 2])))"
    using stake_of_three(1) by (simp add: reached_quorum_def) (simp add: committee4_def)
  with median_timestamp_honest [OF _ a b c] committee4_wf show ?thesis by (simp only: context4_committee) blast
qed

lemma grid_leaders_ready: "grid_upto 5 4 d \<Longrightarrow> leaders_ready d [grid_block 1 0, grid_block 3 2]"
  using grid_known [of 5 d 1 0] grid_known [of 5 d 3 2] grid_last_commit [of 5 4 d] by (simp add: leaders_ready_def)

theorem handle_commit_spec_witness:
  "\<exists>d subs d'. accept_blocks dag4 (grid 5) 5 = Some d \<and>
     handle_commit (\<lambda>_. 9) (\<lambda>_. Some []) linearizer4 d [grid_block 1 0, grid_block 3 2] = Some (subs, linearizer4, d') \<and>
     map (cr_index \<circ> csd_commit_ref) subs = [1, 2] \<and> distinct (concat (map (map vb_reference \<circ> csd_blocks) subs))"
proof -
  obtain d where d: "accept_blocks dag4 (grid 5) 5 = Some d" "grid_upto 5 4 d" using grid_accepted [of 5] by auto
  from handle_commit_spec [OF grid_can_commit [OF d(2)] grid_leaders_ready [OF d(2)] linearizer4_simps(3), of "\<lambda>_. 9"]
  obtain subs d' where s: "handle_commit (\<lambda>_. 9) (\<lambda>_. Some []) linearizer4 d [grid_block 1 0, grid_block 3 2] = Some (subs, linearizer4, d')"
      "map (cr_index \<circ> csd_commit_ref) subs
        = [last_commit_index d + 1..<last_commit_index d + 1 + length [grid_block 1 0, grid_block 3 2]]"
      "distinct (concat (map (map vb_reference \<circ> csd_blocks) subs))" by blast
  have "[last_commit_index d + 1..<last_commit_index d + 1 + length [grid_block 1 0, grid_block 3 2]] = [1, 2]"
    using grid_last_commit(2) [OF d(2)] by (simp add: upt_rec)
  with s d(1) show ?thesis by metis
qed

theorem handle_commit_agreement_witness:
  "\<exists>d e subs d' e'. accept_blocks dag4 (grid 5) 5 = Some d \<and> accept_blocks dag4 (grid 5) 5 = Some e \<and>
     handle_commit (\<lambda>_. 9) (\<lambda>_. Some []) linearizer4 d [grid_block 1 0, grid_block 3 2] = Some (subs, linearizer4, d') \<and>
     handle_commit (\<lambda>_. 9) (\<lambda>_. Some []) linearizer4 e [grid_block 1 0, grid_block 3 2] = Some (subs, linearizer4, e') \<and>
     commits_alike d' e'"
proof -
  obtain d where d: "accept_blocks dag4 (grid 5) 5 = Some d" "grid_upto 5 4 d" using grid_accepted [of 5] by auto
  have "0 < ctx_gc_depth (ds_context d)" using d(2) by (simp add: grid_upto_def) (simp add: context4_def)
  from handle_commit_agreement [OF grid_alike [OF d(2) d(2)] this grid_can_commit [OF d(2)] grid_can_commit [OF d(2)]
      refl linearizer4_simps(3) linearizer4_simps(3) grid_leaders_ready [OF d(2)] grid_leaders_ready [OF d(2)], of "\<lambda>_. 9"]
  show ?thesis using d(1) by blast
qed

theorem sub_dag_agreement_witness:
  "\<exists>d e xs ys subs subs' d' e'. accept_blocks dag4 (grid 5) 5 = Some d \<and> accept_blocks dag4 (grid 4) 5 = Some e \<and>
     try_decide rand_first universal4 d (Slot 0 0) = Some xs \<and> try_decide rand_first universal4 e (Slot 0 0) = Some ys \<and>
     handle_commit (\<lambda>_. 9) (\<lambda>_. Some []) linearizer4 d (committed_leaders xs) = Some (subs, linearizer4, d') \<and>
     handle_commit (\<lambda>_. 9) (\<lambda>_. Some []) linearizer4 e (committed_leaders ys) = Some (subs', linearizer4, e') \<and>
     (prefix subs subs' \<or> prefix subs' subs)"
proof -
  obtain d where d: "accept_blocks dag4 (grid 5) 5 = Some d" "grid_upto 5 4 d" using grid_accepted [of 5] by auto
  obtain e where e: "accept_blocks dag4 (grid 4) 5 = Some e" "grid_upto 4 4 e" using grid_accepted [of 4] by auto
  have h: "ds_highest_accepted_round d \<le> 5" "ds_highest_accepted_round e \<le> 4" using d(2) e(2) by (simp_all add: grid_upto_def)
  have depth: "0 < ctx_gc_depth (ds_context d)" using d(2) by (simp add: grid_upto_def) (simp add: context4_def)
  have same: "same_elections rand_first (uc_committers universal4) (uc_committers universal4)"
    by (simp add: same_elections_def list.rel_refl)
  have n: "ctx_mysticeti_num_leaders_per_round (uc_context universal4) = Some 1"
    by (simp add: universal4_def universal_committer_build_def with_pipeline_def universal_committer_builder_new_def context4_def)
  have single: "single_leader rand_first (uc_committers universal4)"
    unfolding universal4_def by (rule pipeline_single_leader)
  have "\<exists>xs ys subs subs' d' e'. try_decide rand_first universal4 d (Slot 0 0) = Some xs \<and>
      try_decide rand_first universal4 e (Slot 0 0) = Some ys \<and>
      handle_commit (\<lambda>_. 9) (\<lambda>_. Some []) linearizer4 d (committed_leaders xs) = Some (subs, linearizer4, d') \<and>
      handle_commit (\<lambda>_. 9) (\<lambda>_. Some []) linearizer4 e (committed_leaders ys) = Some (subs', linearizer4, e') \<and>
      (prefix subs subs' \<or> prefix subs' subs)"
    by (rule sub_dag_agreement [OF grid_same_dag [OF d(2) e(2)] grid_alike [OF d(2) e(2)] depth _ _
        universal4_committers_ok [OF d(2)] universal4_committers_ok [OF e(2)] same single single n n _ _ _ _
        grid_can_commit [OF d(2)] grid_can_commit [OF e(2)] refl linearizer4_simps(3) linearizer4_simps(3)])
      (use h grid_last_commit [OF d(2)] grid_last_commit [OF e(2)] in simp_all)
  with d(1) e(1) show ?thesis by blast
qed

end
