(* ===== verification/Block_Manager.thy ===== *)
theory Block_Manager
  imports Dag_Reachable
begin

section \<open>The block manager\<close>

text \<open>
  \<^verbatim>\<open>core/src/block_manager.rs\<close>.  Blocks whose ancestors are not all in the DAG state are suspended
  until they are.  The DAG state is shared with other components, so every operation takes it and
  returns it.  \<open>None\<close> is a panic; the look-ups of an authority's host name for the metrics are kept,
  since they index the committee.  The time at which a block was suspended is used only by metrics
  and left out, \<open>now\<close> is the time the threshold clock records.
\<close>

subsection \<open>State\<close>

record suspended_block =
  su_block :: verified_block
  su_missing :: "block_ref btree_set"

record block_manager =
  bm_context :: consensus_context
  bm_suspended :: "(block_ref, suspended_block) btree_map"
  bm_missing_ancestors :: "(block_ref, block_ref btree_set) btree_map"
  bm_missing_blocks :: "block_ref btree_set"
  bm_received_block_rounds :: "(Round \<times> Round) option list"

datatype try_accept_result =
  Accepted verified_block | Suspended "block_ref btree_set" | Processed | Skipped

abbreviation (input) MAX_SUSPENDED_BLOCKS_PER_AUTHORITY :: nat where
  "MAX_SUSPENDED_BLOCKS_PER_AUTHORITY \<equiv> 10000"

definition bts_remove :: "'k \<Rightarrow> 'k btree_set \<Rightarrow> 'k btree_set" where
  "bts_remove k s = filter (\<lambda>x. x \<noteq> k) s"

definition block_manager_new :: "consensus_context \<Rightarrow> block_manager" where
  "block_manager_new ctx =
     \<lparr>bm_context = ctx, bm_suspended = [], bm_missing_ancestors = [], bm_missing_blocks = [],
      bm_received_block_rounds = replicate (committee_size (ctx_committee ctx)) None\<rparr>"

abbreviation bm_authority :: "block_manager \<Rightarrow> AuthorityIndex \<Rightarrow> authority option" where
  "bm_authority bm i \<equiv> committee_authority (ctx_committee (bm_context bm)) i"

subsection \<open>One block\<close>

text \<open>One iteration of the loop over the ancestors that are not in the DAG state.\<close>

definition note_missing ::
  "block_ref \<Rightarrow> block_ref \<Rightarrow> block_ref btree_set \<times> block_ref btree_set \<times> block_manager \<Rightarrow>
   (block_ref btree_set \<times> block_ref btree_set \<times> block_manager) option" where
  "note_missing block_ref ancestor = (\<lambda>(missing_ancestors, ancestors_to_fetch, bm). do {
     let missing_ancestors = bts_insert ancestor missing_ancestors;
     let children = (case btm_get (bm_missing_ancestors bm) ancestor of Some cs \<Rightarrow> cs | None \<Rightarrow> []);
     let bm = bm\<lparr>bm_missing_ancestors :=
       btm_insert ancestor (bts_insert block_ref children) (bm_missing_ancestors bm)\<rparr>;
     _ \<leftarrow> bm_authority bm (br_author ancestor);
     if btm_get (bm_suspended bm) ancestor = None
     then Some (missing_ancestors, bts_insert ancestor ancestors_to_fetch,
                bm\<lparr>bm_missing_blocks := bts_insert ancestor (bm_missing_blocks bm)\<rparr>)
     else Some (missing_ancestors, ancestors_to_fetch, bm)
   })"

definition try_accept_one_block ::
  "dag_state \<Rightarrow> block_manager \<Rightarrow> verified_block \<Rightarrow> (try_accept_result \<times> block_manager) option" where
  "try_accept_one_block d bm block =
     (let block_ref = vb_reference block;
          max_suspended = u64_mul MAX_SUSPENDED_BLOCKS_PER_AUTHORITY
            (committee_size (ctx_committee (bm_context bm)))
      in if length (bm_suspended bm) \<ge> max_suspended
         then do { _ \<leftarrow> bm_authority bm (vb_author block); Some (Skipped, bm) }
         else if btm_get (bm_suspended bm) block_ref \<noteq> None then Some (Processed, bm)
         else do {
           known \<leftarrow> contains_block d block_ref;
           if known then Some (Processed, bm)
           else if vb_round block \<le> gc_round d
           then do { _ \<leftarrow> bm_authority bm (vb_author block); Some (Skipped, bm) }
           else do {
             let ancestors = filter (\<lambda>a. br_round a = GENESIS_ROUND \<or> br_round a > gc_round d)
               (vb_ancestors block);
             found \<leftarrow> contains_blocks d ancestors;
             (missing_ancestors, ancestors_to_fetch, bm) \<leftarrow>
               fold_opt (\<lambda>(f, a) s. if \<not> f then note_missing block_ref a s else Some s)
                 (zip found ancestors) ([], [], bm);
             let bm = bm\<lparr>bm_missing_blocks := bts_remove block_ref (bm_missing_blocks bm)\<rparr>;
             if missing_ancestors \<noteq> []
             then do {
               _ \<leftarrow> bm_authority bm (vb_author block);
               Some (Suspended ancestors_to_fetch,
                 bm\<lparr>bm_suspended := btm_insert block_ref
                   \<lparr>su_block = block, su_missing = missing_ancestors\<rparr> (bm_suspended bm)\<rparr>)
             }
             else Some (Accepted block, bm)
           }
         })"

definition forget_child :: "block_ref \<Rightarrow> block_ref \<Rightarrow> block_manager \<Rightarrow> block_manager" where
  "forget_child block_ref ancestor bm =
     (case btm_get (bm_missing_ancestors bm) ancestor of
        Some references \<Rightarrow> bm\<lparr>bm_missing_ancestors :=
          btm_insert ancestor (bts_remove block_ref references) (bm_missing_ancestors bm)\<rparr>
      | None \<Rightarrow> bm)"

definition try_accept_one_committed_block ::
  "dag_state \<Rightarrow> block_manager \<Rightarrow> verified_block \<Rightarrow> nat \<Rightarrow>
   (try_accept_result \<times> dag_state \<times> block_manager) option" where
  "try_accept_one_committed_block d bm block now = do {
     let block_ref = vb_reference block;
     known \<leftarrow> contains_block d block_ref;
     if known then Some (Processed, d, bm)
     else do {
       let bm = bm\<lparr>bm_missing_blocks := bts_remove block_ref (bm_missing_blocks bm)\<rparr>;
       let bm = (case btm_get (bm_suspended bm) block_ref of
           Some suspended \<Rightarrow> fold (forget_child block_ref) (su_missing suspended)
             (bm\<lparr>bm_suspended := btm_remove block_ref (bm_suspended bm)\<rparr>)
         | None \<Rightarrow> bm);
       d' \<leftarrow> accept_blocks d [block] now;
       Some (Accepted block, d', bm)
     }
   }"

subsection \<open>Unsuspending\<close>

definition try_unsuspend_block ::
  "block_manager \<Rightarrow> block_ref \<Rightarrow> block_ref \<Rightarrow> (suspended_block option \<times> block_manager) option" where
  "try_unsuspend_block bm block_ref accepted_dependency = do {
     block \<leftarrow> btm_get (bm_suspended bm) block_ref;
     if accepted_dependency \<notin> set (su_missing block) then None
     else do {
       let block = block\<lparr>su_missing := bts_remove accepted_dependency (su_missing block)\<rparr>;
       if su_missing block = []
       then Some (Some block, bm\<lparr>bm_suspended := btm_remove block_ref (bm_suspended bm)\<rparr>)
       else Some (None, bm\<lparr>bm_suspended := btm_insert block_ref block (bm_suspended bm)\<rparr>)
     }
   }"

text \<open>The work list is a stack whose top is the head.\<close>

definition unsuspend_child ::
  "block_ref \<Rightarrow> block_ref \<Rightarrow> block_ref list \<times> suspended_block list \<times> block_manager \<Rightarrow>
   (block_ref list \<times> suspended_block list \<times> block_manager) option" where
  "unsuspend_child block_ref r = (\<lambda>(to_process, unsuspended, bm). do {
     (res, bm) \<leftarrow> try_unsuspend_block bm r block_ref;
     case res of
       Some block \<Rightarrow> Some (vb_reference (su_block block) # to_process, unsuspended @ [block], bm)
     | None \<Rightarrow> Some (to_process, unsuspended, bm)
   })"

text \<open>Every child that leaves the suspended blocks enters the stack, so both together never grow.\<close>

lemma set_btm_keys_remove [btree_simps]: "set (btm_keys (btm_remove k m)) = set (btm_keys m) - {k}"
  by (auto simp: btm_keys_def btm_remove_def)

definition suspended_count :: "block_manager \<Rightarrow> nat" where
  "suspended_count bm = card (set (btm_keys (bm_suspended bm)))"

definition missing_count :: "block_manager \<Rightarrow> nat" where
  "missing_count bm = card (set (btm_keys (bm_missing_ancestors bm)))"

lemma try_unsuspend_block_count:
  assumes "try_unsuspend_block bm r dep = Some (res, bm')"
  shows "(case res of None \<Rightarrow> 0 | Some _ \<Rightarrow> 1) + suspended_count bm' \<le> suspended_count bm"
    and "bm_missing_ancestors bm' = bm_missing_ancestors bm"
proof -
  have r: "r \<in> set (btm_keys (bm_suspended bm))"
    using assms by (auto simp: try_unsuspend_block_def btm_key_get split: bind_splits)
  have "suspended_count (bm\<lparr>bm_suspended := btm_remove r (bm_suspended bm)\<rparr>) < suspended_count bm"
    unfolding suspended_count_def using card_Diff1_less [OF _ r] by (simp add: btree_simps)
  moreover have "suspended_count (bm\<lparr>bm_suspended := btm_insert r b (bm_suspended bm)\<rparr>) = suspended_count bm" for b
    using r by (simp add: suspended_count_def btree_simps insert_absorb)
  ultimately show "(case res of None \<Rightarrow> 0 | Some _ \<Rightarrow> 1) + suspended_count bm' \<le> suspended_count bm"
    using assms by (auto simp: try_unsuspend_block_def Let_def split: bind_splits if_splits)
  show "bm_missing_ancestors bm' = bm_missing_ancestors bm"
    using assms by (auto simp: try_unsuspend_block_def Let_def split: bind_splits if_splits)
qed

lemma unsuspend_child_count:
  assumes "unsuspend_child dep r (stack, acc, bm) = Some (stack', acc', bm')"
  shows "length stack' + suspended_count bm' \<le> length stack + suspended_count bm"
    and "bm_missing_ancestors bm' = bm_missing_ancestors bm"
  using assms try_unsuspend_block_count [of bm r dep]
  by (fastforce simp: unsuspend_child_def split: bind_splits option.splits)+

lemma unsuspend_children_count:
  assumes "fold_opt (unsuspend_child dep) rs (stack, acc, bm) = Some (stack', acc', bm')"
  shows "length stack' + suspended_count bm' \<le> length stack + suspended_count bm"
    and "bm_missing_ancestors bm' = bm_missing_ancestors bm"
proof -
  let ?P = "\<lambda>(s, _, m). length s + suspended_count m \<le> length stack + suspended_count bm \<and>
    bm_missing_ancestors m = bm_missing_ancestors bm"
  have "?P (stack', acc', bm')"
    by (rule fold_opt_invariant [OF assms]) (auto dest: unsuspend_child_count)
  then show "length stack' + suspended_count bm' \<le> length stack + suspended_count bm"
    and "bm_missing_ancestors bm' = bm_missing_ancestors bm" by auto
qed

function unsuspend_loop ::
  "block_ref list \<Rightarrow> suspended_block list \<Rightarrow> block_manager \<Rightarrow> (suspended_block list \<times> block_manager) option" where
  "unsuspend_loop [] unsuspended bm = Some (unsuspended, bm)"
| "unsuspend_loop (block_ref # to_process) unsuspended bm =
     (case btm_get (bm_missing_ancestors bm) block_ref of
        None \<Rightarrow> unsuspend_loop to_process unsuspended bm
      | Some children \<Rightarrow>
          (case fold_opt (unsuspend_child block_ref) children (to_process, unsuspended,
                  bm\<lparr>bm_missing_ancestors := btm_remove block_ref (bm_missing_ancestors bm)\<rparr>) of
             None \<Rightarrow> None
           | Some (to_process', unsuspended', bm') \<Rightarrow> unsuspend_loop to_process' unsuspended' bm'))"
  by pat_completeness auto
termination
  by (relation "measure (\<lambda>(stack, _, bm). length stack + suspended_count bm)")
    (auto dest!: unsuspend_children_count(1) simp: suspended_count_def less_Suc_eq_le)

definition try_unsuspend_children_blocks ::
  "block_manager \<Rightarrow> block_ref \<Rightarrow> (verified_block list \<times> block_manager) option" where
  "try_unsuspend_children_blocks bm accepted_block = do {
     (unsuspended_blocks, bm) \<leftarrow> unsuspend_loop [accepted_block] [] bm;
     _ \<leftarrow> map_opt (\<lambda>block. bm_authority bm (vb_author (su_block block))) unsuspended_blocks;
     Some (map su_block unsuspended_blocks, bm)
   }"

lemma unsuspend_loop_missing:
  "unsuspend_loop stack acc bm = Some (acc', bm') \<Longrightarrow>
     set (btm_keys (bm_missing_ancestors bm')) \<subseteq> set (btm_keys (bm_missing_ancestors bm)) - set stack"
proof (induction stack acc bm rule: unsuspend_loop.induct)
  case (2 r stack acc bm)
  show ?case
  proof (cases "btm_get (bm_missing_ancestors bm) r")
    case None
    then have "r \<notin> set (btm_keys (bm_missing_ancestors bm))" by (simp add: btm_key_get)
    with 2(1) [OF None] 2(3) None show ?thesis by auto
  next
    case (Some children)
    let ?bm = "bm\<lparr>bm_missing_ancestors := btm_remove r (bm_missing_ancestors bm)\<rparr>"
    obtain st ac b where f: "fold_opt (unsuspend_child r) children (stack, acc, ?bm) = Some (st, ac, b)"
      and l: "unsuspend_loop st ac b = Some (acc', bm')"
      using 2(3) Some by (auto split: option.splits)
    have "set stack \<subseteq> set st"
    proof -
      have "case (st, ac, b) of (s, _) \<Rightarrow> set stack \<subseteq> set s"
        by (rule fold_opt_invariant [OF f])
          (auto simp: unsuspend_child_def subset_iff split: bind_splits option.splits)
      then show ?thesis by simp
    qed
    with 2(2) [OF Some f refl refl l] unsuspend_children_count(2) [OF f]
    show ?thesis by (auto simp: btree_simps)
  qed
qed simp

subsection \<open>The public operations\<close>

definition update_block_received_metrics :: "block_manager \<Rightarrow> verified_block \<Rightarrow> block_manager option" where
  "update_block_received_metrics bm block = do {
     rounds \<leftarrow> vec_get (bm_received_block_rounds bm) (vb_author block);
     let bounds = (case rounds of
         Some (curr_min, curr_max) \<Rightarrow> (min curr_min (vb_round block), max curr_max (vb_round block))
       | None \<Rightarrow> (vb_round block, vb_round block));
     rounds' \<leftarrow> vec_set (bm_received_block_rounds bm) (vb_author block) (Some bounds);
     _ \<leftarrow> bm_authority bm (vb_author block);
     Some (bm\<lparr>bm_received_block_rounds := rounds'\<rparr>)
   }"

text \<open>The end of one loop iteration: the children of an accepted block, and the DAG state.\<close>

definition accept_with_children ::
  "nat \<Rightarrow> block_ref \<Rightarrow> verified_block list \<Rightarrow> verified_block list \<Rightarrow> dag_state \<Rightarrow> block_manager \<Rightarrow>
   (verified_block list \<times> dag_state \<times> block_manager) option" where
  "accept_with_children now block_ref blocks_to_accept accepted_blocks d bm = do {
     (unsuspended_blocks, bm) \<leftarrow> try_unsuspend_children_blocks bm block_ref;
     let blocks_to_accept = blocks_to_accept @ unsuspended_blocks;
     d \<leftarrow> accept_blocks d blocks_to_accept now;
     Some (accepted_blocks @ blocks_to_accept, d, bm)
   }"

type_synonym accept_state =
  "verified_block list \<times> block_ref btree_set \<times> dag_state \<times> block_manager"

definition accept_step :: "bool \<Rightarrow> nat \<Rightarrow> verified_block \<Rightarrow> accept_state \<Rightarrow> accept_state option" where
  "accept_step committed now block = (\<lambda>(accepted_blocks, missing_blocks, d, bm). do {
     bm \<leftarrow> update_block_received_metrics bm block;
     let block_ref = vb_reference block;
     if committed then do {
       (res, d, bm) \<leftarrow> try_accept_one_committed_block d bm block now;
       case res of
         Accepted b \<Rightarrow> do {
           (accepted_blocks, d, bm) \<leftarrow>
             accept_with_children now block_ref [] (accepted_blocks @ [b]) d bm;
           Some (accepted_blocks, missing_blocks, d, bm)
         }
       | Processed \<Rightarrow> Some (accepted_blocks, missing_blocks, d, bm)
       | _ \<Rightarrow> None
     }
     else do {
       (res, bm) \<leftarrow> try_accept_one_block d bm block;
       case res of
         Accepted b \<Rightarrow> do {
           (accepted_blocks, d, bm) \<leftarrow> accept_with_children now block_ref [b] accepted_blocks d bm;
           Some (accepted_blocks, missing_blocks, d, bm)
         }
       | Suspended ancestors_to_fetch \<Rightarrow>
           Some (accepted_blocks, fold bts_insert ancestors_to_fetch missing_blocks, d, bm)
       | _ \<Rightarrow> Some (accepted_blocks, missing_blocks, d, bm)
     }
   })"

definition try_accept_blocks_internal ::
  "nat \<Rightarrow> dag_state \<Rightarrow> block_manager \<Rightarrow> verified_block list \<Rightarrow> bool \<Rightarrow> accept_state option" where
  "try_accept_blocks_internal now d bm blocks committed =
     fold_opt (accept_step committed now) (sort_key vb_round blocks) ([], [], d, bm)"

definition try_accept_blocks ::
  "nat \<Rightarrow> dag_state \<Rightarrow> block_manager \<Rightarrow> verified_block list \<Rightarrow> accept_state option" where
  "try_accept_blocks now d bm blocks = try_accept_blocks_internal now d bm blocks False"

definition try_accept_committed_blocks ::
  "nat \<Rightarrow> dag_state \<Rightarrow> block_manager \<Rightarrow> verified_block list \<Rightarrow>
   (verified_block list \<times> dag_state \<times> block_manager) option" where
  "try_accept_committed_blocks now d bm blocks = do {
     (accepted_blocks, missing_blocks, d, bm) \<leftarrow> try_accept_blocks_internal now d bm blocks True;
     if missing_blocks \<noteq> [] then None else Some (accepted_blocks, d, bm)
   }"

definition find_missing ::
  "bool \<times> block_ref \<Rightarrow> block_ref btree_set \<times> block_manager \<Rightarrow> (block_ref btree_set \<times> block_manager) option" where
  "find_missing = (\<lambda>(found, block_ref) (missing_blocks, bm).
     if found \<or> btm_get (bm_suspended bm) block_ref \<noteq> None then Some (missing_blocks, bm)
     else
       let missing_blocks = bts_insert block_ref missing_blocks in
       if block_ref \<in> set (bm_missing_blocks bm) then Some (missing_blocks, bm)
       else do {
         _ \<leftarrow> bm_authority bm (br_author block_ref);
         Some (missing_blocks,
           bm\<lparr>bm_missing_blocks := bts_insert block_ref (bm_missing_blocks bm),
              bm_missing_ancestors :=
                (if btm_get (bm_missing_ancestors bm) block_ref = None
                 then btm_insert block_ref [] (bm_missing_ancestors bm)
                 else bm_missing_ancestors bm)\<rparr>)
       })"

definition try_find_blocks ::
  "dag_state \<Rightarrow> block_manager \<Rightarrow> block_ref list \<Rightarrow> (block_ref btree_set \<times> block_manager) option" where
  "try_find_blocks d bm block_refs =
     (let block_refs = filter (\<lambda>r. br_round r > gc_round d) block_refs in
      if block_refs = [] then Some ([], bm)
      else do {
        let block_refs = sort_key br_round block_refs;
        found \<leftarrow> contains_blocks d block_refs;
        fold_opt find_missing (zip found block_refs) ([], bm)
      })"

text \<open>The loop of \<^verbatim>\<open>try_unsuspend_blocks_for_latest_gc_round\<close>: every iteration removes the first key.\<close>

lemma try_unsuspend_children_count:
  assumes "try_unsuspend_children_blocks (bm\<lparr>bm_missing_blocks := m\<rparr>) r = Some (bs, bm')"
    and "bm_missing_ancestors bm = (r, v) # rest"
  shows "missing_count bm' < missing_count bm"
proof -
  obtain acc where "unsuspend_loop [r] [] (bm\<lparr>bm_missing_blocks := m\<rparr>) = Some (acc, bm')"
    using assms(1) by (auto simp: try_unsuspend_children_blocks_def split: bind_splits)
  then have "set (btm_keys (bm_missing_ancestors bm')) \<subseteq> set (btm_keys (bm_missing_ancestors bm)) - {r}"
    using unsuspend_loop_missing by fastforce
  moreover have "r \<in> set (btm_keys (bm_missing_ancestors bm))" by (simp add: assms(2))
  ultimately show ?thesis unfolding missing_count_def by (intro psubset_card_mono) auto
qed

function gc_unsuspend_loop ::
  "nat \<Rightarrow> Round \<Rightarrow> dag_state \<Rightarrow> block_manager \<Rightarrow> (dag_state \<times> block_manager) option" where
  "gc_unsuspend_loop now gc d bm =
     (case bm_missing_ancestors bm of
        [] \<Rightarrow> Some (d, bm)
      | (block_ref, children) # rest \<Rightarrow>
          if br_round block_ref > gc then Some (d, bm)
          else if bm_authority bm (br_author block_ref) = None then None
          else if btm_get (bm_suspended bm) block_ref \<noteq> None then None
          else
            (case try_unsuspend_children_blocks
                (bm\<lparr>bm_missing_blocks := bts_remove block_ref (bm_missing_blocks bm)\<rparr>) block_ref of
               None \<Rightarrow> None
             | Some (unsuspended_blocks, bm') \<Rightarrow>
                 (case accept_blocks d unsuspended_blocks now of
                    None \<Rightarrow> None
                  | Some d' \<Rightarrow>
                      if map_opt (\<lambda>b. bm_authority bm' (vb_author b)) unsuspended_blocks = None then None
                      else gc_unsuspend_loop now gc d' bm')))"
  by pat_completeness auto
termination
  by (relation "measure (\<lambda>(_, _, _, bm). missing_count bm)") (auto dest: try_unsuspend_children_count)

definition try_unsuspend_blocks_for_latest_gc_round ::
  "nat \<Rightarrow> dag_state \<Rightarrow> block_manager \<Rightarrow> (dag_state \<times> block_manager) option" where
  "try_unsuspend_blocks_for_latest_gc_round now d bm = gc_unsuspend_loop now (gc_round d) d bm"

definition bm_missing :: "block_manager \<Rightarrow> block_ref btree_set" where
  "bm_missing bm = bm_missing_blocks bm"

end
