(* ===== verification/Block_Manager_Properties.thy ===== *)
theory Block_Manager_Properties
  imports Block_Manager
begin

section \<open>Correctness of the block manager\<close>

text \<open>
  The invariant of the block manager beside its DAG state, and what its operations do: they never
  panic, every block enters the DAG after its ancestors, and a block stays suspended only while an
  ancestor is missing.

  \<open>DagState::accept_block\<close> silently drops a second block of the own authority in one slot.  The
  block manager does not notice and would release the children of the dropped block, so the
  invariant assumes what an honest authority ensures: one block of its own per round, the
  function \<open>own\<close>.
\<close>

lemma set_bts_remove [btree_simps]: "set (bts_remove k s) = set s - {k}"
  by (auto simp: bts_remove_def)

lemma bts_wf_remove [btree_simps]: "bts_wf s \<Longrightarrow> bts_wf (bts_remove k s)"
  by (simp add: bts_wf_def bts_remove_def sorted_wrt_filter)

lemma bts_remove_Nil: "bts_remove k s = [] \<longleftrightarrow> set s \<subseteq> {k}"
  by (auto simp: bts_remove_def filter_empty_conv)

subsection \<open>The invariant\<close>

definition known :: "dag_state \<Rightarrow> block_ref set" where
  "known d = {r. get_block d r \<noteq> None}"

definition own_ok :: "(Round \<Rightarrow> block_ref) \<Rightarrow> consensus_context \<Rightarrow> verified_block \<Rightarrow> bool" where
  "own_ok own ctx b \<longleftrightarrow> (vb_author b = ctx_own_index ctx \<longrightarrow> vb_reference b = own (vb_round b))"

definition good_block :: "(Round \<Rightarrow> block_ref) \<Rightarrow> consensus_context \<Rightarrow> verified_block \<Rightarrow> bool" where
  "good_block own ctx b \<longleftrightarrow>
     0 < vb_round b \<and> vb_round b < 2 ^ 32 - 1 \<and> ref_bounds (vb_reference b) \<and>
     valid_block (ctx_committee ctx) b \<and> own_ok own ctx b"

text \<open>A DAG state whose readable blocks hold at most one own block per round.\<close>

definition dag_ok :: "(Round \<Rightarrow> block_ref) \<Rightarrow> dag_state \<Rightarrow> bool" where
  "dag_ok own d \<longleftrightarrow> dag_view d \<and> (\<forall>r b. get_block d r = Some b \<longrightarrow> own_ok own (ds_context d) b)"

definition suspended_ok ::
  "(Round \<Rightarrow> block_ref) \<Rightarrow> consensus_context \<Rightarrow> Round \<Rightarrow> block_ref set \<Rightarrow> block_ref \<Rightarrow> suspended_block \<Rightarrow> bool" where
  "suspended_ok own ctx gc K r s \<longleftrightarrow>
     vb_reference (su_block s) = r \<and> r \<notin> K \<and> good_block own ctx (su_block s) \<and>
     su_missing s \<noteq> [] \<and> bts_wf (su_missing s) \<and> set (su_missing s) \<subseteq> set (vb_ancestors (su_block s)) \<and>
     (\<forall>a \<in> set (vb_ancestors (su_block s)). a \<notin> set (su_missing s) \<longrightarrow> gc < br_round a \<longrightarrow> a \<in> K)"

definition waits_for :: "block_manager \<Rightarrow> block_ref \<Rightarrow> block_ref \<Rightarrow> bool" where
  "waits_for bm r a \<longleftrightarrow> (\<exists>s. btm_get (bm_suspended bm) r = Some s \<and> a \<in> set (su_missing s))"

definition has_child :: "block_manager \<Rightarrow> block_ref \<Rightarrow> block_ref \<Rightarrow> bool" where
  "has_child bm a r \<longleftrightarrow> (\<exists>cs. btm_get (bm_missing_ancestors bm) a = Some cs \<and> r \<in> set cs)"

abbreviation missing_keys :: "block_manager \<Rightarrow> block_ref set" where
  "missing_keys bm \<equiv> set (btm_keys (bm_missing_ancestors bm))"

abbreviation suspended_keys :: "block_manager \<Rightarrow> block_ref set" where
  "suspended_keys bm \<equiv> set (btm_keys (bm_suspended bm))"

text \<open>The invariant while the accepted references \<open>stack\<close> still have children to release; \<open>K\<close> are the
  references that are in the DAG or about to enter it.\<close>

definition pending ::
  "(Round \<Rightarrow> block_ref) \<Rightarrow> consensus_context \<Rightarrow> Round \<Rightarrow> block_ref set \<Rightarrow> block_ref list \<Rightarrow> block_manager \<Rightarrow> bool" where
  "pending own ctx gc K stack bm \<longleftrightarrow>
     bm_context bm = ctx \<and> length (bm_received_block_rounds bm) = committee_size (ctx_committee ctx) \<and>
     btm_wf (bm_suspended bm) \<and> btm_wf (bm_missing_ancestors bm) \<and> bts_wf (bm_missing_blocks bm) \<and>
     (\<forall>r s. btm_get (bm_suspended bm) r = Some s \<longrightarrow> suspended_ok own ctx gc K r s) \<and>
     (\<forall>a cs. btm_get (bm_missing_ancestors bm) a = Some cs \<longrightarrow>
        bts_wf cs \<and> br_author a < committee_size (ctx_committee ctx)) \<and>
     (\<forall>a r. has_child bm a r \<longleftrightarrow> waits_for bm r a) \<and>
     missing_keys bm \<inter> K \<subseteq> set stack \<and>
     set (bm_missing_blocks bm) = missing_keys bm - suspended_keys bm - set stack \<and>
     (\<forall>r \<in> set stack. r \<in> K \<or> br_round r \<le> gc)"

definition bm_inv :: "(Round \<Rightarrow> block_ref) \<Rightarrow> dag_state \<Rightarrow> block_manager \<Rightarrow> bool" where
  "bm_inv own d bm \<longleftrightarrow> dag_ok own d \<and> pending own (ds_context d) (gc_round d) (known d) [] bm"

lemma pendingD:
  assumes "pending own ctx gc K stack bm"
  shows "bm_context bm = ctx" "length (bm_received_block_rounds bm) = committee_size (ctx_committee ctx)"
    and "btm_wf (bm_suspended bm)" "btm_wf (bm_missing_ancestors bm)" "bts_wf (bm_missing_blocks bm)"
    and "btm_get (bm_suspended bm) r = Some s \<Longrightarrow> suspended_ok own ctx gc K r s"
    and "btm_get (bm_missing_ancestors bm) a = Some cs \<Longrightarrow> bts_wf cs \<and> br_author a < committee_size (ctx_committee ctx)"
    and "has_child bm a r \<longleftrightarrow> waits_for bm r a"
    and "missing_keys bm \<inter> K \<subseteq> set stack"
    and "set (bm_missing_blocks bm) = missing_keys bm - suspended_keys bm - set stack"
    and "r \<in> set stack \<Longrightarrow> r \<in> K \<or> br_round r \<le> gc"
  using assms unfolding pending_def by blast+

subsection \<open>Releasing the children of one block\<close>

definition ready :: "(block_ref, suspended_block) btree_map \<Rightarrow> block_ref \<Rightarrow> block_ref \<Rightarrow> bool" where
  "ready m r c \<longleftrightarrow> set (su_missing (the (btm_get m c))) \<subseteq> {r}"

definition released :: "(block_ref, suspended_block) btree_map \<Rightarrow> block_ref \<Rightarrow> suspended_block" where
  "released m c = (the (btm_get m c))\<lparr>su_missing := []\<rparr>"

lemma unsuspend_children_fold:
  assumes "distinct cs" "btm_wf (bm_suspended bm)"
    and "\<And>c. c \<in> set cs \<Longrightarrow> \<exists>s. btm_get (bm_suspended bm) c = Some s \<and> r \<in> set (su_missing s) \<and> vb_reference (su_block s) = c"
  shows "\<exists>m. fold_opt (unsuspend_child r) cs (stack, acc, bm) =
      Some (rev (filter (ready (bm_suspended bm) r) cs) @ stack,
            acc @ map (released (bm_suspended bm)) (filter (ready (bm_suspended bm) r) cs), bm\<lparr>bm_suspended := m\<rparr>) \<and>
      btm_wf m \<and>
      (\<forall>x. btm_get m x =
        (if x \<in> set cs
         then if ready (bm_suspended bm) r x then None
              else map_option (\<lambda>s. s\<lparr>su_missing := bts_remove r (su_missing s)\<rparr>) (btm_get (bm_suspended bm) x)
         else btm_get (bm_suspended bm) x))"
  using assms
proof (induction cs arbitrary: stack acc bm)
  case Nil
  then show ?case by (intro exI [of _ "bm_suspended bm"]) simp
next
  case (Cons c cs)
  let ?m = "bm_suspended bm"
  obtain s where s: "btm_get ?m c = Some s" "r \<in> set (su_missing s)" "vb_reference (su_block s) = c"
    using Cons.prems(3) by auto
  let ?s = "s\<lparr>su_missing := bts_remove r (su_missing s)\<rparr>"
  define m1 where "m1 = (if ready ?m r c then btm_remove c ?m else btm_insert c ?s ?m)"
  let ?st = "if ready ?m r c then c # stack else stack"
  let ?ac = "if ready ?m r c then acc @ [released ?m c] else acc"
  have e: "ready ?m r c \<longleftrightarrow> bts_remove r (su_missing s) = []" by (simp add: ready_def s bts_remove_Nil)
  have step: "unsuspend_child r c (stack, acc, bm) = Some (?st, ?ac, bm\<lparr>bm_suspended := m1\<rparr>)"
    using s e unfolding m1_def by (auto simp: unsuspend_child_def try_unsuspend_block_def Let_def released_def split: option.splits)
  have same: "btm_get m1 x = btm_get ?m x" if "x \<in> set cs" for x
    using that Cons.prems(1) unfolding m1_def by (auto simp: btree_simps)
  have wf1: "btm_wf m1" using Cons.prems(2) by (simp add: m1_def btm_wf_remove btm_wf_insert)
  have same_ready: "filter (ready m1 r) cs = filter (ready ?m r) cs"
    "map (released m1) (filter (ready ?m r) cs) = map (released ?m) (filter (ready ?m r) cs)"
    using same by (auto simp: ready_def released_def intro!: filter_cong)
  define bm1 where "bm1 = bm\<lparr>bm_suspended := m1\<rparr>"
  have b1: "bm_suspended bm1 = m1" "\<And>m. bm1\<lparr>bm_suspended := m\<rparr> = bm\<lparr>bm_suspended := m\<rparr>"
    by (simp_all add: bm1_def)
  have "\<exists>s. btm_get m1 x = Some s \<and> r \<in> set (su_missing s) \<and> vb_reference (su_block s) = x"
    if "x \<in> set cs" for x
    using same [OF that] Cons.prems(3) [of x] that by simp
  from Cons.IH [of bm1 ?st ?ac, unfolded b1, OF _ wf1 this] Cons.prems(1)
obtain m where m: "fold_opt (unsuspend_child r) cs (?st, ?ac, bm\<lparr>bm_suspended := m1\<rparr>) =
      Some (rev (filter (ready ?m r) cs) @ ?st, ?ac @ map (released ?m) (filter (ready ?m r) cs), bm\<lparr>bm_suspended := m\<rparr>)"
      "btm_wf m"
      "\<And>x. btm_get m x = (if x \<in> set cs then if ready m1 r x then None
          else map_option (\<lambda>s. s\<lparr>su_missing := bts_remove r (su_missing s)\<rparr>) (btm_get m1 x)
          else btm_get m1 x)"
    unfolding same_ready bm1_def by auto
  have "ready m1 r x = ready ?m r x" if "x \<in> set cs" for x using same [OF that] by (simp add: ready_def)
  then have "btm_get m x = (if x \<in> set (c # cs) then if ready ?m r x then None
      else map_option (\<lambda>s. s\<lparr>su_missing := bts_remove r (su_missing s)\<rparr>) (btm_get ?m x) else btm_get ?m x)" for x
    using m(3) [of x] same [of x] Cons.prems(1) s(1) by (auto simp: btree_simps m1_def)
  with m(1,2) show ?case by (auto simp: step simp del: fold_opt.simps(1))
qed

lemma has_childD: "pending own ctx gc K stack bm \<Longrightarrow> btm_get (bm_missing_ancestors bm) a = Some cs \<Longrightarrow>
    r \<in> set cs \<longleftrightarrow> waits_for bm r a"
  using pendingD(8) [of own ctx gc K stack bm a r] by (auto simp: has_child_def)

lemma pending_pop_none:
  assumes "pending own ctx gc K (r # stack) bm" "btm_get (bm_missing_ancestors bm) r = None"
  shows "pending own ctx gc K stack bm"
proof -
  have "r \<notin> missing_keys bm" using assms(2) by (simp add: btm_key_get)
  with assms(1) show ?thesis unfolding pending_def by auto
qed

lemma pending_pop:
  assumes pend: "pending own ctx gc K (r # stack) bm"
    and cs: "btm_get (bm_missing_ancestors bm) r = Some cs"
    and m: "btm_wf m" "\<And>x. btm_get m x =
        (if x \<in> set cs
         then if ready (bm_suspended bm) r x then None
              else map_option (\<lambda>s. s\<lparr>su_missing := bts_remove r (su_missing s)\<rparr>) (btm_get (bm_suspended bm) x)
         else btm_get (bm_suspended bm) x)"
    and R: "R = filter (ready (bm_suspended bm) r) cs"
  shows "pending own ctx gc (K \<union> set R) (rev R @ stack)
     (bm\<lparr>bm_missing_ancestors := btm_remove r (bm_missing_ancestors bm), bm_suspended := m\<rparr>)"
    (is "pending own ctx gc ?K ?stack ?bm")
proof -
  note p = pendingD [OF pend]
  have child: "x \<in> set cs \<longleftrightarrow> waits_for bm x r" for x by (rule has_childD [OF pend cs])
  have r: "r \<in> K \<or> br_round r \<le> gc" by (rule p(11)) simp
  have susp: "suspended_ok own ctx gc ?K x s'" if x: "btm_get m x = Some s'" for x s'
  proof (cases "x \<in> set cs")
    case True
    with x obtain s where s: "btm_get (bm_suspended bm) x = Some s" "\<not> ready (bm_suspended bm) r x"
        "s' = s\<lparr>su_missing := bts_remove r (su_missing s)\<rparr>"
      by (auto simp: m(2) split: if_splits)
    have "bts_remove r (su_missing s) \<noteq> []" using s(1,2) by (simp add: bts_remove_Nil ready_def)
    with p(6) [OF s(1)] s(2,3) r R show ?thesis
      by (auto simp: suspended_ok_def btree_simps)
  next
    case False
    with x have "btm_get (bm_suspended bm) x = Some s'" by (simp add: m(2))
    from p(6) [OF this] False R show ?thesis by (auto simp: suspended_ok_def)
  qed
  have links: "has_child ?bm a x \<longleftrightarrow> waits_for ?bm x a" for a x
  proof -
    have "has_child ?bm a x \<longleftrightarrow> a \<noteq> r \<and> waits_for bm x a"
      using p(8) [of a x] by (auto simp: has_child_def btree_simps)
    also have "\<dots> \<longleftrightarrow> waits_for ?bm x a"
      using child [of x] by (auto simp: waits_for_def m(2) ready_def btree_simps)
    finally show ?thesis .
  qed
  have keys: "suspended_keys ?bm = suspended_keys bm - set R"
  proof -
    have "x \<in> suspended_keys ?bm \<longleftrightarrow> x \<in> suspended_keys bm - set R" for x
      using child [of x] by (auto simp: btm_key_get m(2) R waits_for_def)
    then show ?thesis by blast
  qed
  have "set R \<subseteq> suspended_keys bm" using child by (auto simp: R waits_for_def btm_key_get)
  then have blocks: "set (bm_missing_blocks ?bm) = missing_keys ?bm - suspended_keys ?bm - set ?stack"
    unfolding keys using p(10) by (auto simp: btree_simps)
  have "btm_wf (bm_missing_ancestors ?bm)" using p(4) by (simp add: btm_wf_remove)
  moreover have "missing_keys ?bm \<inter> ?K \<subseteq> set ?stack" using p(9) by (auto simp: btree_simps)
  moreover have "\<forall>a c. btm_get (bm_missing_ancestors ?bm) a = Some c \<longrightarrow>
      bts_wf c \<and> br_author a < committee_size (ctx_committee ctx)"
    using p(7) by (auto simp: btree_simps)
  moreover have "\<forall>x \<in> set ?stack. x \<in> ?K \<or> br_round x \<le> gc" using p(11) by auto
  ultimately show ?thesis
    unfolding pending_def using p(1,2,5) m(1) susp links blocks by simp
qed

text \<open>Blocks in an order in which they can enter a DAG that holds \<open>K\<close>.\<close>

fun causal :: "Round \<Rightarrow> block_ref set \<Rightarrow> verified_block list \<Rightarrow> bool" where
  "causal gc K [] = True"
| "causal gc K (b # bs) \<longleftrightarrow> vb_reference b \<notin> K \<and> (\<forall>a \<in> set (vb_ancestors b). gc < br_round a \<longrightarrow> a \<in> K) \<and>
     causal gc (insert (vb_reference b) K) bs"

abbreviation refs_of :: "verified_block list \<Rightarrow> block_ref set" where
  "refs_of bs \<equiv> vb_reference ` set bs"

lemma causal_append: "causal gc K (xs @ ys) \<longleftrightarrow> causal gc K xs \<and> causal gc (K \<union> refs_of xs) ys"
  by (induction xs arbitrary: K) auto

lemma causal_same:
  assumes "distinct (map vb_reference bs)" "\<And>b. b \<in> set bs \<Longrightarrow> vb_reference b \<notin> K"
    and "\<And>b a. b \<in> set bs \<Longrightarrow> a \<in> set (vb_ancestors b) \<Longrightarrow> gc < br_round a \<Longrightarrow> a \<in> K"
  shows "causal gc K bs"
  using assms
proof (induction bs arbitrary: K)
  case (Cons b bs)
  have "vb_reference x \<noteq> vb_reference b" if "x \<in> set bs" for x
    using Cons.prems(1) that by (metis distinct.simps(2) image_eqI list.set_map list.simps(9))
  then have "causal gc (insert (vb_reference b) K) bs"
    using Cons.prems by (intro Cons.IH) auto
  with Cons.prems(2,3) show ?case by auto
qed simp

definition waiting :: "block_manager \<Rightarrow> block_ref \<Rightarrow> verified_block option" where
  "waiting bm r = map_option su_block (btm_get (bm_suspended bm) r)"

lemma pending_waiting: "pending own ctx gc K stack bm \<Longrightarrow> waiting bm r = Some b \<Longrightarrow> vb_reference b = r \<and> good_block own ctx b"
  by (auto simp: waiting_def suspended_ok_def dest: pendingD(6))

subsection \<open>The loop over the released blocks\<close>

text \<open>One iteration: the blocks it releases can enter the DAG, and what is left is still consistent.\<close>

lemma unsuspend_step:
  assumes pend: "pending own ctx gc K (r # stack) bm"
    and cs: "btm_get (bm_missing_ancestors bm) r = Some cs"
  shows "\<exists>R bm'. fold_opt (unsuspend_child r) cs
        (stack, acc, bm\<lparr>bm_missing_ancestors := btm_remove r (bm_missing_ancestors bm)\<rparr>) =
        Some (rev (map (vb_reference \<circ> su_block) R) @ stack, acc @ R, bm') \<and>
      causal gc K (map su_block R) \<and>
      pending own ctx gc (K \<union> refs_of (map su_block R)) (rev (map (vb_reference \<circ> su_block) R) @ stack) bm' \<and>
      (\<forall>s \<in> set R. waiting bm (vb_reference (su_block s)) = Some (su_block s)) \<and>
      waiting bm' = (\<lambda>x. if x \<in> refs_of (map su_block R) then None else waiting bm x)"
proof -
  let ?m = "bm_suspended bm" and ?bm = "bm\<lparr>bm_missing_ancestors := btm_remove r (bm_missing_ancestors bm)\<rparr>"
  let ?R = "filter (ready ?m r) cs"
  note p = pendingD [OF pend]
  have r: "r \<in> K \<or> br_round r \<le> gc" by (rule p(11)) simp
  have child: "\<exists>s. btm_get ?m c = Some s \<and> r \<in> set (su_missing s) \<and> suspended_ok own ctx gc K c s" if "c \<in> set cs" for c
    using has_childD [OF pend cs, of c] that p(6) [of c] by (auto simp: waits_for_def)
  have ref: "vb_reference (su_block (released ?m c)) = c" if "c \<in> set cs" for c
    using child [OF that] by (auto simp: released_def suspended_ok_def)
  have dist: "distinct cs" using p(7) [OF cs] by (simp add: bts_wf_distinct)
  obtain m where m: "fold_opt (unsuspend_child r) cs (stack, acc, ?bm) =
      Some (rev ?R @ stack, acc @ map (released ?m) ?R, ?bm\<lparr>bm_suspended := m\<rparr>)" "btm_wf m"
      "\<And>x. btm_get m x = (if x \<in> set cs then if ready ?m r x then None
        else map_option (\<lambda>s. s\<lparr>su_missing := bts_remove r (su_missing s)\<rparr>) (btm_get ?m x) else btm_get ?m x)"
    using unsuspend_children_fold [of cs ?bm r stack acc] dist child p(3) by (fastforce simp: suspended_ok_def)
  have refs: "map (vb_reference \<circ> su_block) (map (released ?m) ?R) = ?R"
    unfolding map_map by (rule map_idI) (simp add: ref)
  have refs': "refs_of (map su_block (map (released ?m) ?R)) = set ?R"
    using ref by (force simp: image_iff)
  have "causal gc K (map su_block (map (released ?m) ?R))"
  proof (rule causal_same)
    show "distinct (map vb_reference (map su_block (map (released ?m) ?R)))"
      using refs dist by (simp add: o_assoc)
    fix b assume "b \<in> set (map su_block (map (released ?m) ?R))"
    then obtain c s where c: "c \<in> set cs" "ready ?m r c" "btm_get ?m c = Some s" "b = su_block s" "suspended_ok own ctx gc K c s"
      using child by (force simp: released_def)
    then show "vb_reference b \<notin> K" by (auto simp: suspended_ok_def)
    show "a \<in> K" if "a \<in> set (vb_ancestors b)" "gc < br_round a" for a
      using c that r by (auto simp: suspended_ok_def ready_def)
  qed
  moreover have "pending own ctx gc (K \<union> set ?R) (rev ?R @ stack) (?bm\<lparr>bm_suspended := m\<rparr>)"
    using pending_pop [OF pend cs m(2,3) refl] by simp
  moreover have "\<forall>s \<in> set (map (released ?m) ?R). waiting bm (vb_reference (su_block s)) = Some (su_block s)"
    using child ref by (fastforce simp: waiting_def released_def)
  moreover have "waiting (?bm\<lparr>bm_suspended := m\<rparr>) = (\<lambda>x. if x \<in> set ?R then None else waiting bm x)"
    by (auto simp: waiting_def m(3) option.map_comp comp_def)
  ultimately show ?thesis
    using m(1) by (intro exI [of _ "map (released ?m) ?R"] exI [of _ "?bm\<lparr>bm_suspended := m\<rparr>"])
      (simp only: refs refs' simp_thms)
qed

text \<open>The whole work list: it returns, releases blocks in causal order, and leaves a consistent state.\<close>

lemma unsuspend_loop_spec:
  assumes "pending own ctx gc K stack bm"
  shows "\<exists>new bm'. unsuspend_loop stack acc bm = Some (acc @ new, bm') \<and> causal gc K (map su_block new) \<and>
      pending own ctx gc (K \<union> refs_of (map su_block new)) [] bm' \<and>
      (\<forall>s \<in> set new. waiting bm (vb_reference (su_block s)) = Some (su_block s)) \<and>
      waiting bm' = (\<lambda>x. if x \<in> refs_of (map su_block new) then None else waiting bm x)"
  using assms
proof (induction stack acc bm arbitrary: K rule: unsuspend_loop.induct)
  case (1 acc bm)
  then show ?case by (intro exI [of _ "[]"] exI [of _ bm]) auto
next
  case (2 r stack acc bm)
  show ?case
  proof (cases "btm_get (bm_missing_ancestors bm) r")
    case None
    then show ?thesis using "2.IH"(1) [OF None pending_pop_none [OF "2.prems" None]] by simp
  next
    case (Some cs)
    obtain R bm1 where R: "fold_opt (unsuspend_child r) cs
          (stack, acc, bm\<lparr>bm_missing_ancestors := btm_remove r (bm_missing_ancestors bm)\<rparr>) =
          Some (rev (map (vb_reference \<circ> su_block) R) @ stack, acc @ R, bm1)"
        "causal gc K (map su_block R)"
        "pending own ctx gc (K \<union> refs_of (map su_block R)) (rev (map (vb_reference \<circ> su_block) R) @ stack) bm1"
        "\<forall>s \<in> set R. waiting bm (vb_reference (su_block s)) = Some (su_block s)"
        "waiting bm1 = (\<lambda>x. if x \<in> refs_of (map su_block R) then None else waiting bm x)"
      using unsuspend_step [OF "2.prems" Some] by blast
    obtain new bm' where new: "unsuspend_loop (rev (map (vb_reference \<circ> su_block) R) @ stack) (acc @ R) bm1 = Some ((acc @ R) @ new, bm')"
        "causal gc (K \<union> refs_of (map su_block R)) (map su_block new)"
        "pending own ctx gc (K \<union> refs_of (map su_block R) \<union> refs_of (map su_block new)) [] bm'"
        "\<forall>s \<in> set new. waiting bm1 (vb_reference (su_block s)) = Some (su_block s)"
        "waiting bm' = (\<lambda>x. if x \<in> refs_of (map su_block new) then None else waiting bm1 x)"
      using "2.IH"(2) [OF Some R(1) refl refl R(3)] by blast
    have un: "K \<union> refs_of (map su_block R) \<union> refs_of (map su_block new) = K \<union> refs_of (map su_block (R @ new))"
      by auto
    show ?thesis
    proof (intro exI conjI)
      show "unsuspend_loop (r # stack) acc bm = Some (acc @ (R @ new), bm')" using Some R(1) new(1) by simp
      show "causal gc K (map su_block (R @ new))" using R(2) new(2) by (simp only: map_append causal_append)
      show "pending own ctx gc (K \<union> refs_of (map su_block (R @ new))) [] bm'" using new(3) by (simp only: un)
      show "\<forall>s \<in> set (R @ new). waiting bm (vb_reference (su_block s)) = Some (su_block s)"
        using R(4) new(4) unfolding R(5) by (auto split: if_splits)
      show "waiting bm' = (\<lambda>x. if x \<in> refs_of (map su_block (R @ new)) then None else waiting bm x)"
        unfolding new(5) R(5) by (rule ext) auto
    qed
  qed
qed

subsection \<open>Entering the DAG\<close>

lemma known_view: "dag_view d \<Longrightarrow> r \<in> known d \<Longrightarrow> br_author r < committee_size (ds_committee d)"
  using dag_viewD(3,4) by (fastforce simp: known_def valid_block_def)

text \<open>The branch of \<open>accept_block\<close> that drops an own block is never taken when the authority has one
  block per round.\<close>

lemma own_slot_empty:
  assumes "dag_ok own d" "own_ok own (ds_context d) b" "vb_author b = ctx_own_index (ds_context d)"
    and "get_block d (vb_reference b) = None" "good_block own (ds_context d) b"
  shows "get_uncommitted_blocks_at_slot d (slot_of (vb_reference b)) = []"
proof -
  have inv: "dag_inv d" using assms(1) by (simp add: dag_ok_def dag_view_def)
  have "x \<notin> set (get_uncommitted_blocks_at_slot d (slot_of (vb_reference b)))" for x
  proof
    assume "x \<in> set (get_uncommitted_blocks_at_slot d (slot_of (vb_reference b)))"
    then have x: "cached_block d x" "slot_of (vb_reference x) = slot_of (vb_reference b)"
      using uncommitted_at_slot_set [OF inv, of "slot_of (vb_reference b)"] by auto
    then have g: "get_block d (vb_reference x) = Some x" using cached_block_get [OF inv] by simp
    have "vb_author x = vb_author b" "vb_round x = vb_round b" using x(2) by (auto simp: slot_of_def)
    moreover have "own_ok own (ds_context d) x" using assms(1) g by (simp add: dag_ok_def)
    ultimately have "vb_reference x = vb_reference b" using assms(2,3) by (simp add: own_ok_def)
    then show False using g assms(4) by simp
  qed
  then show ?thesis by (metis last_in_set)
qed

lemma accept_one_causal:
  assumes d: "dag_ok own d" and b: "good_block own (ds_context d) b" "vb_reference b \<notin> known d"
    and anc: "\<forall>a \<in> set (vb_ancestors b). gc_round d < br_round a \<longrightarrow> a \<in> known d"
  shows "\<exists>d'. accept_block d b now = Some d' \<and> dag_ok own d' \<and> ds_context d' = ds_context d \<and>
     gc_round d' = gc_round d \<and> get_block d' = (get_block d)(vb_reference b \<mapsto> b)"
proof -
  have view: "dag_view d" using d by (simp add: dag_ok_def)
  have acc: "acceptable d b" using b(1) by (auto simp: good_block_def acceptable_def valid_block_def)
  have none: "get_block d (vb_reference b) = None" using b(2) by (simp add: known_def)
  have own: "own_ok own (ds_context d) b" using b(1) by (simp add: good_block_def)
  obtain d' where d': "accept_block d b now = Some d'" "get_block d' = (get_block d)(vb_reference b \<mapsto> b)"
    using accept_block_cases [OF dag_viewD(1) [OF view] acc, of now] none own_slot_empty [OF d own _ none b(1)] by auto
  have v: "dag_view d'" "ds_context d' = ds_context d" "gc_round d' = gc_round d"
    using dag_view_accept [OF view acc _ _ d'(1)] b(1) anc by (auto simp: good_block_def known_def)
  moreover have "own_ok own (ds_context d') x" if "get_block d' r = Some x" for r x
    using that d own unfolding v(2) by (auto simp: d'(2) dag_ok_def split: if_splits)
  ultimately show ?thesis using d' by (auto simp: dag_ok_def)
qed

lemma known_accept: "get_block d' = (get_block d)(vb_reference b \<mapsto> b) \<Longrightarrow> known d' = insert (vb_reference b) (known d)"
  by (auto simp: known_def)

lemma accept_blocks_causal:
  assumes "dag_ok own d" "\<And>b. b \<in> set bs \<Longrightarrow> good_block own (ds_context d) b"
    and "causal (gc_round d) (known d) bs"
  shows "\<exists>d'. accept_blocks d bs now = Some d' \<and> dag_ok own d' \<and> ds_context d' = ds_context d \<and>
     gc_round d' = gc_round d \<and> known d' = known d \<union> refs_of bs \<and> get_block d \<subseteq>\<^sub>m get_block d' \<and>
     (\<forall>b \<in> set bs. get_block d' (vb_reference b) = Some b)"
  using assms
proof (induction bs arbitrary: d)
  case Nil
  then show ?case by (auto simp: accept_blocks_def)
next
  case (Cons b bs)
  obtain d1 where d1: "accept_block d b now = Some d1" "dag_ok own d1" "ds_context d1 = ds_context d"
      "gc_round d1 = gc_round d" "get_block d1 = (get_block d)(vb_reference b \<mapsto> b)"
    using accept_one_causal [of own d b now] Cons.prems by auto
  note k1 = known_accept [OF d1(5)]
  obtain d' where d': "accept_blocks d1 bs now = Some d'" "dag_ok own d'" "ds_context d' = ds_context d1"
     "gc_round d' = gc_round d1" "known d' = known d1 \<union> refs_of bs" "get_block d1 \<subseteq>\<^sub>m get_block d'"
     "\<forall>b \<in> set bs. get_block d' (vb_reference b) = Some b"
    using Cons.IH [OF d1(2)] Cons.prems d1(3,4) k1 by auto
  have "get_block d \<subseteq>\<^sub>m get_block d'"
    using d'(6) Cons.prems(3) unfolding d1(5) by (auto simp: map_le_def known_def) (metis domI option.distinct(1))
  moreover have "get_block d' (vb_reference b) = Some b"
    using d'(6) unfolding d1(5) by (auto simp: map_le_def)
  ultimately show ?case
    using d1 d' k1 by (auto simp: accept_blocks_def)
qed

subsection \<open>Trying one block\<close>

lemma contains_blocks_Cons:
  "contains_blocks d (r # rs) =
     (case contains_block d r of None \<Rightarrow> None | Some b \<Rightarrow> map_option ((#) b) (contains_blocks d rs))"
proof (cases "contains_cached d r")
  case (Some x)
  then show ?thesis
    by (cases x; cases "map_opt (contains_cached d) rs")
      (auto simp: contains_blocks_def contains_block_def mem_contains_stored)
qed (simp add: contains_blocks_def contains_block_def)

lemma contains_blocks_known:
  assumes "dag_view d" "\<And>r. r \<in> set refs \<Longrightarrow> br_author r < committee_size (ds_committee d)"
  shows "contains_blocks d refs = Some (map (\<lambda>r. r \<in> known d) refs)"
  using assms(2)
proof (induction refs)
  case Nil
  show ?case by (simp add: contains_blocks_def mem_contains_stored)
next
  case (Cons r refs)
  have "contains_block d r = Some (r \<in> known d)"
    using contains_block_correct [OF dag_viewD(1) [OF assms(1)], of r] Cons.prems by (simp add: known_def)
  with Cons show ?case by (simp add: contains_blocks_Cons)
qed

lemma authority_Some: "i < committee_size c \<Longrightarrow> \<exists>x. committee_authority c i = Some x"
  by (simp add: committee_authority_def committee_size_def vec_get_def)

lemma note_missing_one:
  assumes "bts_wf mis" "btm_wf (bm_missing_ancestors bm)" "bts_wf (bm_missing_blocks bm)"
    and "\<forall>x cs. btm_get (bm_missing_ancestors bm) x = Some cs \<longrightarrow> bts_wf cs"
    and "br_author a < committee_size (ctx_committee (bm_context bm))"
  shows "\<exists>f' bm'. note_missing r a (mis, f, bm) = Some (bts_insert a mis, f', bm') \<and>
     bm_context bm' = bm_context bm \<and> bm_received_block_rounds bm' = bm_received_block_rounds bm \<and>
     bm_suspended bm' = bm_suspended bm \<and> btm_wf (bm_missing_ancestors bm') \<and> bts_wf (bm_missing_blocks bm') \<and>
     (\<forall>x cs. btm_get (bm_missing_ancestors bm') x = Some cs \<longrightarrow> bts_wf cs) \<and>
     (\<forall>x y. has_child bm' x y \<longleftrightarrow> has_child bm x y \<or> x = a \<and> y = r) \<and>
     missing_keys bm' = insert a (missing_keys bm) \<and>
     set (bm_missing_blocks bm') = set (bm_missing_blocks bm) \<union> ({a} - suspended_keys bm)"
proof -
  obtain h where h: "bm_authority bm (br_author a) = Some h" using authority_Some assms(5) by blast
  let ?cs = "case btm_get (bm_missing_ancestors bm) a of Some cs \<Rightarrow> cs | None \<Rightarrow> []"
  let ?ma = "btm_insert a (bts_insert r ?cs) (bm_missing_ancestors bm)"
  let ?mb = "if btm_get (bm_suspended bm) a = None then bts_insert a (bm_missing_blocks bm) else bm_missing_blocks bm"
  let ?bm = "bm\<lparr>bm_missing_ancestors := ?ma, bm_missing_blocks := ?mb\<rparr>"
  have run: "\<exists>f'. note_missing r a (mis, f, bm) = Some (bts_insert a mis, f', ?bm)"
    using h by (auto simp: note_missing_def Let_def)
  have wf: "bts_wf ?cs" using assms(4) by (auto split: option.splits)
  have "has_child ?bm x y \<longleftrightarrow> has_child bm x y \<or> x = a \<and> y = r" for x y
    by (cases "btm_get (bm_missing_ancestors bm) a") (auto simp: has_child_def btree_simps)
  moreover have "set ?mb = set (bm_missing_blocks bm) \<union> ({a} - suspended_keys bm)"
    by (auto simp: btree_simps btm_key_get)
  ultimately show ?thesis
    using run assms(2,3,4) wf by (fastforce simp: btree_simps)
qed

lemma note_missing_fold:
  assumes "bts_wf mis" "btm_wf (bm_missing_ancestors bm)" "bts_wf (bm_missing_blocks bm)"
    and "\<forall>x cs. btm_get (bm_missing_ancestors bm) x = Some cs \<longrightarrow> bts_wf cs"
    and "\<And>a. a \<in> set as \<Longrightarrow> br_author a < committee_size (ctx_committee (bm_context bm))"
  shows "\<exists>mis' f' bm'. fold_opt (note_missing r) as (mis, f, bm) = Some (mis', f', bm') \<and>
     set mis' = set mis \<union> set as \<and> bts_wf mis' \<and>
     bm_context bm' = bm_context bm \<and> bm_received_block_rounds bm' = bm_received_block_rounds bm \<and>
     bm_suspended bm' = bm_suspended bm \<and> btm_wf (bm_missing_ancestors bm') \<and> bts_wf (bm_missing_blocks bm') \<and>
     (\<forall>x cs. btm_get (bm_missing_ancestors bm') x = Some cs \<longrightarrow> bts_wf cs) \<and>
     (\<forall>x y. has_child bm' x y \<longleftrightarrow> has_child bm x y \<or> x \<in> set as \<and> y = r) \<and>
     missing_keys bm' = set as \<union> missing_keys bm \<and>
     set (bm_missing_blocks bm') = set (bm_missing_blocks bm) \<union> (set as - suspended_keys bm)"
  using assms
proof (induction as arbitrary: mis f bm)
  case Nil
  then show ?case by auto
next
  case (Cons a as)
  obtain f1 bm1 where s: "note_missing r a (mis, f, bm) = Some (bts_insert a mis, f1, bm1)"
     "bm_context bm1 = bm_context bm" "bm_received_block_rounds bm1 = bm_received_block_rounds bm"
     "bm_suspended bm1 = bm_suspended bm" "btm_wf (bm_missing_ancestors bm1)" "bts_wf (bm_missing_blocks bm1)"
     "\<forall>x cs. btm_get (bm_missing_ancestors bm1) x = Some cs \<longrightarrow> bts_wf cs"
     "\<And>x y. has_child bm1 x y \<longleftrightarrow> has_child bm x y \<or> x = a \<and> y = r"
     "missing_keys bm1 = insert a (missing_keys bm)"
     "set (bm_missing_blocks bm1) = set (bm_missing_blocks bm) \<union> ({a} - suspended_keys bm)"
    using note_missing_one [where a = a and r = r and f = f, OF Cons.prems(1-4)] Cons.prems(5) by auto
  have "br_author x < committee_size (ctx_committee (bm_context bm1))" if "x \<in> set as" for x
    using Cons.prems(5) that s(2) by simp
  with Cons.IH [of "bts_insert a mis" bm1 f1] s(5-7) bts_insert_wf [OF Cons.prems(1)]
  obtain mis' f' bm' where r: "fold_opt (note_missing r) as (bts_insert a mis, f1, bm1) = Some (mis', f', bm')"
     "set mis' = set (bts_insert a mis) \<union> set as" "bts_wf mis'"
     "bm_context bm' = bm_context bm1" "bm_received_block_rounds bm' = bm_received_block_rounds bm1"
     "bm_suspended bm' = bm_suspended bm1" "btm_wf (bm_missing_ancestors bm')" "bts_wf (bm_missing_blocks bm')"
     "\<forall>x cs. btm_get (bm_missing_ancestors bm') x = Some cs \<longrightarrow> bts_wf cs"
     "\<forall>x y. has_child bm' x y \<longleftrightarrow> has_child bm1 x y \<or> x \<in> set as \<and> y = r"
     "missing_keys bm' = set as \<union> missing_keys bm1"
     "set (bm_missing_blocks bm') = set (bm_missing_blocks bm1) \<union> (set as - suspended_keys bm1)"
    by blast
  show ?case
    by (rule exI [of _ mis'], rule exI [of _ f'], rule exI [of _ bm'])
      (use r s in \<open>auto simp: btree_simps\<close>)
qed

lemma fold_opt_filter: "fold_opt (\<lambda>(f, a) s. if \<not> f then g a s else Some s) (zip (map p xs) xs) s =
    fold_opt g (filter (\<lambda>a. \<not> p a) xs) s"
  by (induction xs arbitrary: s) (auto split: option.split)

text \<open>The ancestors a block has to wait for.\<close>

definition missing_of_block :: "dag_state \<Rightarrow> verified_block \<Rightarrow> block_ref set" where
  "missing_of_block d b =
     {a \<in> set (vb_ancestors b). (br_round a = 0 \<or> gc_round d < br_round a) \<and> a \<notin> known d}"

lemma pending_suspend:
  assumes pend: "pending own ctx gc K [] bm" and b: "good_block own ctx b" "vb_reference b \<notin> K"
    and new: "btm_get (bm_suspended bm) (vb_reference b) = None"
    and Ms: "set mis = Ms" "bts_wf mis" "Ms \<noteq> {}" "Ms \<subseteq> set (vb_ancestors b)" "Ms \<inter> K = {}"
      "\<And>a. a \<in> set (vb_ancestors b) \<Longrightarrow> a \<notin> Ms \<Longrightarrow> gc < br_round a \<Longrightarrow> a \<in> K"
    and bm': "bm_context bm' = ctx" "bm_received_block_rounds bm' = bm_received_block_rounds bm"
     "bm_suspended bm' = btm_insert (vb_reference b) \<lparr>su_block = b, su_missing = mis\<rparr> (bm_suspended bm)"
     "btm_wf (bm_missing_ancestors bm')" "bts_wf (bm_missing_blocks bm')"
     "\<And>x cs. btm_get (bm_missing_ancestors bm') x = Some cs \<Longrightarrow> bts_wf cs"
     "\<And>x y. has_child bm' x y \<longleftrightarrow> has_child bm x y \<or> x \<in> Ms \<and> y = vb_reference b"
     "missing_keys bm' = Ms \<union> missing_keys bm"
     "set (bm_missing_blocks bm') = (set (bm_missing_blocks bm) \<union> (Ms - suspended_keys bm)) - {vb_reference b}"
  shows "pending own ctx gc K [] bm'"
proof -
  note p = pendingD [OF pend]
  have "suspended_ok own ctx gc K r s" if "btm_get (bm_suspended bm') r = Some s" for r s
    using that p(6) [of r s] b Ms unfolding bm'(3) by (auto simp: suspended_ok_def btree_simps split: if_splits)
  moreover have "has_child bm' a r \<longleftrightarrow> waits_for bm' r a" for a r
    using p(8) [of a r] new Ms(1) unfolding bm'(7) waits_for_def bm'(3) by (auto simp: btree_simps)
  moreover have "br_author a < committee_size (ctx_committee ctx)" if "btm_get (bm_missing_ancestors bm') a = Some cs" for a cs
  proof -
    have "a \<in> Ms \<union> missing_keys bm" using btm_get_key [OF that] bm'(8) by simp
    then show ?thesis
      using p(7) [of a] b(1) Ms(4) by (auto simp: good_block_def valid_block_def btm_key_get)
  qed
  moreover have "suspended_keys bm' = insert (vb_reference b) (suspended_keys bm)"
    unfolding bm'(3) by (simp add: btree_simps)
  ultimately show ?thesis
    unfolding pending_def using p(2,3,9,10) bm' Ms(5) by (auto simp: btm_wf_insert)
qed

lemma pending_root:
  assumes pend: "pending own ctx gc K [] bm" and new: "btm_get (bm_suspended bm) r = None"
  shows "pending own ctx gc (insert r K) [r] (bm\<lparr>bm_missing_blocks := bts_remove r (bm_missing_blocks bm)\<rparr>)"
proof -
  note p = pendingD [OF pend]
  have "suspended_ok own ctx gc (insert r K) x s" if "btm_get (bm_suspended bm) x = Some s" for x s
    using p(6) [OF that] that new by (auto simp: suspended_ok_def)
  then show ?thesis
    unfolding pending_def using p by (auto simp: btree_simps has_child_def waits_for_def)
qed

definition one_block_outcome ::
  "(Round \<Rightarrow> block_ref) \<Rightarrow> dag_state \<Rightarrow> block_manager \<Rightarrow> verified_block \<Rightarrow> try_accept_result \<Rightarrow> block_manager \<Rightarrow> bool" where
  "one_block_outcome own d bm b res bm' \<longleftrightarrow>
     (case res of
        Processed \<Rightarrow> bm' = bm \<and> (vb_reference b \<in> known d \<or> waiting bm (vb_reference b) \<noteq> None)
      | Skipped \<Rightarrow> bm' = bm \<and> (vb_round b \<le> gc_round d \<or>
          length (bm_suspended bm) \<ge> 10000 * committee_size (ds_committee d))
      | Suspended _ \<Rightarrow> gc_round d < vb_round b \<and> vb_reference b \<notin> known d \<and> missing_of_block d b \<noteq> {} \<and>
          waiting bm' = (waiting bm)(vb_reference b \<mapsto> b) \<and> bm_inv own d bm' \<and>
          length (bm_suspended bm) < 10000 * committee_size (ds_committee d) \<and>
          length (bm_suspended bm') \<le> Suc (length (bm_suspended bm)) \<and>
          missing_keys bm' = missing_of_block d b \<union> missing_keys bm
      | Accepted b' \<Rightarrow> b' = b \<and> gc_round d < vb_round b \<and> vb_reference b \<notin> known d \<and> missing_of_block d b = {} \<and>
          waiting bm' = waiting bm \<and> waiting bm (vb_reference b) = None \<and>
          length (bm_suspended bm') = length (bm_suspended bm) \<and>
          missing_keys bm' = missing_keys bm \<and>
          pending own (ds_context d) (gc_round d) (insert (vb_reference b) (known d)) [vb_reference b] bm')"

lemma length_btm_insert_le: "length (btm_insert k v m) \<le> Suc (length m)"
  by (induction k v m rule: btm_insert.induct) auto

lemma try_accept_one_block_spec:
  assumes inv: "bm_inv own d bm" and b: "good_block own (ds_context d) b"
  shows "\<exists>res bm'. try_accept_one_block d bm b = Some (res, bm') \<and> one_block_outcome own d bm b res bm'"
proof -
  let ?r = "vb_reference b" and ?c = "ds_committee d"
  have pend: "pending own (ds_context d) (gc_round d) (known d) [] bm" and dag: "dag_ok own d" and view: "dag_view d"
    using inv by (auto simp: bm_inv_def dag_ok_def)
  note p = pendingD [OF pend]
  have valid: "vb_author b < committee_size ?c" "\<And>a. a \<in> set (vb_ancestors b) \<Longrightarrow> br_author a < committee_size ?c"
    using b by (auto simp: good_block_def valid_block_def)
  obtain h where h: "bm_authority bm (vb_author b) = Some h" using authority_Some [OF valid(1)] p(1) by auto
  have max: "u64_mul 10000 (committee_size ?c) = 10000 * committee_size ?c"
    using dag_viewD(2) [OF view] by (intro u64_mul_eq) (simp add: committee_wf_def)
  have known: "contains_block d ?r = Some (?r \<in> known d)"
    using contains_block_correct [OF dag_viewD(1) [OF view], of ?r] valid(1) by (simp add: known_def)
  let ?A = "filter (\<lambda>a. br_round a = 0 \<or> gc_round d < br_round a) (vb_ancestors b)"
  let ?Ms = "filter (\<lambda>a. a \<notin> known d) ?A"
  have found: "contains_blocks d ?A = Some (map (\<lambda>a. a \<in> known d) ?A)"
    by (rule contains_blocks_known [OF view]) (use valid(2) in auto)
  have Ms: "set ?Ms = missing_of_block d b" by (auto simp: missing_of_block_def)
  show ?thesis
  proof (cases "10000 * committee_size ?c \<le> length (bm_suspended bm) \<or> btm_get (bm_suspended bm) ?r \<noteq> None \<or>
      ?r \<in> known d \<or> vb_round b \<le> gc_round d")
    case True
    then show ?thesis
      using h p(1) max known by (auto simp: try_accept_one_block_def Let_def one_block_outcome_def waiting_def)
  next
    case False
    obtain mis f bm1 where f: "fold_opt (note_missing ?r) ?Ms ([], [], bm) = Some (mis, f, bm1)"
       "set mis = set ?Ms" "bts_wf mis" "bm_context bm1 = bm_context bm"
       "bm_received_block_rounds bm1 = bm_received_block_rounds bm"
       "bm_suspended bm1 = bm_suspended bm" "btm_wf (bm_missing_ancestors bm1)" "bts_wf (bm_missing_blocks bm1)"
       "\<forall>x cs. btm_get (bm_missing_ancestors bm1) x = Some cs \<longrightarrow> bts_wf cs"
       "\<forall>x y. has_child bm1 x y \<longleftrightarrow> has_child bm x y \<or> x \<in> set ?Ms \<and> y = ?r"
       "missing_keys bm1 = set ?Ms \<union> missing_keys bm"
       "set (bm_missing_blocks bm1) = set (bm_missing_blocks bm) \<union> (set ?Ms - suspended_keys bm)"
      using note_missing_fold [of "[]" bm ?Ms ?r "[]"] p(1,4,5,7) valid(2) by auto
    let ?bm2 = "bm1\<lparr>bm_missing_blocks := bts_remove ?r (bm_missing_blocks bm1)\<rparr>"
    let ?bm3 = "?bm2\<lparr>bm_suspended := btm_insert ?r \<lparr>su_block = b, su_missing = mis\<rparr> (bm_suspended ?bm2)\<rparr>"
    have run: "try_accept_one_block d bm b = Some (if mis \<noteq> [] then (Suspended f, ?bm3) else (Accepted b, ?bm2))"
      using False h p(1) max known found f(1,4)
      by (auto simp: try_accept_one_block_def Let_def fold_opt_filter)
    have susp: "btm_get (bm_suspended bm) ?r = None" "?r \<notin> known d" "gc_round d < vb_round b"
        "length (bm_suspended bm) < 10000 * committee_size ?c"
      using False by auto
    show ?thesis
    proof (cases "mis = []")
      case False
      have "pending own (ds_context d) (gc_round d) (known d) [] ?bm3"
        by (rule pending_suspend [OF pend b susp(2,1) f(2,3)])
          (use False f p(1) in \<open>auto simp: bts_wf_remove set_bts_remove has_child_def missing_of_block_def\<close>)
      moreover have "missing_of_block d b \<noteq> {}" using False f(2) Ms by auto
      ultimately show ?thesis
        using False run susp f(6,11) dag length_btm_insert_le [of ?r _ "bm_suspended bm"] Ms
        by (auto simp: one_block_outcome_def bm_inv_def waiting_def btree_simps)
    next
      case True
      then have "set ?Ms = {}" using f(2) by simp
      then have "?Ms = []" "missing_of_block d b = {}" unfolding Ms [symmetric] by (simp_all only: set_empty)
      moreover from this have "bm1 = bm" using f(1) by simp
      ultimately show ?thesis using True run susp pending_root [OF pend susp(1)]
        by (auto simp: one_block_outcome_def waiting_def)
    qed
  qed
qed

subsection \<open>Accepting with the released children\<close>

text \<open>The blocks \<open>new\<close> entered the DAG, in an order in which ancestors come first.\<close>

definition dag_extended :: "(Round \<Rightarrow> block_ref) \<Rightarrow> dag_state \<Rightarrow> verified_block list \<Rightarrow> dag_state \<Rightarrow> bool" where
  "dag_extended own d new d' \<longleftrightarrow>
     dag_ok own d' \<and> ds_context d' = ds_context d \<and> gc_round d' = gc_round d \<and>
     causal (gc_round d) (known d) new \<and> known d' = known d \<union> refs_of new \<and>
     get_block d \<subseteq>\<^sub>m get_block d' \<and> (\<forall>b \<in> set new. get_block d' (vb_reference b) = Some b)"

lemma dag_extended_refl: "dag_ok own d \<Longrightarrow> dag_extended own d [] d"
  by (simp add: dag_extended_def)

lemma dag_extended_trans:
  assumes "dag_extended own d xs d1" "dag_extended own d1 ys d2"
  shows "dag_extended own d (xs @ ys) d2"
proof -
  have "get_block d2 (vb_reference b) = Some b" if "b \<in> set xs" for b
    using assms that by (auto simp: dag_extended_def map_le_def) (metis domI)
  then show ?thesis
    using assms by (auto simp: dag_extended_def causal_append intro: map_le_trans)
qed

lemma accept_with_children_spec:
  assumes dag: "dag_ok own d" and pre: "causal (gc_round d) (known d) pre" "\<And>b. b \<in> set pre \<Longrightarrow> good_block own (ds_context d) b"
    and pend: "pending own (ds_context d) (gc_round d) (known d \<union> refs_of pre) [r] bm"
  shows "\<exists>new d' bm'. accept_with_children now r pre acc d bm = Some (acc @ pre @ new, d', bm') \<and>
     dag_extended own d (pre @ new) d' \<and> bm_inv own d' bm' \<and>
     (\<forall>b \<in> set new. waiting bm (vb_reference b) = Some b) \<and>
     waiting bm' = (\<lambda>x. if x \<in> refs_of new then None else waiting bm x) \<and>
     missing_keys bm' \<subseteq> missing_keys bm - {r}"
proof -
  obtain new bm' where l: "unsuspend_loop [r] [] bm = Some (new, bm')"
      "causal (gc_round d) (known d \<union> refs_of pre) (map su_block new)"
      "pending own (ds_context d) (gc_round d) (known d \<union> refs_of pre \<union> refs_of (map su_block new)) [] bm'"
      "\<forall>s \<in> set new. waiting bm (vb_reference (su_block s)) = Some (su_block s)"
      "waiting bm' = (\<lambda>x. if x \<in> refs_of (map su_block new) then None else waiting bm x)"
    using unsuspend_loop_spec [OF pend, of "[]"] by auto
  let ?new = "map su_block new"
  have w: "\<forall>b \<in> set ?new. waiting bm (vb_reference b) = Some b" using l(4) by auto
  then have good: "good_block own (ds_context d) b" if "b \<in> set (pre @ ?new)" for b
    using that pre(2) pending_waiting [OF pend] by auto
  have "bm_authority bm' (vb_author (su_block s)) \<noteq> None" if "s \<in> set new" for s
    using good [of "su_block s"] that pendingD(1) [OF l(3)]
      authority_Some [of "vb_author (su_block s)" "ds_committee d"]
    by (auto simp: good_block_def valid_block_def)
  then have "\<exists>ys. map_opt (\<lambda>block. bm_authority bm' (vb_author (su_block block))) new = Some ys"
    by (intro map_opt_total) blast
  then have run: "try_unsuspend_children_blocks bm r = Some (?new, bm')"
    using l(1) by (auto simp: try_unsuspend_children_blocks_def)
  have causal: "causal (gc_round d) (known d) (pre @ ?new)" using pre(1) l(2) by (simp only: causal_append)
  obtain d' where d': "accept_blocks d (pre @ ?new) now = Some d'" "dag_ok own d'" "ds_context d' = ds_context d"
     "gc_round d' = gc_round d" "known d' = known d \<union> refs_of (pre @ ?new)" "get_block d \<subseteq>\<^sub>m get_block d'"
     "\<forall>b \<in> set (pre @ ?new). get_block d' (vb_reference b) = Some b"
    using accept_blocks_causal [OF dag good causal, of now] by blast
  have "known d' = known d \<union> refs_of pre \<union> refs_of ?new" using d'(5) by auto
  then have "bm_inv own d' bm'" using l(3) d'(2-4) by (simp only: bm_inv_def simp_thms)
  moreover have "dag_extended own d (pre @ ?new) d'" using d' causal by (simp only: dag_extended_def simp_thms)
  moreover have "missing_keys bm' \<subseteq> missing_keys bm - {r}" using unsuspend_loop_missing [OF l(1)] by simp
  moreover have "accept_with_children now r pre acc d bm = Some (acc @ pre @ ?new, d', bm')"
    by (simp add: accept_with_children_def Let_def run d'(1))
  ultimately show ?thesis using w l(5) by blast
qed

subsection \<open>Accepting a batch\<close>

text \<open>One iteration for a block that is not certified: it is in the DAG afterwards, or it waits, or it
  was skipped; the other waiting blocks still wait or are in the DAG.\<close>

definition step_outcome ::
  "(Round \<Rightarrow> block_ref) \<Rightarrow> dag_state \<Rightarrow> block_manager \<Rightarrow> verified_block \<Rightarrow> verified_block list \<Rightarrow>
   dag_state \<Rightarrow> block_manager \<Rightarrow> bool" where
  "step_outcome own d bm b new d' bm' \<longleftrightarrow>
     dag_extended own d new d' \<and> bm_inv own d' bm' \<and>
     (\<forall>x \<in> set new. x = b \<and> gc_round d < vb_round b \<or> waiting bm (vb_reference x) = Some x) \<and>
     (\<forall>r x. waiting bm' r = Some x \<longrightarrow> waiting bm r = Some x \<or> x = b \<and> r = vb_reference b \<and> gc_round d < vb_round b) \<and>
     (\<forall>r. waiting bm r \<noteq> None \<longrightarrow> waiting bm' r \<noteq> None \<or> r \<in> known d') \<and>
     (gc_round d < vb_round b \<longrightarrow> length (bm_suspended bm) < 10000 * committee_size (ds_committee d) \<longrightarrow>
        waiting bm' (vb_reference b) \<noteq> None \<or> vb_reference b \<in> known d') \<and>
     missing_keys bm' \<subseteq> missing_keys bm \<union> missing_of_block d b"

lemma update_metrics_spec:
  assumes "bm_inv own d bm" "vb_author b < committee_size (ds_committee d)"
  shows "\<exists>bm'. update_block_received_metrics bm b = Some bm' \<and> bm_inv own d bm' \<and> waiting bm' = waiting bm \<and>
     bm_suspended bm' = bm_suspended bm \<and> missing_keys bm' = missing_keys bm"
proof -
  have pend: "pending own (ds_context d) (gc_round d) (known d) [] bm" using assms(1) by (simp add: bm_inv_def)
  note p = pendingD [OF pend]
  obtain h where h: "bm_authority bm (vb_author b) = Some h" using authority_Some [OF assms(2)] p(1) by auto
  have "vb_author b < length (bm_received_block_rounds bm)" using p(2) assms(2) by simp
  then obtain rs where run: "update_block_received_metrics bm b = Some (bm\<lparr>bm_received_block_rounds := rs\<rparr>)"
      "length rs = length (bm_received_block_rounds bm)"
    using h by (auto simp: update_block_received_metrics_def vec_get_def vec_set_def Let_def)
  then have "pending own (ds_context d) (gc_round d) (known d) [] (bm\<lparr>bm_received_block_rounds := rs\<rparr>)"
    using pend by (simp add: pending_def has_child_def waits_for_def)
  with run(1) assms(1) show ?thesis by (simp add: bm_inv_def waiting_def fun_eq_iff)
qed

lemma suspended_length:
  assumes "bm_inv own d bm"
  shows "length (bm_suspended bm) = card {r. waiting bm r \<noteq> None}" "finite {r. waiting bm r \<noteq> None}"
proof -
  have keys: "{r. waiting bm r \<noteq> None} = suspended_keys bm" by (auto simp: waiting_def btm_key_get)
  have "distinct (btm_keys (bm_suspended bm))"
    using assms by (simp add: bm_inv_def pending_def btm_wf_def strict_sorted_iff)
  then show "length (bm_suspended bm) = card {r. waiting bm r \<noteq> None}"
    unfolding keys using distinct_card [of "btm_keys (bm_suspended bm)"] by (simp add: btm_keys_def)
  show "finite {r. waiting bm r \<noteq> None}" unfolding keys by simp
qed

lemma step_outcome_length:
  assumes "bm_inv own d bm" "step_outcome own d bm b new d' bm'"
  shows "length (bm_suspended bm') \<le> Suc (length (bm_suspended bm))"
proof -
  have inv': "bm_inv own d' bm'" using assms(2) by (simp add: step_outcome_def)
  have "{r. waiting bm' r \<noteq> None} \<subseteq> insert (vb_reference b) {r. waiting bm r \<noteq> None}"
    using assms(2) by (auto simp: step_outcome_def)
  then have "card {r. waiting bm' r \<noteq> None} \<le> card (insert (vb_reference b) {r. waiting bm r \<noteq> None})"
    by (rule card_mono [rotated]) (use suspended_length(2) [OF assms(1)] in simp)
  also have "\<dots> \<le> Suc (card {r. waiting bm r \<noteq> None})" by (rule card_insert_le_m1) auto
  finally show ?thesis by (simp only: suspended_length(1) [OF assms(1)] suspended_length(1) [OF inv'])
qed

lemma accept_step_spec:
  assumes inv: "bm_inv own d bm" and b: "good_block own (ds_context d) b"
  shows "\<exists>new mis' d' bm'. accept_step False now b (acc, mis, d, bm) = Some (acc @ new, mis', d', bm') \<and>
     step_outcome own d bm b new d' bm'"
proof -
  have dag: "dag_ok own d" using inv by (simp add: bm_inv_def)
  have author: "vb_author b < committee_size (ds_committee d)" using b by (simp add: good_block_def valid_block_def)
  obtain bm1 where m: "update_block_received_metrics bm b = Some bm1" and inv1: "bm_inv own d bm1"
      and same: "waiting bm1 = waiting bm" "bm_suspended bm1 = bm_suspended bm" "missing_keys bm1 = missing_keys bm"
    using update_metrics_spec [OF inv author] by blast
  obtain res bm2 where one: "try_accept_one_block d bm1 b = Some (res, bm2)" and out: "one_block_outcome own d bm1 b res bm2"
    using try_accept_one_block_spec [OF inv1 b] by blast
  note defs = accept_step_def m one step_outcome_def dag_extended_refl [OF dag] one_block_outcome_def same
  show ?thesis
  proof (cases res)
    case (Accepted b')
    with out have a: "b' = b" "gc_round d < vb_round b" "vb_reference b \<notin> known d" "missing_of_block d b = {}"
        "waiting bm2 = waiting bm" "missing_keys bm2 = missing_keys bm"
        "pending own (ds_context d) (gc_round d) (known d \<union> refs_of [b]) [vb_reference b] bm2"
      by (simp_all add: one_block_outcome_def same)
    have causal: "causal (gc_round d) (known d) [b]" using a(3,4) by (auto simp: missing_of_block_def)
    obtain new d' bm' where n: "accept_with_children now (vb_reference b) [b] acc d bm2 = Some (acc @ [b] @ new, d', bm')"
        "dag_extended own d ([b] @ new) d'" "bm_inv own d' bm'" "\<forall>x \<in> set new. waiting bm (vb_reference x) = Some x"
        "waiting bm' = (\<lambda>x. if x \<in> refs_of new then None else waiting bm x)"
        "missing_keys bm' \<subseteq> missing_keys bm - {vb_reference b}"
      using accept_with_children_spec [OF dag causal _ a(7), of now acc] b unfolding a(5,6) by auto
    have "step_outcome own d bm b ([b] @ new) d' bm'"
      using n a unfolding step_outcome_def by (auto simp: dag_extended_def)
    moreover have "accept_step False now b (acc, mis, d, bm) = Some (acc @ ([b] @ new), mis, d', bm')"
      using n(1) by (simp add: accept_step_def m one Accepted a(1))
    ultimately show ?thesis by blast
  next
    case (Suspended f)
    with out inv1 show ?thesis
      by (intro exI [of _ "[]"] exI [of _ "fold bts_insert f mis"] exI [of _ d] exI [of _ bm2]) (auto simp: defs)
  next
    case Processed
    with out inv1 show ?thesis
      by (intro exI [of _ "[]"] exI [of _ mis] exI [of _ d] exI [of _ bm1]) (auto simp: defs)
  next
    case Skipped
    with out inv1 show ?thesis
      by (intro exI [of _ "[]"] exI [of _ mis] exI [of _ d] exI [of _ bm1]) (auto simp: defs)
  qed
qed

text \<open>The blocks the manager may still accept: those that wait and those it receives.\<close>

definition pool :: "block_manager \<Rightarrow> verified_block set" where
  "pool bm = {b. \<exists>r. waiting bm r = Some b}"

definition genesis_known :: "dag_state \<Rightarrow> verified_block \<Rightarrow> bool" where
  "genesis_known d b \<longleftrightarrow> (\<forall>a \<in> set (vb_ancestors b). br_round a = 0 \<longrightarrow> a \<in> known d)"

definition received :: "dag_state \<Rightarrow> verified_block list \<Rightarrow> verified_block set" where
  "received d bs = {b \<in> set bs. gc_round d < vb_round b}"

definition batch_outcome ::
  "(Round \<Rightarrow> block_ref) \<Rightarrow> dag_state \<Rightarrow> block_manager \<Rightarrow> verified_block set \<Rightarrow> verified_block list \<Rightarrow>
   dag_state \<Rightarrow> block_manager \<Rightarrow> bool" where
  "batch_outcome own d bm B new d' bm' \<longleftrightarrow>
     dag_extended own d new d' \<and> bm_inv own d' bm' \<and>
     set new \<subseteq> pool bm \<union> B \<and> pool bm' \<subseteq> pool bm \<union> B \<and>
     (\<forall>x \<in> pool bm \<union> B. vb_reference x \<in> known d' \<or> waiting bm' (vb_reference x) \<noteq> None) \<and>
     missing_keys bm' \<subseteq> missing_keys bm \<union> {a. gc_round d < br_round a}"

lemma bm_inv_waiting: "bm_inv own d bm \<Longrightarrow> waiting bm r = Some b \<Longrightarrow> vb_reference b = r"
  using pending_waiting by (auto simp: bm_inv_def)

lemma step_outcomeD:
  assumes "step_outcome own d bm b new d' bm'"
  shows "dag_extended own d new d'" "bm_inv own d' bm'"
    and "x \<in> set new \<Longrightarrow> x = b \<and> gc_round d < vb_round b \<or> waiting bm (vb_reference x) = Some x"
    and "waiting bm' r = Some x \<Longrightarrow> waiting bm r = Some x \<or> x = b \<and> r = vb_reference b \<and> gc_round d < vb_round b"
    and "waiting bm r = Some x \<Longrightarrow> waiting bm' r \<noteq> None \<or> r \<in> known d'"
    and "gc_round d < vb_round b \<Longrightarrow> length (bm_suspended bm) < 10000 * committee_size (ds_committee d) \<Longrightarrow>
        waiting bm' (vb_reference b) \<noteq> None \<or> vb_reference b \<in> known d'"
    and "missing_keys bm' \<subseteq> missing_keys bm \<union> missing_of_block d b"
proof -
  show "waiting bm r = Some x \<Longrightarrow> waiting bm' r \<noteq> None \<or> r \<in> known d'"
    using assms unfolding step_outcome_def by (metis option.distinct(1))
qed (use assms in \<open>unfold step_outcome_def, blast+\<close>)

lemma step_outcome_batch:
  assumes inv: "bm_inv own d bm" and out: "step_outcome own d bm b new d' bm'"
    and gen: "genesis_known d b" and len: "length (bm_suspended bm) < 10000 * committee_size (ds_committee d)"
  shows "batch_outcome own d bm (received d [b]) new d' bm'"
proof -
  note w = bm_inv_waiting [OF inv]
  have "missing_of_block d b \<subseteq> {a. gc_round d < br_round a}"
    using gen by (auto simp: missing_of_block_def genesis_known_def)
  then have "missing_keys bm' \<subseteq> missing_keys bm \<union> {a. gc_round d < br_round a}"
    using step_outcomeD(7) [OF out] by blast
  moreover have "set new \<subseteq> pool bm \<union> received d [b]" "pool bm' \<subseteq> pool bm \<union> received d [b]"
    using step_outcomeD(3,4) [OF out] by (auto simp: pool_def received_def)
  moreover have "vb_reference x \<in> known d' \<or> waiting bm' (vb_reference x) \<noteq> None"
    if "x \<in> pool bm \<union> received d [b]" for x
    using that step_outcomeD(5,6) [OF out] len w by (auto simp: pool_def received_def)
  ultimately show ?thesis using step_outcomeD(1,2) [OF out] unfolding batch_outcome_def by blast
qed

lemma batch_outcome_trans:
  assumes "batch_outcome own d bm A xs d1 bm1" "batch_outcome own d1 bm1 B ys d2 bm2"
    and inv: "bm_inv own d bm"
  shows "batch_outcome own d bm (A \<union> B) (xs @ ys) d2 bm2"
proof -
  have ext: "dag_extended own d xs d1" "dag_extended own d1 ys d2"
    and inv1: "bm_inv own d1 bm1" using assms(1,2) by (auto simp: batch_outcome_def)
  then have mono: "known d1 \<subseteq> known d2" "gc_round d1 = gc_round d" by (auto simp: dag_extended_def)
  have "vb_reference x \<in> known d2 \<or> waiting bm2 (vb_reference x) \<noteq> None" if x: "x \<in> pool bm \<union> A" for x
  proof (cases "vb_reference x \<in> known d1")
    case False
    then obtain y where "waiting bm1 (vb_reference x) = Some y" using assms(1) x by (auto simp: batch_outcome_def)
    then have "y \<in> pool bm1" "vb_reference y = vb_reference x"
      using bm_inv_waiting [OF inv1] by (auto simp: pool_def)
    then show ?thesis using assms(2) unfolding batch_outcome_def by (metis UnCI)
  qed (use mono in blast)
  then show ?thesis
    using assms(1,2) dag_extended_trans [OF ext] mono unfolding batch_outcome_def by auto
qed

lemma accept_batch:
  assumes "bm_inv own d bm" "\<And>b. b \<in> set bs \<Longrightarrow> good_block own (ds_context d) b \<and> genesis_known d b"
    and "length (bm_suspended bm) + length bs \<le> 10000 * committee_size (ds_committee d)"
  shows "\<exists>new mis' d' bm'. fold_opt (accept_step False now) bs (acc, mis, d, bm) = Some (acc @ new, mis', d', bm') \<and>
     batch_outcome own d bm (received d bs) new d' bm'"
  using assms
proof (induction bs arbitrary: acc mis d bm)
  case Nil
  then have "batch_outcome own d bm (received d []) [] d bm"
    using bm_inv_waiting [OF Nil.prems(1)]
    by (auto simp: batch_outcome_def received_def pool_def dag_extended_refl bm_inv_def)
  then show ?case by auto
next
  case (Cons b bs)
  obtain new1 mis1 d1 bm1 where s: "accept_step False now b (acc, mis, d, bm) = Some (acc @ new1, mis1, d1, bm1)"
      "step_outcome own d bm b new1 d1 bm1"
    using accept_step_spec [OF Cons.prems(1), of b now acc mis] Cons.prems(2) by auto
  have o1: "batch_outcome own d bm (received d [b]) new1 d1 bm1"
    by (rule step_outcome_batch [OF Cons.prems(1) s(2)]) (use Cons.prems(2,3) in auto)
  then have e: "bm_inv own d1 bm1" "ds_context d1 = ds_context d" "gc_round d1 = gc_round d" "known d \<subseteq> known d1"
    by (auto simp: batch_outcome_def dag_extended_def)
  have g: "good_block own (ds_context d1) x \<and> genesis_known d1 x" if "x \<in> set bs" for x
    using Cons.prems(2) [of x] that e(2,4) by (auto simp: genesis_known_def)
  have l: "length (bm_suspended bm1) + length bs \<le> 10000 * committee_size (ds_committee d1)"
    using step_outcome_length [OF Cons.prems(1) s(2)] Cons.prems(3) e(2) by simp
  obtain new2 mis2 d2 bm2 where t: "fold_opt (accept_step False now) bs (acc @ new1, mis1, d1, bm1) = Some ((acc @ new1) @ new2, mis2, d2, bm2)"
     "batch_outcome own d1 bm1 (received d1 bs) new2 d2 bm2"
    using Cons.IH [OF e(1) g l, of "acc @ new1" mis1] by auto
  have "received d [b] \<union> received d1 bs = received d (b # bs)" using e(3) by (auto simp: received_def)
  with batch_outcome_trans [OF o1 t(2) Cons.prems(1)]
  have "batch_outcome own d bm (received d (b # bs)) (new1 @ new2) d2 bm2" by simp
  moreover have "fold_opt (accept_step False now) (b # bs) (acc, mis, d, bm) = Some (acc @ (new1 @ new2), mis2, d2, bm2)"
    using s(1) t(1) by simp
  ultimately show ?case by blast
qed

subsection \<open>The abstract block manager\<close>

text \<open>The specification: a set of references \<open>K\<close> in the DAG and a set of blocks that wait.  Delivering
  blocks moves into the DAG every block that is connected to it.\<close>

inductive connected :: "Round \<Rightarrow> block_ref set \<Rightarrow> verified_block set \<Rightarrow> block_ref \<Rightarrow> bool"
  for gc K P where
  connect: "b \<in> P \<Longrightarrow> (\<And>a. a \<in> set (vb_ancestors b) \<Longrightarrow> gc < br_round a \<Longrightarrow> a \<in> K \<or> connected gc K P a) \<Longrightarrow>
     connected gc K P (vb_reference b)"

definition deliver ::
  "Round \<Rightarrow> verified_block set \<Rightarrow> block_ref set \<times> verified_block set \<Rightarrow> block_ref set \<times> verified_block set" where
  "deliver gc B s =
     (let P = snd s \<union> B; K = fst s \<union> {r. connected gc (fst s) P r}
      in (K, {b \<in> P. vb_reference b \<notin> K}))"

definition abs_state :: "dag_state \<Rightarrow> block_manager \<Rightarrow> block_ref set \<times> verified_block set" where
  "abs_state d bm = (known d, pool bm)"

text \<open>No missing block is below the garbage collection round.\<close>

definition gc_clean :: "dag_state \<Rightarrow> block_manager \<Rightarrow> bool" where
  "gc_clean d bm \<longleftrightarrow> (\<forall>a \<in> missing_keys bm. gc_round d < br_round a)"

lemma causal_connected:
  assumes "causal gc K bs" "set bs \<subseteq> P" "K \<subseteq> K0 \<union> {r. connected gc K0 P r}"
  shows "refs_of bs \<subseteq> {r. connected gc K0 P r}"
  using assms
proof (induction bs arbitrary: K)
  case (Cons b bs)
  have b: "connected gc K0 P (vb_reference b)"
    by (rule connect) (use Cons.prems in auto)
  moreover have "refs_of bs \<subseteq> {r. connected gc K0 P r}"
    by (rule Cons.IH [of "insert (vb_reference b) K"]) (use Cons.prems b in auto)
  ultimately show ?case by simp
qed simp

text \<open>A block that waits in a clean state has an ancestor above the garbage collection round that is
  not in the DAG.\<close>

lemma waiting_ancestor:
  assumes inv: "bm_inv own d bm" and w: "waiting bm r = Some b" and clean: "gc_clean d bm"
  shows "\<exists>a \<in> set (vb_ancestors b). gc_round d < br_round a \<and> a \<notin> known d" "r \<notin> known d"
proof -
  have pend: "pending own (ds_context d) (gc_round d) (known d) [] bm" using inv by (simp add: bm_inv_def)
  obtain s where s: "btm_get (bm_suspended bm) r = Some s" "su_block s = b" using w by (auto simp: waiting_def)
  then have ok: "suspended_ok own (ds_context d) (gc_round d) (known d) r s" by (rule_tac pendingD(6) [OF pend])
  then obtain a where a: "a \<in> set (su_missing s)" "a \<in> set (vb_ancestors b)"
    using s(2) by (cases "su_missing s") (auto simp: suspended_ok_def)
  have "has_child bm a r" using pendingD(8) [OF pend, of a r] s(1) a(1) by (auto simp: waits_for_def)
  then have "a \<in> missing_keys bm" by (auto simp: has_child_def btm_key_get)
  then have "a \<notin> known d" "gc_round d < br_round a"
    using pendingD(9) [OF pend] clean by (auto simp: gc_clean_def)
  with a(2) show "\<exists>a \<in> set (vb_ancestors b). gc_round d < br_round a \<and> a \<notin> known d" by blast
  show "r \<notin> known d" using ok by (simp add: suspended_ok_def)
qed

lemma batch_outcome_deliver:
  assumes inv: "bm_inv own d bm" and out: "batch_outcome own d bm B new d' bm'" and clean: "gc_clean d bm"
    and inj: "inj_on vb_reference (pool bm \<union> B)"
  shows "abs_state d' bm' = deliver (gc_round d) B (abs_state d bm)" "gc_clean d' bm'"
proof -
  let ?P = "pool bm \<union> B"
  let ?C = "{r. connected (gc_round d) (known d) ?P r}"
  have o: "dag_extended own d new d'" "bm_inv own d' bm'" "set new \<subseteq> ?P" "pool bm' \<subseteq> ?P"
    "\<And>x. x \<in> ?P \<Longrightarrow> vb_reference x \<in> known d' \<or> waiting bm' (vb_reference x) \<noteq> None"
    using out by (auto simp: batch_outcome_def)
  have gc: "gc_round d' = gc_round d" and known: "known d' = known d \<union> refs_of new"
    and causal: "causal (gc_round d) (known d) new" using o(1) by (auto simp: dag_extended_def)
  show clean': "gc_clean d' bm'" using out clean gc by (auto simp: batch_outcome_def gc_clean_def)
  have same: "waiting bm' (vb_reference x) = Some x" if x: "x \<in> ?P" "vb_reference x \<notin> known d'" for x
  proof -
    obtain y where y: "waiting bm' (vb_reference x) = Some y" using o(5) [OF x(1)] x(2) by auto
    then have "y \<in> ?P" "vb_reference y = vb_reference x"
      using o(4) bm_inv_waiting [OF o(2) y] by (auto simp: pool_def)
    then show ?thesis using y inj x(1) by (auto dest: inj_onD)
  qed
  have "r \<in> known d'" if "connected (gc_round d) (known d) ?P r" for r
    using that
  proof induction
    case (connect b)
    show ?case
    proof (rule ccontr)
      assume "vb_reference b \<notin> known d'"
      from same [OF connect(1) this] obtain a where "a \<in> set (vb_ancestors b)" "gc_round d < br_round a" "a \<notin> known d'"
        using waiting_ancestor [OF o(2) _ clean'] gc by force
      then show False using connect(2) known by blast
    qed
  qed
  moreover have "refs_of new \<subseteq> ?C" by (rule causal_connected [OF causal o(3)]) simp
  ultimately have K: "known d' = known d \<union> ?C" using known by blast
  have "b \<in> pool bm' \<longleftrightarrow> b \<in> ?P \<and> vb_reference b \<notin> known d'" for b
    using same [of b] o(4) waiting_ancestor(2) [OF o(2) _ clean'] bm_inv_waiting [OF o(2)]
    by (auto simp: pool_def)
  then have "pool bm' = {b \<in> ?P. vb_reference b \<notin> known d'}" by blast
  then show "abs_state d' bm' = deliver (gc_round d) B (abs_state d bm)"
    by (simp add: abs_state_def deliver_def Let_def K)
qed

lemma try_accept_blocks_exact:
  assumes inv: "bm_inv own d bm" and clean: "gc_clean d bm"
    and bs: "\<And>b. b \<in> set bs \<Longrightarrow> good_block own (ds_context d) b \<and> genesis_known d b"
    and len: "length (bm_suspended bm) + length bs \<le> 10000 * committee_size (ds_committee d)"
    and inj: "inj_on vb_reference (pool bm \<union> set bs)"
  shows "\<exists>accepted missing d' bm'. try_accept_blocks now d bm bs = Some (accepted, missing, d', bm') \<and>
     batch_outcome own d bm (received d bs) accepted d' bm' \<and> gc_clean d' bm' \<and>
     abs_state d' bm' = deliver (gc_round d) (received d bs) (abs_state d bm)"
proof -
  have "good_block own (ds_context d) b \<and> genesis_known d b" if "b \<in> set (sort_key vb_round bs)" for b
    using bs that by simp
  with accept_batch [OF inv, of "sort_key vb_round bs" now "[]" "[]"] len
  obtain new mis d' bm' where f: "fold_opt (accept_step False now) (sort_key vb_round bs) ([], [], d, bm) = Some (new, mis, d', bm')"
      "batch_outcome own d bm (received d (sort_key vb_round bs)) new d' bm'" by auto
  have r: "received d (sort_key vb_round bs) = received d bs" by (simp add: received_def)
  have "inj_on vb_reference (pool bm \<union> received d bs)"
    by (rule inj_on_subset [OF inj]) (auto simp: received_def)
  from batch_outcome_deliver [OF inv f(2) [unfolded r] clean this] f r show ?thesis
    by (auto simp: try_accept_blocks_def try_accept_blocks_internal_def)
qed

end
