(* ===== verification/Block_Manager_Operations.thy ===== *)
theory Block_Manager_Operations
  imports Block_Manager_Properties
begin

section \<open>The operations of the block manager\<close>

text \<open>
  Garbage collection of missing ancestors, certified blocks and the search for blocks, and the
  properties of the block manager as a whole, with their witnesses.
\<close>

subsection \<open>Missing ancestors below the garbage collection round\<close>

lemma pool_after:
  assumes "bm_inv own d bm" "bm_inv own d' bm'"
    and "\<forall>b \<in> set new. waiting bm (vb_reference b) = Some b"
    and "waiting bm' = (\<lambda>x. if x \<in> refs_of new then None else waiting bm x)"
  shows "set new \<subseteq> pool bm" "pool bm' = pool bm - set new"
proof -
  show "set new \<subseteq> pool bm" using assms(3) by (auto simp: pool_def)
  have "b \<in> pool bm' \<longleftrightarrow> b \<in> pool bm \<and> b \<notin> set new" for b
  proof
    assume "b \<in> pool bm'"
    then obtain r where r: "waiting bm' r = Some b" by (auto simp: pool_def)
    then have "r \<notin> refs_of new" "waiting bm r = Some b" by (auto simp: assms(4) split: if_splits)
    moreover have "vb_reference b = r" by (rule bm_inv_waiting [OF assms(2) r])
    ultimately show "b \<in> pool bm \<and> b \<notin> set new" unfolding pool_def by blast
  next
    assume b: "b \<in> pool bm \<and> b \<notin> set new"
    then have w: "waiting bm (vb_reference b) = Some b" using bm_inv_waiting [OF assms(1)] by (auto simp: pool_def)
    moreover have "vb_reference b \<notin> refs_of new"
    proof
      assume "vb_reference b \<in> refs_of new"
      then obtain x where "x \<in> set new" "vb_reference b = vb_reference x" by blast
      then have "waiting bm (vb_reference b) = Some x" using assms(3) by simp
      then show False using w b \<open>x \<in> set new\<close> by simp
    qed
    ultimately have "waiting bm' (vb_reference b) = Some b" by (simp add: assms(4))
    then show "b \<in> pool bm'" unfolding pool_def by blast
  qed
  then show "pool bm' = pool bm - set new" by blast
qed

text \<open>The oldest missing ancestor is never itself suspended: a suspended block misses an older one.\<close>

lemma first_missing_not_suspended:
  assumes pend: "pending own ctx gc K stack bm" and first: "bm_missing_ancestors bm = (r, cs) # rest"
  shows "btm_get (bm_suspended bm) r = None"
proof (rule ccontr)
  assume "btm_get (bm_suspended bm) r \<noteq> None"
  then obtain s where s: "btm_get (bm_suspended bm) r = Some s" by auto
  then have ok: "suspended_ok own ctx gc K r s" by (rule pendingD(6) [OF pend])
  then obtain a where a: "a \<in> set (su_missing s)" "a \<in> set (vb_ancestors (su_block s))"
    by (cases "su_missing s") (auto simp: suspended_ok_def)
  have "br_round a < br_round r"
    using ok a(2) by (auto simp: suspended_ok_def good_block_def valid_block_def)
  then have less: "a < r" by (simp add: block_ref_less_iff)
  have "has_child bm a r" using pendingD(8) [OF pend, of a r] s a(1) by (auto simp: waits_for_def)
  then have "a \<in> missing_keys bm" by (auto simp: has_child_def btm_key_get)
  then show False using pendingD(4) [OF pend] less by (auto simp: first)
qed

lemma gc_unsuspend_loop_spec:
  assumes "bm_inv own d bm" "gc = gc_round d"
  shows "\<exists>new d' bm'. gc_unsuspend_loop now gc d bm = Some (d', bm') \<and> dag_extended own d new d' \<and>
     bm_inv own d' bm' \<and> gc_clean d' bm' \<and> set new \<subseteq> pool bm \<and> pool bm' = pool bm - set new"
  using assms
proof (induction now gc d bm rule: gc_unsuspend_loop.induct)
  case (1 now gc d bm)
  have pend: "pending own (ds_context d) (gc_round d) (known d) [] bm" and dag: "dag_ok own d"
    using "1.prems" by (auto simp: bm_inv_def)
  note p = pendingD [OF pend]
  show ?case
  proof (cases "\<exists>r cs rest. bm_missing_ancestors bm = (r, cs) # rest \<and> br_round r \<le> gc")
    case False
    have "gc_clean d bm"
    proof (cases "bm_missing_ancestors bm")
      case (Cons e rest)
      then obtain r cs where e: "bm_missing_ancestors bm = (r, cs) # rest" by (cases e) auto
      then have gc: "gc < br_round r" using False by auto
      have "\<forall>a \<in> missing_keys bm. r \<le> a" using p(4) e by auto
      with gc show ?thesis using "1.prems"(2) block_ref_less_round by (force simp: gc_clean_def)
    qed (simp add: gc_clean_def)
    moreover have "gc_unsuspend_loop now gc d bm = Some (d, bm)"
      using False by (subst gc_unsuspend_loop.simps) (auto split: list.split)
    ultimately show ?thesis
      using "1.prems" dag_extended_refl [OF dag]
      by (intro exI [of _ "[]"] exI [of _ d] exI [of _ bm]) auto
  next
    case True
    then obtain r cs rest where first: "bm_missing_ancestors bm = (r, cs) # rest" and r: "br_round r \<le> gc" by blast
    have get: "btm_get (bm_missing_ancestors bm) r = Some cs" by (simp add: first)
    obtain h where h: "bm_authority bm (br_author r) = Some h" using authority_Some p(7) [OF get] p(1) by auto
    have none: "btm_get (bm_suspended bm) r = None" by (rule first_missing_not_suspended [OF pend first])
    let ?bm = "bm\<lparr>bm_missing_blocks := bts_remove r (bm_missing_blocks bm)\<rparr>"
    have "pending own (ds_context d) (gc_round d) (known d \<union> refs_of []) [r] ?bm"
      using pend r "1.prems"(2)
      unfolding pending_def by (auto simp: btree_simps has_child_def waits_for_def)
    from accept_with_children_spec [OF dag _ _ this, of now "[]"]
    obtain new d1 bm1 where n: "accept_with_children now r [] [] d ?bm = Some (new, d1, bm1)"
        "dag_extended own d new d1" "bm_inv own d1 bm1" "\<forall>b \<in> set new. waiting ?bm (vb_reference b) = Some b"
        "waiting bm1 = (\<lambda>x. if x \<in> refs_of new then None else waiting ?bm x)"
      by auto
    then have run: "try_unsuspend_children_blocks ?bm r = Some (new, bm1)" "accept_blocks d new now = Some d1"
      by (auto simp: accept_with_children_def Let_def split: bind_splits)
    have w: "waiting ?bm = waiting bm" by (simp add: waiting_def fun_eq_iff)
    note po = pool_after [OF "1.prems"(1) n(3), of new, folded w, OF n(4,5), unfolded w]
    have "good_block own (ds_context d) b" if "b \<in> set new" for b
      using n(4) that pending_waiting [OF pend] unfolding w by auto
    then have "\<exists>ys. map_opt (\<lambda>b. bm_authority bm1 (vb_author b)) new = Some ys"
      using n(2,3) authority_Some
      by (intro map_opt_total) (force simp: good_block_def valid_block_def dag_extended_def bm_inv_def pending_def)
    then obtain ys where ys: "map_opt (\<lambda>b. bm_authority bm1 (vb_author b)) new = Some ys" ..
    have gc1: "gc = gc_round d1" using n(2) "1.prems"(2) by (simp add: dag_extended_def)
    have "\<exists>new' d' bm'. gc_unsuspend_loop now gc d1 bm1 = Some (d', bm') \<and> dag_extended own d1 new' d' \<and>
       bm_inv own d' bm' \<and> gc_clean d' bm' \<and> set new' \<subseteq> pool bm1 \<and> pool bm' = pool bm1 - set new'"
      using "1.IH" [OF first refl _ _ _ run(1) refl run(2) _ n(3) gc1] r h none ys by simp
    then obtain new' d' bm' where t: "gc_unsuspend_loop now gc d1 bm1 = Some (d', bm')" "dag_extended own d1 new' d'"
       "bm_inv own d' bm'" "gc_clean d' bm'" "set new' \<subseteq> pool bm1" "pool bm' = pool bm1 - set new'" by blast
    have "gc_unsuspend_loop now gc d bm = Some (d', bm')"
      using r h none ys run t(1) by (subst gc_unsuspend_loop.simps) (simp add: first)
    moreover have "set (new @ new') \<subseteq> pool bm" "pool bm' = pool bm - set (new @ new')" using po t(5,6) by auto
    ultimately show ?thesis using dag_extended_trans [OF n(2) t(2)] t(3,4) by blast
  qed
qed

subsection \<open>Certified blocks\<close>

lemma forget_child_fold:
  assumes "btm_wf (bm_missing_ancestors bm)" "\<forall>x cs. btm_get (bm_missing_ancestors bm) x = Some cs \<longrightarrow> bts_wf cs"
  shows "\<exists>ma. fold (forget_child r) as bm = bm\<lparr>bm_missing_ancestors := ma\<rparr> \<and> btm_wf ma \<and>
     (\<forall>x. btm_get ma x = map_option (\<lambda>cs. if x \<in> set as then bts_remove r cs else cs) (btm_get (bm_missing_ancestors bm) x))"
  using assms
proof (induction as arbitrary: bm)
  case Nil
  then show ?case by (intro exI [of _ "bm_missing_ancestors bm"]) (simp add: option.map_ident)
next
  case (Cons a as)
  have twice: "bts_remove r (bts_remove r cs) = bts_remove r cs" for cs :: "block_ref list"
    by (simp add: bts_remove_def)
  obtain ma where ma: "forget_child r a bm = bm\<lparr>bm_missing_ancestors := ma\<rparr>" "btm_wf ma"
      "\<And>x. btm_get ma x = map_option (\<lambda>cs. if x = a then bts_remove r cs else cs) (btm_get (bm_missing_ancestors bm) x)"
  proof (cases "btm_get (bm_missing_ancestors bm) a")
    case None
    have "btm_get (bm_missing_ancestors bm) x =
        map_option (\<lambda>cs. if x = a then bts_remove r cs else cs) (btm_get (bm_missing_ancestors bm) x)" for x
      using None by (cases "x = a") (simp_all add: option.map_ident)
    then show ?thesis
      using None Cons.prems by (intro that [of "bm_missing_ancestors bm"]) (simp_all add: forget_child_def)
  next
    case (Some cs)
    then show ?thesis
      using Cons.prems by (intro that [of "btm_insert a (bts_remove r cs) (bm_missing_ancestors bm)"])
        (auto simp: forget_child_def btree_simps option.map_ident)
  qed
  have "\<forall>x cs. btm_get (bm_missing_ancestors (bm\<lparr>bm_missing_ancestors := ma\<rparr>)) x = Some cs \<longrightarrow> bts_wf cs"
    using Cons.prems(2) by (auto simp: ma(3) btree_simps split: if_splits)
  with Cons.IH [of "bm\<lparr>bm_missing_ancestors := ma\<rparr>"] ma(2)
  obtain ma' where ma': "fold (forget_child r) as (bm\<lparr>bm_missing_ancestors := ma\<rparr>) = bm\<lparr>bm_missing_ancestors := ma'\<rparr>"
     "btm_wf ma'" "\<And>x. btm_get ma' x = map_option (\<lambda>cs. if x \<in> set as then bts_remove r cs else cs) (btm_get ma x)"
    by auto
  have "btm_get ma' x = map_option (\<lambda>cs. if x \<in> set (a # as) then bts_remove r cs else cs) (btm_get (bm_missing_ancestors bm) x)" for x
    unfolding ma'(3) ma(3) by (cases "btm_get (bm_missing_ancestors bm) x") (auto simp: twice)
  with ma' ma(1) show ?case by auto
qed

lemma committed_forget:
  assumes pend: "pending own ctx gc K [] bm" and new: "r \<notin> K"
    and bm1: "bm1 = bm\<lparr>bm_missing_blocks := bts_remove r (bm_missing_blocks bm)\<rparr>"
    and bm2: "bm2 = (case btm_get (bm_suspended bm1) r of
           Some suspended \<Rightarrow> fold (forget_child r) (su_missing suspended) (bm1\<lparr>bm_suspended := btm_remove r (bm_suspended bm1)\<rparr>)
         | None \<Rightarrow> bm1)"
  shows "pending own ctx gc (insert r K) [r] bm2" "waiting bm2 = (waiting bm)(r := None)"
proof -
  note p = pendingD [OF pend]
  have "pending own ctx gc (insert r K) [r] bm2 \<and> waiting bm2 = (waiting bm)(r := None)"
  proof (cases "btm_get (bm_suspended bm) r")
    case None
    then have "bm2 = bm1" by (simp add: bm1 bm2)
    then show ?thesis using pending_root [OF pend None] None by (auto simp: bm1 waiting_def)
  next
    case (Some s)
    let ?bm = "bm1\<lparr>bm_suspended := btm_remove r (bm_suspended bm1)\<rparr>"
    obtain ma where ma: "bm2 = ?bm\<lparr>bm_missing_ancestors := ma\<rparr>" "btm_wf ma"
        "\<And>x. btm_get ma x = map_option (\<lambda>cs. if x \<in> set (su_missing s) then bts_remove r cs else cs) (btm_get (bm_missing_ancestors bm) x)"
      using forget_child_fold [of ?bm r "su_missing s"] p(4,7) Some by (auto simp: bm1 bm2)
    have wait: "waits_for bm x a \<Longrightarrow> x = r \<Longrightarrow> a \<in> set (su_missing s)" "a \<in> set (su_missing s) \<Longrightarrow> waits_for bm r a" for x a
      using Some by (auto simp: waits_for_def)
    have "has_child bm2 a x \<longleftrightarrow> has_child bm a x \<and> x \<noteq> r" for a x
    proof -
      have "has_child bm2 a x \<longleftrightarrow> has_child bm a x \<and> \<not> (a \<in> set (su_missing s) \<and> x = r)"
        by (cases "btm_get (bm_missing_ancestors bm) a"; cases "a \<in> set (su_missing s)")
          (auto simp: has_child_def ma(1,3) set_bts_remove)
      then show ?thesis using p(8) [of a x] wait by blast
    qed
    moreover have "waits_for bm2 x a \<longleftrightarrow> waits_for bm x a \<and> x \<noteq> r" for a x
      by (auto simp: waits_for_def ma(1) bm1 btree_simps)
    ultimately have links: "has_child bm2 a x \<longleftrightarrow> waits_for bm2 x a" for a x using p(8) [of a x] by simp
    have "missing_keys bm2 = missing_keys bm" by (auto simp: btm_key_get ma(1,3))
    moreover have "suspended_keys bm2 = suspended_keys bm - {r}" by (simp add: ma(1) bm1 btree_simps)
    moreover have "suspended_ok own ctx gc (insert r K) x t" if "btm_get (bm_suspended bm2) x = Some t" for x t
      using that p(6) [of x t] by (auto simp: ma(1) bm1 btree_simps suspended_ok_def split: if_splits)
    moreover have "bts_wf cs \<and> br_author a < committee_size (ctx_committee ctx)" if "btm_get ma a = Some cs" for a cs
      using that p(7) [of a] by (auto simp: ma(3) btree_simps split: if_splits)
    moreover have "set (bm_missing_blocks bm2) = set (bm_missing_blocks bm) - {r}" "bts_wf (bm_missing_blocks bm2)"
      "btm_wf (bm_suspended bm2)"
      using p(3,5) by (simp_all add: ma(1) bm1 btree_simps)
    ultimately have "pending own ctx gc (insert r K) [r] bm2"
      using p(1,2,9,10) ma(2) links unfolding pending_def by (auto simp: ma(1) bm1)
    moreover have "waiting bm2 = (waiting bm)(r := None)" by (auto simp: waiting_def ma(1) bm1 btree_simps)
    ultimately show ?thesis ..
  qed
  then show "pending own ctx gc (insert r K) [r] bm2" "waiting bm2 = (waiting bm)(r := None)" by simp_all
qed

lemma accept_committed_step:
  assumes inv: "bm_inv own d bm" and b: "good_block own (ds_context d) b"
    and anc: "\<And>a. a \<in> set (vb_ancestors b) \<Longrightarrow> gc_round d < br_round a \<Longrightarrow> a \<in> known d"
  shows "\<exists>new d' bm'. accept_step True now b (acc, mis, d, bm) = Some (acc @ new, mis, d', bm') \<and>
     dag_extended own d new d' \<and> bm_inv own d' bm' \<and> vb_reference b \<in> known d' \<and>
     set new \<subseteq> insert b (pool bm) \<and> pool bm' \<subseteq> pool bm"
proof -
  let ?r = "vb_reference b"
  have author: "vb_author b < committee_size (ds_committee d)" using b by (simp add: good_block_def valid_block_def)
  obtain bm0 where m: "update_block_received_metrics bm b = Some bm0" "bm_inv own d bm0" "waiting bm0 = waiting bm"
    using update_metrics_spec [OF inv author] by blast
  have pend: "pending own (ds_context d) (gc_round d) (known d) [] bm0" and dag: "dag_ok own d"
    using m(2) by (auto simp: bm_inv_def)
  have known: "contains_block d ?r = Some (?r \<in> known d)"
    using contains_block_correct [of d ?r] dag author by (simp add: known_def dag_ok_def dag_view_def)
  have pool0: "pool bm0 = pool bm" by (simp add: pool_def m(3))
  show ?thesis
  proof (cases "?r \<in> known d")
    case True
    then show ?thesis using m known dag_extended_refl [OF dag] pool0
      by (intro exI [of _ "[]"] exI [of _ d] exI [of _ bm0])
        (auto simp: accept_step_def try_accept_one_committed_block_def Let_def)
  next
    case False
    let ?bm1 = "bm0\<lparr>bm_missing_blocks := bts_remove ?r (bm_missing_blocks bm0)\<rparr>"
    let ?bm2 = "case btm_get (bm_suspended ?bm1) ?r of
           Some suspended \<Rightarrow> fold (forget_child ?r) (su_missing suspended) (?bm1\<lparr>bm_suspended := btm_remove ?r (bm_suspended ?bm1)\<rparr>)
         | None \<Rightarrow> ?bm1"
    note f = committed_forget [OF pend False refl refl]
    have "causal (gc_round d) (known d) [b]" using False anc by simp
    from accept_blocks_causal [OF dag _ this, of now] b
    obtain d1 where d1: "accept_blocks d [b] now = Some d1" "dag_ok own d1" "ds_context d1 = ds_context d"
       "gc_round d1 = gc_round d" "known d1 = insert ?r (known d)" "get_block d \<subseteq>\<^sub>m get_block d1"
       "get_block d1 ?r = Some b" by auto
    then have ext: "dag_extended own d [b] d1" using False anc by (simp add: dag_extended_def)
    have "pending own (ds_context d1) (gc_round d1) (known d1 \<union> refs_of []) [?r] ?bm2"
      using f(1) d1(3-5) by simp
    from accept_with_children_spec [OF d1(2) _ _ this, of now "acc @ [b]"]
    obtain new d' bm' where n: "accept_with_children now ?r [] (acc @ [b]) d1 ?bm2 = Some ((acc @ [b]) @ new, d', bm')"
        "dag_extended own d1 new d'" "bm_inv own d' bm'" "\<forall>x \<in> set new. waiting ?bm2 (vb_reference x) = Some x"
        "waiting bm' = (\<lambda>x. if x \<in> refs_of new then None else waiting ?bm2 x)"
      by auto
    have one: "try_accept_one_committed_block d bm0 b now = Some (Accepted b, d1, ?bm2)"
      unfolding try_accept_one_committed_block_def Let_def known using False d1(1) by simp
    have "accept_step True now b (acc, mis, d, bm) = Some (acc @ ([b] @ new), mis, d', bm')"
      using n(1) by (simp add: accept_step_def m(1) one)
    moreover have "set ([b] @ new) \<subseteq> insert b (pool bm)" "pool bm' \<subseteq> pool bm"
      using n(4,5) unfolding f(2) m(3) pool_def by (auto split: if_splits)
    moreover have "?r \<in> known d'" using n(2) d1(5) by (auto simp: dag_extended_def)
    ultimately show ?thesis using dag_extended_trans [OF ext n(2)] n(3) by blast
  qed
qed

lemma accept_committed_batch:
  assumes "bm_inv own d bm" "\<And>b. b \<in> set bs \<Longrightarrow> good_block own (ds_context d) b" "sorted (map vb_round bs)"
    and "\<And>b a. b \<in> set bs \<Longrightarrow> a \<in> set (vb_ancestors b) \<Longrightarrow> gc_round d < br_round a \<Longrightarrow> a \<in> known d \<union> refs_of bs"
  shows "\<exists>new d' bm'. fold_opt (accept_step True now) bs (acc, mis, d, bm) = Some (acc @ new, mis, d', bm') \<and>
     dag_extended own d new d' \<and> bm_inv own d' bm' \<and> refs_of bs \<subseteq> known d' \<and>
     set new \<subseteq> set bs \<union> pool bm \<and> pool bm' \<subseteq> pool bm"
  using assms
proof (induction bs arbitrary: acc d bm)
  case Nil
  then show ?case
    by (intro exI [of _ "[]"] exI [of _ d] exI [of _ bm]) (auto simp: dag_extended_refl bm_inv_def)
next
  case (Cons b bs)
  have "a \<in> known d" if a: "a \<in> set (vb_ancestors b)" "gc_round d < br_round a" for a
  proof -
    have "br_round a < vb_round b" using Cons.prems(2) [of b] a(1) by (auto simp: good_block_def valid_block_def)
    then have "a \<notin> refs_of (b # bs)" using Cons.prems(3) by force
    then show ?thesis using Cons.prems(4) [of b a] a by auto
  qed
  with accept_committed_step [OF Cons.prems(1), of b now acc mis] Cons.prems(2)
  obtain new d1 bm1 where s: "accept_step True now b (acc, mis, d, bm) = Some (acc @ new, mis, d1, bm1)"
     "dag_extended own d new d1" "bm_inv own d1 bm1" "vb_reference b \<in> known d1"
     "set new \<subseteq> insert b (pool bm)" "pool bm1 \<subseteq> pool bm" by auto
  then have e: "ds_context d1 = ds_context d" "gc_round d1 = gc_round d" "known d \<subseteq> known d1" by (auto simp: dag_extended_def)
  have c: "a \<in> known d1 \<union> refs_of bs" if "x \<in> set bs" "a \<in> set (vb_ancestors x)" "gc_round d1 < br_round a" for x a
    using Cons.prems(4) [of x a] that e(2,3) s(4) by auto
  obtain new' d' bm' where t: "fold_opt (accept_step True now) bs (acc @ new, mis, d1, bm1) = Some ((acc @ new) @ new', mis, d', bm')"
     "dag_extended own d1 new' d'" "bm_inv own d' bm'" "refs_of bs \<subseteq> known d'"
     "set new' \<subseteq> set bs \<union> pool bm1" "pool bm' \<subseteq> pool bm1"
    using Cons.IH [of d1 bm1 "acc @ new"] c s(3) Cons.prems(2,3) e(1) by auto
  have "vb_reference b \<in> known d'" using s(4) t(2) by (auto simp: dag_extended_def)
  with s t dag_extended_trans [OF s(2) t(2)] show ?case
    by (intro exI [of _ "new @ new'"] exI [of _ d'] exI [of _ bm']) auto
qed

subsection \<open>Searching for blocks\<close>

lemma find_missing_step:
  assumes inv: "bm_inv own d bm" and r: "br_author r < committee_size (ds_committee d)"
  shows "\<exists>bm'. find_missing (r \<in> known d, r) (mis, bm) =
       Some (if r \<in> known d \<or> waiting bm r \<noteq> None then mis else bts_insert r mis, bm') \<and>
     bm_inv own d bm' \<and> bm_suspended bm' = bm_suspended bm \<and>
     set (bm_missing_blocks bm') = set (bm_missing_blocks bm) \<union> (if r \<in> known d \<or> waiting bm r \<noteq> None then {} else {r})"
proof (cases "r \<in> known d \<or> waiting bm r \<noteq> None \<or> r \<in> set (bm_missing_blocks bm)")
  case True
  then show ?thesis using inv by (auto simp: find_missing_def waiting_def Let_def)
next
  case False
  have pend: "pending own (ds_context d) (gc_round d) (known d) [] bm" using inv by (simp add: bm_inv_def)
  note p = pendingD [OF pend]
  have new: "r \<notin> missing_keys bm" "r \<notin> suspended_keys bm" "r \<notin> known d"
    using False p(10) by (auto simp: waiting_def btm_key_get)
  obtain h where h: "bm_authority bm (br_author r) = Some h" using authority_Some [OF r] p(1) by auto
  let ?bm = "bm\<lparr>bm_missing_blocks := bts_insert r (bm_missing_blocks bm),
      bm_missing_ancestors := btm_insert r [] (bm_missing_ancestors bm)\<rparr>"
  have none: "btm_get (bm_missing_ancestors bm) r = None" using new(1) by (simp add: btm_key_get)
  have "has_child ?bm a x \<longleftrightarrow> has_child bm a x" for a x using none by (auto simp: has_child_def btree_simps)
  moreover have "waits_for ?bm x a \<longleftrightarrow> waits_for bm x a" for a x by (simp add: waits_for_def)
  ultimately have "pending own (ds_context d) (gc_round d) (known d) [] ?bm"
    using pend new r unfolding pending_def by (auto simp: btree_simps)
  with False inv h none show ?thesis
    by (auto simp: find_missing_def waiting_def Let_def bm_inv_def btree_simps)
qed

lemma find_missing_fold:
  assumes "bm_inv own d bm" "\<And>r. r \<in> set refs \<Longrightarrow> br_author r < committee_size (ds_committee d)"
  shows "\<exists>mis' bm'. fold_opt find_missing (zip (map (\<lambda>r. r \<in> known d) refs) refs) (mis, bm) = Some (mis', bm') \<and>
     set mis' = set mis \<union> {r \<in> set refs. r \<notin> known d \<and> waiting bm r = None} \<and>
     bm_inv own d bm' \<and> bm_suspended bm' = bm_suspended bm \<and>
     set (bm_missing_blocks bm') = set (bm_missing_blocks bm) \<union> {r \<in> set refs. r \<notin> known d \<and> waiting bm r = None}"
  using assms
proof (induction refs arbitrary: mis bm)
  case Nil
  then show ?case by auto
next
  case (Cons r refs)
  let ?found = "r \<in> known d \<or> waiting bm r \<noteq> None"
  let ?mis = "if ?found then mis else bts_insert r mis"
  obtain bm1 where s: "find_missing (r \<in> known d, r) (mis, bm) = Some (?mis, bm1)" "bm_inv own d bm1"
     "bm_suspended bm1 = bm_suspended bm"
     "set (bm_missing_blocks bm1) = set (bm_missing_blocks bm) \<union> (if ?found then {} else {r})"
    using find_missing_step [OF Cons.prems(1), of r mis] Cons.prems(2) by auto
  have w: "waiting bm1 = waiting bm" by (simp add: waiting_def s(3) fun_eq_iff)
  obtain mis' bm' where t: "fold_opt find_missing (zip (map (\<lambda>r. r \<in> known d) refs) refs) (?mis, bm1) = Some (mis', bm')"
     "set mis' = set ?mis \<union> {r \<in> set refs. r \<notin> known d \<and> waiting bm r = None}"
     "bm_inv own d bm'" "bm_suspended bm' = bm_suspended bm1"
     "set (bm_missing_blocks bm') = set (bm_missing_blocks bm1) \<union> {r \<in> set refs. r \<notin> known d \<and> waiting bm r = None}"
    using Cons.IH [OF s(2), of ?mis] Cons.prems(2) unfolding w by auto
  show ?case
    by (rule exI [of _ mis'], rule exI [of _ bm'])
      (use s t in \<open>auto simp: btree_simps\<close>)
qed

subsection \<open>The properties\<close>

text \<open>C8: the block manager implements its specification.  Starting from a consistent state without
  missing ancestors below the garbage collection round, delivering verified blocks (in any order,
  below the limit on suspended blocks) never panics, keeps the invariant, and changes the DAG and
  the set of waiting blocks exactly as the abstract specification \<open>deliver\<close> says: every block above
  the garbage collection round that is connected to the DAG through blocks that wait or were just
  delivered enters the DAG, and exactly the others wait.  The accepted blocks are returned in an order
  in which every ancestor comes before its children, none twice.  Assumed of the delivered blocks
  (\<open>good_block\<close>) is, among others, that there is one own block per round.\<close>

theorem try_accept_blocks_refines:
  assumes "bm_inv own d bm" "gc_clean d bm"
    and "\<And>b. b \<in> set bs \<Longrightarrow> good_block own (ds_context d) b \<and> genesis_known d b"
    and "length (bm_suspended bm) + length bs \<le> 10000 * committee_size (ctx_committee (ds_context d))"
    and "inj_on vb_reference (pool bm \<union> set bs)"
  shows "\<exists>accepted missing d' bm'. try_accept_blocks now d bm bs = Some (accepted, missing, d', bm') \<and>
     bm_inv own d' bm' \<and> gc_clean d' bm' \<and>
     causal (gc_round d) (known d) accepted \<and> known d' = known d \<union> vb_reference ` set accepted \<and>
     abs_state d' bm' = deliver (gc_round d) {b \<in> set bs. gc_round d < vb_round b} (abs_state d bm)"
proof -
  have "\<exists>accepted missing d' bm'. try_accept_blocks now d bm bs = Some (accepted, missing, d', bm') \<and>
     batch_outcome own d bm (received d bs) accepted d' bm' \<and> gc_clean d' bm' \<and>
     abs_state d' bm' = deliver (gc_round d) (received d bs) (abs_state d bm)"
    by (rule try_accept_blocks_exact) (fact assms)+
  then obtain accepted missing d' bm' where r: "try_accept_blocks now d bm bs = Some (accepted, missing, d', bm')"
     "batch_outcome own d bm (received d bs) accepted d' bm'" "gc_clean d' bm'"
     "abs_state d' bm' = deliver (gc_round d) (received d bs) (abs_state d bm)" by blast
  from r(2) have p: "bm_inv own d' bm'" "causal (gc_round d) (known d) accepted" "known d' = known d \<union> refs_of accepted"
    unfolding batch_outcome_def dag_extended_def by simp_all
  show ?thesis
    by (rule exI [of _ accepted], rule exI [of _ missing], rule exI [of _ d'], rule exI [of _ bm'])
      (intro conjI r(1) p r(3) r(4) [unfolded received_def])
qed

text \<open>C10: garbage collection of missing ancestors.  \<^verbatim>\<open>try_unsuspend_blocks_for_latest_gc_round\<close> ends and
  never fails its assertion that the oldest missing ancestor is not suspended.  Afterwards no block
  waits for an ancestor at or below the garbage collection round; the released blocks entered the
  DAG in causal order and all other blocks still wait.\<close>

theorem try_unsuspend_gc_spec:
  assumes "bm_inv own d bm"
  shows "\<exists>new d' bm'. try_unsuspend_blocks_for_latest_gc_round now d bm = Some (d', bm') \<and>
     bm_inv own d' bm' \<and> (\<forall>a r. waits_for bm' r a \<longrightarrow> gc_round d < br_round a) \<and>
     causal (gc_round d) (known d) new \<and> known d' = known d \<union> vb_reference ` set new \<and>
     set new \<subseteq> pool bm \<and> pool bm' = pool bm - set new"
proof -
  obtain new d' bm' where r: "gc_unsuspend_loop now (gc_round d) d bm = Some (d', bm')" "dag_extended own d new d'"
     "bm_inv own d' bm'" "gc_clean d' bm'" "set new \<subseteq> pool bm" "pool bm' = pool bm - set new"
    using gc_unsuspend_loop_spec [OF assms refl, of now] by blast
  have w: "gc_round d < br_round a" if "waits_for bm' x a" for a x
  proof -
    have "has_child bm' a x" using r(3) that by (simp add: bm_inv_def pending_def)
    then have "a \<in> missing_keys bm'" by (auto simp: has_child_def btm_key_get)
    then show ?thesis using r(2,4) by (auto simp: gc_clean_def dag_extended_def)
  qed
  have p: "causal (gc_round d) (known d) new" "known d' = known d \<union> refs_of new"
    using r(2) unfolding dag_extended_def by simp_all
  show ?thesis
    unfolding try_unsuspend_blocks_for_latest_gc_round_def
    by (rule exI [of _ new], rule exI [of _ d'], rule exI [of _ bm'])
      (intro conjI allI impI r(1,3,5,6) p w)
qed

text \<open>C11: certified blocks.  When the ancestors of the blocks of certified commits are in the DAG or in
  the batch, \<^verbatim>\<open>try_accept_committed_blocks\<close> never panics, puts every block of the batch into the DAG
  whatever is suspended, releases blocks only in causal order and keeps the invariant.\<close>

theorem try_accept_committed_spec:
  assumes "bm_inv own d bm" "\<And>b. b \<in> set bs \<Longrightarrow> good_block own (ds_context d) b"
    and "\<And>b a. b \<in> set bs \<Longrightarrow> a \<in> set (vb_ancestors b) \<Longrightarrow> gc_round d < br_round a \<Longrightarrow>
       a \<in> known d \<union> vb_reference ` set bs"
  shows "\<exists>accepted d' bm'. try_accept_committed_blocks now d bm bs = Some (accepted, d', bm') \<and>
     bm_inv own d' bm' \<and> vb_reference ` set bs \<subseteq> known d' \<and>
     causal (gc_round d) (known d) accepted \<and> known d' = known d \<union> vb_reference ` set accepted \<and>
     set accepted \<subseteq> set bs \<union> pool bm \<and> pool bm' \<subseteq> pool bm"
proof -
  have g: "good_block own (ds_context d) b" if "b \<in> set (sort_key vb_round bs)" for b using assms(2) that by simp
  have s: "sorted (map vb_round (sort_key vb_round bs))" by (rule sorted_sort_key)
  obtain new d' bm' where r: "fold_opt (accept_step True now) (sort_key vb_round bs) ([], [], d, bm) = Some ([] @ new, [], d', bm')"
     "dag_extended own d new d'" "bm_inv own d' bm'" "refs_of (sort_key vb_round bs) \<subseteq> known d'"
     "set new \<subseteq> set (sort_key vb_round bs) \<union> pool bm" "pool bm' \<subseteq> pool bm"
    using accept_committed_batch [OF assms(1) g s, of now "[]" "[]"] assms(3) by auto
  then show ?thesis
    by (auto simp: try_accept_committed_blocks_def try_accept_blocks_internal_def dag_extended_def)
qed

text \<open>The search for blocks.  \<^verbatim>\<open>try_find_blocks\<close> returns exactly the given references above the garbage
  collection round that are neither in the DAG nor suspended, adds them to the missing blocks and
  changes nothing else the invariant speaks of.\<close>

theorem try_find_blocks_spec:
  assumes "bm_inv own d bm" "\<And>r. r \<in> set refs \<Longrightarrow> br_author r < committee_size (ctx_committee (ds_context d))"
  shows "\<exists>missing bm'. try_find_blocks d bm refs = Some (missing, bm') \<and>
     set missing = {r \<in> set refs. gc_round d < br_round r \<and> get_block d r = None \<and> waiting bm r = None} \<and>
     set (bm_missing bm') = set (bm_missing bm) \<union> set missing \<and> bm_inv own d bm' \<and> waiting bm' = waiting bm"
proof -
  let ?refs = "filter (\<lambda>r. gc_round d < br_round r) refs"
  have view: "dag_view d" using assms(1) by (simp add: bm_inv_def dag_ok_def)
  have c: "contains_blocks d (sort_key br_round ?refs) = Some (map (\<lambda>r. r \<in> known d) (sort_key br_round ?refs))"
    by (rule contains_blocks_known [OF view]) (use assms(2) in auto)
  obtain mis bm' where f: "fold_opt find_missing (zip (map (\<lambda>r. r \<in> known d) (sort_key br_round ?refs)) (sort_key br_round ?refs)) ([], bm) = Some (mis, bm')"
     "set mis = {r \<in> set (sort_key br_round ?refs). r \<notin> known d \<and> waiting bm r = None}"
     "bm_inv own d bm'" "bm_suspended bm' = bm_suspended bm"
     "set (bm_missing_blocks bm') = set (bm_missing_blocks bm) \<union> {r \<in> set (sort_key br_round ?refs). r \<notin> known d \<and> waiting bm r = None}"
    using find_missing_fold [OF assms(1), of "sort_key br_round ?refs" "[]"] assms(2) by auto
  have run: "try_find_blocks d bm refs = Some (mis, bm')"
    using c f(1) by (auto simp: try_find_blocks_def Let_def)
  moreover have "set mis = {r \<in> set refs. gc_round d < br_round r \<and> get_block d r = None \<and> waiting bm r = None}"
    using f(2) by (auto simp: known_def)
  moreover have "set (bm_missing bm') = set (bm_missing bm) \<union> set mis" using f(2,5) by (simp add: bm_missing_def)
  moreover have "waiting bm' = waiting bm" by (simp add: waiting_def f(4) fun_eq_iff)
  ultimately show ?thesis using f(3) by blast
qed

text \<open>C9: suspended blocks can always make progress.  From every suspended block a chain of missing
  ancestors leads to a reference in \<^verbatim>\<open>missing_blocks()\<close>, which is neither in the DAG nor suspended:
  while any block is suspended, there is a block to fetch.\<close>

theorem suspended_leads_to_missing:
  assumes "bm_inv own d bm" "waiting bm r = Some b"
  shows "\<exists>m \<in> set (bm_missing bm). (waits_for bm)\<^sup>+\<^sup>+ r m \<and> get_block d m = None \<and> waiting bm m = None"
  using assms(2)
proof (induction "br_round r" arbitrary: r b rule: less_induct)
  case less
  have pend: "pending own (ds_context d) (gc_round d) (known d) [] bm" using assms(1) by (simp add: bm_inv_def)
  note p = pendingD [OF pend]
  obtain s where s: "btm_get (bm_suspended bm) r = Some s" using less.prems by (auto simp: waiting_def)
  note ok = p(6) [OF s]
  then obtain a where a: "a \<in> set (su_missing s)" "a \<in> set (vb_ancestors (su_block s))"
    by (cases "su_missing s") (auto simp: suspended_ok_def)
  have wait: "waits_for bm r a" using s a(1) by (auto simp: waits_for_def)
  have lower: "br_round a < br_round r" using ok a(2) by (auto simp: suspended_ok_def good_block_def valid_block_def)
  have key: "a \<in> missing_keys bm" using p(8) [of a r] wait by (auto simp: has_child_def btm_key_get)
  show ?case
  proof (cases "waiting bm a")
    case None
    then have "a \<in> set (bm_missing bm)" "a \<notin> known d"
      using p(9,10) key by (auto simp: bm_missing_def waiting_def btm_key_get)
    then show ?thesis using wait None by (auto simp: known_def)
  next
    case (Some x)
    from less.hyps [OF lower Some] show ?thesis using wait by (meson tranclp_into_tranclp2)
  qed
qed

end
