(* ===== verification/Example_Blocks.thy ===== *)
theory Example_Blocks
  imports Block_Manager_Operations Example_Dag
begin

section \<open>Block manager runs on concrete blocks\<close>

text \<open>
  The witnesses of the block manager: from genesis, a block of round 2 arrives before the blocks of
  round 1 it refers to.
\<close>

abbreviation own4 :: "Round \<Rightarrow> block_ref" where
  "own4 k \<equiv> BlockRef k 0 7"

definition manager4 :: block_manager where
  "manager4 = block_manager_new context4"

lemma grid0: "grid_upto 0 4 dag4"
  using grid_genesis by blast

lemma dag4_gc: "gc_round dag4 = 0"
  using grid0 gc_round_no_commit by (simp add: grid_upto_def)

lemma dag4_known: "known dag4 = {BlockRef 0 i 7 |i. i < 4}"
proof -
  have "r \<in> known dag4 \<longleftrightarrow> (\<exists>i < 4. r = BlockRef 0 i 7)" for r
    using grid_get [OF grid0, of r] by (auto simp: known_def)
  then show ?thesis by auto
qed

lemma grid_good: "i < 4 \<Longrightarrow> 0 < k \<Longrightarrow> k < 100 \<Longrightarrow> good_block own4 context4 (grid_block k i)"
  using grid_block_valid [of i k]
  by (auto simp: good_block_def own_ok_def context4_def ref_bounds_def)

lemma manager4_pool: "pool manager4 = {}"
  by (simp add: pool_def waiting_def manager4_def block_manager_new_def)

lemma manager4_inv: "bm_inv own4 dag4 manager4" "gc_clean dag4 manager4"
proof -
  have "dag_ok own4 dag4"
    using grid0 grid_get [OF grid0] by (auto simp: dag_ok_def grid_upto_def own_ok_def context4_def)
  then show "bm_inv own4 dag4 manager4"
    by (auto simp: bm_inv_def pending_def manager4_def block_manager_new_def has_child_def waits_for_def)
  show "gc_clean dag4 manager4" by (simp add: gc_clean_def manager4_def block_manager_new_def)
qed

text \<open>A state in which a block of round 2 waits for round 1.\<close>

lemma waiting_state:
  "\<exists>d bm. bm_inv own4 d bm \<and> gc_clean d bm \<and> known d = known dag4 \<and> pool bm = {grid_block 2 1} \<and>
     gc_round d = 0 \<and> ds_context d = context4"
proof -
  have ex: "\<exists>accepted missing d' bm'. try_accept_blocks 5 dag4 manager4 [grid_block 2 1] = Some (accepted, missing, d', bm') \<and>
     batch_outcome own4 dag4 manager4 (received dag4 [grid_block 2 1]) accepted d' bm' \<and> gc_clean d' bm' \<and>
     abs_state d' bm' = deliver (gc_round dag4) (received dag4 [grid_block 2 1]) (abs_state dag4 manager4)"
    by (rule try_accept_blocks_exact [OF manager4_inv])
      (auto simp: grid_good genesis_known_def manager4_pool, simp add: manager4_def block_manager_new_def)
  have r: "received dag4 [grid_block 2 1] = {grid_block 2 1}" by (auto simp: received_def dag4_gc)
  have "\<not> connected 0 (known dag4) {grid_block 2 1} r" for r
  proof
    assume "connected 0 (known dag4) {grid_block 2 1} r"
    then show False
    proof induction
      case (connect b)
      then have "BlockRef 1 0 7 \<in> set (vb_ancestors b)" by simp
      from connect(2) [OF this] show False by (auto simp: dag4_known)
    qed
  qed
  then have "deliver (gc_round dag4) (received dag4 [grid_block 2 1]) (abs_state dag4 manager4) = (known dag4, {grid_block 2 1})"
    unfolding r by (auto simp: deliver_def Let_def abs_state_def manager4_pool dag4_gc dag4_known)
  with ex obtain d bm where "bm_inv own4 d bm" "gc_clean d bm" "known d = known dag4" "pool bm = {grid_block 2 1}"
      "gc_round d = 0" "ds_context d = context4"
    by (auto simp: abs_state_def batch_outcome_def dag_extended_def dag4_gc)
  then show ?thesis by blast
qed

theorem try_accept_blocks_refines_witness:
  "\<exists>accepted missing d' bm'. try_accept_blocks 5 dag4 manager4 [grid_block 2 1, grid_block 1 3] = Some (accepted, missing, d', bm') \<and>
     bm_inv own4 d' bm' \<and>
     abs_state d' bm' = deliver 0 {grid_block 2 1, grid_block 1 3} (abs_state dag4 manager4)"
proof -
  let ?bs = "[grid_block 2 1, grid_block 1 3]"
  have "\<exists>accepted missing d' bm'. try_accept_blocks 5 dag4 manager4 ?bs = Some (accepted, missing, d', bm') \<and>
     bm_inv own4 d' bm' \<and> gc_clean d' bm' \<and>
     causal (gc_round dag4) (known dag4) accepted \<and> known d' = known dag4 \<union> vb_reference ` set accepted \<and>
     abs_state d' bm' = deliver (gc_round dag4) {b \<in> set ?bs. gc_round dag4 < vb_round b} (abs_state dag4 manager4)"
    by (rule try_accept_blocks_refines [OF manager4_inv])
      (auto simp: grid_good genesis_known_def manager4_pool dag4_known, simp add: manager4_def block_manager_new_def)
  moreover have "{b \<in> set ?bs. gc_round dag4 < vb_round b} = {grid_block 2 1, grid_block 1 3}"
    by (auto simp: dag4_gc)
  ultimately show ?thesis by (auto simp: dag4_gc)
qed

theorem try_unsuspend_gc_spec_witness:
  "\<exists>d bm new d' bm'. pool bm = {grid_block 2 1} \<and>
     try_unsuspend_blocks_for_latest_gc_round 5 d bm = Some (d', bm') \<and> bm_inv own4 d' bm' \<and>
     set new \<subseteq> pool bm \<and> pool bm' = pool bm - set new"
proof -
  obtain d bm where s: "bm_inv own4 d bm" "pool bm = {grid_block 2 1}" using waiting_state by blast
  from try_unsuspend_gc_spec [OF s(1), of 5]
  obtain new d' bm' where r: "try_unsuspend_blocks_for_latest_gc_round 5 d bm = Some (d', bm')" "bm_inv own4 d' bm'"
     "set new \<subseteq> pool bm" "pool bm' = pool bm - set new" by (elim exE conjE) (rule that)
  show ?thesis
    by (rule exI [of _ d], rule exI [of _ bm], rule exI [of _ new], rule exI [of _ d'], rule exI [of _ bm'])
      (intro conjI s(2) r)
qed

theorem try_accept_committed_spec_witness:
  "\<exists>accepted d' bm'. try_accept_committed_blocks 5 dag4 manager4 [grid_block 1 3, grid_block 1 2] = Some (accepted, d', bm') \<and>
     bm_inv own4 d' bm' \<and> {BlockRef 1 2 7, BlockRef 1 3 7} \<subseteq> known d'"
proof -
  let ?bs = "[grid_block 1 3, grid_block 1 2]"
  have "\<exists>accepted d' bm'. try_accept_committed_blocks 5 dag4 manager4 ?bs = Some (accepted, d', bm') \<and>
     bm_inv own4 d' bm' \<and> vb_reference ` set ?bs \<subseteq> known d' \<and>
     causal (gc_round dag4) (known dag4) accepted \<and> known d' = known dag4 \<union> vb_reference ` set accepted \<and>
     set accepted \<subseteq> set ?bs \<union> pool manager4 \<and> pool bm' \<subseteq> pool manager4"
    by (rule try_accept_committed_spec [OF manager4_inv(1)]) (auto simp: grid_good dag4_known)
  then show ?thesis by auto
qed

theorem try_find_blocks_spec_witness:
  "\<exists>missing bm'. try_find_blocks dag4 manager4 [BlockRef 3 1 9, BlockRef 0 2 7] = Some (missing, bm') \<and>
     set missing = {BlockRef 3 1 9} \<and> bm_inv own4 dag4 bm'"
proof -
  have "BlockRef 3 1 9 \<notin> known dag4" by (simp add: dag4_known)
  then have "get_block dag4 (BlockRef 3 1 9) = None" by (simp add: known_def)
  moreover have "waiting manager4 (BlockRef 3 1 9) = None"
    by (simp add: waiting_def manager4_def block_manager_new_def)
  ultimately have "{r \<in> set [BlockRef 3 1 9, BlockRef 0 2 7]. gc_round dag4 < br_round r \<and> get_block dag4 r = None \<and>
      waiting manager4 r = None} = {BlockRef 3 1 9}"
    by (auto simp: dag4_gc)
  moreover have "\<And>r. r \<in> set [BlockRef 3 1 9, BlockRef 0 2 7] \<Longrightarrow> br_author r < committee_size (ctx_committee (ds_context dag4))"
    by auto
  ultimately show ?thesis
    using try_find_blocks_spec [OF manager4_inv(1), of "[BlockRef 3 1 9, BlockRef 0 2 7]"] by auto
qed

theorem suspended_leads_to_missing_witness:
  "\<exists>d bm. bm_inv own4 d bm \<and> waiting bm (BlockRef 2 1 7) = Some (grid_block 2 1) \<and>
     (\<exists>m \<in> set (bm_missing bm). (waits_for bm)\<^sup>+\<^sup>+ (BlockRef 2 1 7) m \<and> get_block d m = None \<and> waiting bm m = None)"
proof -
  obtain d bm where s: "bm_inv own4 d bm" "pool bm = {grid_block 2 1}" using waiting_state by blast
  then obtain r where "waiting bm r = Some (grid_block 2 1)" by (auto simp: pool_def)
  moreover from this have "r = BlockRef 2 1 7" using bm_inv_waiting [OF s(1)] by force
  ultimately have w: "waiting bm (BlockRef 2 1 7) = Some (grid_block 2 1)" by simp
  from suspended_leads_to_missing [OF s(1) w] s(1) w show ?thesis by blast
qed

end
