(* ===== verification/Block_Verifier.thy ===== *)
theory Block_Verifier
  imports Committer_Spec
begin

section \<open>Block signatures and block verification\<close>

text \<open>
  \<^verbatim>\<open>core/src/block_verifier.rs\<close> and the signature functions of \<^verbatim>\<open>core/src/block.rs\<close>.  Serialisation,
  hashing and the signature scheme are third-party code: the fields of \<open>block_crypto\<close>.  The
  transaction verifier is a trait object the node supplies: the record \<open>transaction_verifier\<close>.
  A result \<open>Inl\<close> is a \<^verbatim>\<open>ConsensusError\<close> of \<^verbatim>\<open>core/src/error.rs\<close> (the errors of other crates as strings);
  \<open>None\<close> would be a panic.
\<close>

datatype consensus_error =
    MalformedBlock string
  | MalformedCommit string
  | SerializationFailure string
  | TransactionTooLarge nat nat
  | TooManyTransactions nat nat
  | TooManyTransactionBytes nat nat
  | UnexpectedAuthority AuthorityIndex AuthorityIndex
  | WrongEpoch Epoch Epoch
  | UnexpectedGenesisBlock
  | UnexpectedGenesisBlockRequested
  | UnexpectedNumberOfBlocksFetched AuthorityIndex nat nat
  | UnexpectedFetchedBlock AuthorityIndex block_ref
  | UnexpectedLastOwnBlock AuthorityIndex block_ref
  | TooManyFetchedBlocksReturned AuthorityIndex
  | TooManyAuthoritiesProvided AuthorityIndex
  | InvalidSizeOfHighestAcceptedRounds nat nat
  | InvalidAuthorityIndex AuthorityIndex nat
  | MalformedSignature string
  | SignatureVerificationFailure string
  | SynchronizerSaturated AuthorityIndex
  | BlockRejected block_ref string
  | InvalidAncestorPosition AuthorityIndex AuthorityIndex nat
  | InvalidAncestorRound Round Round
  | InvalidGenesisAncestor block_ref
  | TooManyAncestors nat nat
  | DuplicatedAncestorsAuthority AuthorityIndex
  | InsufficientParentStakes Stake Stake
  | InvalidTransaction string
  | NoCommitReceived AuthorityIndex
  | UnexpectedStartCommit AuthorityIndex CommitIndex commit
  | UnexpectedCommitSequence AuthorityIndex commit commit
  | NotEnoughCommitVotes Stake AuthorityIndex commit
  | UnexpectedBlockForCommit AuthorityIndex block_ref block_ref
  | UnexpectedCertifiedCommitIndex CommitIndex CommitIndex
  | RocksDBFailure string
  | UnknownNetworkPeer string
  | PeerDisconnected string
  | NetworkConfig string
  | NetworkClientConnection string
  | NetworkRequest string
  | NetworkRequestTimeout string
  | Shutdown

type_synonym 'a consensus_result = "consensus_error + 'a"

fun map_err :: "('e \<Rightarrow> 'f) \<Rightarrow> 'e + 'a \<Rightarrow> 'f + 'a" where
  "map_err f (Inl e) = Inl (f e)"
| "map_err f (Inr x) = Inr x"

fun and_then :: "'e + 'a \<Rightarrow> ('a \<Rightarrow> 'e + 'b) \<Rightarrow> 'e + 'b" where
  "and_then (Inl e) f = Inl e"
| "and_then (Inr x) f = f x"

lemma map_err_Inr [simp]: "map_err f r = Inr x \<longleftrightarrow> r = Inr x"
  by (cases r) auto

lemma and_then_Inr: "and_then r f = Inr y \<longleftrightarrow> (\<exists>x. r = Inr x \<and> f x = Inr y)"
  by (cases r) auto

subsection \<open>Signatures\<close>

record ('kp, 'sig) block_crypto =
  cy_block_bytes :: "block \<Rightarrow> string + bytes"
  cy_hash :: "bytes \<Rightarrow> digest"
  cy_intent_bytes :: "digest \<Rightarrow> string + bytes"
  cy_sign :: "'kp \<Rightarrow> bytes \<Rightarrow> 'sig"
  cy_to_bytes :: "'sig \<Rightarrow> bytes"
  cy_from_bytes :: "bytes \<Rightarrow> string + 'sig"
  cy_verify :: "bytes \<Rightarrow> bytes \<Rightarrow> 'sig \<Rightarrow> string + unit"

definition compute_inner_block_digest ::
  "('kp, 'sig) block_crypto \<Rightarrow> block \<Rightarrow> digest consensus_result" where
  "compute_inner_block_digest cy b =
     and_then (map_err SerializationFailure (cy_block_bytes cy b)) (\<lambda>bs. Inr (cy_hash cy bs))"

definition block_message :: "('kp, 'sig) block_crypto \<Rightarrow> block \<Rightarrow> bytes consensus_result" where
  "block_message cy b =
     and_then (compute_inner_block_digest cy b)
       (\<lambda>d. map_err SerializationFailure (cy_intent_bytes cy d))"

definition compute_block_signature ::
  "('kp, 'sig) block_crypto \<Rightarrow> block \<Rightarrow> 'kp \<Rightarrow> 'sig consensus_result" where
  "compute_block_signature cy b keypair =
     and_then (block_message cy b) (\<lambda>message. Inr (cy_sign cy keypair message))"

definition verify_block_signature ::
  "('kp, 'sig) block_crypto \<Rightarrow> block \<Rightarrow> bytes \<Rightarrow> bytes \<Rightarrow> unit consensus_result" where
  "verify_block_signature cy b signature protocol_pubkey =
     and_then (block_message cy b) (\<lambda>message.
       and_then (map_err MalformedSignature (cy_from_bytes cy signature)) (\<lambda>sig.
         map_err SignatureVerificationFailure (cy_verify cy protocol_pubkey message sig)))"

definition signed_block_new ::
  "('kp, 'sig) block_crypto \<Rightarrow> block \<Rightarrow> 'kp \<Rightarrow> signed_block consensus_result" where
  "signed_block_new cy b keypair =
     and_then (compute_block_signature cy b keypair)
       (\<lambda>sig. Inr \<lparr>sb_inner = b, sb_signature = cy_to_bytes cy sig\<rparr>)"

definition verify_signature ::
  "('kp, 'sig) block_crypto \<Rightarrow> consensus_context \<Rightarrow> signed_block \<Rightarrow> unit consensus_result option" where
  "verify_signature cy ctx sb =
     (let c = ctx_committee ctx; b = sb_inner sb in
      if \<not> is_valid_index c (block_author b)
      then Some (Inl (InvalidAuthorityIndex (block_author b) (u64_sub (committee_size c) 1)))
      else do {
        authority \<leftarrow> committee_authority c (block_author b);
        Some (verify_block_signature cy b (sb_signature sb) (au_protocol_key authority))
      })"

subsection \<open>The verifier\<close>

text \<open>The limits of \<^verbatim>\<open>ProtocolConfig\<close>; zero means no limit.\<close>

record protocol_limits =
  max_transaction_size_bytes :: nat
  max_num_transactions_in_block :: nat
  max_transactions_in_block_bytes :: nat

record transaction_verifier =
  tv_verify_batch :: "bytes list \<Rightarrow> string + unit"
  tv_verify_and_vote_batch :: "block_ref \<Rightarrow> bytes list \<Rightarrow> string + TransactionIndex list"

record ('kp, 'sig) signed_block_verifier =
  sv_context :: consensus_context
  sv_limits :: protocol_limits
  sv_crypto :: "('kp, 'sig) block_crypto"
  sv_genesis :: "block_ref btree_set"
  sv_transaction_verifier :: transaction_verifier

definition signed_block_verifier_new ::
  "(signed_block \<Rightarrow> bytes option) \<Rightarrow> ('kp, 'sig) block_crypto \<Rightarrow> consensus_context \<Rightarrow> protocol_limits \<Rightarrow>
   transaction_verifier \<Rightarrow> ('kp, 'sig) signed_block_verifier option" where
  "signed_block_verifier_new bcs cy ctx limits tv = do {
     genesis \<leftarrow> genesis_blocks (cy_hash cy) bcs ctx;
     Some \<lparr>sv_context = ctx, sv_limits = limits, sv_crypto = cy,
           sv_genesis = fold (\<lambda>b. bts_insert (vb_reference b)) genesis [],
           sv_transaction_verifier = tv\<rparr>
   }"

text \<open>The loop over the ancestors of a block by \<open>author\<close> at round \<open>round\<close>, from position \<open>i\<close> on.\<close>

fun verify_ancestors ::
  "committee \<Rightarrow> block_ref btree_set \<Rightarrow> AuthorityIndex \<Rightarrow> Round \<Rightarrow> nat \<Rightarrow> block_ref list \<Rightarrow>
   bool list \<Rightarrow> Stake \<Rightarrow> Stake consensus_result option" where
  "verify_ancestors c genesis author round i [] seen parent_stakes = Some (Inr parent_stakes)"
| "verify_ancestors c genesis author round i (a # as) seen parent_stakes =
     (if \<not> is_valid_index c (br_author a)
      then Some (Inl (InvalidAuthorityIndex (br_author a) (u64_sub (committee_size c) 1)))
      else if (i = 0 \<and> br_author a \<noteq> author) \<or> (i > 0 \<and> br_author a = author)
      then Some (Inl (InvalidAncestorPosition author (br_author a) i))
      else if br_round a \<ge> round then Some (Inl (InvalidAncestorRound (br_round a) round))
      else if br_round a = GENESIS_ROUND \<and> a \<notin> set genesis
      then Some (Inl (InvalidGenesisAncestor a))
      else do {
        dup \<leftarrow> vec_get seen (br_author a);
        if dup then Some (Inl (DuplicatedAncestorsAuthority (br_author a)))
        else do {
          seen' \<leftarrow> vec_set seen (br_author a) True;
          parent_round \<leftarrow> (if round = 0 then None else Some (round - 1));
          if br_round a = parent_round
          then do {
            s \<leftarrow> committee_stake c (br_author a);
            verify_ancestors c genesis author round (i + 1) as seen' (u64_add parent_stakes s)
          }
          else verify_ancestors c genesis author round (i + 1) as seen' parent_stakes
        }
      })"

fun check_transaction_sizes :: "nat \<Rightarrow> bytes list \<Rightarrow> unit consensus_result" where
  "check_transaction_sizes limit [] = Inr ()"
| "check_transaction_sizes limit (t # ts) =
     (if length t > limit \<and> limit > 0 then Inl (TransactionTooLarge (length t) limit)
      else check_transaction_sizes limit ts)"

definition check_transactions :: "protocol_limits \<Rightarrow> bytes list \<Rightarrow> unit consensus_result" where
  "check_transactions limits batch =
     and_then (check_transaction_sizes (max_transaction_size_bytes limits) batch) (\<lambda>_.
       let max_num = max_num_transactions_in_block limits;
           max_bytes = max_transactions_in_block_bytes limits
       in if length batch > max_num \<and> max_num > 0
          then Inl (TooManyTransactions (length batch) max_num)
          else if u64_sum (map length batch) > max_bytes \<and> max_bytes > 0
          then Inl (TooManyTransactionBytes (length batch) max_bytes)
          else Inr ())"

definition verify_block ::
  "('kp, 'sig) signed_block_verifier \<Rightarrow> signed_block \<Rightarrow> unit consensus_result option" where
  "verify_block v sb =
     (let c = ctx_committee (sv_context v); b = sb_inner sb; ancestors = block_ancestors b in
      if block_epoch b \<noteq> c_epoch c then Some (Inl (WrongEpoch (c_epoch c) (block_epoch b)))
      else if block_round b = 0 then Some (Inl UnexpectedGenesisBlock)
      else if \<not> is_valid_index c (block_author b)
      then Some (Inl (InvalidAuthorityIndex (block_author b) (u64_sub (committee_size c) 1)))
      else do {
        sig \<leftarrow> verify_signature (sv_crypto v) (sv_context v) sb;
        case sig of Inl e \<Rightarrow> Some (Inl e)
        | Inr _ \<Rightarrow>
            if length ancestors > committee_size c
            then Some (Inl (TooManyAncestors (length ancestors) (committee_size c)))
            else if ancestors = [] then Some (Inl (InsufficientParentStakes 0 (c_quorum_threshold c)))
            else do {
              stakes \<leftarrow> verify_ancestors c (sv_genesis v) (block_author b) (block_round b) 0
                ancestors (replicate (committee_size c) False) 0;
              case stakes of Inl e \<Rightarrow> Some (Inl e)
              | Inr parent_stakes \<Rightarrow>
                  if \<not> reached_quorum c parent_stakes
                  then Some (Inl (InsufficientParentStakes parent_stakes (c_quorum_threshold c)))
                  else Some (check_transactions (sv_limits v) (block_transactions b))
            }
      })"

definition verifier_vote ::
  "('kp, 'sig) signed_block_verifier \<Rightarrow> verified_block \<Rightarrow> TransactionIndex list consensus_result" where
  "verifier_vote v b =
     map_err InvalidTransaction
       (tv_verify_and_vote_batch (sv_transaction_verifier v) (vb_reference b)
         (block_transactions (sb_inner (vb_block b))))"

definition verify_and_vote ::
  "('kp, 'sig) signed_block_verifier \<Rightarrow> signed_block \<Rightarrow> bytes \<Rightarrow>
   (verified_block \<times> TransactionIndex list) consensus_result option" where
  "verify_and_vote v sb serialized_block = do {
     ok \<leftarrow> verify_block v sb;
     Some (and_then ok (\<lambda>_.
       let verified_block = verified_block_new (cy_hash (sv_crypto v)) sb serialized_block in
       and_then
         (if ctx_mysticeti_fastpath (sv_context v) then verifier_vote v verified_block
          else and_then
            (map_err InvalidTransaction
              (tv_verify_batch (sv_transaction_verifier v)
                (block_transactions (sb_inner (vb_block verified_block)))))
            (\<lambda>_. Inr []))
         (\<lambda>rejected. Inr (verified_block, rejected))))
   }"

definition noop_verify_and_vote ::
  "(bytes \<Rightarrow> digest) \<Rightarrow> signed_block \<Rightarrow> bytes \<Rightarrow> (verified_block \<times> TransactionIndex list) consensus_result" where
  "noop_verify_and_vote hash sb serialized_block =
     Inr (verified_block_new hash sb serialized_block, [])"

definition noop_vote :: "verified_block \<Rightarrow> TransactionIndex list consensus_result" where
  "noop_vote b = Inr []"

subsection \<open>What the ancestor loop accepts\<close>

definition parent_authors :: "Round \<Rightarrow> block_ref list \<Rightarrow> AuthorityIndex set" where
  "parent_authors round as = {br_author a |a. a \<in> set as \<and> br_round a = round - 1}"

lemma parent_authors_Cons:
  "parent_authors round (a # as) =
     (if br_round a = round - 1 then insert (br_author a) (parent_authors round as) else parent_authors round as)"
  by (auto simp: parent_authors_def)

text \<open>The ancestors from position \<open>i\<close> on, given the authors \<open>S\<close> seen before it.\<close>

definition ancestors_ok ::
  "committee \<Rightarrow> block_ref btree_set \<Rightarrow> AuthorityIndex \<Rightarrow> Round \<Rightarrow> nat \<Rightarrow> block_ref list \<Rightarrow> AuthorityIndex set \<Rightarrow> bool" where
  "ancestors_ok c genesis author round i as S \<longleftrightarrow>
     (\<forall>j < length as. (br_author (as ! j) = author) = (i + j = 0)) \<and>
     (\<forall>a \<in> set as. br_author a < committee_size c \<and> br_round a < round \<and> br_author a \<notin> S \<and>
        (br_round a = 0 \<longrightarrow> a \<in> set genesis)) \<and>
     distinct (map br_author as)"

lemma ancestors_ok_Cons:
  "ancestors_ok c genesis author round i (a # as) S \<longleftrightarrow>
     (br_author a = author) = (i = 0) \<and> br_author a < committee_size c \<and> br_round a < round \<and>
     br_author a \<notin> S \<and> (br_round a = 0 \<longrightarrow> a \<in> set genesis) \<and>
     ancestors_ok c genesis author round (i + 1) as (insert (br_author a) S)"
proof -
  have "(\<forall>j < length (a # as). (br_author ((a # as) ! j) = author) = (i + j = 0)) \<longleftrightarrow>
      (br_author a = author) = (i = 0) \<and> (\<forall>j < length as. (br_author (as ! j) = author) = (i + 1 + j = 0))"
    by (auto simp: less_Suc_eq_0_disj)
  then show ?thesis unfolding ancestors_ok_def by (auto simp: rev_image_eqI)
qed

lemma verify_ancestors_exact:
  assumes wf: "committee_wf c" and r: "0 < round" and s: "length seen = committee_size c"
    "\<And>k. k < committee_size c \<Longrightarrow> seen ! k \<longleftrightarrow> k \<in> S"
    and P: "P \<subseteq> S" "parent_stakes = stake_of c P"
  shows "\<exists>res. verify_ancestors c genesis author round i as seen parent_stakes = Some res \<and>
     (\<forall>t. res = Inr t \<longleftrightarrow> ancestors_ok c genesis author round i as S \<and>
            t = stake_of c (P \<union> parent_authors round as))"
  using s P
proof (induction as arbitrary: i seen S P parent_stakes)
  case Nil
  then show ?case by (auto simp: ancestors_ok_def parent_authors_def)
next
  case (Cons a as)
  let ?k = "br_author a"
  let ?head = "?k < committee_size c \<and> (?k = author) = (i = 0) \<and> br_round a < round \<and>
    (br_round a = 0 \<longrightarrow> a \<in> set genesis) \<and> ?k \<notin> S"
  show ?case
  proof (cases ?head)
    case False
    then show ?thesis using Cons.prems(1,2) r
      unfolding ancestors_ok_Cons by (auto simp: is_valid_index_def vec_get_def)
  next
    case True
    let ?P = "if br_round a = round - 1 then insert ?k P else P"
    have IH: "\<exists>res. verify_ancestors c genesis author round (i + 1) as (seen[?k := True]) (stake_of c ?P) = Some res \<and>
        (\<forall>t. res = Inr t \<longleftrightarrow> ancestors_ok c genesis author round (i + 1) as (insert ?k S) \<and>
            t = stake_of c (?P \<union> parent_authors round as))"
      by (rule Cons.IH) (use Cons.prems True in \<open>auto simp: nth_list_update\<close>)
    have "stake_of c (insert ?k P) = stake_of c P + au_stake (c_authorities c ! ?k)"
      using True Cons.prems(3) by (intro stake_of_insert) auto
    moreover from this have "stake_of c P + au_stake (c_authorities c ! ?k) < 2 ^ 64"
      using stake_of_bound [OF wf, of "insert ?k P"] by simp
    ultimately have "u64_add parent_stakes (au_stake (c_authorities c ! ?k)) = stake_of c (insert ?k P)"
      using Cons.prems(4) by (simp add: u64_add_eq)
    then have "verify_ancestors c genesis author round i (a # as) seen parent_stakes =
        verify_ancestors c genesis author round (i + 1) as (seen[?k := True]) (stake_of c ?P)"
      using True Cons.prems r
      by (auto simp: is_valid_index_def vec_get_def vec_set_def committee_stake_def committee_size_def)
    with IH True show ?thesis
      unfolding ancestors_ok_Cons by (auto simp: parent_authors_Cons)
  qed
qed

subsection \<open>What the verifier accepts\<close>

definition transactions_ok :: "protocol_limits \<Rightarrow> bytes list \<Rightarrow> bool" where
  "transactions_ok limits ts \<longleftrightarrow>
     (max_transaction_size_bytes limits = 0 \<or> (\<forall>t \<in> set ts. length t \<le> max_transaction_size_bytes limits)) \<and>
     (max_num_transactions_in_block limits = 0 \<or> length ts \<le> max_num_transactions_in_block limits) \<and>
     (max_transactions_in_block_bytes limits = 0 \<or>
        sum_list (map length ts) \<le> max_transactions_in_block_bytes limits)"

lemma check_transaction_sizes_exact:
  "check_transaction_sizes limit ts = Inr () \<longleftrightarrow> limit = 0 \<or> (\<forall>t \<in> set ts. length t \<le> limit)"
  by (induction ts) auto

lemma check_transactions_exact:
  "sum_list (map length ts) < 2 ^ 64 \<Longrightarrow>
     check_transactions limits ts = Inr () \<longleftrightarrow> transactions_ok limits ts"
  by (auto simp: check_transactions_def transactions_ok_def and_then_Inr Let_def
      check_transaction_sizes_exact u64_sum_eq split: if_splits)

text \<open>The declarative meaning of a valid signed block.\<close>

definition block_ok :: "('kp, 'sig) signed_block_verifier \<Rightarrow> signed_block \<Rightarrow> bool" where
  "block_ok v sb \<longleftrightarrow>
     (let c = ctx_committee (sv_context v); b = sb_inner sb; as = block_ancestors b in
      block_epoch b = c_epoch c \<and> 0 < block_round b \<and> block_author b < committee_size c \<and>
      verify_block_signature (sv_crypto v) b (sb_signature sb)
        (au_protocol_key (c_authorities c ! block_author b)) = Inr () \<and>
      (\<exists>own others. as = own # others \<and> br_author own = block_author b) \<and>
      distinct (map br_author as) \<and>
      (\<forall>a \<in> set as. br_author a < committee_size c \<and> br_round a < block_round b \<and>
         (br_round a = 0 \<longrightarrow> a \<in> set (sv_genesis v))) \<and>
      reached_quorum c (stake_of c (parent_authors (block_round b) as)) \<and>
      transactions_ok (sv_limits v) (block_transactions b))"

lemma verify_signature_eq:
  assumes "block_author (sb_inner sb) < committee_size (ctx_committee ctx)"
  shows "verify_signature cy ctx sb = Some (verify_block_signature cy (sb_inner sb) (sb_signature sb)
     (au_protocol_key (c_authorities (ctx_committee ctx) ! block_author (sb_inner sb))))"
  using assms by (simp add: verify_signature_def Let_def is_valid_index_def committee_authority_def
      committee_size_def vec_get_def)

lemma ancestors_ok_start:
  "ancestors_ok c genesis author round 0 as {} \<and> as \<noteq> [] \<longleftrightarrow>
     (\<exists>own others. as = own # others \<and> br_author own = author) \<and> distinct (map br_author as) \<and>
     (\<forall>a \<in> set as. br_author a < committee_size c \<and> br_round a < round \<and> (br_round a = 0 \<longrightarrow> a \<in> set genesis))"
proof (cases as)
  case (Cons own others)
  have "(\<forall>j < length as. (br_author (as ! j) = author) = (0 + j = 0)) \<longleftrightarrow> br_author own = author"
    if d: "distinct (map br_author as)"
  proof -
    have "br_author (others ! j) \<noteq> br_author own" if "j < length others" for j
      using d nth_mem [OF that] by (auto simp: Cons rev_image_eqI)
    then show ?thesis by (auto simp: Cons less_Suc_eq_0_disj)
  qed
  moreover have "(\<exists>x xs. as = x # xs \<and> br_author x = author) \<longleftrightarrow> br_author own = author" "as \<noteq> []"
    by (simp_all add: Cons)
  ultimately show ?thesis unfolding ancestors_ok_def by blast
qed (simp add: ancestors_ok_def)

lemma distinct_authors_length:
  assumes "distinct (map br_author as)" "\<forall>a \<in> set as. br_author a < n"
  shows "length as \<le> n"
proof -
  have "length as = card (br_author ` set as)" using distinct_card [OF assms(1)] by simp
  also have "\<dots> \<le> card {..<n}" by (rule card_mono) (use assms(2) in auto)
  finally show ?thesis by simp
qed

lemma verify_block_exact:
  assumes wf: "committee_wf (ctx_committee (sv_context v))"
    and small: "sum_list (map length (block_transactions (sb_inner sb))) < 2 ^ 64"
  shows "\<exists>res. verify_block v sb = Some res \<and> (res = Inr () \<longleftrightarrow> block_ok v sb)"
proof (cases "block_epoch (sb_inner sb) = c_epoch (ctx_committee (sv_context v)) \<and> 0 < block_round (sb_inner sb) \<and>
    block_author (sb_inner sb) < committee_size (ctx_committee (sv_context v))")
  case False
  then show ?thesis by (auto simp: verify_block_def block_ok_def Let_def is_valid_index_def)
next
  case True
  let ?c = "ctx_committee (sv_context v)" and ?b = "sb_inner sb"
  let ?as = "block_ancestors ?b"
  let ?ok = "ancestors_ok ?c (sv_genesis v) (block_author ?b) (block_round ?b) 0 ?as {}"
  obtain res where res: "verify_ancestors ?c (sv_genesis v) (block_author ?b) (block_round ?b) 0 ?as
        (replicate (committee_size ?c) False) 0 = Some res"
    and res_ok: "\<And>t. res = Inr t \<longleftrightarrow> ?ok \<and> t = stake_of ?c ({} \<union> parent_authors (block_round ?b) ?as)"
    using verify_ancestors_exact [OF wf, of "block_round ?b" "replicate (committee_size ?c) False" "{}" "{}" 0
        "sv_genesis v" "block_author ?b" 0 ?as] True by auto
  have len: "?ok \<Longrightarrow> length ?as \<le> committee_size ?c"
    by (rule distinct_authors_length) (auto simp: ancestors_ok_def)
  let ?sig = "verify_block_signature (sv_crypto v) ?b (sb_signature sb) (au_protocol_key (c_authorities ?c ! block_author ?b))"
  have spec: "block_ok v sb \<longleftrightarrow> ?sig = Inr () \<and> ?ok \<and> ?as \<noteq> [] \<and>
      reached_quorum ?c (stake_of ?c (parent_authors (block_round ?b) ?as)) \<and>
      transactions_ok (sv_limits v) (block_transactions ?b)"
    using True ancestors_ok_start [of ?c "sv_genesis v" "block_author ?b" "block_round ?b" ?as]
    unfolding block_ok_def Let_def by blast
  have run: "verify_block v sb = Some (case ?sig of Inl e \<Rightarrow> Inl e | Inr _ \<Rightarrow>
      if length ?as > committee_size ?c then Inl (TooManyAncestors (length ?as) (committee_size ?c))
      else if ?as = [] then Inl (InsufficientParentStakes 0 (c_quorum_threshold ?c))
      else case res of Inl e \<Rightarrow> Inl e
        | Inr t \<Rightarrow> if \<not> reached_quorum ?c t then Inl (InsufficientParentStakes t (c_quorum_threshold ?c))
                   else check_transactions (sv_limits v) (block_transactions ?b))"
    using True by (simp add: verify_block_def Let_def is_valid_index_def verify_signature_eq res split: sum.split)
  show ?thesis
    using res_ok len unfolding run spec check_transactions_exact [OF small, symmetric]
    by (auto split: sum.splits)
qed

text \<open>C6: block verification.  For a well-formed committee \<^verbatim>\<open>verify_block\<close> never panics, and it returns
  \<^verbatim>\<open>Ok\<close> exactly for the valid blocks: of this epoch, above round 0, by an authority of the committee
  whose key verifies the signature, with the own previous block as first ancestor, at most one
  ancestor per authority, all of lower rounds and those of round 0 genuine genesis blocks, with a
  quorum of stake in the round before, and within the transaction limits (zero is no limit).\<close>

theorem verify_block_spec:
  assumes "committee_wf (ctx_committee (sv_context v))"
    and "sum_list (map length (block_transactions (sb_inner sb))) < 2 ^ 64"
  shows "verify_block v sb \<noteq> None \<and> (verify_block v sb = Some (Inr ()) \<longleftrightarrow> block_ok v sb)"
  using verify_block_exact [OF assms] by auto

lemma block_ok_valid:
  assumes "block_ok v sb"
  shows "valid_block (ctx_committee (sv_context v)) (verified_block_new hash sb serialized)"
  using assms by (auto simp: block_ok_def Let_def valid_block_def verified_block_new_def vb_author_def
      vb_round_def vb_ancestors_def parent_authors_def)

lemma verify_and_vote_block:
  "verify_and_vote v sb serialized = Some (Inr (b, rejected)) \<Longrightarrow>
     verify_block v sb = Some (Inr ()) \<and> b = verified_block_new (cy_hash (sv_crypto v)) sb serialized"
  by (auto simp: verify_and_vote_def and_then_Inr Let_def split: bind_splits)

text \<open>C7: what the verifier lets into the DAG.  Every block that \<^verbatim>\<open>verify_and_vote\<close> returns carries the
  received block and the hash of the received bytes as digest, has a round above 0, and satisfies
  the well-formedness condition \<open>valid_block\<close> under which the committer and the DAG state are
  proved correct.  Without the fast path it rejects no single transaction.\<close>

theorem verify_and_vote_valid:
  assumes "committee_wf (ctx_committee (sv_context v))"
    and "sum_list (map length (block_transactions (sb_inner sb))) < 2 ^ 64"
    and "verify_and_vote v sb serialized = Some (Inr (b, rejected))"
  shows "valid_block (ctx_committee (sv_context v)) b \<and> 0 < vb_round b \<and>
     vb_block b = sb \<and> vb_reference b =
       BlockRef (block_round (sb_inner sb)) (block_author (sb_inner sb)) (cy_hash (sv_crypto v) serialized) \<and>
     (\<not> ctx_mysticeti_fastpath (sv_context v) \<longrightarrow> rejected = [])"
proof -
  have b: "verify_block v sb = Some (Inr ())" "b = verified_block_new (cy_hash (sv_crypto v)) sb serialized"
    using verify_and_vote_block [OF assms(3)] by auto
  then have ok: "block_ok v sb" using verify_block_exact [OF assms(1,2)] by auto
  moreover have "\<not> ctx_mysticeti_fastpath (sv_context v) \<longrightarrow> rejected = []"
    using assms(3) by (auto simp: verify_and_vote_def and_then_Inr Let_def split: bind_splits)
  ultimately show ?thesis
    using block_ok_valid [OF ok] unfolding b(2)
    by (auto simp: block_ok_def Let_def verified_block_new_def vb_round_def vb_author_def vb_reference_def)
qed

text \<open>Signing and verifying.  When the signature scheme verifies its own signatures and decodes
  what it encodes, a block signed by \<^verbatim>\<open>SignedBlock::new\<close> with the key pair of its author passes
  \<^verbatim>\<open>verify_signature\<close>; signing fails only when serialisation does.\<close>

theorem sign_verify_roundtrip:
  assumes key: "\<And>m. cy_verify cy (au_protocol_key (c_authorities (ctx_committee ctx) ! block_author b)) m (cy_sign cy kp m) = Inr ()"
    and codec: "\<And>s. cy_from_bytes cy (cy_to_bytes cy s) = Inr s"
    and author: "block_author b < committee_size (ctx_committee ctx)"
  shows "(\<exists>e. signed_block_new cy b kp = Inl (SerializationFailure e)) \<or>
     (\<exists>sb. signed_block_new cy b kp = Inr sb \<and> sb_inner sb = b \<and> verify_signature cy ctx sb = Some (Inr ()))"
proof (cases "block_message cy b")
  case (Inl e)
  then have "\<exists>s. e = SerializationFailure s"
    by (cases "cy_block_bytes cy b"; cases "cy_intent_bytes cy (cy_hash cy (projr (cy_block_bytes cy b)))")
      (auto simp: block_message_def compute_inner_block_digest_def)
  with Inl show ?thesis by (auto simp: signed_block_new_def compute_block_signature_def)
next
  case (Inr m)
  then have "signed_block_new cy b kp = Inr \<lparr>sb_inner = b, sb_signature = cy_to_bytes cy (cy_sign cy kp m)\<rparr>"
    by (simp add: signed_block_new_def compute_block_signature_def)
  with Inr author key codec show ?thesis
    by (simp add: verify_signature_eq verify_block_signature_def)
qed

lemma too_many_bytes_count:
  "check_transactions limits ts = Inl (TooManyTransactionBytes n l) \<Longrightarrow>
     n = length ts \<and> l = max_transactions_in_block_bytes limits"
proof -
  have "check_transaction_sizes k ts \<noteq> Inl (TooManyTransactionBytes n l)" for k
    by (induction ts) auto
  then show "check_transactions limits ts = Inl (TooManyTransactionBytes n l) \<Longrightarrow>
     n = length ts \<and> l = max_transactions_in_block_bytes limits"
    by (cases "check_transaction_sizes (max_transaction_size_bytes limits) ts")
      (auto simp: check_transactions_def Let_def split: if_splits)
qed

subsection \<open>A verifier for the witnesses\<close>

definition crypto4 :: "(bytes, bytes) block_crypto" where
  "crypto4 = \<lparr>cy_block_bytes = \<lambda>_. Inr [], cy_hash = \<lambda>bs. length bs, cy_intent_bytes = \<lambda>_. Inr [1],
     cy_sign = \<lambda>kp m. kp @ m, cy_to_bytes = \<lambda>s. s, cy_from_bytes = Inr,
     cy_verify = \<lambda>pk m s. if s = pk @ m then Inr () else Inl ''bad signature''\<rparr>"

definition verifier4 :: "(bytes, bytes) signed_block_verifier" where
  "verifier4 = \<lparr>sv_context = context4,
     sv_limits = \<lparr>max_transaction_size_bytes = 10, max_num_transactions_in_block = 2,
       max_transactions_in_block_bytes = 15\<rparr>,
     sv_crypto = crypto4, sv_genesis = map (\<lambda>a. BlockRef 0 a 7) [0, 1, 2, 3],
     sv_transaction_verifier = \<lparr>tv_verify_batch = \<lambda>_. Inr (), tv_verify_and_vote_batch = \<lambda>_ _. Inr []\<rparr>\<rparr>"

lemma verifier4_new:
  "signed_block_verifier_new (\<lambda>_. Some (replicate 7 0)) crypto4 context4 (sv_limits verifier4)
     (sv_transaction_verifier verifier4) = Some verifier4"
  by (simp add: signed_block_verifier_new_def genesis_blocks_def committee_indices_def context4_def
      committee4_def genesis_block_def Let_def verifier4_def crypto4_def verified_block_new_def
      signed_block_new_genesis_def vb_reference_def vb_round_def vb_author_def block_v1_genesis_def
      bts_insert_def insort_insert_key_def block_ref_le_iff)

definition signed4 :: "block_ref list \<Rightarrow> signed_block" where
  "signed4 ancestors = \<lparr>sb_inner = sb_inner (vb_block (example_block 1 2 0 1500 ancestors)), sb_signature = [1]\<rparr>"

lemmas verifier4_simps = verifier4_def crypto4_def signed4_def example_block_def context4_def committee4_def
  example_authority_def committee_size_def is_valid_index_def committee_authority_def committee_stake_def
  vec_get_def vec_set_def reached_quorum_def u64_add_def u64_sum_def nth_Cons_numeral list_update.simps

lemma verifier4_runs:
  "verify_block verifier4 (signed4 [BlockRef 0 2 7, BlockRef 0 0 7, BlockRef 0 3 7]) = Some (Inr ())"
  "verify_block verifier4 (signed4 [BlockRef 0 2 7, BlockRef 0 0 7]) = Some (Inl (InsufficientParentStakes 2 3))"
  by (simp_all add: verify_block_def verify_signature_def verify_block_signature_def block_message_def
      compute_inner_block_digest_def check_transactions_def Let_def verifier4_simps)

theorem verify_block_spec_witness:
  "verify_block verifier4 (signed4 [BlockRef 0 2 7, BlockRef 0 0 7, BlockRef 0 3 7]) = Some (Inr ()) \<and>
   block_ok verifier4 (signed4 [BlockRef 0 2 7, BlockRef 0 0 7, BlockRef 0 3 7]) \<and>
   verify_block verifier4 (signed4 [BlockRef 0 2 7, BlockRef 0 0 7]) = Some (Inl (InsufficientParentStakes 2 3)) \<and>
   \<not> block_ok verifier4 (signed4 [BlockRef 0 2 7, BlockRef 0 0 7])"
proof -
  have "committee_wf (ctx_committee (sv_context verifier4))"
    by (simp add: verifier4_def committee4_wf)
  then show ?thesis
    using verify_block_spec [of verifier4 "signed4 [BlockRef 0 2 7, BlockRef 0 0 7, BlockRef 0 3 7]"]
      verify_block_spec [of verifier4 "signed4 [BlockRef 0 2 7, BlockRef 0 0 7]"]
    by (simp add: verifier4_runs) (simp add: signed4_def example_block_def)
qed

theorem verify_and_vote_valid_witness:
  "\<exists>b. verify_and_vote verifier4 (signed4 [BlockRef 0 2 7, BlockRef 0 0 7, BlockRef 0 3 7]) [9, 9] = Some (Inr (b, [])) \<and>
     valid_block committee4 b \<and> vb_reference b = BlockRef 1 2 2"
proof -
  let ?sb = "signed4 [BlockRef 0 2 7, BlockRef 0 0 7, BlockRef 0 3 7]"
  let ?b = "verified_block_new length ?sb [9, 9]"
  have run: "verify_and_vote verifier4 ?sb [9, 9] = Some (Inr (?b, []))"
    unfolding verify_and_vote_def verifier4_runs by (simp add: Let_def verifier4_def crypto4_def context4_def)
  have "committee_wf (ctx_committee (sv_context verifier4))" by (simp add: verifier4_def committee4_wf)
  with verify_and_vote_valid [OF _ _ run] show ?thesis
    by (simp add: run) (simp add: signed4_def example_block_def verifier4_def crypto4_def)
qed

theorem sign_verify_roundtrip_witness:
  "\<exists>sb. signed_block_new crypto4 (sb_inner (signed4 [])) [] = Inr sb \<and>
     verify_signature crypto4 context4 sb = Some (Inr ())"
proof -
  have new: "signed_block_new crypto4 (sb_inner (signed4 [])) [] = Inr (signed4 [])" by code_simp
  have "(\<exists>e. signed_block_new crypto4 (sb_inner (signed4 [])) [] = Inl (SerializationFailure e)) \<or>
      (\<exists>sb. signed_block_new crypto4 (sb_inner (signed4 [])) [] = Inr sb \<and> sb_inner sb = sb_inner (signed4 []) \<and>
         verify_signature crypto4 context4 sb = Some (Inr ()))"
    by (rule sign_verify_roundtrip)
      (simp_all add: crypto4_def signed4_def example_block_def context4_def committee4_def example_authority_def
        committee_size_def numeral_2_eq_2)
  then show ?thesis by (simp add: new)
qed

end
