(* ===== verification/Round_Maps.thy ===== *)
theory Round_Maps
  imports Block
begin

section \<open>Maps keyed by block references\<close>

text \<open>
  A \<^verbatim>\<open>BTreeMap<BlockRef, _>\<close> is ordered by round first.  The transaction pool and the transaction certifier drop
  the entries at or below a garbage collection round from its front.
\<close>

lemma btm_insert_first: "btm_wf ((k, v) # m) \<Longrightarrow> btm_insert k v m = (k, v) # m"
  by (cases m) (auto simp: btm_wf_def btm_keys_def)

lemma map_of_filter_round:
  "map_of (filter (\<lambda>(r, _). gc < br_round r) m) r = (if br_round r \<le> gc then None else map_of m r)"
  by (induction m) auto

lemma dropWhile_rounds:
  "btm_wf (m :: (block_ref, 'v) btree_map) \<Longrightarrow> dropWhile (\<lambda>(r, _). br_round r \<le> gc) m = filter (\<lambda>(r, _). gc < br_round r) m"
proof (induction m)
  case (Cons p m)
  obtain r v where p: "p = (r, v)" by fastforce
  show ?case
  proof (cases "br_round r \<le> gc")
    case False
    have "gc < br_round (fst q)" if "q \<in> set m" for q
    proof -
      have "r < fst q" using Cons.prems that by (auto simp: p btm_keys_def)
      then show ?thesis using False block_ref_less_round [OF less_imp_le, of r "fst q"] by simp
    qed
    then have "filter (\<lambda>(r, _). gc < br_round r) m = m" by (auto simp: filter_id_conv)
    then show ?thesis using False by (simp add: p)
  qed (use Cons p in simp)
qed simp

end
