(* ===== verification/Transaction_Certifier.thy ===== *)
theory Transaction_Certifier
  imports Block_Verifier Round_Maps
begin

section \<open>Certification of transactions\<close>

text \<open>
  \<^verbatim>\<open>core/src/transaction_certifier.rs\<close>: the fast path.  A block of round \<open>r + 1\<close> that refers to a block of
  round \<open>r\<close> votes for its transactions, except those it names as rejected.  The certifier counts
  these votes and outputs a block once every transaction in it has a quorum of accept or of reject
  votes.  \<open>certifier_state\<close> is \<^verbatim>\<open>CertifierState\<close>; the lock and the channel of \<^verbatim>\<open>TransactionCertifier\<close> are left
  out, an operation returns the certified blocks that are sent.
\<close>

record certified_block =
  cb_block :: verified_block
  cb_rejected :: "TransactionIndex list"

record vote_info =
  vi_block :: "verified_block option"
  vi_own_reject_txn_votes :: "TransactionIndex list"
  vi_accept_block_votes :: stake_aggregator
  vi_reject_txn_votes :: "(TransactionIndex, stake_aggregator) btree_map"
  vi_is_certified :: bool

record certifier_state =
  cs_context :: consensus_context
  cs_votes :: "(block_ref, vote_info) btree_map"
  cs_gc_round :: Round

definition vote_info_default :: vote_info where
  "vote_info_default = \<lparr>vi_block = None, vi_own_reject_txn_votes = [], vi_accept_block_votes = aggregator_new,
     vi_reject_txn_votes = [], vi_is_certified = False\<rparr>"

definition certifier_state_new :: "consensus_context \<Rightarrow> certifier_state" where
  "certifier_state_new ctx = \<lparr>cs_context = ctx, cs_votes = [], cs_gc_round = GENESIS_ROUND\<rparr>"

definition or_default :: "(block_ref, vote_info) btree_map \<Rightarrow> block_ref \<Rightarrow> vote_info" where
  "or_default votes r = (case btm_get votes r of None \<Rightarrow> vote_info_default | Some vi \<Rightarrow> vi)"

subsection \<open>Output of a certified block\<close>

text \<open>The loop over the reject votes; \<open>None\<close> when some transaction has neither quorum.\<close>

fun collect_rejected ::
  "committee \<Rightarrow> Stake \<Rightarrow> (TransactionIndex \<times> stake_aggregator) list \<Rightarrow> TransactionIndex list \<Rightarrow>
   TransactionIndex list option" where
  "collect_rejected c accept_stake [] rejected = Some rejected"
| "collect_rejected c accept_stake ((idx, reject_votes) # rest) rejected =
     (if reached_threshold reached_quorum reject_votes c
      then collect_rejected c accept_stake rest (rejected @ [idx])
      else if accept_stake - sa_stake reject_votes < c_quorum_threshold c then None
      else collect_rejected c accept_stake rest rejected)"

definition take_certified_output ::
  "committee \<Rightarrow> vote_info \<Rightarrow> (certified_block option \<times> vote_info) option" where
  "take_certified_output c vi =
     (if vi_is_certified vi then Some (None, vi)
      else case vi_block vi of
        None \<Rightarrow> Some (None, vi)
      | Some block \<Rightarrow> do {
          _ \<leftarrow> committee_authority c (vb_author block);
          if \<not> reached_threshold reached_quorum (vi_accept_block_votes vi) c then Some (None, vi)
          else case collect_rejected c (sa_stake (vi_accept_block_votes vi)) (vi_reject_txn_votes vi) [] of
            None \<Rightarrow> Some (None, vi)
          | Some rejected \<Rightarrow>
              Some (Some \<lparr>cb_block = block, cb_rejected = rejected\<rparr>, vi\<lparr>vi_is_certified := True\<rparr>)
        })"

subsection \<open>Counting votes\<close>

definition add_reject ::
  "committee \<Rightarrow> AuthorityIndex \<Rightarrow> TransactionIndex \<Rightarrow> (TransactionIndex, stake_aggregator) btree_map \<Rightarrow>
   (TransactionIndex, stake_aggregator) btree_map option" where
  "add_reject c author reject m =
     map_option (\<lambda>(_, agg). btm_insert reject agg m)
       (aggregator_add_unique (case btm_get m reject of None \<Rightarrow> aggregator_new | Some agg \<Rightarrow> agg) author c)"

definition count_block_votes ::
  "committee \<Rightarrow> Round \<Rightarrow> AuthorityIndex \<Rightarrow> block_transaction_votes \<Rightarrow>
   (block_ref, vote_info) btree_map \<times> certified_block list \<Rightarrow>
   ((block_ref, vote_info) btree_map \<times> certified_block list) option" where
  "count_block_votes c gc author block_votes = (\<lambda>(votes, certified).
     if br_round (btv_block_ref block_votes) \<le> gc then Some (votes, certified)
     else do {
       let vi = or_default votes (btv_block_ref block_votes);
       rejects \<leftarrow> fold_opt (add_reject c author) (btv_rejects block_votes) (vi_reject_txn_votes vi);
       (output, vi) \<leftarrow> take_certified_output c (vi\<lparr>vi_reject_txn_votes := rejects\<rparr>);
       Some (btm_insert (btv_block_ref block_votes) vi votes,
             case output of None \<Rightarrow> certified | Some b \<Rightarrow> certified @ [b])
     })"

definition add_voted_block ::
  "certifier_state \<Rightarrow> verified_block \<Rightarrow> TransactionIndex list \<Rightarrow> (certified_block list \<times> certifier_state) option" where
  "add_voted_block cs voted_block reject_txn_votes =
     (if vb_round voted_block \<le> cs_gc_round cs then Some ([], cs)
      else do {
        let c = ctx_committee (cs_context cs);
        _ \<leftarrow> committee_authority c (vb_author voted_block);
        let vi = or_default (cs_votes cs) (vb_reference voted_block);
        if vi_block vi \<noteq> None then Some ([], cs)
        else do {
          let votes = btm_insert (vb_reference voted_block)
            (vi\<lparr>vi_block := Some voted_block, vi_own_reject_txn_votes := reject_txn_votes\<rparr>) (cs_votes cs);
          (votes, certified) \<leftarrow> fold_opt (count_block_votes c (cs_gc_round cs) (vb_author voted_block))
            (block_tx_votes (sb_inner (vb_block voted_block))) (votes, []);
          Some (certified, cs\<lparr>cs_votes := votes\<rparr>)
        }
      })"

definition add_voted_step ::
  "verified_block \<times> TransactionIndex list \<Rightarrow> certified_block list \<times> certifier_state \<Rightarrow>
   (certified_block list \<times> certifier_state) option" where
  "add_voted_step = (\<lambda>(voted_block, rejects) (certified, cs). do {
     (blocks, cs) \<leftarrow> add_voted_block cs voted_block rejects;
     Some (certified @ blocks, cs)
   })"

definition add_voted_blocks ::
  "certifier_state \<Rightarrow> (verified_block \<times> TransactionIndex list) list \<Rightarrow>
   (certified_block list \<times> certifier_state) option" where
  "add_voted_blocks cs voted_blocks = fold_opt add_voted_step voted_blocks ([], cs)"

text \<open>The inner loop of \<^verbatim>\<open>add_proposed_block\<close>: the block voted for by \<open>voting_block\<close>.\<close>

definition count_accept ::
  "committee \<Rightarrow> verified_block \<Rightarrow> block_ref \<Rightarrow> (block_ref, vote_info) btree_map \<times> certified_block list \<Rightarrow>
   ((block_ref, vote_info) btree_map \<times> certified_block list) option" where
  "count_accept c voting_block target = (\<lambda>(votes, certified).
     if u32_add (br_round target) 1 \<noteq> vb_round voting_block then Some (votes, certified)
     else case btm_get votes target of
       None \<Rightarrow> Some (votes, certified)
     | Some vi \<Rightarrow> do {
         (_, agg) \<leftarrow> aggregator_add_unique (vi_accept_block_votes vi) (vb_author voting_block) c;
         (output, vi) \<leftarrow> take_certified_output c (vi\<lparr>vi_accept_block_votes := agg\<rparr>);
         Some (btm_insert target vi votes, case output of None \<Rightarrow> certified | Some b \<Rightarrow> certified @ [b])
       })"

definition count_voting_ancestor ::
  "committee \<Rightarrow> verified_block \<Rightarrow> block_ref \<Rightarrow> (block_ref, vote_info) btree_map \<times> certified_block list \<Rightarrow>
   ((block_ref, vote_info) btree_map \<times> certified_block list) option" where
  "count_voting_ancestor c proposed_block voting_ancestor = (\<lambda>(votes, certified).
     if u32_add (br_round voting_ancestor) 1 \<noteq> vb_round proposed_block then Some (votes, certified)
     else case btm_get votes voting_ancestor of
       None \<Rightarrow> Some (votes, certified)
     | Some voting_info \<Rightarrow>
         (case vi_block voting_info of
            None \<Rightarrow> Some (votes, certified)
          | Some voting_block \<Rightarrow>
              fold_opt (count_accept c voting_block) (vb_ancestors voting_block) (votes, certified)))"

definition add_proposed_block ::
  "certifier_state \<Rightarrow> verified_block \<Rightarrow> (certified_block list \<times> certifier_state) option" where
  "add_proposed_block cs proposed_block =
     (if vb_round proposed_block \<le> u32_add (cs_gc_round cs) 2 then Some ([], cs)
      else if btm_get (cs_votes cs) (vb_reference proposed_block) = None then Some ([], cs)
      else do {
        (votes, certified) \<leftarrow> fold_opt (count_voting_ancestor (ctx_committee (cs_context cs)) proposed_block)
          (vb_ancestors proposed_block) (cs_votes cs, []);
        Some (certified, cs\<lparr>cs_votes := votes\<rparr>)
      })"

definition update_gc_round :: "certifier_state \<Rightarrow> Round \<Rightarrow> certifier_state" where
  "update_gc_round cs gc =
     cs\<lparr>cs_gc_round := gc, cs_votes := dropWhile (\<lambda>(r, _). br_round r \<le> gc) (cs_votes cs)\<rparr>"

subsection \<open>Reads, recovery and garbage collection\<close>

fun get_own_votes :: "certifier_state \<Rightarrow> block_ref list \<Rightarrow> block_transaction_votes list option" where
  "get_own_votes cs [] = Some []"
| "get_own_votes cs (r # rs) =
     (if br_round r \<le> cs_gc_round cs then get_own_votes cs rs
      else case btm_get (cs_votes cs) r of
        None \<Rightarrow> None
      | Some vi \<Rightarrow>
          if vi_own_reject_txn_votes vi = [] then get_own_votes cs rs
          else map_option (\<lambda>votes. \<lparr>btv_block_ref = r, btv_rejects = vi_own_reject_txn_votes vi\<rparr> # votes)
                 (get_own_votes cs rs))"

definition get_reject_votes :: "certifier_state \<Rightarrow> block_ref \<Rightarrow> (TransactionIndex \<times> Stake) list option" where
  "get_reject_votes cs r =
     map_option (\<lambda>vi. map (\<lambda>(idx, agg). (idx, sa_stake agg)) (vi_reject_txn_votes vi)) (btm_get (cs_votes cs) r)"

definition run_gc :: "dag_state \<Rightarrow> certifier_state \<Rightarrow> Round \<Rightarrow> certifier_state option" where
  "run_gc d cs gc = (if gc \<le> gc_round d then Some (update_gc_round cs gc) else None)"

text \<open>Voting on recovered blocks; \<open>vote\<close> is the vote of the block verifier.\<close>

definition recover_vote ::
  "(verified_block \<Rightarrow> TransactionIndex list consensus_result) \<Rightarrow> dag_state \<Rightarrow> verified_block \<Rightarrow>
   (verified_block \<times> TransactionIndex list) option" where
  "recover_vote vote d b = do {
     should_vote \<leftarrow> (if vb_round b > gc_round d
       then map_option (\<lambda>included. \<not> included) (has_been_included d (vb_reference b)) else Some False);
     if \<not> should_vote then Some (b, [])
     else case vote b of Inl e \<Rightarrow> None | Inr rejects \<Rightarrow> Some (b, rejects)
   }"

definition recover_and_vote_on_blocks ::
  "(verified_block \<Rightarrow> TransactionIndex list consensus_result) \<Rightarrow> dag_state \<Rightarrow> certifier_state \<Rightarrow>
   verified_block list \<Rightarrow> certifier_state option" where
  "recover_and_vote_on_blocks vote d cs blocks = do {
     voted_blocks \<leftarrow> map_opt (recover_vote vote d) blocks;
     (_, cs) \<leftarrow> add_voted_blocks cs voted_blocks;
     Some cs
   }"

definition recover_blocks_after_round ::
  "(verified_block \<Rightarrow> TransactionIndex list consensus_result) \<Rightarrow> dag_state \<Rightarrow> certifier_state \<Rightarrow> Round \<Rightarrow>
   certifier_state option" where
  "recover_blocks_after_round vote d cs after_round =
     (if \<not> ctx_mysticeti_fastpath (cs_context cs) then Some cs
      else fold_opt (\<lambda>(authority, _) cs. do {
          blocks \<leftarrow> mem_scan_blocks_by_author (ds_store d) authority (u32_add after_round 1);
          recover_and_vote_on_blocks vote d cs blocks
        }) (committee_indices (ctx_committee (cs_context cs))) cs)"

subsection \<open>Counted votes as sets\<close>

definition rejecters_in :: "(TransactionIndex, stake_aggregator) btree_map \<Rightarrow> TransactionIndex \<Rightarrow> AuthorityIndex set" where
  "rejecters_in m idx = (case btm_get m idx of None \<Rightarrow> {} | Some agg \<Rightarrow> set (sa_votes agg))"

definition info_wf :: "committee \<Rightarrow> block_ref \<Rightarrow> vote_info \<Rightarrow> bool" where
  "info_wf c r vi \<longleftrightarrow> agg_inv c (vi_accept_block_votes vi) \<and> btm_wf (vi_reject_txn_votes vi) \<and>
     (\<forall>idx agg. btm_get (vi_reject_txn_votes vi) idx = Some agg \<longrightarrow> agg_inv c agg) \<and>
     (\<forall>b. vi_block vi = Some b \<longrightarrow> vb_reference b = r \<and> vb_author b < committee_size c)"

definition accepters :: "(block_ref, vote_info) btree_map \<Rightarrow> block_ref \<Rightarrow> AuthorityIndex set" where
  "accepters votes r = set (sa_votes (vi_accept_block_votes (or_default votes r)))"

definition rejecters :: "(block_ref, vote_info) btree_map \<Rightarrow> block_ref \<Rightarrow> TransactionIndex \<Rightarrow> AuthorityIndex set" where
  "rejecters votes r = rejecters_in (vi_reject_txn_votes (or_default votes r))"

definition known_block :: "(block_ref, vote_info) btree_map \<Rightarrow> block_ref \<Rightarrow> verified_block option" where
  "known_block votes r = vi_block (or_default votes r)"

definition certified :: "(block_ref, vote_info) btree_map \<Rightarrow> block_ref \<Rightarrow> bool" where
  "certified votes r \<longleftrightarrow> vi_is_certified (or_default votes r)"

lemmas vote_views = accepters_def rejecters_def known_block_def certified_def

definition votes_wf :: "committee \<Rightarrow> (block_ref, vote_info) btree_map \<Rightarrow> bool" where
  "votes_wf c votes \<longleftrightarrow> btm_wf votes \<and> (\<forall>r vi. btm_get votes r = Some vi \<longrightarrow> info_wf c r vi)"

lemma or_default_insert: "or_default (btm_insert k v m) r = (if r = k then v else or_default m r)"
  by (simp add: or_default_def btm_get_insert)

lemma or_default_get: "btm_get m r = Some vi \<Longrightarrow> or_default m r = vi"
  by (simp add: or_default_def)

lemma info_wf_default: "info_wf c r vote_info_default"
  by (simp add: info_wf_def vote_info_default_def)

lemma or_default_wf: "votes_wf c votes \<Longrightarrow> info_wf c r (or_default votes r)"
  by (simp add: votes_wf_def or_default_def info_wf_default split: option.split)

lemma votes_wf_insert: "votes_wf c votes \<Longrightarrow> info_wf c r vi \<Longrightarrow> votes_wf c (btm_insert r vi votes)"
  by (auto simp: votes_wf_def btree_simps split: if_splits)

lemma add_unique_total:
  assumes "committee_wf c" "agg_inv c agg" "a < committee_size c"
  shows "\<exists>new agg'. aggregator_add_unique agg a c = Some (new, agg') \<and> agg_inv c agg' \<and>
     set (sa_votes agg') = insert a (set (sa_votes agg))"
proof (cases "a \<in> set (sa_votes agg)")
  case True
  then show ?thesis using assms(2) by (auto simp: aggregator_add_unique_def)
next
  case False
  let ?agg = "\<lparr>sa_votes = bts_insert a (sa_votes agg), sa_stake = u64_add (sa_stake agg) (au_stake (c_authorities c ! a))\<rparr>"
  have "aggregator_add_unique agg a c = Some (True, ?agg)"
    using False assms(3) by (simp add: aggregator_add_unique_def committee_stake_valid)
  moreover have "agg_inv c ?agg"
    using agg_inv_step [OF assms False] assms(2,3) by (simp add: agg_inv_def btree_simps)
  ultimately show ?thesis by (intro exI [of _ True] exI [of _ ?agg]) (simp add: btree_simps)
qed

lemma add_rejects:
  assumes wf: "committee_wf c" and a: "a < committee_size c"
    and "btm_wf m" "\<forall>idx agg. btm_get m idx = Some agg \<longrightarrow> agg_inv c agg"
  shows "\<exists>m'. fold_opt (add_reject c a) idxs m = Some m' \<and> btm_wf m' \<and>
     (\<forall>idx agg. btm_get m' idx = Some agg \<longrightarrow> agg_inv c agg) \<and>
     (\<forall>idx. rejecters_in m' idx = rejecters_in m idx \<union> (if idx \<in> set idxs then {a} else {}))"
  using assms(3,4)
proof (induction idxs arbitrary: m)
  case (Cons i idxs)
  let ?agg = "case btm_get m i of None \<Rightarrow> aggregator_new | Some agg \<Rightarrow> agg"
  have "agg_inv c ?agg" using Cons.prems(2) by (auto split: option.split)
  then obtain new agg' where u: "aggregator_add_unique ?agg a c = Some (new, agg')" "agg_inv c agg'"
      "set (sa_votes agg') = insert a (set (sa_votes ?agg))"
    using add_unique_total [OF wf _ a] by blast
  let ?m = "btm_insert i agg' m"
  have step: "add_reject c a i m = Some ?m" by (simp add: add_reject_def u(1))
  have m: "btm_wf ?m" "\<forall>idx agg. btm_get ?m idx = Some agg \<longrightarrow> agg_inv c agg"
      "rejecters_in ?m idx = rejecters_in m idx \<union> (if idx = i then {a} else {})" for idx
    using Cons.prems u(2,3) by (auto simp: btree_simps rejecters_in_def aggregator_new_def split: if_splits option.splits)
  from Cons.IH [OF m(1,2)] show ?case by (auto simp: step m(3))
qed simp

subsection \<open>The condition of certification\<close>

definition decided_info :: "committee \<Rightarrow> vote_info \<Rightarrow> bool" where
  "decided_info c vi \<longleftrightarrow> reached_quorum c (sa_stake (vi_accept_block_votes vi)) \<and>
     (\<forall>idx. reached_quorum c (stake_of c (rejecters_in (vi_reject_txn_votes vi) idx)) \<or>
        c_quorum_threshold c \<le> sa_stake (vi_accept_block_votes vi) - stake_of c (rejecters_in (vi_reject_txn_votes vi) idx))"

lemma collect_rejected_filter:
  "collect_rejected c s m rejected =
     (if \<forall>(idx, agg) \<in> set m. reached_quorum c (sa_stake agg) \<or> c_quorum_threshold c \<le> s - sa_stake agg
      then Some (rejected @ map fst (filter (\<lambda>(_, agg). reached_quorum c (sa_stake agg)) m)) else None)"
  by (induction c s m rejected rule: collect_rejected.induct) (auto simp: reached_threshold_def)

lemma not_quorum_empty: "committee_wf c \<Longrightarrow> \<not> reached_quorum c (stake_of c {})"
  using quorum.not_threshold_empty by simp

lemma rejecters_in_stake:
  "info_wf c r vi \<Longrightarrow> btm_get (vi_reject_txn_votes vi) idx = Some agg \<Longrightarrow>
     sa_stake agg = stake_of c (rejecters_in (vi_reject_txn_votes vi) idx)"
  by (simp add: info_wf_def rejecters_in_def agg_inv_def)

lemma collected:
  assumes wf: "committee_wf c" and vi: "info_wf c r vi"
    and q: "reached_quorum c (sa_stake (vi_accept_block_votes vi))"
  shows "collect_rejected c (sa_stake (vi_accept_block_votes vi)) (vi_reject_txn_votes vi) [] = None \<longleftrightarrow> \<not> decided_info c vi"
    and "collect_rejected c (sa_stake (vi_accept_block_votes vi)) (vi_reject_txn_votes vi) [] = Some rejected \<Longrightarrow>
      sorted_wrt (<) rejected \<and>
      set rejected = {idx. reached_quorum c (stake_of c (rejecters_in (vi_reject_txn_votes vi) idx))}"
proof -
  let ?m = "vi_reject_txn_votes vi" and ?s = "sa_stake (vi_accept_block_votes vi)"
  have m: "btm_wf ?m" using vi by (simp add: info_wf_def)
  have entry: "(idx, agg) \<in> set ?m \<Longrightarrow> sa_stake agg = stake_of c (rejecters_in ?m idx)" for idx agg
    using rejecters_in_stake [OF vi] btm_get_in_set [OF m] by blast
  have none: "rejecters_in ?m idx = {}" if "idx \<notin> fst ` set ?m" for idx
  proof -
    have "btm_get ?m idx = None" using that by (auto simp: btm_get_def map_of_eq_None_iff)
    then show ?thesis by (simp add: rejecters_in_def)
  qed
  have "(\<forall>(idx, agg) \<in> set ?m. reached_quorum c (sa_stake agg) \<or> c_quorum_threshold c \<le> ?s - sa_stake agg) \<longleftrightarrow>
      (\<forall>idx. reached_quorum c (stake_of c (rejecters_in ?m idx)) \<or>
         c_quorum_threshold c \<le> ?s - stake_of c (rejecters_in ?m idx))" (is "?L \<longleftrightarrow> (\<forall>idx. ?P idx)")
  proof
    assume l: ?L
    show "\<forall>idx. ?P idx"
    proof
      fix idx
      show "?P idx"
      proof (cases "idx \<in> fst ` set ?m")
        case True
        then obtain agg where "(idx, agg) \<in> set ?m" by auto
        then show ?thesis using l entry by fastforce
      next
        case False
        then show ?thesis using q by (simp add: none reached_quorum_def)
      qed
    qed
  next
    assume "\<forall>idx. ?P idx"
    then show ?L using entry by fastforce
  qed
  then show "collect_rejected c ?s ?m [] = None \<longleftrightarrow> \<not> decided_info c vi"
    using q by (simp add: collect_rejected_filter decided_info_def)
  assume "collect_rejected c ?s ?m [] = Some rejected"
  then have rej: "rejected = map fst (filter (\<lambda>(_, agg). reached_quorum c (sa_stake agg)) ?m)"
    by (simp add: collect_rejected_filter split: if_splits)
  have "sorted_wrt (<) rejected"
    using m unfolding rej btm_wf_def btm_keys_def by (simp add: sorted_wrt_map sorted_wrt_filter)
  moreover have "idx \<in> set rejected \<longleftrightarrow> reached_quorum c (stake_of c (rejecters_in ?m idx))" for idx
  proof
    assume "idx \<in> set rejected"
    then show "reached_quorum c (stake_of c (rejecters_in ?m idx))" using entry unfolding rej by fastforce
  next
    assume a: "reached_quorum c (stake_of c (rejecters_in ?m idx))"
    then have "idx \<in> fst ` set ?m" using none not_quorum_empty [OF wf] by metis
    then obtain agg where "(idx, agg) \<in> set ?m" by auto
    then show "idx \<in> set rejected" using a entry unfolding rej by force
  qed
  ultimately show "sorted_wrt (<) rejected \<and> set rejected = {idx. reached_quorum c (stake_of c (rejecters_in ?m idx))}" by blast
qed

definition output_of :: "committee \<Rightarrow> vote_info \<Rightarrow> certified_block \<Rightarrow> bool" where
  "output_of c vi cb \<longleftrightarrow> \<not> vi_is_certified vi \<and> vi_block vi = Some (cb_block cb) \<and> decided_info c vi \<and>
     sorted_wrt (<) (cb_rejected cb) \<and>
     set (cb_rejected cb) = {idx. reached_quorum c (stake_of c (rejecters_in (vi_reject_txn_votes vi) idx))}"

lemma take_certified_exact:
  assumes wf: "committee_wf c" and vi: "info_wf c r vi"
  shows "\<exists>out. take_certified_output c vi = Some (out, vi\<lparr>vi_is_certified := vi_is_certified vi \<or> out \<noteq> None\<rparr>) \<and>
     (\<forall>cb. out = Some cb \<longrightarrow> output_of c vi cb) \<and>
     (out = None \<longrightarrow> vi_is_certified vi \<or> vi_block vi = None \<or> \<not> decided_info c vi)"
proof (cases "vi_is_certified vi \<or> vi_block vi = None")
  case True
  then show ?thesis by (auto simp: take_certified_output_def)
next
  case False
  then obtain b where b: "vi_block vi = Some b" "\<not> vi_is_certified vi" by auto
  then have auth: "committee_authority c (vb_author b) = Some (c_authorities c ! vb_author b)"
    using vi by (simp add: info_wf_def committee_authority_def vec_get_def committee_size_def)
  show ?thesis
  proof (cases "reached_quorum c (sa_stake (vi_accept_block_votes vi))")
    case q: True
    show ?thesis
      using collected [OF wf vi q] b auth q
      by (cases "collect_rejected c (sa_stake (vi_accept_block_votes vi)) (vi_reject_txn_votes vi) []")
        (auto simp: take_certified_output_def reached_threshold_def output_of_def)
  next
    case q: False
    then show ?thesis using b auth by (auto simp: take_certified_output_def reached_threshold_def decided_info_def)
  qed
qed

subsection \<open>What the votes mean\<close>

text \<open>A block votes to accept what it refers to in the round before and does not reject.\<close>

definition rejects_of :: "verified_block \<Rightarrow> block_ref \<Rightarrow> TransactionIndex set" where
  "rejects_of V r = (\<Union>tv \<in> {tv \<in> set (block_tx_votes (sb_inner (vb_block V))). btv_block_ref tv = r}. set (btv_rejects tv))"

definition links :: "verified_block \<Rightarrow> block_ref \<Rightarrow> bool" where
  "links V r \<longleftrightarrow> r \<in> set (vb_ancestors V) \<and> u32_add (br_round r) 1 = vb_round V"

definition accepts :: "verified_block set \<Rightarrow> block_ref \<Rightarrow> TransactionIndex \<Rightarrow> AuthorityIndex set" where
  "accepts VS r idx = {vb_author V |V. V \<in> VS \<and> links V r \<and> idx \<notin> rejects_of V r}"

definition rejects :: "verified_block set \<Rightarrow> block_ref \<Rightarrow> TransactionIndex \<Rightarrow> AuthorityIndex set" where
  "rejects VS r idx = {vb_author V |V. V \<in> VS \<and> idx \<in> rejects_of V r}"

text \<open>A certified block is justified by a set of voting blocks: every transaction it rejects has a quorum of
  rejects, and every other transaction a quorum of accepts.\<close>

definition justified :: "committee \<Rightarrow> verified_block set \<Rightarrow> certified_block \<Rightarrow> bool" where
  "justified c VS cb \<longleftrightarrow> cb_block cb \<in> VS \<and> sorted_wrt (<) (cb_rejected cb) \<and>
     (\<forall>idx. if idx \<in> set (cb_rejected cb) then reached_quorum c (stake_of c (rejects VS (vb_reference (cb_block cb)) idx))
            else reached_quorum c (stake_of c (accepts VS (vb_reference (cb_block cb)) idx)))"

text \<open>The invariant.  \<open>VS\<close> are the blocks received; the reject votes of those in \<open>VA\<close> have been counted.\<close>

definition certifier_inv ::
  "committee \<Rightarrow> Round \<Rightarrow> verified_block set \<Rightarrow> verified_block set \<Rightarrow> (block_ref, vote_info) btree_map \<Rightarrow>
   certified_block list \<Rightarrow> bool" where
  "certifier_inv c gc VA VS votes outs \<longleftrightarrow> VA \<subseteq> VS \<and> (\<forall>V \<in> VS. valid_block c V) \<and>
     votes_wf c votes \<and> (\<forall>r. btm_get votes r \<noteq> None \<longrightarrow> gc < br_round r) \<and>
     (\<forall>r. accepters votes r \<subseteq> {vb_author V |V. V \<in> VA \<and> links V r}) \<and>
     (\<forall>r idx. rejecters votes r idx \<subseteq> rejects VS r idx) \<and>
     (\<forall>V \<in> VA. \<forall>r. \<forall>idx \<in> rejects_of V r. gc < br_round r \<and> gc < vb_round V \<longrightarrow> vb_author V \<in> rejecters votes r idx) \<and>
     (\<forall>r V. known_block votes r = Some V \<longrightarrow> V \<in> VS) \<and>
     (\<forall>V \<in> VS. gc < vb_round V \<longrightarrow> known_block votes (vb_reference V) = Some V) \<and>
     (\<forall>cb \<in> set outs. justified c VS cb \<and> (gc < vb_round (cb_block cb) \<longrightarrow> certified votes (vb_reference (cb_block cb)))) \<and>
     distinct (map (\<lambda>cb. vb_reference (cb_block cb)) outs)"

lemma certifier_invD:
  assumes "certifier_inv c gc VA VS votes outs"
  shows "VA \<subseteq> VS" "\<And>V. V \<in> VS \<Longrightarrow> valid_block c V" "votes_wf c votes" "\<And>r. btm_get votes r \<noteq> None \<Longrightarrow> gc < br_round r"
    "\<And>r. accepters votes r \<subseteq> {vb_author V |V. V \<in> VA \<and> links V r}"
    "\<And>r idx. rejecters votes r idx \<subseteq> rejects VS r idx"
    "\<And>V r idx. V \<in> VA \<Longrightarrow> idx \<in> rejects_of V r \<Longrightarrow> gc < br_round r \<Longrightarrow> gc < vb_round V \<Longrightarrow>
       vb_author V \<in> rejecters votes r idx"
    "\<And>r V. known_block votes r = Some V \<Longrightarrow> V \<in> VS"
    "\<And>V. V \<in> VS \<Longrightarrow> gc < vb_round V \<Longrightarrow> known_block votes (vb_reference V) = Some V"
    "\<And>cb. cb \<in> set outs \<Longrightarrow> justified c VS cb"
    "\<And>cb. cb \<in> set outs \<Longrightarrow> gc < vb_round (cb_block cb) \<Longrightarrow> certified votes (vb_reference (cb_block cb))"
    "distinct (map (\<lambda>cb. vb_reference (cb_block cb)) outs)"
  using assms unfolding certifier_inv_def by auto

lemma stake_diff: "stake_of c A - stake_of c R \<le> stake_of c (A - R)"
proof -
  have "stake_of c A \<le> stake_of c ((A - R) \<union> R)" by (rule stake_of_mono) auto
  also have "\<dots> \<le> stake_of c (A - R) + stake_of c R"
    using stake_of_Un_Int [of c "A - R" R] by simp
  finally show ?thesis by simp
qed

lemma quorum_mono: "reached_quorum c (stake_of c X) \<Longrightarrow> X \<subseteq> Y \<Longrightarrow> reached_quorum c (stake_of c Y)"
  using stake_of_mono [of X Y c] by (simp add: reached_quorum_def)

lemma output_justified:
  assumes inv: "certifier_inv c gc VA VS votes outs" and vi: "info_wf c r vi" and gc: "gc < br_round r"
    and A: "set (sa_votes (vi_accept_block_votes vi)) \<subseteq> {vb_author V |V. V \<in> VA \<and> links V r}"
    and R: "\<And>idx. rejecters votes r idx \<subseteq> rejecters_in (vi_reject_txn_votes vi) idx"
      "\<And>idx. rejecters_in (vi_reject_txn_votes vi) idx \<subseteq> rejects VS r idx"
    and known: "vi_block vi = known_block votes r" and out: "output_of c vi cb"
  shows "justified c VS cb" "vb_reference (cb_block cb) = r"
proof -
  note D = certifier_invD [OF inv]
  let ?A = "set (sa_votes (vi_accept_block_votes vi))" and ?R = "rejecters_in (vi_reject_txn_votes vi)"
  have b: "vi_block vi = Some (cb_block cb)" "cb_block cb \<in> VS" using out known D(8) by (auto simp: output_of_def)
  show r: "vb_reference (cb_block cb) = r" using vi b(1) by (simp add: info_wf_def)
  have rej: "set (cb_rejected cb) = {idx. reached_quorum c (stake_of c (?R idx))}" "sorted_wrt (<) (cb_rejected cb)"
      "decided_info c vi" using out by (simp_all add: output_of_def)
  have "reached_quorum c (stake_of c (accepts VS r idx))" if "idx \<notin> set (cb_rejected cb)" for idx
  proof (rule quorum_mono)
    have "sa_stake (vi_accept_block_votes vi) = stake_of c ?A" using vi by (simp add: info_wf_def agg_inv_def)
    then have "c_quorum_threshold c \<le> stake_of c ?A - stake_of c (?R idx)"
      using that rej(1,3) by (auto simp: decided_info_def)
    also note stake_diff
    finally show "reached_quorum c (stake_of c (?A - ?R idx))" by (simp add: reached_quorum_def)
    show "?A - ?R idx \<subseteq> accepts VS r idx"
    proof
      fix a assume a: "a \<in> ?A - ?R idx"
      then obtain V where V: "a = vb_author V" "V \<in> VA" "links V r" using A by blast
      have "br_round r < vb_round V" using D(1,2) V(2,3) by (auto simp: links_def valid_block_def)
      then have "idx \<notin> rejects_of V r" using D(7) [OF V(2) _ gc] R(1) a gc V(1) by fastforce
      then show "a \<in> accepts VS r idx" using V D(1) by (auto simp: accepts_def)
    qed
  qed
  moreover have "reached_quorum c (stake_of c (rejects VS r idx))" if "idx \<in> set (cb_rejected cb)" for idx
    using that rej(1) by (auto intro: quorum_mono [OF _ R(2)])
  ultimately show "justified c VS cb" using b(2) rej(2) by (simp add: justified_def r)
qed

subsection \<open>Every operation keeps the invariant\<close>

lemma settle:
  assumes wf: "committee_wf c" and inv: "certifier_inv c gc VA VS votes outs" and vi: "info_wf c r vi" and gc: "gc < br_round r"
    and A: "accepters votes r \<subseteq> set (sa_votes (vi_accept_block_votes vi))"
      "set (sa_votes (vi_accept_block_votes vi)) \<subseteq> {vb_author V |V. V \<in> VA \<and> links V r}"
    and R: "\<And>idx. rejecters votes r idx \<subseteq> rejecters_in (vi_reject_txn_votes vi) idx"
      "\<And>idx. rejecters_in (vi_reject_txn_votes vi) idx \<subseteq> rejects VS r idx"
    and same: "vi_block vi = known_block votes r" "vi_is_certified vi = certified votes r"
  shows "\<exists>out vi'. take_certified_output c vi = Some (out, vi') \<and>
     certifier_inv c gc VA VS (btm_insert r vi' votes) (case out of None \<Rightarrow> outs | Some b \<Rightarrow> outs @ [b]) \<and>
     (\<forall>q. known_block (btm_insert r vi' votes) q = known_block votes q) \<and>
     (\<forall>q. btm_get (btm_insert r vi' votes) q \<noteq> None \<longleftrightarrow> q = r \<or> btm_get votes q \<noteq> None) \<and>
     rejecters_in (vi_reject_txn_votes vi') = rejecters_in (vi_reject_txn_votes vi)"
proof -
  note D = certifier_invD [OF inv]
  obtain out where t: "take_certified_output c vi = Some (out, vi\<lparr>vi_is_certified := vi_is_certified vi \<or> out \<noteq> None\<rparr>)"
      "\<forall>cb. out = Some cb \<longrightarrow> output_of c vi cb" using take_certified_exact [OF wf vi] by blast
  let ?vi = "vi\<lparr>vi_is_certified := vi_is_certified vi \<or> out \<noteq> None\<rparr>"
  let ?votes = "btm_insert r ?vi votes" and ?outs = "case out of None \<Rightarrow> outs | Some b \<Rightarrow> outs @ [b]"
  have vi': "info_wf c r ?vi" using vi by (simp add: info_wf_def)
  have views: "accepters ?votes q = (if q = r then set (sa_votes (vi_accept_block_votes vi)) else accepters votes q)"
      "rejecters ?votes q = (if q = r then rejecters_in (vi_reject_txn_votes vi) else rejecters votes q)"
      "known_block ?votes q = known_block votes q"
      "certified ?votes q \<longleftrightarrow> certified votes q \<or> q = r \<and> out \<noteq> None" for q
    using same by (auto simp: vote_views or_default_insert)
  have new: "justified c VS cb \<and> vb_reference (cb_block cb) = r \<and> \<not> certified votes r" if "out = Some cb" for cb
    using output_justified [OF inv vi gc A(2) R same(1), of cb] t(2) that same(2) by (auto simp: output_of_def)
  have fresh: "r \<notin> (\<lambda>cb. vb_reference (cb_block cb)) ` set outs" if "out = Some cb" for cb
    using D(11) new [OF that] gc by (metis (no_types, lifting) imageE vb_reference_sel(1))
  have "certifier_inv c gc VA VS ?votes ?outs"
    unfolding certifier_inv_def
  proof (intro conjI ballI allI impI)
    show "votes_wf c ?votes" using D(3) vi' by (rule votes_wf_insert)
    show "gc < br_round q" if "btm_get ?votes q \<noteq> None" for q using that D(4) gc by (auto simp: btree_simps split: if_splits)
    show "accepters ?votes q \<subseteq> {vb_author V |V. V \<in> VA \<and> links V q}" for q using D(5) [of q] A(2) unfolding views by simp
    show "rejecters ?votes q idx \<subseteq> rejects VS q idx" for q idx using D(6) [of q idx] R(2) unfolding views by simp
    show "vb_author V \<in> rejecters ?votes q idx"
      if "V \<in> VA" "idx \<in> rejects_of V q" "gc < br_round q \<and> gc < vb_round V" for V q idx
      using D(7) [OF that(1,2)] that(3) R(1) [of idx] unfolding views by auto
    show "certified ?votes (vb_reference (cb_block cb))" if "cb \<in> set ?outs" "gc < vb_round (cb_block cb)" for cb
      using that D(11) new unfolding views by (auto split: option.splits)
    show "justified c VS cb" if "cb \<in> set ?outs" for cb using that D(10) new by (auto split: option.splits)
    show "distinct (map (\<lambda>cb. vb_reference (cb_block cb)) ?outs)" using D(12) fresh new by (auto split: option.splits)
  qed (use D in \<open>unfold views, auto\<close>)
  moreover have "\<forall>q. known_block ?votes q = known_block votes q" unfolding views by simp
  ultimately show ?thesis using t(1) by (intro exI [of _ out] exI [of _ ?vi]) (simp add: btree_simps)
qed

lemma count_block_votes_inv:
  assumes wf: "committee_wf c" and inv: "certifier_inv c gc VA VS votes outs"
    and V: "V \<in> VS" and tv: "tv \<in> set (block_tx_votes (sb_inner (vb_block V)))"
  shows "\<exists>votes' outs'. count_block_votes c gc (vb_author V) tv (votes, outs) = Some (votes', outs') \<and>
     certifier_inv c gc VA VS votes' outs' \<and>
     (\<forall>q idx. rejecters votes q idx \<subseteq> rejecters votes' q idx) \<and>
     (gc < br_round (btv_block_ref tv) \<longrightarrow> (\<forall>idx \<in> set (btv_rejects tv). vb_author V \<in> rejecters votes' (btv_block_ref tv) idx))"
proof (cases "br_round (btv_block_ref tv) \<le> gc")
  case True
  then show ?thesis using inv by (auto simp: count_block_votes_def)
next
  case False
  note D = certifier_invD [OF inv]
  let ?r = "btv_block_ref tv" and ?vi = "or_default votes (btv_block_ref tv)"
  have vi: "info_wf c ?r ?vi" using D(3) by (rule or_default_wf)
  have a: "vb_author V < committee_size c" using D(2) [OF V] by (simp add: valid_block_def)
  obtain m where m: "fold_opt (add_reject c (vb_author V)) (btv_rejects tv) (vi_reject_txn_votes ?vi) = Some m" "btm_wf m"
      "\<forall>idx agg. btm_get m idx = Some agg \<longrightarrow> agg_inv c agg"
      "\<And>idx. rejecters_in m idx = rejecters votes ?r idx \<union> (if idx \<in> set (btv_rejects tv) then {vb_author V} else {})"
    using add_rejects [OF wf a, of "vi_reject_txn_votes ?vi" "btv_rejects tv"] vi by (auto simp: info_wf_def rejecters_def)
  have sub: "rejecters_in m idx \<subseteq> rejects VS ?r idx" for idx
    using D(6) [of ?r idx] V tv by (auto simp: m(4) rejects_def rejects_of_def)
  have "info_wf c ?r (?vi\<lparr>vi_reject_txn_votes := m\<rparr>)" using vi m(2,3) by (simp add: info_wf_def)
  then obtain out vi' where s: "take_certified_output c (?vi\<lparr>vi_reject_txn_votes := m\<rparr>) = Some (out, vi')"
      "certifier_inv c gc VA VS (btm_insert ?r vi' votes) (case out of None \<Rightarrow> outs | Some b \<Rightarrow> outs @ [b])"
      "rejecters_in (vi_reject_txn_votes vi') = rejecters_in m"
    using settle [OF wf inv, of ?r "?vi\<lparr>vi_reject_txn_votes := m\<rparr>"] False D(5) [of ?r] sub m(4)
    by (auto simp: vote_views)
  then show ?thesis using False m(1,4)
    by (auto simp: count_block_votes_def Let_def rejecters_def or_default_insert split: if_splits)
qed

text \<open>The loops only append to the certified blocks they are given.\<close>

definition appends :: "('x \<Rightarrow> 'v \<times> 'o list \<Rightarrow> ('v \<times> 'o list) option) \<Rightarrow> bool" where
  "appends f \<longleftrightarrow> (\<forall>x v pre os. f x (v, pre @ os) = map_option (\<lambda>(v', os'). (v', pre @ os')) (f x (v, os)))"

lemma fold_opt_appends: "appends f \<Longrightarrow> appends (\<lambda>xs. fold_opt f xs)"
proof -
  assume f: "appends f"
  have "fold_opt f xs (v, pre @ os) = map_option (\<lambda>(v', os'). (v', pre @ os')) (fold_opt f xs (v, os))" for xs v pre os
  proof (induction xs arbitrary: v os)
    case (Cons x xs)
    then show ?case using f by (cases "f x (v, os)") (auto simp: appends_def)
  qed simp
  then show ?thesis by (simp add: appends_def)
qed

lemma appendsD: "appends f \<Longrightarrow> f x (v, os) = map_option (\<lambda>(v', os'). (v', os @ os')) (f x (v, []))"
  unfolding appends_def by (metis append_Nil2)

lemma count_block_votes_appends: "appends (count_block_votes c gc a)"
  by (auto simp: appends_def count_block_votes_def Let_def split: bind_splits option.splits)

lemma count_accept_appends: "appends (count_accept c V)"
  by (auto simp: appends_def count_accept_def split: bind_splits option.splits)

lemma count_voting_ancestor_appends: "appends (count_voting_ancestor c P)"
  using fold_opt_appends [OF count_accept_appends]
  by (auto simp: appends_def count_voting_ancestor_def split: option.splits)

lemma count_votes_fold:
  assumes wf: "committee_wf c" and V: "V \<in> VS" and "certifier_inv c gc VA VS votes outs"
    and "set tvs \<subseteq> set (block_tx_votes (sb_inner (vb_block V)))"
  shows "\<exists>votes' outs'. fold_opt (count_block_votes c gc (vb_author V)) tvs (votes, outs) = Some (votes', outs') \<and>
     certifier_inv c gc VA VS votes' outs' \<and> (\<forall>q idx. rejecters votes q idx \<subseteq> rejecters votes' q idx) \<and>
     (\<forall>tv \<in> set tvs. gc < br_round (btv_block_ref tv) \<longrightarrow>
        (\<forall>idx \<in> set (btv_rejects tv). vb_author V \<in> rejecters votes' (btv_block_ref tv) idx))"
  using assms(3,4)
proof (induction tvs arbitrary: votes outs)
  case (Cons tv tvs)
  then obtain votes1 outs1 where o: "count_block_votes c gc (vb_author V) tv (votes, outs) = Some (votes1, outs1)"
      "certifier_inv c gc VA VS votes1 outs1" "\<forall>q idx. rejecters votes q idx \<subseteq> rejecters votes1 q idx"
      "gc < br_round (btv_block_ref tv) \<longrightarrow> (\<forall>idx \<in> set (btv_rejects tv). vb_author V \<in> rejecters votes1 (btv_block_ref tv) idx)"
    using count_block_votes_inv [OF wf Cons.prems(1) V, of tv] by auto
  obtain votes' outs' where IH: "fold_opt (count_block_votes c gc (vb_author V)) tvs (votes1, outs1) = Some (votes', outs')"
      "certifier_inv c gc VA VS votes' outs'" "\<forall>q idx. rejecters votes1 q idx \<subseteq> rejecters votes' q idx"
      "\<forall>tv \<in> set tvs. gc < br_round (btv_block_ref tv) \<longrightarrow>
        (\<forall>idx \<in> set (btv_rejects tv). vb_author V \<in> rejecters votes' (btv_block_ref tv) idx)"
    using Cons.IH [OF o(2)] Cons.prems(2) by auto
  show ?case using o(1,3,4) IH by (auto simp: subset_iff)
qed auto

lemma justified_mono:
  assumes j: "justified c VS cb" and sub: "VS \<subseteq> VS'"
  shows "justified c VS' cb"
proof -
  have s: "rejects VS r idx \<subseteq> rejects VS' r idx" "accepts VS r idx \<subseteq> accepts VS' r idx" for r idx
    using sub by (auto simp: rejects_def accepts_def)
  show ?thesis
    unfolding justified_def
  proof (intro conjI allI)
    fix idx
    show "if idx \<in> set (cb_rejected cb) then reached_quorum c (stake_of c (rejects VS' (vb_reference (cb_block cb)) idx))
       else reached_quorum c (stake_of c (accepts VS' (vb_reference (cb_block cb)) idx))"
      using j quorum_mono [OF _ s(1)] quorum_mono [OF _ s(2)] unfolding justified_def by meson
  qed (use j sub in \<open>auto simp: justified_def\<close>)
qed

lemma add_voted_block_inv:
  assumes wf: "committee_wf (ctx_committee (cs_context cs))"
    and inv: "certifier_inv (ctx_committee (cs_context cs)) (cs_gc_round cs) VS VS (cs_votes cs) outs"
    and V: "valid_block (ctx_committee (cs_context cs)) V" and inj: "inj_on vb_reference (insert V VS)"
  shows "\<exists>bs cs'. add_voted_block cs V rejs = Some (bs, cs') \<and> cs_context cs' = cs_context cs \<and> cs_gc_round cs' = cs_gc_round cs \<and>
     certifier_inv (ctx_committee (cs_context cs)) (cs_gc_round cs) (insert V VS) (insert V VS) (cs_votes cs') (outs @ bs)"
proof -
  let ?c = "ctx_committee (cs_context cs)" and ?gc = "cs_gc_round cs" and ?r = "vb_reference V"
  note D = certifier_invD [OF inv]
  have just: "justified ?c (insert V VS) cb" if "cb \<in> set outs" for cb
    using justified_mono [OF D(10) [OF that], of "insert V VS"] by blast
  have rej: "rejects VS r idx \<subseteq> rejects (insert V VS) r idx" for r idx by (auto simp: rejects_def)
  consider (old) "vb_round V \<le> ?gc" | (known) "?gc < vb_round V" "known_block (cs_votes cs) ?r \<noteq> None"
    | (fresh) "?gc < vb_round V" "known_block (cs_votes cs) ?r = None" by fastforce
  then show ?thesis
  proof cases
    case old
    have "certifier_inv ?c ?gc (insert V VS) (insert V VS) (cs_votes cs) outs"
      unfolding certifier_inv_def
    proof (intro conjI ballI allI impI)
      show "accepters (cs_votes cs) q \<subseteq> {vb_author W |W. W \<in> insert V VS \<and> links W q}" for q using D(5) [of q] by blast
      show "rejecters (cs_votes cs) q idx \<subseteq> rejects (insert V VS) q idx" for q idx using D(6) [of q idx] rej by blast
      show "vb_author W \<in> rejecters (cs_votes cs) r idx"
        if "W \<in> insert V VS" "idx \<in> rejects_of W r" "?gc < br_round r \<and> ?gc < vb_round W" for W r idx
        using that D(7) [of W idx r] old by auto
      show "known_block (cs_votes cs) (vb_reference W) = Some W" if "W \<in> insert V VS" "?gc < vb_round W" for W
        using that D(9) old by auto
      show "W \<in> insert V VS" if "known_block (cs_votes cs) q = Some W" for q W using D(8) [OF that] by blast
      show "valid_block ?c W" if "W \<in> insert V VS" for W using that D(2) V by auto
    qed (use D(3,4,11,12) just in auto)
    then show ?thesis using old by (simp add: add_voted_block_def)
  next
    case known
    then obtain W where W: "known_block (cs_votes cs) ?r = Some W" "W \<in> VS" using D(8) by blast
    have "vb_reference W = ?r" using or_default_wf [OF D(3), of ?r] W(1) by (simp add: info_wf_def known_block_def)
    then have "V \<in> VS" using inj W(2) by (auto simp: inj_on_def)
    moreover have "add_voted_block cs V rejs = Some ([], cs)"
      using known V by (simp add: add_voted_block_def Let_def known_block_def valid_block_def committee_authority_def
          committee_size_def vec_get_def)
    ultimately show ?thesis using inv by (simp add: insert_absorb)
  next
    case fresh
    let ?vi = "(or_default (cs_votes cs) ?r)\<lparr>vi_block := Some V, vi_own_reject_txn_votes := rejs\<rparr>"
    let ?votes = "btm_insert ?r ?vi (cs_votes cs)"
    have vi: "info_wf ?c ?r ?vi"
      using or_default_wf [OF D(3), of ?r] V by (simp add: info_wf_def valid_block_def)
    have views: "accepters ?votes q = accepters (cs_votes cs) q" "rejecters ?votes q = rejecters (cs_votes cs) q"
        "known_block ?votes q = (if q = ?r then Some V else known_block (cs_votes cs) q)"
        "certified ?votes q = certified (cs_votes cs) q" for q
      by (simp_all add: vote_views or_default_insert)
    have notin: "W \<notin> VS" if "vb_reference W = ?r" for W
      using D(9) fresh that by (metis option.distinct(1) vb_reference_sel(1))
    have "certifier_inv ?c ?gc VS (insert V VS) ?votes outs"
      unfolding certifier_inv_def
    proof (intro conjI ballI allI impI)
      show "votes_wf ?c ?votes" using D(3) vi by (rule votes_wf_insert)
      show "?gc < br_round q" if "btm_get ?votes q \<noteq> None" for q
        using that D(4) fresh by (auto simp: btree_simps split: if_splits)
      show "accepters ?votes q \<subseteq> {vb_author W |W. W \<in> VS \<and> links W q}" for q using D(5) by (simp add: views)
      show "rejecters ?votes q idx \<subseteq> rejects (insert V VS) q idx" for q idx using D(6) rej unfolding views by blast
      show "known_block ?votes (vb_reference W) = Some W" if "W \<in> insert V VS" "?gc < vb_round W" for W
        using that D(9) notin unfolding views by auto
      show "W \<in> insert V VS" if "known_block ?votes q = Some W" for q W
        using that D(8) unfolding views by (auto split: if_splits)
    qed (use D V just in \<open>auto simp: views\<close>)
    from count_votes_fold [OF wf insertI1 this subset_refl] obtain votes' outs' where f:
        "fold_opt (count_block_votes ?c ?gc (vb_author V)) (block_tx_votes (sb_inner (vb_block V))) (?votes, outs) = Some (votes', outs')"
        "certifier_inv ?c ?gc VS (insert V VS) votes' outs'"
        "\<forall>tv \<in> set (block_tx_votes (sb_inner (vb_block V))). ?gc < br_round (btv_block_ref tv) \<longrightarrow>
          (\<forall>idx \<in> set (btv_rejects tv). vb_author V \<in> rejecters votes' (btv_block_ref tv) idx)" by auto
    note E = certifier_invD [OF f(2)]
    have "certifier_inv ?c ?gc (insert V VS) (insert V VS) votes' outs'"
      unfolding certifier_inv_def
    proof (intro conjI ballI allI impI)
      show "vb_author W \<in> rejecters votes' r idx"
        if "W \<in> insert V VS" "idx \<in> rejects_of W r" "?gc < br_round r \<and> ?gc < vb_round W" for W r idx
        using that E(7) f(3) by (auto simp: rejects_of_def)
      show "accepters votes' q \<subseteq> {vb_author W |W. W \<in> insert V VS \<and> links W q}" for q using E(5) by blast
    qed (use E in auto)
    moreover obtain bs where "fold_opt (count_block_votes ?c ?gc (vb_author V)) (block_tx_votes (sb_inner (vb_block V))) (?votes, [])
        = Some (votes', bs)" "outs' = outs @ bs"
      using f(1) appendsD [OF fold_opt_appends [OF count_block_votes_appends], of ?c ?gc "vb_author V" _ ?votes outs] by auto
    ultimately show ?thesis
      using fresh V by (auto simp: add_voted_block_def Let_def known_block_def valid_block_def committee_authority_def
          committee_size_def vec_get_def)
  qed
qed

lemma count_accept_inv:
  assumes wf: "committee_wf c" and inv: "certifier_inv c gc VS VS votes outs"
    and W: "W \<in> VS" and t: "t \<in> set (vb_ancestors W)"
  shows "\<exists>votes' outs'. count_accept c W t (votes, outs) = Some (votes', outs') \<and> certifier_inv c gc VS VS votes' outs' \<and>
     (\<forall>q. known_block votes' q = known_block votes q)"
proof (cases "u32_add (br_round t) 1 = vb_round W \<and> btm_get votes t \<noteq> None")
  case False
  then show ?thesis using inv by (auto simp: count_accept_def split: option.splits)
next
  case True
  then obtain vi where vi: "btm_get votes t = Some vi" "u32_add (br_round t) 1 = vb_round W" by auto
  note D = certifier_invD [OF inv]
  have i: "info_wf c t vi" using D(3) vi(1) by (simp add: votes_wf_def)
  have view: "or_default votes t = vi" using vi(1) by (rule or_default_get)
  have a: "vb_author W < committee_size c" using D(2) [OF W] by (simp add: valid_block_def)
  obtain new agg where u: "aggregator_add_unique (vi_accept_block_votes vi) (vb_author W) c = Some (new, agg)" "agg_inv c agg"
      "set (sa_votes agg) = insert (vb_author W) (accepters votes t)"
    using add_unique_total [OF wf _ a, of "vi_accept_block_votes vi"] i by (auto simp: info_wf_def accepters_def view)
  have "info_wf c t (vi\<lparr>vi_accept_block_votes := agg\<rparr>)" using i u(2) by (simp add: info_wf_def)
  moreover have "set (sa_votes agg) \<subseteq> {vb_author V |V. V \<in> VS \<and> links V t}"
    using D(5) [of t] W t vi(2) by (auto simp: u(3) links_def)
  moreover have "gc < br_round t" using D(4) vi(1) by simp
  ultimately obtain out vi' where s: "take_certified_output c (vi\<lparr>vi_accept_block_votes := agg\<rparr>) = Some (out, vi')"
      "certifier_inv c gc VS VS (btm_insert t vi' votes) (case out of None \<Rightarrow> outs | Some b \<Rightarrow> outs @ [b])"
      "\<forall>q. known_block (btm_insert t vi' votes) q = known_block votes q"
    using settle [OF wf inv, of t "vi\<lparr>vi_accept_block_votes := agg\<rparr>"] D(6) [of t] u(3)
    by (auto simp: vote_views view)
  show ?thesis using vi s u(1) by (auto simp: count_accept_def)
qed

lemma count_accept_fold:
  assumes wf: "committee_wf c" and W: "W \<in> VS" and "certifier_inv c gc VS VS votes outs" "set ts \<subseteq> set (vb_ancestors W)"
  shows "\<exists>votes' outs'. fold_opt (count_accept c W) ts (votes, outs) = Some (votes', outs') \<and> certifier_inv c gc VS VS votes' outs' \<and>
     (\<forall>q. known_block votes' q = known_block votes q)"
  using assms(3,4)
proof (induction ts arbitrary: votes outs)
  case (Cons t ts)
  then obtain votes1 outs1 where o: "count_accept c W t (votes, outs) = Some (votes1, outs1)" "certifier_inv c gc VS VS votes1 outs1"
      "\<forall>q. known_block votes1 q = known_block votes q" using count_accept_inv [OF wf Cons.prems(1) W, of t] by auto
  from Cons.IH [OF o(2)] Cons.prems(2) show ?case by (auto simp: o(1,3))
qed auto

lemma count_voting_inv:
  assumes wf: "committee_wf c" and "certifier_inv c gc VS VS votes outs"
  shows "\<exists>votes' outs'. fold_opt (count_voting_ancestor c P) rs (votes, outs) = Some (votes', outs') \<and>
     certifier_inv c gc VS VS votes' outs'"
  using assms(2)
proof (induction rs arbitrary: votes outs)
  case (Cons r rs)
  have "\<exists>votes1 outs1. count_voting_ancestor c P r (votes, outs) = Some (votes1, outs1) \<and> certifier_inv c gc VS VS votes1 outs1"
  proof (cases "u32_add (br_round r) 1 = vb_round P \<and> btm_get votes r \<noteq> None \<and> known_block votes r \<noteq> None")
    case True
    then obtain vi W where vi: "btm_get votes r = Some vi" "vi_block vi = Some W" by (auto simp: known_block_def or_default_def)
    then have "W \<in> VS" using certifier_invD(8) [OF Cons.prems, of r W] by (simp add: known_block_def or_default_get)
    from count_accept_fold [OF wf this Cons.prems subset_refl] show ?thesis
      using True vi by (auto simp: count_voting_ancestor_def)
  next
    case False
    then show ?thesis using Cons.prems
      by (auto simp: count_voting_ancestor_def known_block_def or_default_def split: option.splits)
  qed
  with Cons.IH show ?case by fastforce
qed auto

lemma add_proposed_block_inv:
  assumes wf: "committee_wf (ctx_committee (cs_context cs))"
    and inv: "certifier_inv (ctx_committee (cs_context cs)) (cs_gc_round cs) VS VS (cs_votes cs) outs"
  shows "\<exists>bs cs'. add_proposed_block cs P = Some (bs, cs') \<and> cs_context cs' = cs_context cs \<and> cs_gc_round cs' = cs_gc_round cs \<and>
     certifier_inv (ctx_committee (cs_context cs)) (cs_gc_round cs) VS VS (cs_votes cs') (outs @ bs)"
proof (cases "vb_round P \<le> u32_add (cs_gc_round cs) 2 \<or> btm_get (cs_votes cs) (vb_reference P) = None")
  case True
  then show ?thesis using inv by (auto simp: add_proposed_block_def)
next
  case False
  let ?c = "ctx_committee (cs_context cs)"
  obtain votes' outs' where f: "fold_opt (count_voting_ancestor ?c P) (vb_ancestors P) (cs_votes cs, outs) = Some (votes', outs')"
      "certifier_inv ?c (cs_gc_round cs) VS VS votes' outs'" using count_voting_inv [OF wf inv] by blast
  then obtain bs where "fold_opt (count_voting_ancestor ?c P) (vb_ancestors P) (cs_votes cs, []) = Some (votes', bs)" "outs' = outs @ bs"
    using appendsD [OF fold_opt_appends [OF count_voting_ancestor_appends], of ?c P "vb_ancestors P" "cs_votes cs" outs] by auto
  then show ?thesis using False f(2) by (auto simp: add_proposed_block_def)
qed

lemma update_gc_inv:
  assumes inv: "certifier_inv c gc VS VS (cs_votes cs) outs" and le: "gc \<le> gc'"
  shows "certifier_inv c gc' VS VS (cs_votes (update_gc_round cs gc')) outs"
proof -
  note D = certifier_invD [OF inv]
  let ?votes = "filter (\<lambda>(r, _). gc' < br_round r) (cs_votes cs)"
  have wf: "btm_wf (cs_votes cs)" using D(3) by (simp add: votes_wf_def)
  have votes: "cs_votes (update_gc_round cs gc') = ?votes" by (simp add: update_gc_round_def dropWhile_rounds [OF wf])
  have get: "btm_get ?votes r = (if gc' < br_round r then btm_get (cs_votes cs) r else None)" for r
    by (simp add: btm_get_def map_of_filter_round)
  have dflt: "or_default ?votes r = (if gc' < br_round r then or_default (cs_votes cs) r else vote_info_default)" for r
    by (simp add: or_default_def get)
  have views: "accepters ?votes r = (if gc' < br_round r then accepters (cs_votes cs) r else {})"
      "rejecters ?votes r idx = (if gc' < br_round r then rejecters (cs_votes cs) r idx else {})"
      "known_block ?votes r = (if gc' < br_round r then known_block (cs_votes cs) r else None)"
      "certified ?votes r \<longleftrightarrow> gc' < br_round r \<and> certified (cs_votes cs) r" for r idx
    by (simp_all add: vote_views dflt vote_info_default_def aggregator_new_def rejecters_in_def)
  have "btm_wf ?votes" using wf by (auto simp: btm_wf_def btm_keys_def sorted_wrt_map sorted_wrt_filter)
  then have "votes_wf c ?votes" using D(3) by (auto simp: votes_wf_def get split: if_splits)
  then show ?thesis
    unfolding votes certifier_inv_def
  proof (intro conjI ballI allI impI)
    show "gc' < br_round r" if "btm_get ?votes r \<noteq> None" for r using that by (simp add: get split: if_splits)
    show "accepters ?votes r \<subseteq> {vb_author V |V. V \<in> VS \<and> links V r}" for r using D(5) by (simp add: views)
    show "rejecters ?votes r idx \<subseteq> rejects VS r idx" for r idx using D(6) by (simp add: views)
    show "known_block ?votes (vb_reference V) = Some V" if "V \<in> VS" "gc' < vb_round V" for V using that D(9) le by (simp add: views)
    show "V \<in> VS" if "known_block ?votes r = Some V" for r V using that D(8) by (simp add: views split: if_splits)
    show "certified ?votes (vb_reference (cb_block cb))" if "cb \<in> set outs" "gc' < vb_round (cb_block cb)" for cb
      using that D(11) le by (simp add: views)
  qed (use D le in \<open>auto simp: views\<close>)
qed

subsection \<open>Runs of a certifier\<close>

text \<open>\<open>VS\<close> are the blocks received so far, all of them valid and with different references, and \<open>outs\<close> the
  certified blocks sent.  Garbage collection only moves forward.\<close>

inductive certifier_run ::
  "consensus_context \<Rightarrow> verified_block set \<Rightarrow> certified_block list \<Rightarrow> certifier_state \<Rightarrow> bool" for ctx where
  start: "certifier_run ctx {} [] (certifier_state_new ctx)"
| voted: "certifier_run ctx VS outs cs \<Longrightarrow> valid_block (ctx_committee ctx) V \<Longrightarrow> inj_on vb_reference (insert V VS) \<Longrightarrow>
     add_voted_block cs V rejs = Some (bs, cs') \<Longrightarrow> certifier_run ctx (insert V VS) (outs @ bs) cs'"
| proposed: "certifier_run ctx VS outs cs \<Longrightarrow> add_proposed_block cs P = Some (bs, cs') \<Longrightarrow>
     certifier_run ctx VS (outs @ bs) cs'"
| collected: "certifier_run ctx VS outs cs \<Longrightarrow> cs_gc_round cs \<le> gc \<Longrightarrow> certifier_run ctx VS outs (update_gc_round cs gc)"

lemma certifier_run_inv:
  assumes "committee_wf (ctx_committee ctx)" "certifier_run ctx VS outs cs"
  shows "cs_context cs = ctx \<and> certifier_inv (ctx_committee ctx) (cs_gc_round cs) VS VS (cs_votes cs) outs"
  using assms(2)
proof induction
  case start
  show ?case
    by (simp add: certifier_state_new_def certifier_inv_def votes_wf_def vote_views or_default_def vote_info_default_def
        aggregator_new_def rejecters_in_def)
next
  case (voted VS outs cs V rejs bs cs')
  then show ?case using add_voted_block_inv [of cs VS outs V rejs] assms(1) by auto
next
  case (proposed VS outs cs P bs cs')
  then show ?case using add_proposed_block_inv [of cs VS outs P] assms(1) by auto
next
  case (collected VS outs cs gc)
  have "cs_context (update_gc_round cs gc) = cs_context cs" "cs_gc_round (update_gc_round cs gc) = gc"
    by (simp_all add: update_gc_round_def)
  then show ?case using update_gc_inv [OF _ collected.hyps(2)] collected.IH by simp
qed

text \<open>C20: certified blocks are justified by votes.  Whatever valid blocks a certifier receives in whatever order,
  interleaved with own proposals and garbage collection, it never panics.  Every block it outputs was
  received; each transaction it reports as rejected is rejected by the blocks of a quorum, each other
  transaction is accepted by the blocks of a quorum in the round after; and no block is output twice.\<close>

theorem certified_blocks_justified:
  assumes "committee_wf (ctx_committee ctx)" "certifier_run ctx VS outs cs"
  shows "(\<forall>cb \<in> set outs. justified (ctx_committee ctx) VS cb) \<and> distinct (map (\<lambda>cb. vb_reference (cb_block cb)) outs) \<and>
     (\<forall>V rejs. valid_block (ctx_committee ctx) V \<and> inj_on vb_reference (insert V VS) \<longrightarrow> add_voted_block cs V rejs \<noteq> None) \<and>
     (\<forall>P. add_proposed_block cs P \<noteq> None)"
proof -
  have inv: "cs_context cs = ctx" "certifier_inv (ctx_committee ctx) (cs_gc_round cs) VS VS (cs_votes cs) outs"
    using certifier_run_inv [OF assms] by simp_all
  note D = certifier_invD [OF inv(2)]
  have "add_voted_block cs V rejs \<noteq> None" if "valid_block (ctx_committee ctx) V" "inj_on vb_reference (insert V VS)" for V rejs
    using add_voted_block_inv [of cs VS outs V rejs] assms(1) inv that by auto
  moreover have "add_proposed_block cs P \<noteq> None" for P
    using add_proposed_block_inv [of cs VS outs P] assms(1) inv by auto
  ultimately show ?thesis using D(10,12) by blast
qed

lemma justified_agree:
  assumes wf: "committee_wf c" and byz: "stake_of c byz \<le> fault_tolerance c"
    and honest: "\<And>V W. V \<in> VS \<union> VS' \<Longrightarrow> W \<in> VS \<union> VS' \<Longrightarrow> vb_author V = vb_author W \<Longrightarrow> vb_author V \<notin> byz \<Longrightarrow>
       links V r \<Longrightarrow> rejects_of W r \<noteq> {} \<Longrightarrow> V = W"
    and cb: "justified c VS cb" "vb_reference (cb_block cb) = r" and cb': "justified c VS' cb'" "vb_reference (cb_block cb') = r"
    and idx: "idx \<in> set (cb_rejected cb)"
  shows "idx \<in> set (cb_rejected cb')"
proof (rule ccontr)
  assume "idx \<notin> set (cb_rejected cb')"
  then have "reached_quorum c (stake_of c (accepts VS' r idx))" "reached_quorum c (stake_of c (rejects VS r idx))"
    using cb cb' idx unfolding justified_def by metis+
  from quorum_overlap_honest [OF wf this byz] obtain a where "a \<in> accepts VS' r idx" "a \<in> rejects VS r idx" "a \<notin> byz" by blast
  then obtain V W where "V \<in> VS'" "links V r" "idx \<notin> rejects_of V r" "W \<in> VS" "idx \<in> rejects_of W r"
      "vb_author V = a" "vb_author W = a" by (auto simp: accepts_def rejects_def)
  then show False using honest [of V W] \<open>a \<notin> byz\<close> by auto
qed

text \<open>C19: the fast path is consistent.  Two validators with at most the tolerated faulty stake around them, of
  any runs of their certifiers, never certify a block with different outcomes: what one reports as
  rejected, the other reports as rejected too.  An honest authority is assumed to vote on a block
  once, in the block that first refers to it.\<close>

theorem certification_agreement:
  assumes "committee_wf (ctx_committee ctx)" "ctx_committee ctx' = ctx_committee ctx"
    and "certifier_run ctx VS outs cs" "certifier_run ctx' VS' outs' cs'"
    and "stake_of (ctx_committee ctx) byz \<le> fault_tolerance (ctx_committee ctx)"
    and "cb \<in> set outs" "cb' \<in> set outs'" "vb_reference (cb_block cb) = r" "vb_reference (cb_block cb') = r"
    and "\<And>V W. V \<in> VS \<union> VS' \<Longrightarrow> W \<in> VS \<union> VS' \<Longrightarrow> vb_author V = vb_author W \<Longrightarrow> vb_author V \<notin> byz \<Longrightarrow>
       links V r \<Longrightarrow> rejects_of W r \<noteq> {} \<Longrightarrow> V = W"
  shows "cb_rejected cb = cb_rejected cb'"
proof -
  let ?c = "ctx_committee ctx"
  have j: "justified ?c VS cb" "justified ?c VS' cb'"
    using certifier_invD(10) [of ?c _ VS VS _ outs] certifier_invD(10) [of ?c _ VS' VS' _ outs']
      certifier_run_inv [OF assms(1,3)] certifier_run_inv [of ctx' VS' outs' cs'] assms(1,2,4,6,7) by auto
  have "set (cb_rejected cb) = set (cb_rejected cb')"
    using justified_agree [OF assms(1,5) assms(10) j(1) assms(8) j(2) assms(9)]
      justified_agree [OF assms(1,5) _ j(2) assms(9) j(1) assms(8), of ] assms(10) by blast
  moreover have "sorted_wrt (<) (cb_rejected cb)" "sorted_wrt (<) (cb_rejected cb')" using j by (simp_all add: justified_def)
  ultimately show ?thesis by (simp add: strict_sorted_equal)
qed

end
