(* ===== verification/Commit_Finalizer.thy ===== *)
theory Commit_Finalizer
  imports Transaction_Certifier
begin

section \<open>Finalization of commits\<close>

text \<open>
  \<^verbatim>\<open>core/src/commit_finalizer.rs\<close>.  A commit is held back until each of its transactions is finalized or
  rejected.  A transaction without reject votes is finalized at once, one with a quorum of reject
  votes is rejected, and the others wait for the accept votes of blocks of later commits, until a
  leader three rounds higher is committed.  The transaction certifier and the DAG state are arguments.
  The parallel tasks over the pending blocks only read, so their results are collected in the order
  of the blocks.  \<open>cf_skip_gced_accept_votes\<close> is a flag of the protocol configuration.
\<close>

abbreviation (input) INDIRECT_REJECT_DEPTH :: Round where "INDIRECT_REJECT_DEPTH \<equiv> 3"
abbreviation (input) DEFAULT_WAVE_LENGTH :: Round where "DEFAULT_WAVE_LENGTH \<equiv> 3"

record commit_state =
  cst_commit :: committed_sub_dag
  cst_pending_blocks :: "(block_ref, nat) btree_map"
  cst_pending_transactions :: "(block_ref, TransactionIndex btree_set) btree_map"
  cst_rejected_transactions :: "(block_ref, TransactionIndex btree_set) btree_map"

record block_state =
  bs_block :: verified_block
  bs_children :: "block_ref btree_set"
  bs_reject_votes :: "(block_ref, TransactionIndex btree_set) btree_map"
  bs_origin_descendants :: "block_ref list"
  bs_commit_index :: CommitIndex

record commit_finalizer =
  cf_context :: consensus_context
  cf_skip_gced_accept_votes :: bool
  cf_last_processed_commit :: "CommitIndex option"
  cf_pending_commits :: "commit_state list"
  cf_blocks :: "(block_ref, block_state) btree_map"

definition commit_finalizer_new :: "consensus_context \<Rightarrow> bool \<Rightarrow> commit_finalizer" where
  "commit_finalizer_new ctx skip_gced =
     \<lparr>cf_context = ctx, cf_skip_gced_accept_votes = skip_gced, cf_last_processed_commit = None,
      cf_pending_commits = [], cf_blocks = []\<rparr>"

subsection \<open>CommitState and BlockState\<close>

definition commit_state_new :: "committed_sub_dag \<Rightarrow> commit_state option" where
  "commit_state_new commit =
     (let pending_blocks = fold (\<lambda>b. btm_insert (vb_reference b) (length (block_transactions (sb_inner (vb_block b)))))
            (csd_blocks commit) []
      in if pending_blocks = [] then None
         else Some \<lparr>cst_commit = commit, cst_pending_blocks = pending_blocks,
                    cst_pending_transactions = [], cst_rejected_transactions = []\<rparr>)"

definition remove_pending_transactions ::
  "block_ref \<Rightarrow> TransactionIndex list \<Rightarrow> commit_state \<Rightarrow> commit_state" where
  "remove_pending_transactions block_ref transactions st =
     (case btm_get (cst_pending_transactions st) block_ref of
        None \<Rightarrow> st
      | Some txns \<Rightarrow>
          let txns = filter (\<lambda>t. t \<notin> set transactions) txns in
          st\<lparr>cst_pending_transactions :=
               (if txns = [] then btm_remove block_ref (cst_pending_transactions st)
                else btm_insert block_ref txns (cst_pending_transactions st))\<rparr>)"

definition block_state_new :: "verified_block \<Rightarrow> CommitIndex \<Rightarrow> block_state" where
  "block_state_new block commit_index =
     \<lparr>bs_block = block, bs_children = [],
      bs_reject_votes = fold (\<lambda>v. btm_insert (btv_block_ref v) (fold bts_insert (btv_rejects v) []))
        (block_tx_votes (sb_inner (vb_block block))) [],
      bs_origin_descendants = [], bs_commit_index = commit_index\<rparr>"

text \<open>\<^verbatim>\<open>entry(block_ref).or_default().insert(t)\<close> and \<^verbatim>\<open>extend\<close> on a map of sets.\<close>

definition add_transactions ::
  "block_ref \<Rightarrow> TransactionIndex list \<Rightarrow> (block_ref, TransactionIndex btree_set) btree_map \<Rightarrow>
   (block_ref, TransactionIndex btree_set) btree_map" where
  "add_transactions block_ref transactions m =
     btm_insert block_ref
       (fold bts_insert transactions (case btm_get m block_ref of None \<Rightarrow> [] | Some ts \<Rightarrow> ts)) m"

subsection \<open>Direct finalization\<close>

definition finalize_transaction ::
  "committee \<Rightarrow> block_ref \<Rightarrow> TransactionIndex \<times> Stake \<Rightarrow> commit_state \<Rightarrow> commit_state" where
  "finalize_transaction c block_ref = (\<lambda>(transaction_index, stake) st.
     if stake < c_quorum_threshold c
     then st\<lparr>cst_pending_transactions := add_transactions block_ref [transaction_index] (cst_pending_transactions st)\<rparr>
     else st\<lparr>cst_rejected_transactions := add_transactions block_ref [transaction_index] (cst_rejected_transactions st)\<rparr>)"

definition finalize_block ::
  "committee \<Rightarrow> certifier_state \<Rightarrow> block_ref \<times> nat \<Rightarrow> commit_state \<Rightarrow> commit_state option" where
  "finalize_block c cs = (\<lambda>(block_ref, num_transactions) st. do {
     reject_votes \<leftarrow> get_reject_votes cs block_ref;
     _ \<leftarrow> committee_authority c (br_author block_ref);
     Some (fold (finalize_transaction c block_ref) reject_votes st)
   })"

definition direct_finalize :: "committee \<Rightarrow> certifier_state \<Rightarrow> commit_state \<Rightarrow> commit_state option" where
  "direct_finalize c cs st =
     (if cst_pending_blocks st = [] then None
      else fold_opt (finalize_block c cs) (cst_pending_blocks st) (st\<lparr>cst_pending_blocks := []\<rparr>))"

definition try_direct_finalize_commit ::
  "certifier_state \<Rightarrow> commit_finalizer \<Rightarrow> nat \<Rightarrow> commit_finalizer option" where
  "try_direct_finalize_commit cs f index = do {
     st \<leftarrow> vec_get (cf_pending_commits f) index;
     st \<leftarrow> direct_finalize (ctx_committee (cf_context f)) cs st;
     pending \<leftarrow> vec_set (cf_pending_commits f) index st;
     Some (f\<lparr>cf_pending_commits := pending\<rparr>)
   }"

text \<open>The loop over the indices; it ends at the first commit whose leader certificate may be missing.\<close>

fun direct_loop :: "certifier_state \<Rightarrow> nat list \<Rightarrow> commit_finalizer \<Rightarrow> commit_finalizer option" where
  "direct_loop cs [] f = Some f"
| "direct_loop cs (i # is) f =
     (case vec_get (cf_pending_commits f) i of
        None \<Rightarrow> None
      | Some st \<Rightarrow>
          if cst_pending_blocks st = [] then direct_loop cs is f
          else if \<not> csd_decided_with_local_blocks (cst_commit st) \<and>
                  u32_add (br_round (csd_leader (cst_commit st))) DEFAULT_WAVE_LENGTH
                    > br_round (csd_leader (cst_commit (last (cf_pending_commits f))))
          then Some f
          else (case try_direct_finalize_commit cs f i of None \<Rightarrow> None | Some f \<Rightarrow> direct_loop cs is f))"

fun pop_finalized ::
  "commit_state list \<Rightarrow> (block_ref, block_state) btree_map \<Rightarrow>
   committed_sub_dag list \<times> commit_state list \<times> (block_ref, block_state) btree_map" where
  "pop_finalized [] blocks = ([], [], blocks)"
| "pop_finalized (st # sts) blocks =
     (if cst_pending_blocks st \<noteq> [] \<or> cst_pending_transactions st \<noteq> [] then ([], st # sts, blocks)
      else
        let commit = (cst_commit st)\<lparr>csd_rejected_transactions_by_block :=
              fold (\<lambda>(r, ts). btm_insert r ts) (cst_rejected_transactions st)
                (csd_rejected_transactions_by_block (cst_commit st))\<rparr>;
            blocks = fold (\<lambda>b. btm_remove (vb_reference b)) (csd_blocks commit) blocks;
            (commits, sts, blocks) = pop_finalized sts blocks
        in (commit # commits, sts, blocks))"

definition pop_finalized_commits :: "commit_finalizer \<Rightarrow> committed_sub_dag list \<times> commit_finalizer" where
  "pop_finalized_commits f =
     (let (commits, sts, blocks) = pop_finalized (cf_pending_commits f) (cf_blocks f)
      in (commits, f\<lparr>cf_pending_commits := sts, cf_blocks := blocks\<rparr>))"

subsection \<open>Linking the blocks of the last commit\<close>

definition link_ancestor ::
  "block_ref \<Rightarrow> block_ref \<Rightarrow> (block_ref, block_state) btree_map \<Rightarrow> (block_ref, block_state) btree_map" where
  "link_ancestor block_ref ancestor blocks =
     (case btm_get blocks ancestor of
        None \<Rightarrow> blocks
      | Some st \<Rightarrow> btm_insert ancestor (st\<lparr>bs_children := bts_insert block_ref (bs_children st)\<rparr>) blocks)"

definition link_block ::
  "CommitIndex \<Rightarrow> verified_block \<Rightarrow> (block_ref, block_state) btree_map \<Rightarrow> (block_ref, block_state) btree_map" where
  "link_block commit_index block blocks =
     (let blocks = fold (link_ancestor (vb_reference block)) (vb_ancestors block) blocks
      in case btm_get blocks (vb_reference block) of
           None \<Rightarrow> btm_insert (vb_reference block) (block_state_new block commit_index) blocks
         | Some _ \<Rightarrow> blocks)"

definition link_blocks_in_last_commit :: "commit_finalizer \<Rightarrow> commit_finalizer option" where
  "link_blocks_in_last_commit f =
     (if cf_pending_commits f = [] then None
      else let commit = cst_commit (last (cf_pending_commits f)) in
        Some (f\<lparr>cf_blocks := fold (link_block (cr_index (csd_commit_ref commit)))
          (sort_key vb_round (csd_blocks commit)) (cf_blocks f)\<rparr>))"

partial_function (option) origin_loop ::
  "block_ref \<Rightarrow> block_ref \<Rightarrow> (block_ref, block_state) btree_map \<Rightarrow> (block_ref, block_state) btree_map option" where
  "origin_loop committed r blocks =
     (if br_author r = br_author committed
      then (case btm_get blocks r of
              None \<Rightarrow> Some blocks
            | Some st \<Rightarrow>
                (case vb_ancestors (bs_block st) of
                   [] \<Rightarrow> None
                 | a # _ \<Rightarrow> origin_loop committed a
                     (btm_insert r (st\<lparr>bs_origin_descendants := bs_origin_descendants st @ [committed]\<rparr>) blocks)))
      else Some blocks)"

definition append_origin_descendants ::
  "verified_block \<Rightarrow> (block_ref, block_state) btree_map \<Rightarrow> (block_ref, block_state) btree_map option" where
  "append_origin_descendants block blocks =
     (case btm_get blocks (vb_reference block) of
        None \<Rightarrow> None
      | Some st \<Rightarrow>
          (case vb_ancestors (bs_block st) of
             [] \<Rightarrow> None
           | a # _ \<Rightarrow> origin_loop (vb_reference block) a blocks))"

definition append_origin_descendants_from_last_commit :: "commit_finalizer \<Rightarrow> commit_finalizer option" where
  "append_origin_descendants_from_last_commit f =
     (if cf_pending_commits f = [] then None
      else map_option (\<lambda>blocks. f\<lparr>cf_blocks := blocks\<rparr>)
        (fold_opt append_origin_descendants
          (sort_key vb_round (csd_blocks (cst_commit (last (cf_pending_commits f))))) (cf_blocks f)))"

subsection \<open>Indirect finalization of the first commit\<close>

definition reject_pending :: "block_ref \<times> TransactionIndex list \<Rightarrow> commit_state \<Rightarrow> commit_state" where
  "reject_pending = (\<lambda>(block_ref, rejected) st.
     let st = remove_pending_transactions block_ref rejected st
     in st\<lparr>cst_rejected_transactions := add_transactions block_ref rejected (cst_rejected_transactions st)\<rparr>)"

definition late_rejected ::
  "committee \<Rightarrow> certifier_state \<Rightarrow> block_ref \<times> TransactionIndex list \<Rightarrow>
   (block_ref \<times> TransactionIndex list) option" where
  "late_rejected c cs = (\<lambda>(block_ref, pending). do {
     reject_votes \<leftarrow> get_reject_votes cs block_ref;
     rejected \<leftarrow> filter_opt (\<lambda>idx. map_option (\<lambda>stake. \<not> stake < c_quorum_threshold c) (map_of reject_votes idx)) pending;
     Some (block_ref, rejected)
   })"

definition check_pending_transactions_in_first_commit ::
  "certifier_state \<Rightarrow> commit_finalizer \<Rightarrow> commit_finalizer option" where
  "check_pending_transactions_in_first_commit cs f =
     (case cf_pending_commits f of
        [] \<Rightarrow> None
      | st # sts \<Rightarrow> do {
          rejected \<leftarrow> map_opt (late_rejected (ctx_committee (cf_context f)) cs) (cst_pending_transactions st);
          Some (f\<lparr>cf_pending_commits := fold reject_pending (filter (\<lambda>(_, ts). ts \<noteq> []) rejected) st # sts\<rparr>)
        })"

definition gced_transaction_votes_for_pending_block ::
  "(CommitIndex \<times> Round) list \<Rightarrow> Round \<Rightarrow> CommitIndex \<Rightarrow> CommitIndex \<Rightarrow> bool option" where
  "gced_transaction_votes_for_pending_block gc_rounds pending_block_round pending_commit_index current_commit_index =
     (if \<not> pending_commit_index \<le> current_commit_index then None
      else if pending_commit_index = current_commit_index then Some False
      else case vec_get gc_rounds (current_commit_index - 1 - pending_commit_index) of
        None \<Rightarrow> None
      | Some (commit_index, gc) \<Rightarrow>
          if commit_index \<noteq> current_commit_index - 1 then None else Some (pending_block_round \<le> gc))"

text \<open>
  The loop over \<^verbatim>\<open>accept_votes\<close> for a block of \<open>author\<close> that curr_rejects \<open>curr_rejects\<close>: the indices that reach a quorum,
  and the votes of the others.
\<close>

fun count_accept_votes ::
  "committee \<Rightarrow> AuthorityIndex \<Rightarrow> TransactionIndex list \<Rightarrow> (TransactionIndex, stake_aggregator) btree_map \<Rightarrow>
   (TransactionIndex list \<times> (TransactionIndex, stake_aggregator) btree_map) option" where
  "count_accept_votes c author curr_rejects [] = Some ([], [])"
| "count_accept_votes c author curr_rejects ((index, votes) # rest) =
     (if index \<in> set curr_rejects
      then map_option (\<lambda>(newly, accept). (newly, (index, votes) # accept)) (count_accept_votes c author curr_rejects rest)
      else case aggregator_add reached_quorum votes author c of
        None \<Rightarrow> None
      | Some (reached, votes) \<Rightarrow>
          map_option (\<lambda>(newly, accept). if reached then (index # newly, accept) else (newly, (index, votes) # accept))
            (count_accept_votes c author curr_rejects rest))"

text \<open>
  The traversal of the descendants of the pending block; \<open>gced\<close> is the check
  \<open>gced_transaction_votes_for_pending_block\<close> for a commit index.
\<close>

function visit_blocks ::
  "committee \<Rightarrow> bool \<Rightarrow> (block_ref, block_state) btree_map \<Rightarrow> (CommitIndex \<Rightarrow> bool option) \<Rightarrow> block_ref \<Rightarrow>
   block_ref btree_set \<Rightarrow> block_ref btree_set \<Rightarrow> block_ref btree_set \<Rightarrow>
   (TransactionIndex, stake_aggregator) btree_map \<Rightarrow> TransactionIndex list \<Rightarrow> TransactionIndex list option" where
  "visit_blocks c skip blocks gced pending [] visited ignored accept finalized = Some finalized"
| "visit_blocks c skip blocks gced pending (cur # to_visit) visited ignored accept finalized =
     (if cur \<in> set visited then visit_blocks c skip blocks gced pending to_visit visited ignored accept finalized
      else (case btm_get blocks cur of
        None \<Rightarrow> None
      | Some st \<Rightarrow>
          (case gced (bs_commit_index st) of
             None \<Rightarrow> None
           | Some votes_gced \<Rightarrow>
               let visited = bts_insert cur visited;
                   next = fold bts_insert (filter (\<lambda>b. b \<notin> set visited) (bs_children st)) to_visit;
                   ignored' = fold bts_insert (bs_origin_descendants st) (bts_insert cur ignored);
                   curr_rejects = (case btm_get (bs_reject_votes st) pending of None \<Rightarrow> [] | Some ts \<Rightarrow> ts)
               in if cur \<in> set ignored then visit_blocks c skip blocks gced pending next visited ignored accept finalized
                  else if skip \<and> votes_gced then
                    (case committee_authority c (br_author cur) of
                       None \<Rightarrow> None
                     | Some _ \<Rightarrow> visit_blocks c skip blocks gced pending to_visit visited ignored' accept finalized)
                  else (case count_accept_votes c (br_author cur) curr_rejects accept of
                    None \<Rightarrow> None
                  | Some (newly, accept) \<Rightarrow>
                      if accept = [] then Some (finalized @ newly)
                      else visit_blocks c skip blocks gced pending next visited ignored' accept (finalized @ newly)))))"
  by pat_completeness auto

lemma unvisited_decreases:
  assumes "btm_get blocks cur = Some st" "cur \<notin> set visited"
  shows "card (set (btm_keys blocks) - set (bts_insert cur visited)) < card (set (btm_keys blocks) - set visited)"
proof (rule psubset_card_mono)
  have "cur \<in> set (btm_keys blocks)" using assms(1) by (rule btm_get_key)
  then show "set (btm_keys blocks) - set (bts_insert cur visited) \<subset> set (btm_keys blocks) - set visited"
    unfolding bts_insert_set using assms(2) by blast
qed simp

termination visit_blocks
  by (relation "measures [\<lambda>(_, _, blocks, _, _, _, visited, _, _, _). card (set (btm_keys blocks) - set visited),
      \<lambda>(_, _, _, _, _, to_visit, _, _, _, _). length to_visit]") (simp_all add: unvisited_decreases)

definition try_indirect_finalize_pending_transactions_in_block ::
  "committee \<Rightarrow> bool \<Rightarrow> (block_ref, block_state) btree_map \<Rightarrow> (CommitIndex \<times> Round) list \<Rightarrow>
   block_ref \<Rightarrow> TransactionIndex list \<Rightarrow> TransactionIndex list option" where
  "try_indirect_finalize_pending_transactions_in_block c skip blocks gc_rounds pending_block_ref pending_transactions =
     (if pending_transactions = [] then Some []
      else case btm_get blocks pending_block_ref of
        None \<Rightarrow> None
      | Some st \<Rightarrow>
          visit_blocks c skip blocks
            (gced_transaction_votes_for_pending_block gc_rounds (br_round pending_block_ref) (bs_commit_index st))
            pending_block_ref (bs_children st) [] [] (map (\<lambda>idx. (idx, aggregator_new)) pending_transactions) [])"

text \<open>The chunks are collected in any order; each names other blocks, so the order of the removals does not matter.\<close>

definition try_indirect_finalize_pending_transactions_in_first_commit ::
  "dag_state \<Rightarrow> commit_finalizer \<Rightarrow> commit_finalizer option" where
  "try_indirect_finalize_pending_transactions_in_first_commit d f =
     (case cf_pending_commits f of
        [] \<Rightarrow> None
      | st # sts \<Rightarrow> do {
          let gc_rounds = map (\<lambda>s. (cr_index (csd_commit_ref (cst_commit s)),
                calculate_gc_round d (br_round (csd_leader (cst_commit s))))) (st # sts);
          finalized \<leftarrow> map_opt (\<lambda>(r, ts). map_option (Pair r)
            (try_indirect_finalize_pending_transactions_in_block (ctx_committee (cf_context f))
              (cf_skip_gced_accept_votes f) (cf_blocks f) gc_rounds r ts)) (cst_pending_transactions st);
          Some (f\<lparr>cf_pending_commits :=
            fold (\<lambda>(r, ts). remove_pending_transactions r ts) (filter (\<lambda>(_, ts). ts \<noteq> []) finalized) st # sts\<rparr>)
        })"

definition try_indirect_reject_pending_transactions_in_first_commit ::
  "commit_finalizer \<Rightarrow> commit_finalizer option" where
  "try_indirect_reject_pending_transactions_in_first_commit f =
     (case cf_pending_commits f of
        [] \<Rightarrow> None
      | st # sts \<Rightarrow>
          if u32_add (br_round (csd_leader (cst_commit st))) INDIRECT_REJECT_DEPTH
               \<le> br_round (csd_leader (cst_commit (last (st # sts))))
          then if cst_pending_blocks st \<noteq> [] then None
            else Some (f\<lparr>cf_pending_commits := st\<lparr>cst_pending_transactions := [],
                cst_rejected_transactions := fold (\<lambda>(r, ts). add_transactions r ts) (cst_pending_transactions st)
                  (cst_rejected_transactions st)\<rparr> # sts\<rparr>)
          else Some f)"

definition try_indirect_finalize_first_commit ::
  "dag_state \<Rightarrow> certifier_state \<Rightarrow> commit_finalizer \<Rightarrow> commit_finalizer option" where
  "try_indirect_finalize_first_commit d cs f =
     (case cf_pending_commits f of
        [] \<Rightarrow> None
      | st # _ \<Rightarrow>
          if cst_pending_blocks st \<noteq> [] then None
          else do {
            f \<leftarrow> check_pending_transactions_in_first_commit cs f;
            f \<leftarrow> try_indirect_finalize_pending_transactions_in_first_commit d f;
            try_indirect_reject_pending_transactions_in_first_commit f
          })"

subsection \<open>Processing a commit\<close>

text \<open>The \<^verbatim>\<open>while\<close> loop of \<^verbatim>\<open>process_commit\<close>; each round but the last pops a commit, so \<open>fuel\<close> is their number.\<close>

fun finalize_loop ::
  "nat \<Rightarrow> dag_state \<Rightarrow> certifier_state \<Rightarrow> commit_finalizer \<Rightarrow> (committed_sub_dag list \<times> commit_finalizer) option" where
  "finalize_loop 0 d cs f = None"
| "finalize_loop (Suc fuel) d cs f =
     (case cf_pending_commits f of
        st # _ # _ \<Rightarrow>
          if cst_pending_blocks st \<noteq> [] then Some ([], f)
          else (case try_indirect_finalize_first_commit d cs f of
                  None \<Rightarrow> None
                | Some f \<Rightarrow>
                    let (commits, f) = pop_finalized_commits f in
                    if commits = [] then Some ([], f)
                    else map_option (\<lambda>(rest, f). (commits @ rest, f)) (finalize_loop fuel d cs f))
      | _ \<Rightarrow> Some ([], f))"

definition process_commit ::
  "dag_state \<Rightarrow> certifier_state \<Rightarrow> commit_finalizer \<Rightarrow> committed_sub_dag \<Rightarrow>
   (committed_sub_dag list \<times> commit_finalizer) option" where
  "process_commit d cs f commit =
     (if (case cf_last_processed_commit f of None \<Rightarrow> False
          | Some prev \<Rightarrow> u32_add prev 1 \<noteq> cr_index (csd_commit_ref commit)) then None
      else do {
        st \<leftarrow> commit_state_new commit;
        let f = f\<lparr>cf_last_processed_commit := Some (cr_index (csd_commit_ref commit)),
                  cf_pending_commits := cf_pending_commits f @ [st]\<rparr>;
        f \<leftarrow> direct_loop cs [0..<length (cf_pending_commits f)] f;
        let (direct, f) = pop_finalized_commits f;
        if cf_pending_commits f = [] then Some (direct, f)
        else do {
          f \<leftarrow> link_blocks_in_last_commit f;
          f \<leftarrow> append_origin_descendants_from_last_commit f;
          (indirect, f) \<leftarrow> finalize_loop (Suc (length (cf_pending_commits f))) d cs f;
          Some (direct @ indirect, f)
        }
      })"

text \<open>One iteration of \<^verbatim>\<open>run\<close>: the commits sent, and the finalizer, certifier and DAG state after it.\<close>

definition finalizer_step ::
  "dag_state \<Rightarrow> certifier_state \<Rightarrow> commit_finalizer \<Rightarrow> committed_sub_dag \<Rightarrow>
   (committed_sub_dag list \<times> dag_state \<times> certifier_state \<times> commit_finalizer) option" where
  "finalizer_step d cs f commit = do {
     let already_finalized = (\<not> ctx_mysticeti_fastpath (cf_context f) \<or> csd_recovered_rejected_transactions commit);
     (commits, f) \<leftarrow> (if already_finalized then Some ([commit], f) else process_commit d cs f commit);
     if commits = [] then Some ([], d, cs, f)
     else do {
       cs \<leftarrow> run_gc d cs (calculate_gc_round d (br_round (csd_leader (last commits))));
       let d = (if already_finalized then d
         else fold (\<lambda>c d. add_finalized_commit d (csd_commit_ref c) (csd_rejected_transactions_by_block c)) commits d);
       d \<leftarrow> flush d;
       Some (commits, d, cs, f)
     }
   }"

end
