(* ===== verification/Finalizer_Properties.thy ===== *)
theory Finalizer_Properties
  imports Commit_Finalizer
begin

section \<open>Properties of the commit finalizer\<close>

text \<open>
  The traversal only finalizes a transaction with a quorum of accepting descendants; processing a commit
  does not panic, sends the commits in order, and holds a commit back for less than three rounds.
\<close>

subsection \<open>The traversal of the descendants\<close>

definition children_rel :: "(block_ref, block_state) btree_map \<Rightarrow> (block_ref \<times> block_ref) set" where
  "children_rel blocks = {(p, q). \<exists>st. btm_get blocks p = Some st \<and> q \<in> set (bs_children st)}"

definition votes_reject :: "(block_ref, block_state) btree_map \<Rightarrow> block_ref \<Rightarrow> block_ref \<Rightarrow> TransactionIndex \<Rightarrow> bool" where
  "votes_reject blocks q pending idx \<longleftrightarrow>
     (\<exists>st ts. btm_get blocks q = Some st \<and> btm_get (bs_reject_votes st) pending = Some ts \<and> idx \<in> set ts)"

definition accept_supporters ::
  "bool \<Rightarrow> (block_ref, block_state) btree_map \<Rightarrow> (CommitIndex \<Rightarrow> bool option) \<Rightarrow> block_ref \<Rightarrow> TransactionIndex \<Rightarrow>
   AuthorityIndex set" where
  "accept_supporters skip blocks gced pending idx =
     {br_author q |q. (pending, q) \<in> (children_rel blocks)\<^sup>+ \<and> \<not> votes_reject blocks q pending idx \<and>
        (\<exists>st. btm_get blocks q = Some st \<and> (skip \<longrightarrow> gced (bs_commit_index st) = Some False))}"

definition supported ::
  "committee \<Rightarrow> (TransactionIndex \<Rightarrow> AuthorityIndex set) \<Rightarrow> (TransactionIndex, stake_aggregator) btree_map \<Rightarrow> bool" where
  "supported c S accept \<longleftrightarrow> (\<forall>(idx, agg) \<in> set accept. agg_inv c agg \<and> set (sa_votes agg) \<subseteq> S idx)"

text \<open>The maps the traversal runs on: the children of a block are in the map, and the check of the votes does not fail.\<close>

definition traversable :: "committee \<Rightarrow> (block_ref, block_state) btree_map \<Rightarrow> (CommitIndex \<Rightarrow> bool option) \<Rightarrow> bool" where
  "traversable c blocks gced \<longleftrightarrow> (\<forall>r st. btm_get blocks r = Some st \<longrightarrow>
     br_author r < committee_size c \<and> gced (bs_commit_index st) \<noteq> None \<and>
     set (bs_children st) \<subseteq> set (btm_keys blocks))"

lemma set_fold_bts_insert: "set (fold bts_insert xs s) = set xs \<union> set s"
  by (induction xs arbitrary: s) (auto simp: btree_simps)

lemma count_accept_votes_spec:
  assumes wf: "committee_wf c" and a: "a < committee_size c"
    and "supported c S accept" "\<And>idx. idx \<in> fst ` set accept \<Longrightarrow> idx \<notin> set rej \<Longrightarrow> a \<in> S idx"
  shows "\<exists>newly accept'. count_accept_votes c a rej accept = Some (newly, accept') \<and> supported c S accept' \<and>
     (\<forall>idx \<in> set newly. idx \<in> fst ` set accept \<and> reached_quorum c (stake_of c (S idx))) \<and>
     fst ` set accept' \<subseteq> fst ` set accept"
  using assms(3,4)
proof (induction accept)
  case (Cons p accept)
  obtain idx agg where p: "p = (idx, agg)" by fastforce
  have s: "supported c S accept" "agg_inv c agg" "set (sa_votes agg) \<subseteq> S idx"
    using Cons.prems(1) by (simp_all add: supported_def p)
  obtain newly accept' where IH: "count_accept_votes c a rej accept = Some (newly, accept')" "supported c S accept'"
      "\<forall>i \<in> set newly. i \<in> fst ` set accept \<and> reached_quorum c (stake_of c (S i))" "fst ` set accept' \<subseteq> fst ` set accept"
    using Cons.IH [OF s(1)] Cons.prems(2) by auto
  show ?case
  proof (cases "idx \<in> set rej")
    case True
    then show ?thesis using IH s by (auto simp: p supported_def)
  next
    case False
    obtain agg' where add: "aggregator_add reached_quorum agg a c
          = Some (reached_quorum c (stake_of c (insert a (set (sa_votes agg)))), agg')"
        "agg_inv c agg'" "set (sa_votes agg') = insert a (set (sa_votes agg))"
      using aggregator_add_total [OF wf s(2) a] by blast
    have "a \<in> S idx" using Cons.prems(2) [of idx] False by (simp add: p)
    then have sub: "insert a (set (sa_votes agg)) \<subseteq> S idx" using s(3) by simp
    show ?thesis using IH add False sub quorum_mono [OF _ sub]
      by (auto simp: p supported_def)
  qed
qed (simp add: supported_def)

lemma visit_blocks_spec:
  assumes wf: "committee_wf c" and t: "traversable c blocks gced"
    and "supported c (accept_supporters skip blocks gced pending) accept"
    and "\<And>q. q \<in> set to_visit \<Longrightarrow> (pending, q) \<in> (children_rel blocks)\<^sup>+ \<and> q \<in> set (btm_keys blocks)"
    and "\<And>idx. idx \<in> set finalized \<Longrightarrow> reached_quorum c (stake_of c (accept_supporters skip blocks gced pending idx))"
  shows "\<exists>res. visit_blocks c skip blocks gced pending to_visit visited ignored accept finalized = Some res \<and>
     set res \<subseteq> set finalized \<union> fst ` set accept \<and>
     (\<forall>idx \<in> set res. reached_quorum c (stake_of c (accept_supporters skip blocks gced pending idx)))"
  using assms
proof (induction c skip blocks gced pending to_visit visited ignored accept finalized rule: visit_blocks.induct)
  case (1 c skip blocks gced pending visited ignored accept finalized)
  then show ?case by auto
next
  case (2 c skip blocks gced pending cur to_visit visited ignored accept finalized)
  let ?S = "accept_supporters skip blocks gced pending"
  have cur: "(pending, cur) \<in> (children_rel blocks)\<^sup>+" "cur \<in> set (btm_keys blocks)" using "2.prems"(4) by auto
  show ?case
  proof (cases "cur \<in> set visited")
    case True
    then show ?thesis using "2.IH"(1) [OF True "2.prems"(1-3) _ "2.prems"(5)] "2.prems"(4) by simp
  next
    case False
    obtain st where st: "btm_get blocks cur = Some st" using cur(2) by (auto simp: btm_key_get)
    obtain g where g: "gced (bs_commit_index st) = Some g" and author: "br_author cur < committee_size c"
        and ch: "set (bs_children st) \<subseteq> set (btm_keys blocks)"
      using "2.prems"(2) st unfolding traversable_def by blast
    let ?visited = "bts_insert cur visited"
    let ?next = "fold bts_insert (filter (\<lambda>b. b \<notin> set ?visited) (bs_children st)) to_visit"
    let ?ignored = "fold bts_insert (bs_origin_descendants st) (bts_insert cur ignored)"
    let ?rej = "case btm_get (bs_reject_votes st) pending of None \<Rightarrow> [] | Some ts \<Rightarrow> ts"
    have next_ok: "(pending, q) \<in> (children_rel blocks)\<^sup>+ \<and> q \<in> set (btm_keys blocks)" if "q \<in> set ?next" for q
      using that "2.prems"(4) [of q] ch trancl_into_trancl [OF cur(1), of q] st
      by (auto simp: set_fold_bts_insert children_rel_def)
    have visit_ok: "(pending, q) \<in> (children_rel blocks)\<^sup>+ \<and> q \<in> set (btm_keys blocks)" if "q \<in> set to_visit" for q
      using that "2.prems"(4) [of q] by simp
    note IH = "2.IH"(2-) [OF False st g refl refl refl refl]
    consider (ignored) "cur \<in> set ignored" | (gced) "cur \<notin> set ignored" "skip \<and> g" | (count) "cur \<notin> set ignored" "\<not> (skip \<and> g)"
      by blast
    then show ?thesis
    proof cases
      case ignored
      then show ?thesis using IH(1) [OF ignored "2.prems"(1-3) next_ok "2.prems"(5)] False st g by (simp add: Let_def)
    next
      case gced
      obtain au where au: "committee_authority c (br_author cur) = Some au"
        using author by (auto simp: committee_authority_def committee_size_def)
      show ?thesis using IH(2) [OF gced au "2.prems"(1-3) visit_ok "2.prems"(5)] False st g gced au by (simp add: Let_def)
    next
      case count
      have S: "br_author cur \<in> ?S idx" if "idx \<notin> set ?rej" for idx
        using that cur(1) st g count(2) by (auto simp: accept_supporters_def votes_reject_def)
      obtain newly accept' where n: "count_accept_votes c (br_author cur) ?rej accept = Some (newly, accept')"
          "supported c ?S accept'" "\<forall>idx \<in> set newly. idx \<in> fst ` set accept \<and> reached_quorum c (stake_of c (?S idx))"
          "fst ` set accept' \<subseteq> fst ` set accept"
        using count_accept_votes_spec [OF "2.prems"(1) author "2.prems"(3) S] by blast
      show ?thesis
      proof (cases "accept' = []")
        case True
        then show ?thesis using n False st g count "2.prems"(5) by (auto simp: Let_def)
      next
        case False': False
        have fin: "reached_quorum c (stake_of c (?S idx))" if "idx \<in> set (finalized @ newly)" for idx
          using that n(3) "2.prems"(5) by auto
        obtain res where res: "visit_blocks c skip blocks gced pending ?next ?visited ?ignored accept' (finalized @ newly) = Some res"
            "set res \<subseteq> set (finalized @ newly) \<union> fst ` set accept'" "\<forall>idx \<in> set res. reached_quorum c (stake_of c (?S idx))"
          using IH(3) [OF count n(1) refl False' "2.prems"(1,2) n(2) next_ok fin] by blast
        have "set res \<subseteq> set finalized \<union> fst ` set accept" using res(2) n(3,4) unfolding set_append by blast
        then show ?thesis using res(1,3) n(1) False st g count False' by (cases skip) (simp_all add: Let_def)
      qed
    qed
  qed
qed

lemma finalize_in_block_spec:
  assumes wf: "committee_wf c"
    and t: "traversable c blocks (gced_transaction_votes_for_pending_block gc_rounds (br_round r) (bs_commit_index st))"
    and st: "btm_get blocks r = Some st"
  shows "\<exists>res. try_indirect_finalize_pending_transactions_in_block c skip blocks gc_rounds r ts = Some res \<and>
     set res \<subseteq> set ts \<and>
     (\<forall>idx \<in> set res. reached_quorum c (stake_of c (accept_supporters skip blocks
        (gced_transaction_votes_for_pending_block gc_rounds (br_round r) (bs_commit_index st)) r idx)))"
proof (cases "ts = []")
  case False
  let ?accept = "map (\<lambda>idx. (idx, aggregator_new)) ts"
  let ?gced = "gced_transaction_votes_for_pending_block gc_rounds (br_round r) (bs_commit_index st)"
  have "supported c (accept_supporters skip blocks ?gced r) ?accept"
    by (auto simp: supported_def) (simp add: aggregator_new_def)
  moreover have "(r, q) \<in> (children_rel blocks)\<^sup>+ \<and> q \<in> set (btm_keys blocks)" if "q \<in> set (bs_children st)" for q
    using that t st by (fastforce simp: traversable_def children_rel_def)
  ultimately obtain res where "visit_blocks c skip blocks ?gced r (bs_children st) [] [] ?accept [] = Some res"
      "set res \<subseteq> set [] \<union> fst ` set ?accept"
      "\<forall>idx \<in> set res. reached_quorum c (stake_of c (accept_supporters skip blocks ?gced r idx))"
    using visit_blocks_spec [OF wf t, of skip r ?accept "bs_children st" "[]" "[]" "[]"] by auto
  then show ?thesis using False st
    by (auto simp: try_indirect_finalize_pending_transactions_in_block_def image_iff)
qed (simp add: try_indirect_finalize_pending_transactions_in_block_def)

subsection \<open>The blocks of the pending commits\<close>

abbreviation (input) csd_index :: "committed_sub_dag \<Rightarrow> CommitIndex" where "csd_index x \<equiv> cr_index (csd_commit_ref x)"

definition csd_refs :: "committed_sub_dag \<Rightarrow> block_ref set" where
  "csd_refs x = vb_reference ` set (csd_blocks x)"

definition commit_blocks_ok :: "committee \<Rightarrow> committed_sub_dag \<Rightarrow> bool" where
  "commit_blocks_ok c x \<longleftrightarrow> csd_blocks x \<noteq> [] \<and> (\<forall>b \<in> set (csd_blocks x). valid_block c b \<and> 0 < vb_round b)"

definition linked_block :: "committed_sub_dag list \<Rightarrow> block_ref \<Rightarrow> block_state \<Rightarrow> bool" where
  "linked_block xs r st \<longleftrightarrow> vb_reference (bs_block st) = r \<and>
     (\<exists>x \<in> set xs. bs_block st \<in> set (csd_blocks x) \<and> bs_commit_index st = csd_index x) \<and>
     set (bs_children st) \<subseteq> (\<Union>x \<in> {x \<in> set xs. bs_commit_index st \<le> csd_index x}. csd_refs x)"

definition graph_ok :: "committed_sub_dag list \<Rightarrow> (block_ref, block_state) btree_map \<Rightarrow> bool" where
  "graph_ok xs blocks \<longleftrightarrow> set (btm_keys blocks) = (\<Union>x \<in> set xs. csd_refs x) \<and>
     (\<forall>r st. btm_get blocks r = Some st \<longrightarrow> linked_block xs r st)"

text \<open>The commits come one after the other and do not share a block.\<close>

fun commits_ok :: "committed_sub_dag list \<Rightarrow> bool" where
  "commits_ok [] = True"
| "commits_ok [x] = True"
| "commits_ok (x # y # xs) \<longleftrightarrow> csd_index y = Suc (csd_index x) \<and>
     (\<forall>z \<in> set (y # xs). csd_refs x \<inter> csd_refs z = {}) \<and> commits_ok (y # xs)"

lemma commits_ok_Cons:
  "commits_ok (x # xs) \<Longrightarrow> commits_ok xs \<and> (\<forall>z \<in> set xs. csd_refs x \<inter> csd_refs z = {} \<and> csd_index x < csd_index z)"
proof (induction xs arbitrary: x)
  case (Cons y xs)
  then show ?case using Cons.IH [of y] by auto
qed simp

lemma commits_ok_index: "commits_ok xs \<Longrightarrow> i < length xs \<Longrightarrow> csd_index (xs ! i) = csd_index (hd xs) + i"
proof (induction xs arbitrary: i rule: commits_ok.induct)
  case (3 x y xs)
  then show ?case by (cases i) auto
qed auto

lemma commits_ok_snoc:
  assumes "commits_ok xs" "xs \<noteq> [] \<Longrightarrow> csd_index x = Suc (csd_index (last xs))"
    and "\<forall>z \<in> set xs. csd_refs z \<inter> csd_refs x = {}"
  shows "commits_ok (xs @ [x])"
  using assms by (induction xs rule: commits_ok.induct) auto

lemma btm_get_fold_remove:
  "btm_get (fold (\<lambda>b. btm_remove (k b)) bs m) r = (if r \<in> k ` set bs then None else btm_get m r)"
  by (induction bs arbitrary: m) (auto simp: btree_simps)

lemma btm_keys_eq: "set (btm_keys m) = {r. btm_get m r \<noteq> None}"
  by (auto simp: btm_key_get)

lemma graph_ok_remove_first:
  assumes g: "graph_ok (x # xs) blocks" and ok: "commits_ok (x # xs)"
  shows "graph_ok xs (fold (\<lambda>b. btm_remove (vb_reference b)) (csd_blocks x) blocks)"
proof -
  have dis: "csd_refs x \<inter> csd_refs z = {}" "csd_index x < csd_index z" if "z \<in> set xs" for z
    using commits_ok_Cons [OF ok] that by auto
  have "set (btm_keys (fold (\<lambda>b. btm_remove (vb_reference b)) (csd_blocks x) blocks)) = set (btm_keys blocks) - csd_refs x"
    by (auto simp: btm_keys_eq btm_get_fold_remove csd_refs_def split: if_splits)
  also have "\<dots> = (\<Union>x \<in> set xs. csd_refs x)" using g dis(1) by (auto simp: graph_ok_def)
  finally have keys: "set (btm_keys (fold (\<lambda>b. btm_remove (vb_reference b)) (csd_blocks x) blocks)) = (\<Union>x \<in> set xs. csd_refs x)" .
  have "linked_block xs r st" if st: "btm_get blocks r = Some st" and r: "r \<notin> csd_refs x" for r st
  proof -
    have l: "linked_block (x # xs) r st" using g st by (simp add: graph_ok_def)
    then obtain z where z: "z \<in> set xs" "bs_block st \<in> set (csd_blocks z)" "bs_commit_index st = csd_index z"
      using r by (auto simp: linked_block_def csd_refs_def)
    then have "\<not> bs_commit_index st \<le> csd_index x" using dis(2) [OF z(1)] by simp
    then have "{y \<in> set (x # xs). bs_commit_index st \<le> csd_index y} = {y \<in> set xs. bs_commit_index st \<le> csd_index y}" by auto
    then show ?thesis using l z by (auto simp: linked_block_def)
  qed
  then show ?thesis using keys by (auto simp: graph_ok_def btm_get_fold_remove csd_refs_def split: if_splits)
qed

subsection \<open>Linking the blocks of a new commit\<close>

lemma linked_block_mono: "linked_block xs r st \<Longrightarrow> set xs \<subseteq> set ys \<Longrightarrow> linked_block ys r st"
  unfolding linked_block_def by blast

text \<open>The invariant of the loops over the new blocks: the entries are linked among the commits \<open>ys\<close>.\<close>

definition entries_linked :: "committed_sub_dag list \<Rightarrow> (block_ref, block_state) btree_map \<Rightarrow> bool" where
  "entries_linked ys blocks \<longleftrightarrow> (\<forall>r st. btm_get blocks r = Some st \<longrightarrow> linked_block ys r st)"

lemma entries_linked_insert:
  "entries_linked ys blocks \<Longrightarrow> linked_block ys r st \<Longrightarrow> entries_linked ys (btm_insert r st blocks)"
  by (simp add: entries_linked_def btree_simps)

lemma link_ancestors_ok:
  assumes "entries_linked ys blocks" and x: "x \<in> set ys" "\<forall>y \<in> set ys. csd_index y \<le> csd_index x" and q: "q \<in> csd_refs x"
  shows "entries_linked ys (fold (link_ancestor q) as blocks) \<and>
     set (btm_keys (fold (link_ancestor q) as blocks)) = set (btm_keys blocks)"
  using assms(1)
proof (induction as arbitrary: blocks)
  case (Cons a as)
  have "entries_linked ys (link_ancestor q a blocks) \<and> set (btm_keys (link_ancestor q a blocks)) = set (btm_keys blocks)"
  proof (cases "btm_get blocks a")
    case (Some st)
    have l: "linked_block ys a st" using Cons.prems Some by (simp add: entries_linked_def)
    then obtain z where "z \<in> set ys" "bs_commit_index st = csd_index z" unfolding linked_block_def by blast
    then have "bs_commit_index st \<le> csd_index x" using x(2) by auto
    then have "linked_block ys a (st\<lparr>bs_children := bts_insert q (bs_children st)\<rparr>)"
      using l x(1) q by (auto simp: linked_block_def btree_simps)
    then have "entries_linked ys (link_ancestor q a blocks)"
      using Cons.prems Some by (simp add: link_ancestor_def entries_linked_insert)
    moreover have "set (btm_keys (link_ancestor q a blocks)) = set (btm_keys blocks)"
      using Some btm_get_key [OF Some] by (auto simp: link_ancestor_def btree_simps)
    ultimately show ?thesis by simp
  qed (use Cons.prems in \<open>simp add: link_ancestor_def\<close>)
  then show ?case using Cons.IH [of "link_ancestor q a blocks"] by simp
qed simp

lemma link_block_ok:
  assumes e: "entries_linked ys blocks" and x: "x \<in> set ys" "\<forall>y \<in> set ys. csd_index y \<le> csd_index x" and b: "b \<in> set (csd_blocks x)"
  shows "entries_linked ys (link_block (csd_index x) b blocks) \<and>
     set (btm_keys (link_block (csd_index x) b blocks)) = insert (vb_reference b) (set (btm_keys blocks))"
proof -
  let ?m = "fold (link_ancestor (vb_reference b)) (vb_ancestors b) blocks"
  have m: "entries_linked ys ?m" "set (btm_keys ?m) = set (btm_keys blocks)"
    using link_ancestors_ok [OF e x, of "vb_reference b" "vb_ancestors b"] b by (simp_all add: csd_refs_def)
  have new: "linked_block ys (vb_reference b) (block_state_new b (csd_index x))"
    using x(1) b by (auto simp: linked_block_def block_state_new_def)
  show ?thesis
  proof (cases "btm_get ?m (vb_reference b)")
    case None
    then show ?thesis using m new by (simp add: link_block_def Let_def entries_linked_insert set_btm_keys_insert)
  next
    case (Some st)
    then have "vb_reference b \<in> set (btm_keys blocks)" using btm_get_key [OF Some] m(2) by simp
    then show ?thesis using m Some by (auto simp: link_block_def Let_def)
  qed
qed

lemma link_blocks_ok:
  assumes "entries_linked ys blocks" and x: "x \<in> set ys" "\<forall>y \<in> set ys. csd_index y \<le> csd_index x" and "set bs \<subseteq> set (csd_blocks x)"
  shows "entries_linked ys (fold (link_block (csd_index x)) bs blocks) \<and>
     set (btm_keys (fold (link_block (csd_index x)) bs blocks)) = vb_reference ` set bs \<union> set (btm_keys blocks)"
  using assms(1,4)
proof (induction bs arbitrary: blocks)
  case (Cons b bs)
  then show ?case using link_block_ok [OF Cons.prems(1) x, of b] Cons.IH [of "link_block (csd_index x) b blocks"] by auto
qed simp

lemma graph_ok_link:
  assumes g: "graph_ok xs blocks" and idx: "\<forall>y \<in> set xs. csd_index y \<le> csd_index x"
  shows "graph_ok (xs @ [x]) (fold (link_block (csd_index x)) (sort_key vb_round (csd_blocks x)) blocks)"
proof -
  have "entries_linked (xs @ [x]) blocks"
    unfolding entries_linked_def
  proof (intro allI impI)
    fix r st assume "btm_get blocks r = Some st"
    then have "linked_block xs r st" using g by (simp add: graph_ok_def)
    then show "linked_block (xs @ [x]) r st" by (rule linked_block_mono) auto
  qed
  then show ?thesis
    using link_blocks_ok [of "xs @ [x]" blocks x "sort_key vb_round (csd_blocks x)"] idx g
    by (auto simp: graph_ok_def entries_linked_def csd_refs_def)
qed

text \<open>Every entry is a block with ancestors of lower rounds, so the walk to the origin ancestors ends.\<close>

lemma entry_ancestors:
  assumes wf: "committee_wf c" and g: "graph_ok xs blocks" and ok: "\<forall>x \<in> set xs. commit_blocks_ok c x" and st: "btm_get blocks r = Some st"
  obtains a as where "vb_ancestors (bs_block st) = a # as" "br_round a < br_round r" "br_author r < committee_size c"
proof -
  obtain x where x: "x \<in> set xs" "bs_block st \<in> set (csd_blocks x)" and r: "vb_reference (bs_block st) = r"
    using g st unfolding graph_ok_def linked_block_def by blast
  then have v: "valid_block c (bs_block st)" "0 < vb_round (bs_block st)" using ok by (auto simp: commit_blocks_ok_def)
  have "vb_ancestors (bs_block st) \<noteq> []"
  proof
    assume "vb_ancestors (bs_block st) = []"
    then have "reached_quorum c (stake_of c {})" using v by (simp add: valid_block_def)
    then show False using quorum.not_threshold_empty [OF wf] by simp
  qed
  then show ?thesis using that v(1) r by (cases "vb_ancestors (bs_block st)") (auto simp: valid_block_def)
qed

lemma graph_ok_origin:
  assumes "graph_ok xs blocks" "btm_get blocks r = Some st"
  shows "graph_ok xs (btm_insert r (st\<lparr>bs_origin_descendants := ds\<rparr>) blocks)"
proof -
  have "linked_block xs r st" using assms by (simp add: graph_ok_def)
  then have "linked_block xs r (st\<lparr>bs_origin_descendants := ds\<rparr>)" by (simp add: linked_block_def)
  then show ?thesis using assms btm_get_key [OF assms(2)] by (auto simp: graph_ok_def btree_simps)
qed

lemma origin_loop_total:
  assumes wf: "committee_wf c" and ok: "\<forall>x \<in> set xs. commit_blocks_ok c x"
  shows "graph_ok xs blocks \<Longrightarrow> \<exists>blocks'. origin_loop committed r blocks = Some blocks' \<and> graph_ok xs blocks'"
proof (induction "br_round r" arbitrary: r blocks rule: less_induct)
  case less
  show ?case
  proof (cases "br_author r = br_author committed \<and> btm_get blocks r \<noteq> None")
    case True
    then obtain st where st: "btm_get blocks r = Some st" by auto
    obtain a as where a: "vb_ancestors (bs_block st) = a # as" "br_round a < br_round r"
      using entry_ancestors [OF wf less.prems ok st] by blast
    show ?thesis
      using less.hyps [OF a(2) graph_ok_origin [OF less.prems st, of "bs_origin_descendants st @ [committed]"]] True st a(1)
      by (subst origin_loop.simps) simp
  next
    case False
    then show ?thesis using less.prems by (subst origin_loop.simps) auto
  qed
qed

lemma append_origin_total:
  assumes wf: "committee_wf c" and ok: "\<forall>x \<in> set xs. commit_blocks_ok c x" and x: "x \<in> set xs" and g: "graph_ok xs blocks"
  shows "\<exists>blocks'. fold_opt append_origin_descendants (sort_key vb_round (csd_blocks x)) blocks = Some blocks' \<and> graph_ok xs blocks'"
proof (rule fold_opt_total [where P = "graph_ok xs"])
  fix b blocks assume b: "b \<in> set (sort_key vb_round (csd_blocks x))" and g: "graph_ok xs blocks"
  then have "vb_reference b \<in> set (btm_keys blocks)" using x by (auto simp: graph_ok_def csd_refs_def)
  then obtain st where st: "btm_get blocks (vb_reference b) = Some st" by (auto simp: btm_key_get)
  obtain a as where "vb_ancestors (bs_block st) = a # as" using entry_ancestors [OF wf g ok st] by blast
  then show "\<exists>blocks'. append_origin_descendants b blocks = Some blocks' \<and> graph_ok xs blocks'"
    using origin_loop_total [OF wf ok g] st by (simp add: append_origin_descendants_def)
qed (rule g)

subsection \<open>The state of a pending commit\<close>

text \<open>
  The certifier has vote information for the blocks of the commit, and the pending transactions are
  transactions with reject votes.
\<close>

definition pending_ok ::
  "certifier_state \<Rightarrow> block_ref set \<Rightarrow> (block_ref, TransactionIndex btree_set) btree_map \<Rightarrow> bool" where
  "pending_ok cs refs m \<longleftrightarrow> (\<forall>(r, ts) \<in> set m. r \<in> refs \<and>
     (\<forall>votes. get_reject_votes cs r = Some votes \<longrightarrow> set ts \<subseteq> fst ` set votes))"

definition state_ok :: "committee \<Rightarrow> certifier_state \<Rightarrow> commit_state \<Rightarrow> bool" where
  "state_ok c cs st \<longleftrightarrow> commit_blocks_ok c (cst_commit st) \<and>
     set (btm_keys (cst_pending_blocks st)) \<subseteq> csd_refs (cst_commit st) \<and>
     (\<forall>r \<in> csd_refs (cst_commit st). get_reject_votes cs r \<noteq> None) \<and>
     pending_ok cs (csd_refs (cst_commit st)) (cst_pending_transactions st)"

text \<open>What the operations on a commit keep: the commit, its pending blocks, and the invariant.\<close>

definition kept :: "committee \<Rightarrow> certifier_state \<Rightarrow> commit_state \<Rightarrow> commit_state \<Rightarrow> bool" where
  "kept c cs st st' \<longleftrightarrow> cst_commit st' = cst_commit st \<and> cst_pending_blocks st' = cst_pending_blocks st \<and>
     (state_ok c cs st \<longrightarrow> state_ok c cs st')"

lemma kept_refl [simp]: "kept c cs st st"
  by (simp add: kept_def)

lemma kept_trans: "kept c cs s t \<Longrightarrow> kept c cs t u \<Longrightarrow> kept c cs s u"
  by (simp add: kept_def)

lemma fold_kept:
  "(\<And>x st. x \<in> set xs \<Longrightarrow> kept c cs st (f x st)) \<Longrightarrow> kept c cs st (fold f xs st)"
proof (induction xs arbitrary: st)
  case (Cons x xs)
  then show ?case using kept_trans [of c cs st "f x st"] by simp
qed simp

lemma kept_rejected: "kept c cs st (st\<lparr>cst_rejected_transactions := m\<rparr>)"
  by (simp add: kept_def state_ok_def)

lemma set_btm_insert: "set (btm_insert k v m) \<subseteq> insert (k, v) (set m)"
  by (induction k v m rule: btm_insert.induct) auto

lemma pending_ok_insert:
  assumes "pending_ok cs refs m" "r \<in> refs" "\<And>votes. get_reject_votes cs r = Some votes \<Longrightarrow> set ts \<subseteq> fst ` set votes"
  shows "pending_ok cs refs (btm_insert r ts m)"
  using assms set_btm_insert [of r ts m] unfolding pending_ok_def by fast

lemma pending_ok_get:
  assumes "pending_ok cs refs m" "btm_get m r = Some ts"
  shows "r \<in> refs" "get_reject_votes cs r = Some votes \<Longrightarrow> set ts \<subseteq> fst ` set votes"
proof -
  have "(r, ts) \<in> set m" using assms(2) by (auto simp: btm_get_def dest: map_of_SomeD)
  then show "r \<in> refs" "get_reject_votes cs r = Some votes \<Longrightarrow> set ts \<subseteq> fst ` set votes"
    using assms(1) unfolding pending_ok_def by blast+
qed

lemma kept_remove: "kept c cs st (remove_pending_transactions r ts st)"
proof (cases "btm_get (cst_pending_transactions st) r")
  case (Some txns)
  let ?refs = "csd_refs (cst_commit st)" and ?m = "cst_pending_transactions st"
  have "pending_ok cs ?refs (cst_pending_transactions (remove_pending_transactions r ts st))" if ok: "pending_ok cs ?refs ?m"
  proof (cases "filter (\<lambda>t. t \<notin> set ts) txns = []")
    case True
    then show ?thesis using Some ok by (auto simp: remove_pending_transactions_def pending_ok_def btm_remove_def)
  next
    case False
    have "pending_ok cs ?refs (btm_insert r (filter (\<lambda>t. t \<notin> set ts) txns) ?m)"
      using pending_ok_get [OF ok Some] by (intro pending_ok_insert [OF ok]) auto
    then show ?thesis using False Some by (simp add: remove_pending_transactions_def Let_def)
  qed
  then show ?thesis using Some by (simp add: kept_def state_ok_def remove_pending_transactions_def Let_def)
qed (simp add: remove_pending_transactions_def)

lemma kept_reject_pending: "kept c cs st (reject_pending p st)"
  using kept_trans [OF kept_remove kept_rejected] by (simp add: reject_pending_def Let_def split: prod.split)

lemma kept_finalize_transaction:
  assumes "r \<in> csd_refs (cst_commit st)" "get_reject_votes cs r = Some votes" "idx \<in> fst ` set votes"
  shows "kept c cs st (finalize_transaction c r (idx, stake) st)"
proof (cases "stake < c_quorum_threshold c")
  case True
  let ?refs = "csd_refs (cst_commit st)" and ?m = "cst_pending_transactions st"
  have "pending_ok cs ?refs (add_transactions r [idx] ?m)" if ok: "pending_ok cs ?refs ?m"
    unfolding add_transactions_def
  proof (rule pending_ok_insert [OF ok assms(1)])
    fix vs assume vs: "get_reject_votes cs r = Some vs"
    have "set ts \<subseteq> fst ` set vs" if "btm_get ?m r = Some ts" for ts using pending_ok_get(2) [OF ok that vs] .
    then show "set (fold bts_insert [idx] (case btm_get ?m r of None \<Rightarrow> [] | Some ts \<Rightarrow> ts)) \<subseteq> fst ` set vs"
      using assms(2,3) vs by (cases "btm_get ?m r") (auto simp: bts_insert_set)
  qed
  then show ?thesis using True by (simp add: finalize_transaction_def kept_def state_ok_def)
qed (simp add: finalize_transaction_def kept_rejected)

lemma finalize_block_kept:
  assumes ok: "state_ok c cs st" and r: "r \<in> csd_refs (cst_commit st)"
  shows "\<exists>st'. finalize_block c cs (r, n) st = Some st' \<and> kept c cs st st'"
proof -
  obtain votes where votes: "get_reject_votes cs r = Some votes" using ok r by (auto simp: state_ok_def)
  obtain b where b: "b \<in> set (csd_blocks (cst_commit st))" "r = vb_reference b" using r by (auto simp: csd_refs_def)
  then have "br_author r < committee_size c" using ok by (auto simp: state_ok_def commit_blocks_ok_def valid_block_def)
  then obtain au where au: "committee_authority c (br_author r) = Some au" by (auto simp: committee_authority_def committee_size_def)
  have "kept c cs st (fold (finalize_transaction c r) vs st)" if "set vs \<subseteq> set votes" for vs
    using that r
  proof (induction vs arbitrary: st)
    case (Cons v vs)
    have k: "kept c cs st (finalize_transaction c r v st)"
      using kept_finalize_transaction [OF Cons.prems(2) votes, of "fst v" c "snd v"] Cons.prems(1) by simp
    then have "r \<in> csd_refs (cst_commit (finalize_transaction c r v st))" using Cons.prems(2) by (simp add: kept_def)
    then show ?case using kept_trans [OF k Cons.IH] Cons.prems(1) by simp
  qed simp
  then show ?thesis using votes au by (simp add: finalize_block_def)
qed

lemma direct_finalize_total:
  assumes ok: "state_ok c cs st" and p: "cst_pending_blocks st \<noteq> []"
  shows "\<exists>st'. direct_finalize c cs st = Some st' \<and> cst_commit st' = cst_commit st \<and> cst_pending_blocks st' = [] \<and> state_ok c cs st'"
proof -
  let ?P = "\<lambda>st'. cst_commit st' = cst_commit st \<and> cst_pending_blocks st' = [] \<and> state_ok c cs st'"
  have "\<exists>st'. fold_opt (finalize_block c cs) (cst_pending_blocks st) (st\<lparr>cst_pending_blocks := []\<rparr>) = Some st' \<and> ?P st'"
  proof (rule fold_opt_total)
    show "?P (st\<lparr>cst_pending_blocks := []\<rparr>)" using ok by (simp add: state_ok_def)
    fix p s assume p: "p \<in> set (cst_pending_blocks st)" and s: "?P s"
    have "fst p \<in> csd_refs (cst_commit s)" using p s ok by (auto simp: state_ok_def btm_keys_def)
    then show "\<exists>s'. finalize_block c cs p s = Some s' \<and> ?P s'"
      using finalize_block_kept [of c cs s "fst p" "snd p"] s by (auto simp: kept_def)
  qed
  then show ?thesis using p by (simp add: direct_finalize_def)
qed

subsection \<open>The loops over the pending commits\<close>

abbreviation (input) leader_round :: "commit_state \<Rightarrow> Round" where "leader_round st \<equiv> br_round (csd_leader (cst_commit st))"

definition direct_done :: "Round \<Rightarrow> commit_state list \<Rightarrow> bool" where
  "direct_done last_round sts \<longleftrightarrow>
     (case dropWhile (\<lambda>st. cst_pending_blocks st = []) sts of [] \<Rightarrow> True | st # _ \<Rightarrow> last_round < u32_add (leader_round st) 3)"

lemma direct_done_append: "(\<And>st. st \<in> set pre \<Longrightarrow> cst_pending_blocks st = []) \<Longrightarrow> direct_done l (pre @ sts) = direct_done l sts"
  by (simp add: direct_done_def)

lemma direct_loop_total:
  assumes "cf_pending_commits f = pre @ sts" "\<And>st. st \<in> set pre \<Longrightarrow> cst_pending_blocks st = []"
    and "\<And>st. st \<in> set (pre @ sts) \<Longrightarrow> state_ok (ctx_committee (cf_context f)) cs st" "pre @ sts \<noteq> []"
  shows "\<exists>sts'. direct_loop cs [length pre..<length pre + length sts] f = Some (f\<lparr>cf_pending_commits := sts'\<rparr>) \<and>
     map cst_commit sts' = map cst_commit (pre @ sts) \<and> (\<forall>st \<in> set sts'. state_ok (ctx_committee (cf_context f)) cs st) \<and>
     direct_done (leader_round (last (pre @ sts))) sts'"
  using assms
proof (induction sts arbitrary: pre f)
  case Nil
  have "direct_done l []" for l by (simp add: direct_done_def)
  then have "direct_done l pre" for l using direct_done_append [OF Nil.prems(2), of pre l "[]"] by simp
  then show ?case using Nil.prems by (intro exI [of _ pre]) simp
next
  case (Cons st sts)
  let ?c = "ctx_committee (cf_context f)"
  have range: "[length pre..<length pre + length (st # sts)] = length pre # [Suc (length pre)..<Suc (length pre) + length sts]"
    by (subst upt_conv_Cons) simp_all
  have get: "vec_get (cf_pending_commits f) (length pre) = Some st" using Cons.prems(1) by simp
  consider (skip) "cst_pending_blocks st = []"
    | (stop) "cst_pending_blocks st \<noteq> []" "\<not> csd_decided_with_local_blocks (cst_commit st) \<and>
        u32_add (leader_round st) DEFAULT_WAVE_LENGTH > leader_round (last (cf_pending_commits f))"
    | (go) "cst_pending_blocks st \<noteq> []" "\<not> (\<not> csd_decided_with_local_blocks (cst_commit st) \<and>
        u32_add (leader_round st) DEFAULT_WAVE_LENGTH > leader_round (last (cf_pending_commits f)))" by blast
  then show ?case
  proof cases
    case skip
    then have "direct_loop cs [length pre..<length pre + length (st # sts)] f
        = direct_loop cs [length (pre @ [st])..<length (pre @ [st]) + length sts] f"
      unfolding range direct_loop.simps get by simp
    moreover have "cst_pending_blocks s = []" if "s \<in> set (pre @ [st])" for s using that skip Cons.prems(2) by auto
    ultimately show ?thesis using Cons.IH [of f "pre @ [st]"] Cons.prems(1,3) by simp
  next
    case stop
    have "direct_done (leader_round (last (pre @ st # sts))) (pre @ st # sts)"
      using stop Cons.prems(1) direct_done_append [OF Cons.prems(2), of pre "leader_round (last (pre @ st # sts))" "st # sts"]
      by (simp add: direct_done_def)
    moreover have "direct_loop cs [length pre..<length pre + length (st # sts)] f = Some (f\<lparr>cf_pending_commits := pre @ st # sts\<rparr>)"
      unfolding range direct_loop.simps get using stop Cons.prems(1) [symmetric] by simp
    ultimately show ?thesis using Cons.prems(3) by blast
  next
    case go
    obtain st' where st': "direct_finalize ?c cs st = Some st'" "cst_commit st' = cst_commit st" "cst_pending_blocks st' = []" "state_ok ?c cs st'"
      using direct_finalize_total [of ?c cs st] Cons.prems(3) go(1) by auto
    let ?f = "f\<lparr>cf_pending_commits := (pre @ [st']) @ sts\<rparr>"
    have tried: "try_direct_finalize_commit cs f (length pre) = Some ?f"
      using st'(1) get Cons.prems(1) by (simp add: try_direct_finalize_commit_def vec_get_def vec_set_def list_update_append)
    have "last ((pre @ [st']) @ sts) = (if sts = [] then st' else last sts)" "last (pre @ st # sts) = (if sts = [] then st else last sts)" by simp_all
    then have l: "leader_round (last ((pre @ [st']) @ sts)) = leader_round (last (pre @ st # sts))" using st'(2) by simp
    have "direct_loop cs [length pre..<length pre + length (st # sts)] f
        = direct_loop cs [length (pre @ [st'])..<length (pre @ [st']) + length sts] ?f"
      unfolding range direct_loop.simps get tried using go by auto
    moreover obtain sts' where "direct_loop cs [length (pre @ [st'])..<length (pre @ [st']) + length sts] ?f
          = Some (?f\<lparr>cf_pending_commits := sts'\<rparr>)" "map cst_commit sts' = map cst_commit ((pre @ [st']) @ sts)"
        "\<forall>st \<in> set sts'. state_ok (ctx_committee (cf_context ?f)) cs st" "direct_done (leader_round (last ((pre @ [st']) @ sts))) sts'"
      using Cons.IH [of ?f "pre @ [st']"] Cons.prems(2,3) st'(3,4) by auto
    ultimately show ?thesis using l st'(2) by (intro exI [of _ sts']) simp
  qed
qed

definition finalized_output :: "commit_state \<Rightarrow> committed_sub_dag" where
  "finalized_output st = (cst_commit st)\<lparr>csd_rejected_transactions_by_block :=
     fold (\<lambda>(r, ts). btm_insert r ts) (cst_rejected_transactions st) (csd_rejected_transactions_by_block (cst_commit st))\<rparr>"

definition remove_commits ::
  "committed_sub_dag list \<Rightarrow> (block_ref, block_state) btree_map \<Rightarrow> (block_ref, block_state) btree_map" where
  "remove_commits xs blocks = fold (\<lambda>x. fold (\<lambda>b. btm_remove (vb_reference b)) (csd_blocks x)) xs blocks"

definition undecided :: "commit_state \<Rightarrow> bool" where
  "undecided st \<longleftrightarrow> cst_pending_blocks st \<noteq> [] \<or> cst_pending_transactions st \<noteq> []"

lemma pop_finalized_spec:
  "pop_finalized sts blocks =
     (map finalized_output (takeWhile (\<lambda>st. \<not> undecided st) sts), dropWhile (\<lambda>st. \<not> undecided st) sts,
      remove_commits (map cst_commit (takeWhile (\<lambda>st. \<not> undecided st) sts)) blocks)"
proof (induction sts blocks rule: pop_finalized.induct)
  case (2 st sts blocks)
  then show ?case by (auto simp: undecided_def remove_commits_def finalized_output_def Let_def)
qed (simp add: remove_commits_def)

lemma graph_ok_remove:
  "graph_ok (xs @ ys) blocks \<Longrightarrow> commits_ok (xs @ ys) \<Longrightarrow> graph_ok ys (remove_commits xs blocks)"
proof (induction xs arbitrary: blocks)
  case (Cons x xs)
  then show ?case using graph_ok_remove_first [of x "xs @ ys" blocks] commits_ok_Cons [of x "xs @ ys"] by (simp add: remove_commits_def)
qed (simp add: remove_commits_def)

lemma commits_ok_drop: "commits_ok (xs @ ys) \<Longrightarrow> commits_ok ys"
  by (induction xs) (auto dest: commits_ok_Cons)

lemma graph_ok_empty: "graph_ok [] blocks \<longleftrightarrow> blocks = []"
  by (cases blocks) (auto simp: graph_ok_def)

subsection \<open>The first pending commit\<close>

lemma check_pending_total:
  assumes p: "cf_pending_commits f = st # sts" and ok: "state_ok (ctx_committee (cf_context f)) cs st"
  shows "\<exists>st'. check_pending_transactions_in_first_commit cs f = Some (f\<lparr>cf_pending_commits := st' # sts\<rparr>) \<and>
     kept (ctx_committee (cf_context f)) cs st st'"
proof -
  let ?c = "ctx_committee (cf_context f)"
  have "late_rejected ?c cs (r, ts) \<noteq> None" if m: "(r, ts) \<in> set (cst_pending_transactions st)" for r ts
  proof -
    have r: "r \<in> csd_refs (cst_commit st)" and sub: "\<And>votes. get_reject_votes cs r = Some votes \<Longrightarrow> set ts \<subseteq> fst ` set votes"
      using ok m unfolding state_ok_def pending_ok_def by blast+
    then obtain votes where votes: "get_reject_votes cs r = Some votes" using ok by (auto simp: state_ok_def)
    have "map_of votes idx \<noteq> None" if "idx \<in> set ts" for idx using sub [OF votes] that by (auto simp: map_of_eq_None_iff)
    then have "\<exists>ys. filter_opt (\<lambda>idx. map_option (\<lambda>stake. \<not> stake < c_quorum_threshold ?c) (map_of votes idx)) ts = Some ys"
      by (simp add: filter_opt_Some)
    then show ?thesis using votes by (auto simp: late_rejected_def)
  qed
  then obtain rej where "map_opt (late_rejected ?c cs) (cst_pending_transactions st) = Some rej"
    using map_opt_total [of "cst_pending_transactions st" "late_rejected ?c cs"] by fastforce
  moreover have "kept ?c cs st (fold reject_pending ps st)" for ps by (rule fold_kept) (rule kept_reject_pending)
  ultimately show ?thesis using p
    by (intro exI [of _ "fold reject_pending (filter (\<lambda>(_, ts). ts \<noteq> []) rej) st"])
      (simp add: check_pending_transactions_in_first_commit_def)
qed

definition gc_rounds_of :: "dag_state \<Rightarrow> committed_sub_dag list \<Rightarrow> (CommitIndex \<times> Round) list" where
  "gc_rounds_of d xs = map (\<lambda>x. (csd_index x, calculate_gc_round d (br_round (csd_leader x)))) xs"

text \<open>The check of the votes of a block of commit \<open>y\<close> on a block of the first commit finds its entry.\<close>

lemma gced_of:
  assumes ok: "commits_ok (x # xs)" and y: "y \<in> set (x # xs)"
  shows "gced_transaction_votes_for_pending_block (gc_rounds_of d (x # xs)) round (csd_index x) (csd_index y) \<noteq> None"
proof -
  obtain i where i: "i < length (x # xs)" "y = (x # xs) ! i" using y by (metis in_set_conv_nth)
  then have idx: "csd_index y = csd_index x + i" using commits_ok_index [OF ok i(1)] by simp
  show ?thesis
  proof (cases i)
    case (Suc j)
    then have "vec_get (gc_rounds_of d (x # xs)) j = Some (csd_index x + j, calculate_gc_round d (br_round (csd_leader ((x # xs) ! j))))"
      using i(1) commits_ok_index [OF ok, of j] by (simp add: gc_rounds_of_def del: list.map)
    then show ?thesis using idx Suc by (simp add: gced_transaction_votes_for_pending_block_def vec_get_def)
  qed (use idx in \<open>simp add: gced_transaction_votes_for_pending_block_def\<close>)
qed

lemma first_commit_traversable:
  assumes wf: "committee_wf c" and g: "graph_ok (x # xs) blocks" and ok: "commits_ok (x # xs)" "\<forall>y \<in> set (x # xs). commit_blocks_ok c y"
    and r: "r \<in> csd_refs x"
  shows "\<exists>st. btm_get blocks r = Some st \<and> bs_commit_index st = csd_index x \<and>
     traversable c blocks (gced_transaction_votes_for_pending_block (gc_rounds_of d (x # xs)) round (csd_index x))"
proof -
  have "r \<in> set (btm_keys blocks)" using g r by (simp add: graph_ok_def)
  then obtain st where st: "btm_get blocks r = Some st" by (auto simp: btm_key_get)
  have "linked_block (x # xs) r st" using g st by (simp add: graph_ok_def)
  then obtain y where y: "y \<in> set (x # xs)" "r \<in> csd_refs y" "bs_commit_index st = csd_index y"
    unfolding linked_block_def csd_refs_def by blast
  then have "y = x \<or> y \<in> set xs" by simp
  then have "y = x" using commits_ok_Cons [OF ok(1)] r y(2) by blast
  moreover have "traversable c blocks (gced_transaction_votes_for_pending_block (gc_rounds_of d (x # xs)) round (csd_index x))"
    unfolding traversable_def
  proof (intro allI impI conjI)
    fix q s assume s: "btm_get blocks q = Some s"
    show "br_author q < committee_size c" using entry_ancestors [OF wf g ok(2) s] by blast
    have l: "linked_block (x # xs) q s" using g s by (simp add: graph_ok_def)
    then obtain z where "z \<in> set (x # xs)" "bs_commit_index s = csd_index z" unfolding linked_block_def by blast
    then show "gced_transaction_votes_for_pending_block (gc_rounds_of d (x # xs)) round (csd_index x) (bs_commit_index s) \<noteq> None"
      using gced_of [OF ok(1)] by simp
    have "set (btm_keys blocks) = (\<Union>x \<in> set (x # xs). csd_refs x)" using g by (simp only: graph_ok_def)
    then show "set (bs_children s) \<subseteq> set (btm_keys blocks)" using l unfolding linked_block_def by auto
  qed
  ultimately show ?thesis using st y(3) by simp
qed

lemma indirect_finalize_total:
  assumes wf: "committee_wf (ctx_committee (cf_context f))" and p: "cf_pending_commits f = st # sts"
    and g: "graph_ok (map cst_commit (st # sts)) (cf_blocks f)" and ok: "commits_ok (map cst_commit (st # sts))"
    and s: "\<forall>s \<in> set (st # sts). state_ok (ctx_committee (cf_context f)) cs s"
  shows "\<exists>st'. try_indirect_finalize_pending_transactions_in_first_commit d f = Some (f\<lparr>cf_pending_commits := st' # sts\<rparr>) \<and>
     kept (ctx_committee (cf_context f)) cs st st'"
proof -
  let ?c = "ctx_committee (cf_context f)" and ?x = "cst_commit st" and ?xs = "map cst_commit sts"
  let ?run = "\<lambda>(r, ts). map_option (Pair r) (try_indirect_finalize_pending_transactions_in_block ?c
      (cf_skip_gced_accept_votes f) (cf_blocks f) (gc_rounds_of d (?x # ?xs)) r ts)"
  have blocks_ok: "\<forall>y \<in> set (?x # ?xs). commit_blocks_ok ?c y" using s by (auto simp: state_ok_def)
  have "?run (r, ts) \<noteq> None" if m: "(r, ts) \<in> set (cst_pending_transactions st)" for r ts
  proof -
    have "r \<in> csd_refs ?x" using s m unfolding state_ok_def pending_ok_def by auto
    then obtain b where b: "btm_get (cf_blocks f) r = Some b" "bs_commit_index b = csd_index ?x"
        "traversable ?c (cf_blocks f) (gced_transaction_votes_for_pending_block (gc_rounds_of d (?x # ?xs)) (br_round r) (csd_index ?x))"
      using first_commit_traversable [OF wf _ _ blocks_ok] g ok by fastforce
    then show ?thesis using finalize_in_block_spec [OF wf b(3) [folded b(2)] b(1)] by fastforce
  qed
  then obtain fin where "map_opt ?run (cst_pending_transactions st) = Some fin"
    using map_opt_total [of "cst_pending_transactions st" ?run] by fastforce
  moreover have "kept ?c cs st (fold (\<lambda>(r, ts). remove_pending_transactions r ts) ps st)" for ps
    by (rule fold_kept) (auto simp: kept_remove)
  ultimately show ?thesis using p
    by (intro exI [of _ "fold (\<lambda>(r, ts). remove_pending_transactions r ts) (filter (\<lambda>(_, ts). ts \<noteq> []) fin) st"])
      (simp add: try_indirect_finalize_pending_transactions_in_first_commit_def gc_rounds_of_def comp_def)
qed

lemma indirect_first_total:
  assumes wf: "committee_wf (ctx_committee (cf_context f))" and p: "cf_pending_commits f = st # sts" "cst_pending_blocks st = []"
    and g: "graph_ok (map cst_commit (st # sts)) (cf_blocks f)" and ok: "commits_ok (map cst_commit (st # sts))"
    and s: "\<forall>s \<in> set (st # sts). state_ok (ctx_committee (cf_context f)) cs s"
  shows "\<exists>st'. try_indirect_finalize_first_commit d cs f = Some (f\<lparr>cf_pending_commits := st' # sts\<rparr>) \<and>
     kept (ctx_committee (cf_context f)) cs st st' \<and>
     (u32_add (leader_round st) 3 \<le> leader_round (last (st # sts)) \<longrightarrow> cst_pending_transactions st' = [])"
proof -
  let ?c = "ctx_committee (cf_context f)"
  obtain st1 where 1: "check_pending_transactions_in_first_commit cs f = Some (f\<lparr>cf_pending_commits := st1 # sts\<rparr>)" "kept ?c cs st st1"
    using check_pending_total [OF p(1), of cs] s by auto
  let ?f1 = "f\<lparr>cf_pending_commits := st1 # sts\<rparr>"
  obtain st2 where 2: "try_indirect_finalize_pending_transactions_in_first_commit d ?f1 = Some (?f1\<lparr>cf_pending_commits := st2 # sts\<rparr>)"
      "kept ?c cs st1 st2"
    using indirect_finalize_total [of ?f1 st1 sts cs d] wf g ok s 1(2) by (auto simp: kept_def)
  have k: "kept ?c cs st st2" using kept_trans [OF 1(2) 2(2)] .
  have last: "leader_round (last (st2 # sts)) = leader_round (last (st # sts))" using k by (simp add: kept_def)
  let ?st3 = "st2\<lparr>cst_pending_transactions := [], cst_rejected_transactions :=
      fold (\<lambda>(r, ts). add_transactions r ts) (cst_pending_transactions st2) (cst_rejected_transactions st2)\<rparr>"
  have k3: "kept ?c cs st ?st3" using k by (auto simp: kept_def state_ok_def pending_ok_def)
  have "try_indirect_finalize_first_commit d cs f = try_indirect_reject_pending_transactions_in_first_commit (?f1\<lparr>cf_pending_commits := st2 # sts\<rparr>)"
    using p 1(1) 2(1) by (simp add: try_indirect_finalize_first_commit_def)
  also have "\<dots> = Some (f\<lparr>cf_pending_commits := (if u32_add (leader_round st) 3 \<le> leader_round (last (st # sts)) then ?st3 else st2) # sts\<rparr>)"
    using last k p(2) by (simp add: try_indirect_reject_pending_transactions_in_first_commit_def kept_def)
  finally show ?thesis using k k3 by (intro exI [of _ "if u32_add (leader_round st) 3 \<le> leader_round (last (st # sts)) then ?st3 else st2"]) auto
qed

subsection \<open>Processing a commit\<close>

definition buffer_ok :: "committee \<Rightarrow> certifier_state \<Rightarrow> commit_state list \<Rightarrow> (block_ref, block_state) btree_map \<Rightarrow> bool" where
  "buffer_ok c cs sts blocks \<longleftrightarrow> (\<forall>st \<in> set sts. state_ok c cs st) \<and>
     commits_ok (map cst_commit sts) \<and> graph_ok (map cst_commit sts) blocks"

definition finalizer_inv :: "certifier_state \<Rightarrow> commit_finalizer \<Rightarrow> bool" where
  "finalizer_inv cs f \<longleftrightarrow> buffer_ok (ctx_committee (cf_context f)) cs (cf_pending_commits f) (cf_blocks f) \<and>
     (cf_pending_commits f \<noteq> [] \<longrightarrow>
        cf_last_processed_commit f = Some (csd_index (cst_commit (last (cf_pending_commits f)))))"

definition unrejected :: "committed_sub_dag \<Rightarrow> committed_sub_dag" where
  "unrejected x = x\<lparr>csd_rejected_transactions_by_block := []\<rparr>"

abbreviation (input) buffered :: "commit_state list \<Rightarrow> committed_sub_dag list" where
  "buffered sts \<equiv> map (\<lambda>st. unrejected (cst_commit st)) sts"

lemma unrejected_output [simp]: "unrejected (finalized_output st) = unrejected (cst_commit st)"
  by (simp add: unrejected_def finalized_output_def)

lemma unrejected_sel [simp]: "csd_commit_ref (unrejected x) = csd_commit_ref x" "csd_leader (unrejected x) = csd_leader x"
  by (simp_all add: unrejected_def)

lemma buffer_ok_drop:
  assumes "buffer_ok c cs (pre @ sts) blocks"
  shows "buffer_ok c cs sts (remove_commits (map cst_commit pre) blocks)"
  using assms graph_ok_remove [of "map cst_commit pre" "map cst_commit sts" blocks] commits_ok_drop [of "map cst_commit pre" "map cst_commit sts"]
  by (simp add: buffer_ok_def)

lemma pop_split:
  obtains pre where "sts = pre @ dropWhile (\<lambda>st. \<not> undecided st) sts" "\<forall>st \<in> set pre. \<not> undecided st"
    "pop_finalized sts blocks = (map finalized_output pre, dropWhile (\<lambda>st. \<not> undecided st) sts, remove_commits (map cst_commit pre) blocks)"
  using that [of "takeWhile (\<lambda>st. \<not> undecided st) sts"] by (auto simp: pop_finalized_spec dest: set_takeWhileD)

lemma direct_done_drop: "\<forall>st \<in> set pre. \<not> undecided st \<Longrightarrow> direct_done l (pre @ sts) \<Longrightarrow> direct_done l sts"
  using direct_done_append [of pre l sts] by (simp add: undecided_def)

lemma direct_done_head: "direct_done l (st # sts) \<Longrightarrow> cst_pending_blocks st \<noteq> [] \<Longrightarrow> l < u32_add (leader_round st) 3"
  by (simp add: direct_done_def)

lemma direct_done_replace:
  "cst_pending_blocks st' = cst_pending_blocks st \<Longrightarrow> cst_commit st' = cst_commit st \<Longrightarrow> direct_done l (st' # sts) = direct_done l (st # sts)"
  by (simp add: direct_done_def)

text \<open>Why the loop stops: one commit is left, or the first is less than three rounds below the last.\<close>

definition held_back :: "Round \<Rightarrow> commit_state list \<Rightarrow> bool" where
  "held_back l sts \<longleftrightarrow> (case sts of [] \<Rightarrow> True | [_] \<Rightarrow> True | st # _ \<Rightarrow> l < u32_add (leader_round st) 3)"

lemma finalize_loop_total:
  assumes wf: "committee_wf (ctx_committee (cf_context f))"
    and "buffer_ok (ctx_committee (cf_context f)) cs (cf_pending_commits f) (cf_blocks f)"
    and "direct_done l (cf_pending_commits f)" "cf_pending_commits f \<noteq> [] \<longrightarrow> leader_round (last (cf_pending_commits f)) = l"
    and "length (cf_pending_commits f) < fuel"
  shows "\<exists>out sts blocks. finalize_loop fuel d cs f = Some (out, f\<lparr>cf_pending_commits := sts, cf_blocks := blocks\<rparr>) \<and>
     buffer_ok (ctx_committee (cf_context f)) cs sts blocks \<and>
     map unrejected out @ buffered sts = buffered (cf_pending_commits f) \<and> held_back l sts"
  using assms
proof (induction fuel arbitrary: f)
  case (Suc fuel)
  let ?c = "ctx_committee (cf_context f)"
  have triv: ?case if "finalize_loop (Suc fuel) d cs f = Some ([], f)" "held_back l (cf_pending_commits f)"
    using that Suc.prems(2) by (intro exI [of _ "[]"] exI [of _ "cf_pending_commits f"] exI [of _ "cf_blocks f"]) simp
  consider (short) "cf_pending_commits f = [] \<or> (\<exists>st. cf_pending_commits f = [st])"
    | (long) st st1 sts where "cf_pending_commits f = st # st1 # sts" by (metis neq_Nil_conv)
  then show ?case
  proof cases
    case short
    then show ?thesis by (intro triv) (auto simp: held_back_def)
  next
    case long
    let ?rest = "st1 # sts"
    show ?thesis
    proof (cases "cst_pending_blocks st = []")
      case False
      then show ?thesis using long direct_done_head [of l st ?rest] Suc.prems(3) by (intro triv) (auto simp: held_back_def)
    next
      case True
      obtain st' where st': "try_indirect_finalize_first_commit d cs f = Some (f\<lparr>cf_pending_commits := st' # ?rest\<rparr>)"
          "kept ?c cs st st'" "u32_add (leader_round st) 3 \<le> leader_round (last (st # ?rest)) \<longrightarrow> cst_pending_transactions st' = []"
        using indirect_first_total [OF Suc.prems(1) long True, of cs d] Suc.prems(2) by (auto simp: buffer_ok_def long)
      have b: "buffer_ok ?c cs (st' # ?rest) (cf_blocks f)" using Suc.prems(2) st'(2) by (simp add: buffer_ok_def long kept_def)
      have dd: "direct_done l (st' # ?rest)" using Suc.prems(3) st'(2) direct_done_replace [of st' st l ?rest] by (simp add: long kept_def)
      obtain pre where pre: "st' # ?rest = pre @ dropWhile (\<lambda>st. \<not> undecided st) (st' # ?rest)" "\<forall>st \<in> set pre. \<not> undecided st"
          "pop_finalized (st' # ?rest) (cf_blocks f) = (map finalized_output pre, dropWhile (\<lambda>st. \<not> undecided st) (st' # ?rest),
             remove_commits (map cst_commit pre) (cf_blocks f))" by (rule pop_split)
      let ?sts = "dropWhile (\<lambda>st. \<not> undecided st) (st' # ?rest)" and ?blocks = "remove_commits (map cst_commit pre) (cf_blocks f)"
      let ?f = "f\<lparr>cf_pending_commits := ?sts, cf_blocks := ?blocks\<rparr>"
      have pop: "pop_finalized_commits (f\<lparr>cf_pending_commits := st' # ?rest\<rparr>) = (map finalized_output pre, ?f)"
        using pre(3) by (simp add: pop_finalized_commits_def)
      have order: "buffered pre @ buffered ?sts = buffered (cf_pending_commits f)"
        using arg_cong [OF pre(1), of buffered] st'(2) by (simp add: long kept_def)
      show ?thesis
      proof (cases "pre = []")
        case True': True
        then have "undecided st'" using pre(1) by (metis append_Nil dropWhile.simps(2) hd_dropWhile list.distinct(1) list.sel(1))
        then have "held_back l (st' # ?rest)"
          using st'(2,3) True Suc.prems(4) by (auto simp: held_back_def undecided_def kept_def long not_le [symmetric])
        moreover have eq: "?sts = st' # ?rest" using True' pre(1) by simp
        moreover have "finalize_loop (Suc fuel) d cs f = Some ([], ?f)" using long True st'(1) pop True' by simp
        ultimately show ?thesis using b order True'
          by (intro exI [of _ "[]"] exI [of _ "st' # ?rest"] exI [of _ "cf_blocks f"]) (simp add: remove_commits_def)
      next
        case False
        have "length ?sts < fuel" using arg_cong [OF pre(1), of length] False Suc.prems(5) by (cases pre) (auto simp: long)
        moreover have "buffer_ok ?c cs ?sts ?blocks" using b pre(1) buffer_ok_drop [of ?c cs pre ?sts] by simp
        moreover have "direct_done l ?sts" using direct_done_drop [OF pre(2)] dd pre(1) by metis
        moreover have "leader_round (last ?sts) = l" if "?sts \<noteq> []"
        proof -
          have "last ?sts = last (st' # ?rest)" using pre(1) that by (metis last_appendR)
          then show ?thesis using Suc.prems(4) by (simp add: long)
        qed
        ultimately obtain out sts' blocks' where IH: "finalize_loop fuel d cs ?f
              = Some (out, ?f\<lparr>cf_pending_commits := sts', cf_blocks := blocks'\<rparr>)" "buffer_ok ?c cs sts' blocks'"
            "map unrejected out @ buffered sts' = buffered ?sts" "held_back l sts'"
          using Suc.IH [of ?f] Suc.prems(1) by auto
        have "finalize_loop (Suc fuel) d cs f
            = Some (map finalized_output pre @ out, f\<lparr>cf_pending_commits := sts', cf_blocks := blocks'\<rparr>)"
          using long True st'(1) pop False IH(1) by simp
        moreover have "map unrejected (map finalized_output pre @ out) @ buffered sts' = buffered (cf_pending_commits f)"
          using IH(3) order by (simp add: comp_def)
        ultimately show ?thesis using IH(2,4) by blast
      qed
    qed
  qed
qed simp

text \<open>The next commit: its number follows, its blocks are valid, not in a pending commit, and known to the certifier.\<close>

definition next_commit :: "certifier_state \<Rightarrow> commit_finalizer \<Rightarrow> committed_sub_dag \<Rightarrow> bool" where
  "next_commit cs f x \<longleftrightarrow> commit_blocks_ok (ctx_committee (cf_context f)) x \<and> csd_index x < 2 ^ 32 \<and>
     (\<forall>i. cf_last_processed_commit f = Some i \<longrightarrow> csd_index x = Suc i) \<and>
     (\<forall>st \<in> set (cf_pending_commits f). csd_refs (cst_commit st) \<inter> csd_refs x = {}) \<and>
     (\<forall>r \<in> csd_refs x. get_reject_votes cs r \<noteq> None)"

lemma pending_blocks_keys:
  "set (btm_keys (fold (\<lambda>b. btm_insert (vb_reference b) (n b)) bs m)) = vb_reference ` set bs \<union> set (btm_keys m)"
  by (induction bs arbitrary: m) (auto simp: btree_simps)

lemma commit_state_new_ok:
  assumes "commit_blocks_ok c x" "\<forall>r \<in> csd_refs x. get_reject_votes cs r \<noteq> None"
  shows "\<exists>st. commit_state_new x = Some st \<and> cst_commit st = x \<and> state_ok c cs st"
proof -
  let ?m = "fold (\<lambda>b. btm_insert (vb_reference b) (length (block_transactions (sb_inner (vb_block b))))) (csd_blocks x) []"
  have keys: "set (btm_keys ?m) = csd_refs x" by (simp add: pending_blocks_keys csd_refs_def)
  then have "?m \<noteq> []" using assms(1) by (auto simp: commit_blocks_ok_def csd_refs_def)
  then show ?thesis using assms keys by (simp add: commit_state_new_def Let_def state_ok_def pending_ok_def)
qed

lemma commits_ok_last: "commits_ok xs \<Longrightarrow> y \<in> set xs \<Longrightarrow> csd_index y \<le> csd_index (last xs)"
proof (induction xs)
  case (Cons x xs)
  then show ?case using commits_ok_Cons [OF Cons.prems(1)] last_in_set [of xs] by (cases "xs = []") (auto intro: less_imp_le)
qed simp

lemma remove_commits_Nil: "remove_commits xs [] = []"
proof -
  have "fold (\<lambda>b. btm_remove (vb_reference b)) bs ([] :: (block_ref, block_state) btree_map) = []" for bs :: "verified_block list"
    by (induction bs) (simp_all add: btm_remove_def)
  then show ?thesis by (induction xs) (simp_all add: remove_commits_def)
qed

lemma link_last_total:
  assumes wf: "committee_wf (ctx_committee (cf_context f))" and g: "graph_ok (map cst_commit sts) (cf_blocks f)"
    and p: "cf_pending_commits f = sts @ [st]" and ok: "commits_ok (map cst_commit (sts @ [st]))"
    and s: "\<forall>s \<in> set (sts @ [st]). state_ok (ctx_committee (cf_context f)) cs s"
  shows "\<exists>blocks. Option.bind (link_blocks_in_last_commit f) append_origin_descendants_from_last_commit = Some (f\<lparr>cf_blocks := blocks\<rparr>) \<and>
     graph_ok (map cst_commit (sts @ [st])) blocks"
proof -
  let ?c = "ctx_committee (cf_context f)" and ?x = "cst_commit st" and ?xs = "map cst_commit (sts @ [st])"
  let ?blocks = "fold (link_block (csd_index ?x)) (sort_key vb_round (csd_blocks ?x)) (cf_blocks f)"
  have "\<forall>y \<in> set (map cst_commit sts). csd_index y \<le> csd_index ?x" using commits_ok_last [OF ok] by auto
  then have "graph_ok ?xs ?blocks" using graph_ok_link [OF g, of ?x] by simp
  moreover have "\<forall>x \<in> set ?xs. commit_blocks_ok ?c x" using s by (auto simp: state_ok_def)
  ultimately obtain blocks where "fold_opt append_origin_descendants (sort_key vb_round (csd_blocks ?x)) ?blocks = Some blocks"
      "graph_ok ?xs blocks" using append_origin_total [OF wf, of ?xs ?x ?blocks] by auto
  then show ?thesis using p
    by (intro exI [of _ blocks]) (simp add: link_blocks_in_last_commit_def append_origin_descendants_from_last_commit_def Let_def)
qed

lemma process_commit_total:
  assumes wf: "committee_wf (ctx_committee (cf_context f))" and inv: "finalizer_inv cs f" and x: "next_commit cs f x"
  shows "\<exists>out f'. process_commit d cs f x = Some (out, f') \<and> cf_context f' = cf_context f \<and> finalizer_inv cs f' \<and>
     cf_last_processed_commit f' = Some (csd_index x) \<and>
     map unrejected out @ buffered (cf_pending_commits f') = buffered (cf_pending_commits f) @ [unrejected x] \<and>
     held_back (br_round (csd_leader x)) (cf_pending_commits f')"
proof -
  let ?c = "ctx_committee (cf_context f)" and ?sts = "cf_pending_commits f" and ?l = "br_round (csd_leader x)"
  have idx: "\<not> (case cf_last_processed_commit f of None \<Rightarrow> False | Some prev \<Rightarrow> u32_add prev 1 \<noteq> csd_index x)"
    using x by (auto simp: next_commit_def u32_add_eq split: option.splits)
  have B: "buffer_ok ?c cs ?sts (cf_blocks f)" using inv by (simp add: finalizer_inv_def)
  obtain st where st: "commit_state_new x = Some st" "cst_commit st = x" "state_ok ?c cs st"
    using commit_state_new_ok [of ?c x cs] x by (auto simp: next_commit_def)
  have ok: "commits_ok (map cst_commit ?sts @ [x])"
    by (rule commits_ok_snoc) (use inv x B in \<open>auto simp: finalizer_inv_def next_commit_def buffer_ok_def last_map\<close>)
  let ?f = "f\<lparr>cf_last_processed_commit := Some (csd_index x), cf_pending_commits := ?sts @ [st]\<rparr>"
  obtain sts1 where d: "direct_loop cs [0..<length (?sts @ [st])] ?f = Some (?f\<lparr>cf_pending_commits := sts1\<rparr>)"
      "map cst_commit sts1 = map cst_commit ?sts @ [x]" "\<forall>s \<in> set sts1. state_ok ?c cs s" "direct_done ?l sts1"
    using direct_loop_total [of ?f "[]" "?sts @ [st]" cs] B st by (auto simp: buffer_ok_def)
  obtain pre where pre: "sts1 = pre @ dropWhile (\<lambda>st. \<not> undecided st) sts1" "\<forall>st \<in> set pre. \<not> undecided st"
      "pop_finalized sts1 (cf_blocks f) = (map finalized_output pre, dropWhile (\<lambda>st. \<not> undecided st) sts1,
         remove_commits (map cst_commit pre) (cf_blocks f))" by (rule pop_split)
  define sts2 where "sts2 = dropWhile (\<lambda>st. \<not> undecided st) sts1"
  note pre = pre [folded sts2_def]
  let ?blocks = "remove_commits (map cst_commit pre) (cf_blocks f)"
  let ?f2 = "?f\<lparr>cf_pending_commits := sts2, cf_blocks := ?blocks\<rparr>"
  have pop: "pop_finalized_commits (?f\<lparr>cf_pending_commits := sts1\<rparr>) = (map finalized_output pre, ?f2)"
    using pre(3) by (simp add: pop_finalized_commits_def)
  have order: "buffered pre @ buffered sts2 = buffered ?sts @ [unrejected x]"
    using arg_cong [OF d(2), of "map unrejected"] pre(1) by (metis (no_types, lifting) list.map_comp map_append list.map comp_def map_eq_conv)
  have split: "map cst_commit pre @ map cst_commit sts2 = map cst_commit ?sts @ [x]" using d(2) pre(1) by (metis map_append)
  show ?thesis
  proof (cases "sts2 = []")
    case True
    then have "?blocks = remove_commits [x] (remove_commits (map cst_commit ?sts) (cf_blocks f))"
      using split by (simp add: remove_commits_def)
    also have "remove_commits (map cst_commit ?sts) (cf_blocks f) = []"
      using graph_ok_remove [of "map cst_commit ?sts" "[]" "cf_blocks f"] B by (simp add: buffer_ok_def graph_ok_empty)
    finally have "?blocks = []" by (simp add: remove_commits_Nil)
    moreover have "process_commit d cs f x = Some (map finalized_output pre, ?f2)"
      using idx st(1) d(1) pop True by (simp add: process_commit_def Let_def del: finalize_loop.simps)
    ultimately show ?thesis using order True
      by (simp add: finalizer_inv_def buffer_ok_def graph_ok_empty held_back_def comp_def)
  next
    case False
    then obtain sts3 st3 where s3: "sts2 = sts3 @ [st3]" by (metis append_butlast_last_id)
    then have s3': "map cst_commit ?sts = map cst_commit pre @ map cst_commit sts3" "cst_commit st3 = x" using split by auto
    have g: "graph_ok (map cst_commit sts3) ?blocks" and ok2: "commits_ok (map cst_commit (sts3 @ [st3]))"
      using graph_ok_remove [of "map cst_commit pre" "map cst_commit sts3"] commits_ok_drop [of "map cst_commit pre"] B ok s3'
      by (auto simp: buffer_ok_def)
    have s: "\<forall>s \<in> set (sts3 @ [st3]). state_ok ?c cs s" using d(3) pre(1) s3 by (metis Un_iff set_append)
    obtain blocks where link: "Option.bind (link_blocks_in_last_commit ?f2) append_origin_descendants_from_last_commit = Some (?f2\<lparr>cf_blocks := blocks\<rparr>)"
        "graph_ok (map cst_commit (sts3 @ [st3])) blocks"
      using link_last_total [of ?f2 sts3 st3 cs] wf g ok2 s s3 by auto
    then obtain fl where fl: "link_blocks_in_last_commit ?f2 = Some fl"
        "append_origin_descendants_from_last_commit fl = Some (?f2\<lparr>cf_blocks := blocks\<rparr>)" by (auto split: bind_splits)
    let ?f3 = "?f2\<lparr>cf_blocks := blocks\<rparr>"
    have b3: "buffer_ok ?c cs sts2 blocks" using s ok2 link(2) s3 by (simp add: buffer_ok_def)
    moreover have "direct_done ?l sts2" using direct_done_drop [OF pre(2)] d(4) pre(1) by metis
    moreover have "leader_round (last sts2) = ?l" using s3 s3'(2) by simp
    ultimately obtain out sts blocks' where loop: "finalize_loop (Suc (length sts2)) d cs ?f3
          = Some (out, ?f3\<lparr>cf_pending_commits := sts, cf_blocks := blocks'\<rparr>)" "buffer_ok ?c cs sts blocks'"
        "map unrejected out @ buffered sts = buffered sts2" "held_back ?l sts"
      using finalize_loop_total [of ?f3 cs ?l "Suc (length sts2)" d] wf by auto
    let ?f4 = "?f3\<lparr>cf_pending_commits := sts, cf_blocks := blocks'\<rparr>"
    have "process_commit d cs f x = Some (map finalized_output pre @ out, ?f4)"
      using idx st(1) d(1) pop False loop(1) fl by (simp add: process_commit_def Let_def del: finalize_loop.simps)
    moreover have "map unrejected (map finalized_output pre @ out) @ buffered sts = buffered ?sts @ [unrejected x]"
      using order loop(3) by (simp add: comp_def)
    moreover have "csd_index (cst_commit (last sts)) = csd_index x" if "sts \<noteq> []"
    proof -
      have "last (map unrejected out @ buffered sts) = unrejected (cst_commit st3)" using loop(3) s3 by simp
      then have "unrejected (cst_commit (last sts)) = unrejected x" using that s3'(2) by (simp add: last_map)
      from arg_cong [OF this, of csd_commit_ref] show ?thesis by simp
    qed
    ultimately show ?thesis using loop(2,4) by (simp add: finalizer_inv_def)
  qed
qed

subsection \<open>Order, delay and soundness\<close>

text \<open>C21: Processing the next commit does not panic.  The commits sent out and the ones still buffered are,
  apart from the rejected transactions recorded in them, the buffered commits followed by the new one:
  no commit is lost, duplicated or overtaken.  The invariant of the buffer and of the links between
  its blocks is kept.  The new commit is one that the linearizer produces next (\<open>next_commit\<close>): its
  index follows the last processed one, and its blocks are valid, in no buffered commit and known to the certifier.
\<close>

theorem finalizer_sends_in_order:
  assumes "committee_wf (ctx_committee (cf_context f))" "finalizer_inv cs f" "next_commit cs f x"
  shows "\<exists>out f'. process_commit d cs f x = Some (out, f') \<and> finalizer_inv cs f' \<and>
     map unrejected out @ buffered (cf_pending_commits f') = buffered (cf_pending_commits f) @ [unrejected x]"
  using process_commit_total [OF assms, of d] by blast

lemma strict_sorted_short:
  assumes "sorted_wrt (<) (rs :: nat list)" "rs \<noteq> []" "last rs < hd rs + 3"
  shows "length rs \<le> 3"
proof -
  have "set rs \<subseteq> {hd rs..<hd rs + 3}"
  proof
    fix r assume "r \<in> set rs"
    then obtain pre post where "rs = pre @ r # post" by (metis split_list)
    then have "hd rs \<le> r" "r \<le> last rs" using assms(1) by (cases pre; auto simp: sorted_wrt_append intro: less_imp_le)+
    then show "r \<in> {hd rs..<hd rs + 3}" using assms(3) by simp
  qed
  then have "card (set rs) \<le> 3" using card_mono [of "{hd rs..<hd rs + 3}" "set rs"] by simp
  then show ?thesis using assms(1) by (simp add: strict_sorted_iff distinct_card)
qed

lemma held_back_rounds:
  assumes h: "held_back l sts" and sorted: "sorted_wrt (<) (map leader_round sts)" and last: "sts \<noteq> [] \<Longrightarrow> leader_round (last sts) = l"
    and l: "l + 3 < 2 ^ 32" and st: "st \<in> set sts"
  shows "l < leader_round st + 3" "length sts \<le> 3"
proof -
  obtain s rest where s: "sts = s # rest" using st by (cases sts) auto
  have le: "leader_round s \<le> leader_round q" if "q \<in> set sts" for q using that sorted by (auto simp: s intro: less_imp_le)
  have "l < leader_round s + 3"
  proof (cases rest)
    case Nil
    then show ?thesis using last by (simp add: s)
  next
    case (Cons q qs)
    have "leader_round s \<le> l" using le [of "last sts"] last s by simp
    then show ?thesis using h l by (simp add: s Cons held_back_def u32_add_eq)
  qed
  then show "l < leader_round st + 3" using le [OF st] by simp
  show "length sts \<le> 3"
    using strict_sorted_short [OF sorted] \<open>l < leader_round s + 3\<close> last by (auto simp: s last_map split: if_splits)
qed

text \<open>C22: When the leader rounds of the commits increase, a commit is held back for less than three
  rounds: processing the next commit sends out every buffered commit whose leader is three rounds or
  more below the new leader, and leaves at most three commits in the buffer.
\<close>

theorem finalizer_delay_bounded:
  assumes wf: "committee_wf (ctx_committee (cf_context f))" and inv: "finalizer_inv cs f" and x: "next_commit cs f x"
    and rounds: "sorted_wrt (<) (map (\<lambda>st. br_round (csd_leader (cst_commit st))) (cf_pending_commits f) @ [br_round (csd_leader x)])"
    and small: "br_round (csd_leader x) + 3 < 2 ^ 32"
  shows "\<exists>out f'. process_commit d cs f x = Some (out, f') \<and> length (cf_pending_commits f') \<le> 3 \<and>
     (\<forall>st \<in> set (cf_pending_commits f). br_round (csd_leader (cst_commit st)) + 3 \<le> br_round (csd_leader x) \<longrightarrow>
        unrejected (cst_commit st) \<in> unrejected ` set out)"
proof -
  obtain out f' where p: "process_commit d cs f x = Some (out, f')"
      and order: "map unrejected out @ buffered (cf_pending_commits f') = buffered (cf_pending_commits f) @ [unrejected x]"
      and h: "held_back (br_round (csd_leader x)) (cf_pending_commits f')"
    using process_commit_total [OF assms(1-3), of d] by blast
  let ?l = "br_round (csd_leader x)" and ?sts = "cf_pending_commits f'"
  have "map (\<lambda>y. br_round (csd_leader y)) out @ map leader_round ?sts = map leader_round (cf_pending_commits f) @ [?l]"
    using arg_cong [OF order, of "map (\<lambda>y. br_round (csd_leader y))"] by (simp add: comp_def)
  then have sorted: "sorted_wrt (<) (map leader_round ?sts)" and last: "?sts \<noteq> [] \<Longrightarrow> leader_round (last ?sts) = ?l"
    using rounds by (metis sorted_wrt_append, metis last_appendR last_map last_snoc map_is_Nil_conv)
  have "unrejected (cst_commit st) \<in> unrejected ` set out" if st: "st \<in> set (cf_pending_commits f)" "leader_round st + 3 \<le> ?l" for st
  proof (rule ccontr)
    assume "unrejected (cst_commit st) \<notin> unrejected ` set out"
    then have "unrejected (cst_commit st) \<in> set (buffered ?sts)" using arg_cong [OF order, of set] st(1) by auto
    then obtain q where q: "q \<in> set ?sts" "unrejected (cst_commit q) = unrejected (cst_commit st)" by auto
    from arg_cong [OF q(2), of csd_leader] have "leader_round q = leader_round st" by simp
    then show False using held_back_rounds(1) [OF h sorted last small q(1)] st(2) by simp
  qed
  moreover have "length ?sts \<le> 3" using held_back_rounds(2) [OF h sorted last small] by (cases ?sts) auto
  ultimately show ?thesis using p by blast
qed

text \<open>C23: A transaction of the first buffered commit is only finalized indirectly when a quorum of
  authorities each has a block in the buffer that descends from the block of the transaction, does not
  reject it, and whose votes on the block cannot have been garbage collected; the traversal does not panic.
  This is for the protocol setting \<^verbatim>\<open>consensus_skip_gced_accept_votes\<close> = true.
\<close>

theorem indirect_finalization_quorum:
  assumes wf: "committee_wf c" and ok: "buffer_ok c cs (st # sts) blocks" and r: "r \<in> csd_refs (cst_commit st)"
  shows "\<exists>res. try_indirect_finalize_pending_transactions_in_block c True blocks
       (gc_rounds_of d (map cst_commit (st # sts))) r ts = Some res \<and> set res \<subseteq> set ts \<and>
     (\<forall>idx \<in> set res. reached_quorum c (stake_of c (accept_supporters True blocks
        (gced_transaction_votes_for_pending_block (gc_rounds_of d (map cst_commit (st # sts))) (br_round r)
          (cr_index (csd_commit_ref (cst_commit st)))) r idx)))"
proof -
  let ?x = "cst_commit st" and ?xs = "map cst_commit sts"
  have B: "graph_ok (?x # ?xs) blocks" "commits_ok (?x # ?xs)" "\<forall>y \<in> set (?x # ?xs). commit_blocks_ok c y"
    using ok by (auto simp: buffer_ok_def state_ok_def)
  obtain b where b: "btm_get blocks r = Some b" "bs_commit_index b = csd_index ?x"
      "traversable c blocks (gced_transaction_votes_for_pending_block (gc_rounds_of d (?x # ?xs)) (br_round r) (csd_index ?x))"
    using first_commit_traversable [OF wf B r] by blast
  show ?thesis using finalize_in_block_spec [OF wf b(3) [folded b(2)] b(1), of True ts] b(2) by simp
qed

subsection \<open>Direct finalization\<close>

definition listed :: "(block_ref, TransactionIndex btree_set) btree_map \<Rightarrow> block_ref \<Rightarrow> TransactionIndex \<Rightarrow> bool" where
  "listed m r idx \<longleftrightarrow> (\<exists>ts. btm_get m r = Some ts \<and> idx \<in> set ts)"

lemma listed_add: "listed (add_transactions r ts m) q idx \<longleftrightarrow> listed m q idx \<or> q = r \<and> idx \<in> set ts"
  by (cases "btm_get m r") (auto simp: listed_def add_transactions_def btree_simps set_fold_bts_insert)

lemma finalize_transaction_listed:
  "listed (cst_pending_transactions (finalize_transaction c r (i, stake) st)) q idx \<longleftrightarrow>
     listed (cst_pending_transactions st) q idx \<or> q = r \<and> idx = i \<and> stake < c_quorum_threshold c"
  "listed (cst_rejected_transactions (finalize_transaction c r (i, stake) st)) q idx \<longleftrightarrow>
     listed (cst_rejected_transactions st) q idx \<or> q = r \<and> idx = i \<and> \<not> stake < c_quorum_threshold c"
  by (auto simp: finalize_transaction_def listed_add)

lemma finalize_transactions_listed:
  "listed (cst_pending_transactions (fold (finalize_transaction c r) vs st)) q idx \<longleftrightarrow>
     listed (cst_pending_transactions st) q idx \<or> q = r \<and> (\<exists>stake. (idx, stake) \<in> set vs \<and> stake < c_quorum_threshold c)"
  "listed (cst_rejected_transactions (fold (finalize_transaction c r) vs st)) q idx \<longleftrightarrow>
     listed (cst_rejected_transactions st) q idx \<or> q = r \<and> (\<exists>stake. (idx, stake) \<in> set vs \<and> \<not> stake < c_quorum_threshold c)"
  by (induction vs arbitrary: st) (auto simp: finalize_transaction_listed)

definition reject_stake :: "certifier_state \<Rightarrow> block_ref \<Rightarrow> TransactionIndex \<Rightarrow> Stake \<Rightarrow> bool" where
  "reject_stake cs r idx stake \<longleftrightarrow> (\<exists>votes. get_reject_votes cs r = Some votes \<and> (idx, stake) \<in> set votes)"

lemma finalize_blocks_listed:
  assumes "fold_opt (finalize_block c cs) bs st = Some st'"
  shows "listed (cst_pending_transactions st') q idx \<longleftrightarrow> listed (cst_pending_transactions st) q idx \<or>
       q \<in> fst ` set bs \<and> (\<exists>stake. reject_stake cs q idx stake \<and> stake < c_quorum_threshold c)"
    and "listed (cst_rejected_transactions st') q idx \<longleftrightarrow> listed (cst_rejected_transactions st) q idx \<or>
       q \<in> fst ` set bs \<and> (\<exists>stake. reject_stake cs q idx stake \<and> \<not> stake < c_quorum_threshold c)"
proof -
  have "(listed (cst_pending_transactions st') q idx \<longleftrightarrow> listed (cst_pending_transactions st) q idx \<or>
       q \<in> fst ` set bs \<and> (\<exists>stake. reject_stake cs q idx stake \<and> stake < c_quorum_threshold c)) \<and>
    (listed (cst_rejected_transactions st') q idx \<longleftrightarrow> listed (cst_rejected_transactions st) q idx \<or>
       q \<in> fst ` set bs \<and> (\<exists>stake. reject_stake cs q idx stake \<and> \<not> stake < c_quorum_threshold c))"
    using assms
  proof (induction bs arbitrary: st)
    case (Cons b bs)
    obtain r n where b: "b = (r, n)" by fastforce
    obtain votes where v: "get_reject_votes cs r = Some votes"
        "fold_opt (finalize_block c cs) bs (fold (finalize_transaction c r) votes st) = Some st'"
      using Cons.prems by (auto simp: b finalize_block_def split: option.splits bind_splits)
    have "reject_stake cs r i stake \<longleftrightarrow> (i, stake) \<in> set votes" for i stake using v(1) by (simp add: reject_stake_def)
    then show ?case using Cons.IH [OF v(2)] by (auto simp: b finalize_transactions_listed)
  qed simp
  then show "listed (cst_pending_transactions st') q idx \<longleftrightarrow> listed (cst_pending_transactions st) q idx \<or>
       q \<in> fst ` set bs \<and> (\<exists>stake. reject_stake cs q idx stake \<and> stake < c_quorum_threshold c)"
    "listed (cst_rejected_transactions st') q idx \<longleftrightarrow> listed (cst_rejected_transactions st) q idx \<or>
       q \<in> fst ` set bs \<and> (\<exists>stake. reject_stake cs q idx stake \<and> \<not> stake < c_quorum_threshold c)" by blast+
qed

text \<open>C24: Direct finalization of a new commit succeeds and decides on each transaction of its blocks: with reject
  votes below the quorum it becomes pending, with a quorum of them it is rejected, and without any it
  is finalized, that is neither pending nor rejected.
\<close>

theorem direct_finalize_decides:
  assumes ok: "commit_blocks_ok c x" and votes: "\<forall>b \<in> set (csd_blocks x). get_reject_votes cs (vb_reference b) \<noteq> None"
  shows "\<exists>st st'. commit_state_new x = Some st \<and> direct_finalize c cs st = Some st' \<and> cst_pending_blocks st' = [] \<and>
     (\<forall>b \<in> set (csd_blocks x). \<forall>idx.
        (listed (cst_pending_transactions st') (vb_reference b) idx \<longleftrightarrow>
           (\<exists>stake. reject_stake cs (vb_reference b) idx stake \<and> stake < c_quorum_threshold c)) \<and>
        (listed (cst_rejected_transactions st') (vb_reference b) idx \<longleftrightarrow>
           (\<exists>stake. reject_stake cs (vb_reference b) idx stake \<and> c_quorum_threshold c \<le> stake)))"
proof -
  obtain st where st: "commit_state_new x = Some st" "cst_commit st = x" "state_ok c cs st"
    using commit_state_new_ok [OF ok, of cs] votes by (auto simp: csd_refs_def)
  have new: "cst_pending_transactions st = []" "cst_rejected_transactions st = []" "cst_pending_blocks st \<noteq> []"
      "fst ` set (cst_pending_blocks st) = vb_reference ` set (csd_blocks x)"
    using st(1) pending_blocks_keys [of "\<lambda>b. length (block_transactions (sb_inner (vb_block b)))" "csd_blocks x" "[]"]
    by (simp_all add: commit_state_new_def Let_def btm_keys_def split: if_splits) (hypsubst, simp)+
  obtain st' where st': "direct_finalize c cs st = Some st'" "cst_pending_blocks st' = []"
    using direct_finalize_total [OF st(3) new(3)] by blast
  have f: "fold_opt (finalize_block c cs) (cst_pending_blocks st) (st\<lparr>cst_pending_blocks := []\<rparr>) = Some st'"
    using st'(1) new(3) by (simp add: direct_finalize_def)
  have none: "\<not> listed [] r i" for r i by (simp add: listed_def)
  show ?thesis using st(1) st' finalize_blocks_listed [OF f] by (auto simp: new none not_less)
qed

end
