(* ===== verification/Quorum_Rounds.thy ===== *)
theory Quorum_Rounds
  imports Committer_Spec "HOL-Library.Multiset"
begin

section \<open>Commit votes and quorum rounds\<close>

text \<open>
  \<^verbatim>\<open>core/src/commit_vote_monitor.rs\<close> and \<^verbatim>\<open>core/src/round_tracker.rs\<close>.  Both look for the value a
  quorum of stake reaches: they sort the values with their stakes and add up the stakes until the
  quorum threshold is met, \<open>quorum_pick\<close>.
\<close>

fun quorum_pick :: "Stake \<Rightarrow> Stake \<Rightarrow> nat \<Rightarrow> (nat \<times> Stake) list \<Rightarrow> nat" where
  "quorum_pick threshold total_stake dflt [] = dflt"
| "quorum_pick threshold total_stake dflt ((v, stake) # xs) =
     (let total_stake = u64_add total_stake stake
      in if total_stake \<ge> threshold then v else quorum_pick threshold total_stake dflt xs)"

definition with_stake :: "committee \<Rightarrow> nat list \<Rightarrow> (nat \<times> Stake) list" where
  "with_stake c vs = zip vs (map au_stake (c_authorities c))"

subsection \<open>CommitVoteMonitor\<close>

abbreviation (input) GENESIS_COMMIT_INDEX :: CommitIndex where "GENESIS_COMMIT_INDEX \<equiv> 0"

record commit_vote_monitor =
  cvm_context :: consensus_context
  cvm_highest_voted_commits :: "CommitIndex list"

definition commit_vote_monitor_new :: "consensus_context \<Rightarrow> commit_vote_monitor" where
  "commit_vote_monitor_new ctx =
     \<lparr>cvm_context = ctx, cvm_highest_voted_commits = replicate (committee_size (ctx_committee ctx)) 0\<rparr>"

definition observe_block :: "commit_vote_monitor \<Rightarrow> verified_block \<Rightarrow> commit_vote_monitor option" where
  "observe_block cvm b = do {
     votes \<leftarrow> fold_opt (\<lambda>vote hs. do {
         h \<leftarrow> vec_get hs (vb_author b);
         if cr_index vote > h then vec_set hs (vb_author b) (cr_index vote) else Some hs
       }) (vb_commit_votes b) (cvm_highest_voted_commits cvm);
     Some (cvm\<lparr>cvm_highest_voted_commits := votes\<rparr>)
   }"

definition quorum_commit_index :: "commit_vote_monitor \<Rightarrow> CommitIndex" where
  "quorum_commit_index cvm =
     quorum_pick (c_quorum_threshold (ctx_committee (cvm_context cvm))) 0 GENESIS_COMMIT_INDEX
       (rev (sort (with_stake (ctx_committee (cvm_context cvm)) (cvm_highest_voted_commits cvm))))"

subsection \<open>PeerRoundTracker\<close>

type_synonym quorum_round = "Round \<times> Round"

record peer_round_tracker =
  prt_context :: consensus_context
  prt_block_accepted_rounds :: "Round list list"
  prt_probed_accepted_rounds :: "Round list list"
  prt_probed_received_rounds :: "Round list list"

definition peer_round_tracker_new :: "consensus_context \<Rightarrow> peer_round_tracker" where
  "peer_round_tracker_new ctx =
     (let size = committee_size (ctx_committee ctx); zero = replicate size (replicate size 0)
      in \<lparr>prt_context = ctx, prt_block_accepted_rounds = zero,
          prt_probed_accepted_rounds = zero, prt_probed_received_rounds = zero\<rparr>)"

definition raise_round :: "AuthorityIndex \<Rightarrow> AuthorityIndex \<times> Round \<Rightarrow> Round list list \<Rightarrow> Round list list option" where
  "raise_round author = (\<lambda>(peer, round) table. do {
     row \<leftarrow> vec_get table author;
     old \<leftarrow> vec_get row peer;
     row' \<leftarrow> vec_set row peer (max old round);
     vec_set table author row'
   })"

definition update_from_verified_block ::
  "peer_round_tracker \<Rightarrow> verified_block \<Rightarrow> block_ref list \<Rightarrow> peer_round_tracker option" where
  "update_from_verified_block t block excluded_ancestors = do {
     let author = vb_author block;
     table \<leftarrow> raise_round author (author, vb_round block) (prt_block_accepted_rounds t);
     table \<leftarrow> fold_opt (\<lambda>a. raise_round author (br_author a, br_round a)) (vb_ancestors block) table;
     table \<leftarrow> fold_opt (\<lambda>a. raise_round author (br_author a, br_round a)) excluded_ancestors table;
     Some (t\<lparr>prt_block_accepted_rounds := table\<rparr>)
   }"

definition update_from_probe ::
  "peer_round_tracker \<Rightarrow> Round list list \<Rightarrow> Round list list \<Rightarrow> peer_round_tracker" where
  "update_from_probe t accepted_rounds received_rounds =
     t\<lparr>prt_probed_accepted_rounds := accepted_rounds, prt_probed_received_rounds := received_rounds\<rparr>"

definition compute_quorum_round ::
  "committee \<Rightarrow> AuthorityIndex \<Rightarrow> Round list list \<Rightarrow> quorum_round option" where
  "compute_quorum_round c target_index highest_rounds = do {
     rounds \<leftarrow> map_opt (\<lambda>(rounds, _). vec_get rounds target_index)
       (zip highest_rounds (committee_indices c));
     let rounds_with_stake = sort (with_stake c rounds);
     Some (quorum_pick (c_quorum_threshold c) 0 0 (rev rounds_with_stake),
           quorum_pick (c_quorum_threshold c) 0 0 rounds_with_stake)
   }"

definition max_rounds :: "Round list list \<Rightarrow> Round list list \<Rightarrow> Round list list" where
  "max_rounds as bs = map (\<lambda>(a, b). map (\<lambda>(x, y). max x y) (zip a b)) (zip as bs)"

definition compute_accepted_quorum_rounds :: "peer_round_tracker \<Rightarrow> quorum_round list option" where
  "compute_accepted_quorum_rounds t =
     (let c = ctx_committee (prt_context t);
          highest = max_rounds (prt_probed_accepted_rounds t) (prt_block_accepted_rounds t)
      in map_opt (\<lambda>(peer, _). compute_quorum_round c peer highest) (committee_indices c))"

definition compute_received_quorum_rounds :: "peer_round_tracker \<Rightarrow> quorum_round list option" where
  "compute_received_quorum_rounds t =
     (let c = ctx_committee (prt_context t)
      in map_opt (\<lambda>(peer, _). compute_quorum_round c peer (prt_probed_received_rounds t)) (committee_indices c))"

definition calculate_propagation_delay :: "peer_round_tracker \<Rightarrow> Round \<Rightarrow> Round option" where
  "calculate_propagation_delay t last_proposed_round = do {
     received \<leftarrow> compute_received_quorum_rounds t;
     accepted \<leftarrow> compute_accepted_quorum_rounds t;
     own_received \<leftarrow> vec_get received (ctx_own_index (prt_context t));
     own_accepted \<leftarrow> vec_get accepted (ctx_own_index (prt_context t));
     Some (min (last_proposed_round - fst own_received) (last_proposed_round - fst own_accepted))
   }"

subsection \<open>What a quorum reaches\<close>

lemma quorum_pick_spec:
  assumes "reflp le" "transp le" "sorted_wrt (\<lambda>p q. le (fst p) (fst q)) ys" "acc < t" "acc + sum_list (map snd ys) < 2 ^ 64"
    and "t \<le> acc + sum_list (map snd ys)"
  shows "t \<le> acc + sum_list (map snd (filter (\<lambda>p. le (fst p) (quorum_pick t acc d ys)) ys)) \<and>
     quorum_pick t acc d ys \<in> fst ` set ys \<and>
     (\<forall>w. \<not> le (quorum_pick t acc d ys) w \<longrightarrow> acc + sum_list (map snd (filter (\<lambda>p. le (fst p) w) ys)) < t)"
  using assms(3-6)
proof (induction ys arbitrary: acc)
  case (Cons p ys)
  note le = reflpD [OF assms(1)] transpD [OF assms(2)]
  obtain v s where p: "p = (v, s)" by (cases p)
  have add: "u64_add acc s = acc + s" using Cons.prems(3) by (simp add: p u64_add_eq)
  have first: "le v (fst q)" if "q \<in> set ys" for q using Cons.prems(1) that by (simp add: p)
  have none: "filter (\<lambda>q. le (fst q) w) ys = []" if "\<not> le v w" for w
    using first le(2) that unfolding filter_empty_conv by blast
  show ?case
  proof (cases "t \<le> acc + s")
    case True
    then have v: "quorum_pick t acc d (p # ys) = v" by (simp add: p add)
    have "acc + sum_list (map snd (filter (\<lambda>q. le (fst q) w) (p # ys))) < t" if "\<not> le v w" for w
      using none [OF that] that Cons.prems(2) by (simp add: p)
    then show ?thesis using True le(1) unfolding v by (auto simp: p)
  next
    case False
    then have v: "quorum_pick t acc d (p # ys) = quorum_pick t (acc + s) d ys" by (simp add: p add Let_def)
    let ?v = "quorum_pick t (acc + s) d ys"
    have IH: "t \<le> acc + s + sum_list (map snd (filter (\<lambda>p. le (fst p) ?v) ys))" "?v \<in> fst ` set ys"
      "\<And>w. \<not> le ?v w \<Longrightarrow> acc + s + sum_list (map snd (filter (\<lambda>p. le (fst p) w) ys)) < t"
      using Cons.IH [of "acc + s"] Cons.prems False by (auto simp: p add.assoc)
    have "le v ?v" using IH(2) first by auto
    moreover have "acc + sum_list (map snd (filter (\<lambda>q. le (fst q) w) (p # ys))) < t" if "\<not> le ?v w" for w
    proof (cases "le v w")
      case True
      then show ?thesis using IH(3) [OF that] by (simp add: p)
    next
      case False
      then show ?thesis using none [OF False] Cons.prems(2) by (simp add: p)
    qed
    ultimately show ?thesis using IH(1,2) unfolding v by (auto simp: p add.assoc)
  qed
qed simp

lemma sum_filter_mset:
  "mset ys = mset zs \<Longrightarrow> sum_list (map snd (filter P ys)) = sum_list (map (snd :: 'a \<times> nat \<Rightarrow> nat) (filter P zs))"
  by (metis mset_filter mset_map sum_mset_sum_list)

lemma with_stake_sum:
  assumes "length vs = committee_size c"
  shows "sum_list (map snd (filter (\<lambda>p. P (fst p)) (with_stake c vs))) = stake_of c {i. i < length vs \<and> P (vs ! i)}"
proof -
  let ?ss = "map au_stake (c_authorities c)"
  have "sum_list (map snd (filter (\<lambda>p. P (fst p)) (with_stake c vs)))
      = sum_list (map (\<lambda>p. if P (fst p) then snd p else 0) (with_stake c vs))"
    by (rule sum_list_map_filter')
  also have "\<dots> = (\<Sum>i = 0..<length vs. if P (vs ! i) then ?ss ! i else 0)"
    using assms unfolding sum_list_sum_nth
    by (intro sum.cong) (auto simp: with_stake_def committee_size_def)
  also have "\<dots> = (\<Sum>i \<in> {i \<in> {0..<length vs}. P (vs ! i)}. ?ss ! i)"
    by (rule sum.inter_filter [symmetric]) simp
  also have "\<dots> = stake_of c {i. i < length vs \<and> P (vs ! i)}"
    unfolding stake_of_def by (rule sum.cong) (use assms in \<open>auto simp: committee_size_def\<close>)
  finally show ?thesis .
qed

lemma quorum_threshold_pos: "committee_wf c \<Longrightarrow> 0 < c_quorum_threshold c \<and> c_quorum_threshold c \<le> c_total_stake c"
  using fault_tolerance_third [of c] by (auto simp: committee_wf_def)

text \<open>\<open>reach\<close>: the stake of the authorities whose value satisfies a predicate.\<close>

definition reach :: "committee \<Rightarrow> nat list \<Rightarrow> (nat \<Rightarrow> bool) \<Rightarrow> Stake" where
  "reach c vs P = stake_of c {i. i < length vs \<and> P (vs ! i)}"

lemma reach_bound: "committee_wf c \<Longrightarrow> reach c vs P \<le> c_total_stake c"
  by (simp add: reach_def stake_of_le_total)

lemma reach_all: "committee_wf c \<Longrightarrow> length vs = committee_size c \<Longrightarrow> reach c vs (\<lambda>_. True) = c_total_stake c"
proof -
  assume wf: "committee_wf c" and len: "length vs = committee_size c"
  have "stake_of c {i. i < length vs} = stake_of c UNIV" unfolding stake_of_def by (rule sum.cong) (use len in auto)
  then show ?thesis using wf by (simp add: reach_def stake_of_UNIV committee_wf_def)
qed

lemma quorum_pick_reach:
  assumes wf: "committee_wf c" and len: "length vs = committee_size c"
    and perm: "mset ys = mset (with_stake c vs)" and srt: "sorted_wrt (\<lambda>p q. le (fst p) (fst q)) ys"
    and le: "reflp le" "transp le"
  shows "quorum_pick (c_quorum_threshold c) 0 d ys \<in> set vs"
    and "reached_quorum c (reach c vs (\<lambda>x. le x (quorum_pick (c_quorum_threshold c) 0 d ys)))"
    and "\<not> le (quorum_pick (c_quorum_threshold c) 0 d ys) w \<Longrightarrow> \<not> reached_quorum c (reach c vs (\<lambda>x. le x w))"
proof -
  have sums: "sum_list (map snd (filter (\<lambda>p. P (fst p)) ys)) = reach c vs P" for P
    using sum_filter_mset [OF perm] with_stake_sum [OF len] by (simp add: reach_def)
  let ?v = "quorum_pick (c_quorum_threshold c) 0 d ys"
  have tot: "sum_list (map snd ys) = c_total_stake c" using sums [of "\<lambda>_. True"] reach_all [OF wf len] by simp
  have "c_total_stake c < 2 ^ 64" using wf by (simp add: committee_wf_def)
  then have q: "c_quorum_threshold c \<le> 0 + sum_list (map snd (filter (\<lambda>p. le (fst p) ?v) ys)) \<and> ?v \<in> fst ` set ys \<and>
     (\<forall>w. \<not> le ?v w \<longrightarrow> 0 + sum_list (map snd (filter (\<lambda>p. le (fst p) w) ys)) < c_quorum_threshold c)"
    using quorum_threshold_pos [OF wf] by (intro quorum_pick_spec [OF le srt]) (simp_all add: tot)
  then have spec: "c_quorum_threshold c \<le> reach c vs (\<lambda>x. le x ?v)" "?v \<in> fst ` set ys"
    "\<And>w. \<not> le ?v w \<Longrightarrow> reach c vs (\<lambda>x. le x w) < c_quorum_threshold c"
    using sums [of "\<lambda>x. le x ?v"] sums [of "\<lambda>x. le x w" for w] by simp_all
  have "fst ` set ys \<subseteq> set vs"
  proof -
    have "set ys = set (with_stake c vs)" using perm by (metis set_mset_mset)
    then show ?thesis by (auto simp: with_stake_def dest: set_zip_leftD)
  qed
  with spec(1,2) spec(3) [of w] show "quorum_pick (c_quorum_threshold c) 0 d ys \<in> set vs"
    and "reached_quorum c (reach c vs (\<lambda>x. le x (quorum_pick (c_quorum_threshold c) 0 d ys)))"
    and "\<not> le (quorum_pick (c_quorum_threshold c) 0 d ys) w \<Longrightarrow> \<not> reached_quorum c (reach c vs (\<lambda>x. le x w))"
    by (auto simp: reached_quorum_def)
qed

lemma sorted_pairs: "sorted_wrt (\<lambda>p q. fst p \<le> fst q) (sort (xs :: (nat \<times> nat) list))"
  by (rule sorted_wrt_mono_rel [OF _ sorted_sort]) (auto simp: less_eq_prod_def)

lemma sorted_pairs_rev: "sorted_wrt (\<lambda>p q. fst p \<ge> fst q) (rev (sort (xs :: (nat \<times> nat) list)))"
  using sorted_pairs [of xs] by (simp add: sorted_wrt_rev)

lemma quorum_low:
  assumes "committee_wf c" "length vs = committee_size c" "v = quorum_pick (c_quorum_threshold c) 0 0 (rev (sort (with_stake c vs)))"
  shows "v \<in> set vs" "reached_quorum c (reach c vs (\<lambda>x. v \<le> x))" "v < w \<Longrightarrow> \<not> reached_quorum c (reach c vs (\<lambda>x. w \<le> x))"
proof -
  have le: "reflp (\<lambda>a b :: nat. b \<le> a)" "transp (\<lambda>a b :: nat. b \<le> a)" by (auto simp: reflp_def transp_def)
  note q = quorum_pick_reach [where ys = "rev (sort (with_stake c vs))" and d = 0, OF assms(1,2) _ sorted_pairs_rev le, folded assms(3)]
  show "v \<in> set vs" "reached_quorum c (reach c vs (\<lambda>x. v \<le> x))" "v < w \<Longrightarrow> \<not> reached_quorum c (reach c vs (\<lambda>x. w \<le> x))"
    using q(1,2) q(3) [where w = w] by simp_all
qed

lemma quorum_high:
  assumes "committee_wf c" "length vs = committee_size c" "v = quorum_pick (c_quorum_threshold c) 0 0 (sort (with_stake c vs))"
  shows "v \<in> set vs" "reached_quorum c (reach c vs (\<lambda>x. x \<le> v))" "w < v \<Longrightarrow> \<not> reached_quorum c (reach c vs (\<lambda>x. x \<le> w))"
proof -
  have le: "reflp (\<lambda>a b :: nat. a \<le> b)" "transp (\<lambda>a b :: nat. a \<le> b)" by (auto simp: reflp_def transp_def)
  note q = quorum_pick_reach [where ys = "sort (with_stake c vs)" and d = 0, OF assms(1,2) _ sorted_pairs le, folded assms(3)]
  show "v \<in> set vs" "reached_quorum c (reach c vs (\<lambda>x. x \<le> v))" "w < v \<Longrightarrow> \<not> reached_quorum c (reach c vs (\<lambda>x. x \<le> w))"
    using q(1,2) q(3) [where w = w] by simp_all
qed

text \<open>C33: the quorum commit index.  It is the highest commit index that authorities with a quorum of
  stake have voted for, where a vote for an index counts for all lower ones: a quorum voted for it
  or higher, and for no higher index is there such a quorum.\<close>

theorem quorum_commit_index_spec:
  assumes "committee_wf (ctx_committee (cvm_context cvm))"
    and "length (cvm_highest_voted_commits cvm) = committee_size (ctx_committee (cvm_context cvm))"
  shows "reached_quorum (ctx_committee (cvm_context cvm))
       (reach (ctx_committee (cvm_context cvm)) (cvm_highest_voted_commits cvm) (\<lambda>v. v \<ge> quorum_commit_index cvm)) \<and>
     (\<forall>i. i > quorum_commit_index cvm \<longrightarrow>
        \<not> reached_quorum (ctx_committee (cvm_context cvm))
            (reach (ctx_committee (cvm_context cvm)) (cvm_highest_voted_commits cvm) (\<lambda>v. v \<ge> i)))"
  using quorum_low(2,3) [OF assms quorum_commit_index_def] by blast

lemma honest_quorum:
  assumes "committee_wf c" "stake_of c F \<le> fault_tolerance c" "length vs = committee_size c"
    and "\<And>i. i < length vs \<Longrightarrow> i \<notin> F \<Longrightarrow> P (vs ! i)"
  shows "reached_quorum c (reach c vs P)"
proof -
  have "stake_of c (UNIV :: nat set) + stake_of c {} = stake_of c F + stake_of c (- F)"
    using stake_of_Un_Int [of c F "- F"] by (simp add: Compl_partition)
  then have "c_quorum_threshold c \<le> stake_of c (- F)"
    using assms(1,2) by (simp add: stake_of_UNIV committee_wf_def)
  also have "\<dots> = stake_of c {i. i < length vs \<and> i \<notin> F}"
    unfolding stake_of_def by (rule sum.cong) (use assms(3) in auto)
  also have "\<dots> \<le> reach c vs P" unfolding reach_def by (rule stake_of_mono) (use assms(4) in auto)
  finally show ?thesis by (simp add: reached_quorum_def)
qed

lemma compute_quorum_round_rounds:
  assumes "length table = committee_size c" "\<And>row. row \<in> set table \<Longrightarrow> t < length row"
  shows "compute_quorum_round c t table =
     Some (quorum_pick (c_quorum_threshold c) 0 0 (rev (sort (with_stake c (map (\<lambda>row. row ! t) table)))),
           quorum_pick (c_quorum_threshold c) 0 0 (sort (with_stake c (map (\<lambda>row. row ! t) table))))"
proof -
  have "map_opt (\<lambda>(rounds, _). vec_get rounds t) (zip table (committee_indices c)) = Some (map (\<lambda>row. row ! t) table)"
    using assms by (simp add: map_opt_Some committee_indices_def committee_size_def)
  then show ?thesis by (simp add: compute_quorum_round_def Let_def)
qed

text \<open>C34: quorum rounds are Byzantine fault tolerant.  From the rounds that all authorities report for
  one peer, \<^verbatim>\<open>compute_quorum_round\<close> returns the highest round that a quorum has reached and the lowest
  round that a quorum has not passed, in order.  When the faulty authorities hold at most the
  tolerated stake, both bounds lie between two rounds that honest authorities reported.\<close>

theorem compute_quorum_round_bft:
  assumes "committee_wf c" "length table = committee_size c" "\<And>row. row \<in> set table \<Longrightarrow> target < length row"
    and "stake_of c F \<le> fault_tolerance c"
  shows "\<exists>low high. compute_quorum_round c target table = Some (low, high) \<and> low \<le> high \<and>
     reached_quorum c (stake_of c {i. i < length table \<and> low \<le> table ! i ! target}) \<and>
     (\<forall>r > low. \<not> reached_quorum c (stake_of c {i. i < length table \<and> r \<le> table ! i ! target})) \<and>
     reached_quorum c (stake_of c {i. i < length table \<and> table ! i ! target \<le> high}) \<and>
     (\<forall>r < high. \<not> reached_quorum c (stake_of c {i. i < length table \<and> table ! i ! target \<le> r})) \<and>
     (\<exists>i < length table. i \<notin> F \<and> table ! i ! target \<le> low) \<and>
     (\<exists>i < length table. i \<notin> F \<and> high \<le> table ! i ! target)"
proof -
  let ?vs = "map (\<lambda>row. row ! target) table"
  let ?low = "quorum_pick (c_quorum_threshold c) 0 0 (rev (sort (with_stake c ?vs)))"
  let ?high = "quorum_pick (c_quorum_threshold c) 0 0 (sort (with_stake c ?vs))"
  have len: "length ?vs = committee_size c" using assms(2) by simp
  note lo = quorum_low [OF assms(1) len refl] and hi = quorum_high [OF assms(1) len refl]
  have run: "compute_quorum_round c target table = Some (?low, ?high)"
    by (rule compute_quorum_round_rounds [OF assms(2)]) (rule assms(3))
  have reach: "reach c ?vs P = stake_of c {i. i < length table \<and> P (table ! i ! target)}" for P
  proof -
    have "{i. i < length ?vs \<and> P (?vs ! i)} = {i. i < length table \<and> P (table ! i ! target)}" by auto
    then show ?thesis by (simp only: reach_def)
  qed
  obtain k where k: "k \<notin> F" "k < length table" "?low \<le> table ! k ! target" "table ! k ! target \<le> ?high"
    using quorum_overlap_honest [OF assms(1) lo(2) [unfolded reach] hi(2) [unfolded reach] assms(4)] by blast
  then have "?low \<le> ?high" by simp
  moreover have "\<exists>i < length table. i \<notin> F \<and> table ! i ! target \<le> ?low"
  proof (rule ccontr)
    assume "\<not> ?thesis"
    then have "\<And>i. i < length ?vs \<Longrightarrow> i \<notin> F \<Longrightarrow> Suc ?low \<le> ?vs ! i" by (auto simp: not_le Suc_le_eq)
    from honest_quorum [where P = "\<lambda>x. Suc ?low \<le> x", OF assms(1,4) len this] lo(3) [of "Suc ?low"] show False by simp
  qed
  moreover have "\<exists>i < length table. i \<notin> F \<and> ?high \<le> table ! i ! target"
  proof (rule ccontr)
    assume n: "\<not> ?thesis"
    then have pos: "0 < ?high" using k(1,2) by (metis gr0I le0)
    have "?vs ! i \<le> ?high - 1" if "i < length ?vs" "i \<notin> F" for i
    proof -
      have "table ! i ! target < ?high" using n that by (auto simp: not_le)
      then show ?thesis using that(1) by simp
    qed
    from honest_quorum [where P = "\<lambda>x. x \<le> ?high - 1", OF assms(1,4) len this] hi(3) [of "?high - 1"] pos show False by simp
  qed
  moreover have "reached_quorum c (stake_of c {i. i < length table \<and> ?low \<le> table ! i ! target})"
    "\<And>r. ?low < r \<Longrightarrow> \<not> reached_quorum c (stake_of c {i. i < length table \<and> r \<le> table ! i ! target})"
    using lo(2,3) by (simp_all only: reach simp_thms)
  moreover have "reached_quorum c (stake_of c {i. i < length table \<and> table ! i ! target \<le> ?high})"
    "\<And>r. r < ?high \<Longrightarrow> \<not> reached_quorum c (stake_of c {i. i < length table \<and> table ! i ! target \<le> r})"
    using hi(2,3) by (simp_all only: reach simp_thms)
  ultimately show ?thesis using run by blast
qed

subsection \<open>Witnesses\<close>

lemma committee4_faulty: "stake_of committee4 {3} \<le> fault_tolerance committee4"
  unfolding stake_of_committee4 by (simp add: fault_tolerance_def committee4_def)

theorem quorum_commit_index_spec_witness:
  "quorum_commit_index \<lparr>cvm_context = context4, cvm_highest_voted_commits = [5, 2, 9, 7]\<rparr> = 5 \<and>
   reached_quorum committee4 (reach committee4 [5, 2, 9, 7] (\<lambda>v. v \<ge> 5)) \<and>
   \<not> reached_quorum committee4 (reach committee4 [5, 2, 9, 7] (\<lambda>v. v \<ge> 6))"
proof -
  let ?m = "\<lparr>cvm_context = context4, cvm_highest_voted_commits = [5, 2, 9, 7]\<rparr>"
  have run: "quorum_commit_index ?m = 5"
    by (simp add: quorum_commit_index_def context4_def committee4_def with_stake_def example_authority_def
        u64_add_def less_eq_prod_def)
  have "reached_quorum (ctx_committee (cvm_context ?m))
       (reach (ctx_committee (cvm_context ?m)) (cvm_highest_voted_commits ?m) (\<lambda>v. v \<ge> quorum_commit_index ?m)) \<and>
     (\<forall>i. i > quorum_commit_index ?m \<longrightarrow>
        \<not> reached_quorum (ctx_committee (cvm_context ?m)) (reach (ctx_committee (cvm_context ?m)) (cvm_highest_voted_commits ?m) (\<lambda>v. v \<ge> i)))"
    by (rule quorum_commit_index_spec) (simp_all add: committee4_wf)
  with run show ?thesis by simp
qed

theorem compute_quorum_round_bft_witness:
  "compute_quorum_round committee4 1 [[1, 5, 2, 3], [1, 6, 2, 3], [1, 4, 2, 3], [0, 99, 0, 0]] = Some (5, 6) \<and>
     reached_quorum committee4 (stake_of committee4 {i. i < 4 \<and> [[1, 5, 2, 3], [1, 6, 2, 3], [1, 4, 2, 3], [0, 99, 0, 0 :: nat]] ! i ! 1 \<le> 6}) \<and>
     (\<exists>i < 4. i \<notin> {3} \<and> [[1, 5, 2, 3], [1, 6, 2, 3], [1, 4, 2, 3], [0, 99, 0, 0]] ! i ! 1 \<le> (5 :: nat)) \<and>
     (\<exists>i < 4. i \<notin> {3} \<and> (6 :: nat) \<le> [[1, 5, 2, 3], [1, 6, 2, 3], [1, 4, 2, 3], [0, 99, 0, 0]] ! i ! 1)"
proof -
  let ?t = "[[1, 5, 2, 3], [1, 6, 2, 3], [1, 4, 2, 3], [0, 99, 0, 0]] :: nat list list"
  have run: "compute_quorum_round committee4 1 ?t = Some (5, 6)"
    by (subst compute_quorum_round_rounds)
      (auto simp: committee4_def committee_size_def with_stake_def example_authority_def u64_add_def less_eq_prod_def)
  have "\<exists>low high. compute_quorum_round committee4 1 ?t = Some (low, high) \<and> low \<le> high \<and>
     reached_quorum committee4 (stake_of committee4 {i. i < length ?t \<and> low \<le> ?t ! i ! 1}) \<and>
     (\<forall>r > low. \<not> reached_quorum committee4 (stake_of committee4 {i. i < length ?t \<and> r \<le> ?t ! i ! 1})) \<and>
     reached_quorum committee4 (stake_of committee4 {i. i < length ?t \<and> ?t ! i ! 1 \<le> high}) \<and>
     (\<forall>r < high. \<not> reached_quorum committee4 (stake_of committee4 {i. i < length ?t \<and> ?t ! i ! 1 \<le> r})) \<and>
     (\<exists>i < length ?t. i \<notin> {3} \<and> ?t ! i ! 1 \<le> low) \<and> (\<exists>i < length ?t. i \<notin> {3} \<and> high \<le> ?t ! i ! 1)"
    by (rule compute_quorum_round_bft [OF committee4_wf]) (auto simp: committee4_faulty)
  moreover have "length ?t = 4" by simp
  ultimately show ?thesis unfolding run by (simp only: option.inject prod.inject) blast
qed

end
