(* ===== verification/Example_Certifier.thy ===== *)
theory Example_Certifier
  imports Transaction_Certifier Quorum_Rounds Example_Dag
begin

section \<open>A concrete certification\<close>

text \<open>
  The block of authority 0 in round 1 of the grid of \<open>Example_Dag\<close>, voted for by the blocks of authorities
  0, 1 and 2 in round 2, is certified when the own block of round 3 refers to them.
\<close>

definition counted_vote :: "verified_block \<Rightarrow> vote_info" where
  "counted_vote b = vote_info_default\<lparr>vi_block := Some b\<rparr>"

definition votes4 :: "(block_ref, vote_info) btree_map" where
  "votes4 = map (\<lambda>b. (vb_reference b, counted_vote b))
     [grid_block 1 0, grid_block 2 0, grid_block 2 1, grid_block 2 2, grid_block 3 0]"

definition certifier4 :: certifier_state where
  "certifier4 = \<lparr>cs_context = context4, cs_votes = votes4, cs_gc_round = 0\<rparr>"

lemma grid_tx_votes [simp]: "block_tx_votes (sb_inner (vb_block (grid_block k i))) = []"
  by (simp add: grid_block_def example_block_def)

lemma inj_grid: "inj_on vb_reference ((\<lambda>(k, i). grid_block k i) ` S)"
  by (auto simp: inj_on_def)

lemma add_grid_block:
  assumes "i < 4" "0 < k" "btm_get (cs_votes cs) (BlockRef k i 7) = None" "cs_gc_round cs = 0" "cs_context cs = context4"
  shows "add_voted_block cs (grid_block k i) [] =
     Some ([], cs\<lparr>cs_votes := btm_insert (BlockRef k i 7) (counted_vote (grid_block k i)) (cs_votes cs)\<rparr>)"
  using assms by (simp add: add_voted_block_def Let_def or_default_def committee_authority_def vec_get_def context4_def
      committee4_def counted_vote_def vote_info_default_def)

lemma run_step:
  assumes "certifier_run context4 ((\<lambda>(k, i). grid_block k i) ` S) [] cs" "i < 4" "0 < k"
    "btm_get (cs_votes cs) (BlockRef k i 7) = None" "cs_gc_round cs = 0" "cs_context cs = context4"
  shows "certifier_run context4 ((\<lambda>(k, i). grid_block k i) ` insert (k, i) S) []
     (cs\<lparr>cs_votes := btm_insert (BlockRef k i 7) (counted_vote (grid_block k i)) (cs_votes cs)\<rparr>)"
proof -
  have v: "valid_block (ctx_committee context4) (grid_block k i)" using grid_block_valid [OF assms(2)] by (simp add: context4_def)
  have i: "inj_on vb_reference (insert (grid_block k i) ((\<lambda>(k, i). grid_block k i) ` S))"
    using inj_grid [of "insert (k, i) S"] by simp
  from certifier_run.voted [OF assms(1) v i add_grid_block [OF assms(2-6)]] show ?thesis by simp
qed

definition blocks4 :: "verified_block set" where
  "blocks4 = (\<lambda>(k, i). grid_block k i) ` {(3, 0), (2, 2), (2, 1), (2, 0), (1, 0)}"

lemma certifier4_run: "certifier_run context4 blocks4 [] certifier4"
proof -
  let ?b = "\<lambda>k i. (BlockRef k i 7, counted_vote (grid_block k i))"
  let ?cs = "\<lambda>vs. \<lparr>cs_context = context4, cs_votes = vs, cs_gc_round = 0\<rparr>"
  have s0: "certifier_run context4 ((\<lambda>(k, i). grid_block k i) ` {}) [] (?cs [])"
    using certifier_run.start [of context4] by (simp add: certifier_state_new_def)
  have s1: "certifier_run context4 ((\<lambda>(k, i). grid_block k i) ` {(1, 0)}) [] (?cs [?b 1 0])"
    using run_step [OF s0, of 0 1] by simp
  have s2: "certifier_run context4 ((\<lambda>(k, i). grid_block k i) ` {(2, 0), (1, 0)}) [] (?cs [?b 1 0, ?b 2 0])"
    using run_step [OF s1, of 0 2] by (simp add: btm_get_def block_ref_less_iff)
  have s3: "certifier_run context4 ((\<lambda>(k, i). grid_block k i) ` {(2, 1), (2, 0), (1, 0)}) [] (?cs [?b 1 0, ?b 2 0, ?b 2 1])"
    using run_step [OF s2, of 1 2] by (simp add: btm_get_def block_ref_less_iff)
  have s4: "certifier_run context4 ((\<lambda>(k, i). grid_block k i) ` {(2, 2), (2, 1), (2, 0), (1, 0)}) []
      (?cs [?b 1 0, ?b 2 0, ?b 2 1, ?b 2 2])"
    using run_step [OF s3, of 2 2] by (simp add: btm_get_def block_ref_less_iff)
  show ?thesis
    using run_step [OF s4, of 0 3] unfolding blocks4_def
    by (simp add: btm_get_def block_ref_less_iff certifier4_def votes4_def)
qed

lemma certifier4_certifies:
  "\<exists>cs'. add_proposed_block certifier4 (grid_block 3 0) = Some ([\<lparr>cb_block = grid_block 1 0, cb_rejected = []\<rparr>], cs')"
  by (simp add: add_proposed_block_def certifier4_def votes4_def counted_vote_def vote_info_default_def btm_get_def upt_rec
      count_voting_ancestor_def count_accept_def u32_add_def aggregator_add_unique_def aggregator_new_def committee_stake_def
      context4_def committee4_def vec_get_def example_authority_def u64_add_def take_certified_output_def
      committee_authority_def reached_threshold_def reached_quorum_def block_ref_less_iff btree_simps)

lemma certified4_run: "\<exists>cs. certifier_run context4 blocks4 [\<lparr>cb_block = grid_block 1 0, cb_rejected = []\<rparr>] cs"
  using certifier_run.proposed [OF certifier4_run] certifier4_certifies by fastforce

theorem certified_blocks_justified_witness:
  "\<exists>cs. certifier_run context4 blocks4 [\<lparr>cb_block = grid_block 1 0, cb_rejected = []\<rparr>] cs \<and>
     justified committee4 blocks4 \<lparr>cb_block = grid_block 1 0, cb_rejected = []\<rparr>"
proof -
  obtain cs where r: "certifier_run context4 blocks4 [\<lparr>cb_block = grid_block 1 0, cb_rejected = []\<rparr>] cs"
    using certified4_run by blast
  have "committee_wf (ctx_committee context4)" by (simp add: context4_def committee4_wf)
  from certified_blocks_justified [OF this r] r show ?thesis by (auto simp: context4_def)
qed

theorem certification_agreement_witness:
  "\<exists>cs outs. certifier_run context4 blocks4 outs cs \<and> outs \<noteq> [] \<and>
     (\<forall>cb \<in> set outs. \<forall>cb' \<in> set outs. cb_rejected cb = cb_rejected cb')"
proof -
  let ?outs = "[\<lparr>cb_block = grid_block 1 0, cb_rejected = []\<rparr>]"
  obtain cs where r: "certifier_run context4 blocks4 ?outs cs" using certified4_run by blast
  have wf: "committee_wf (ctx_committee context4)" by (simp add: context4_def committee4_wf)
  have byz: "stake_of (ctx_committee context4) {3} \<le> fault_tolerance (ctx_committee context4)"
    by (simp add: context4_def committee4_faulty)
  have rej: "rejects_of W q = {}" if "W \<in> blocks4" for W q using that by (auto simp: blocks4_def rejects_of_def)
  have "cb_rejected cb = cb_rejected cb'" if "cb \<in> set ?outs" "cb' \<in> set ?outs" for cb cb'
    by (rule certification_agreement [OF wf refl r r byz that, of "BlockRef 1 0 7"]) (use that rej in auto)
  with r show ?thesis by blast
qed

end
