(* ===== verification/Example_Finalizer.thy ===== *)
theory Example_Finalizer
  imports Finalizer_Properties Example_Certifier
begin

section \<open>A concrete finalization\<close>

text \<open>
  The first commit holds block \<open>(1, 0)\<close> of the grid of \<open>Example_Dag\<close>, whose transaction 0 one authority rejects.
  The blocks of round 2 in the second commit accept it, and a commit with a leader of round 4 ends the wait.
\<close>

definition sub_dag :: "CommitIndex \<Rightarrow> verified_block \<Rightarrow> verified_block list \<Rightarrow> committed_sub_dag" where
  "sub_dag i leader blocks = committed_sub_dag_new (vb_reference leader) blocks 0 (CommitRef i 0 0 0) 0"

definition finalizer_certifier :: certifier_state where
  "finalizer_certifier = \<lparr>cs_context = context4, cs_votes =
     [(BlockRef 1 0 7, (counted_vote (grid_block 1 0))\<lparr>vi_reject_txn_votes := [(0, \<lparr>sa_votes = [3], sa_stake = 1\<rparr>)]\<rparr>),
      (BlockRef 2 0 7, counted_vote (grid_block 2 0)), (BlockRef 2 1 7, counted_vote (grid_block 2 1)),
      (BlockRef 2 2 7, counted_vote (grid_block 2 2)), (BlockRef 4 0 7, counted_vote (grid_block 4 0))],
      cs_gc_round = 0\<rparr>"

definition first_state :: commit_state where
  "first_state = \<lparr>cst_commit = sub_dag 1 (grid_block 1 0) [grid_block 1 0], cst_pending_blocks = [],
     cst_pending_transactions = [(BlockRef 1 0 7, [0])], cst_rejected_transactions = []\<rparr>"

definition second_state :: commit_state where
  "second_state = \<lparr>cst_commit = sub_dag 2 (grid_block 2 0) [grid_block 2 0, grid_block 2 1, grid_block 2 2],
     cst_pending_blocks = [], cst_pending_transactions = [], cst_rejected_transactions = []\<rparr>"

definition first_blocks :: "(block_ref, block_state) btree_map" where
  "first_blocks = fold (link_block 1) (sort_key vb_round [grid_block 1 0]) []"

definition second_blocks :: "(block_ref, block_state) btree_map" where
  "second_blocks = fold (link_block 2) (sort_key vb_round [grid_block 2 0, grid_block 2 1, grid_block 2 2]) first_blocks"

definition finalizer4 :: commit_finalizer where
  "finalizer4 = \<lparr>cf_context = context4, cf_skip_gced_accept_votes = True, cf_last_processed_commit = Some 1,
     cf_pending_commits = [first_state], cf_blocks = first_blocks\<rparr>"

definition late_commit :: committed_sub_dag where
  "late_commit = sub_dag 2 (grid_block 4 0) [grid_block 4 0]"

lemma sub_dag_sel [simp]:
  "csd_blocks (sub_dag i l bs) = bs" "csd_commit_ref (sub_dag i l bs) = CommitRef i 0 0 0" "csd_leader (sub_dag i l bs) = vb_reference l"
  "csd_refs (sub_dag i l bs) = vb_reference ` set bs"
  by (simp_all add: sub_dag_def committed_sub_dag_new_def csd_refs_def)

lemma finalizer_votes:
  "get_reject_votes finalizer_certifier (BlockRef 1 0 7) = Some [(0, 1)]"
  "get_reject_votes finalizer_certifier (BlockRef 2 0 7) = Some []" "get_reject_votes finalizer_certifier (BlockRef 2 1 7) = Some []"
  "get_reject_votes finalizer_certifier (BlockRef 2 2 7) = Some []" "get_reject_votes finalizer_certifier (BlockRef 4 0 7) = Some []"
  by (simp_all add: get_reject_votes_def finalizer_certifier_def counted_vote_def vote_info_default_def)

lemma sub_dag_blocks_ok:
  "commit_blocks_ok committee4 (sub_dag n l bs) \<longleftrightarrow> bs \<noteq> [] \<and> (\<forall>b \<in> set bs. valid_block committee4 b \<and> 0 < vb_round b)"
  by (simp add: commit_blocks_ok_def)

lemma states_ok: "state_ok committee4 finalizer_certifier first_state" "state_ok committee4 finalizer_certifier second_state"
  by (simp_all add: state_ok_def first_state_def second_state_def pending_ok_def finalizer_votes [simplified One_nat_def]
      sub_dag_blocks_ok grid_block_valid)

lemma first_graph: "graph_ok [cst_commit first_state] first_blocks"
  using graph_ok_link [of "[]" "[]" "cst_commit first_state"] by (simp add: graph_ok_empty first_state_def first_blocks_def)

lemma second_graph: "graph_ok [cst_commit first_state, cst_commit second_state] second_blocks"
  using graph_ok_link [OF first_graph, of "cst_commit second_state"] by (simp add: first_state_def second_state_def second_blocks_def)

lemma finalizer4_inv: "finalizer_inv finalizer_certifier finalizer4"
  using states_ok first_graph
  by (simp add: finalizer_inv_def buffer_ok_def finalizer4_def context4_def) (simp add: first_state_def)

lemma late_commit_next: "next_commit finalizer_certifier finalizer4 late_commit"
  by (simp add: next_commit_def late_commit_def finalizer4_def context4_def first_state_def finalizer_votes
      sub_dag_blocks_ok grid_block_valid)

lemma finalizer4_wf: "committee_wf (ctx_committee (cf_context finalizer4))"
  by (simp add: finalizer4_def context4_def committee4_wf)

theorem finalizer_sends_in_order_witness:
  "\<exists>out f'. process_commit dag4 finalizer_certifier finalizer4 late_commit = Some (out, f') \<and> finalizer_inv finalizer_certifier f' \<and>
     map unrejected out @ map (\<lambda>st. unrejected (cst_commit st)) (cf_pending_commits f')
       = [unrejected (cst_commit first_state), unrejected late_commit]"
  using finalizer_sends_in_order [OF finalizer4_wf finalizer4_inv late_commit_next, of dag4] by (simp add: finalizer4_def)

theorem finalizer_delay_bounded_witness:
  "\<exists>out f'. process_commit dag4 finalizer_certifier finalizer4 late_commit = Some (out, f') \<and>
     length (cf_pending_commits f') \<le> 3 \<and> unrejected (cst_commit first_state) \<in> unrejected ` set out"
proof -
  have "sorted_wrt (<) (map (\<lambda>st. br_round (csd_leader (cst_commit st))) (cf_pending_commits finalizer4) @ [br_round (csd_leader late_commit)])"
    "br_round (csd_leader late_commit) + 3 < 2 ^ 32"
    by (simp_all add: finalizer4_def first_state_def late_commit_def)
  moreover have "first_state \<in> set (cf_pending_commits finalizer4)"
      "br_round (csd_leader (cst_commit first_state)) + 3 \<le> br_round (csd_leader late_commit)"
    by (simp_all add: finalizer4_def first_state_def late_commit_def)
  ultimately show ?thesis
    using finalizer_delay_bounded [OF finalizer4_wf finalizer4_inv late_commit_next, of dag4] by blast
qed

lemma second_finalizes:
  "try_indirect_finalize_pending_transactions_in_block committee4 True second_blocks
     (gc_rounds_of dag4 [cst_commit first_state, cst_commit second_state]) (BlockRef 1 0 7) [0] = Some [0]"
  by (simp add: try_indirect_finalize_pending_transactions_in_block_def second_blocks_def first_blocks_def link_block_def
      link_ancestor_def block_state_new_def btm_get_def bts_insert_def insort_insert_key_def upt_rec block_ref_less_iff block_ref_le_iff
      gced_transaction_votes_for_pending_block_def vec_get_def aggregator_add_def aggregator_new_def committee_stake_def
      committee4_def example_authority_def u64_add_def reached_quorum_def Let_def
      gc_rounds_of_def first_state_def second_state_def calculate_gc_round_def context4_def)

theorem indirect_finalization_quorum_witness:
  "try_indirect_finalize_pending_transactions_in_block committee4 True second_blocks
       (gc_rounds_of dag4 [cst_commit first_state, cst_commit second_state]) (BlockRef 1 0 7) [0] = Some [0] \<and>
     reached_quorum committee4 (stake_of committee4 (accept_supporters True second_blocks
        (gced_transaction_votes_for_pending_block (gc_rounds_of dag4 [cst_commit first_state, cst_commit second_state]) 1 1)
        (BlockRef 1 0 7) 0))"
proof -
  have "buffer_ok committee4 finalizer_certifier [first_state, second_state] second_blocks"
    using states_ok second_graph by (simp add: buffer_ok_def) (simp add: first_state_def second_state_def)
  moreover have "BlockRef 1 0 7 \<in> csd_refs (cst_commit first_state)" by (simp add: first_state_def)
  ultimately have "\<exists>res. try_indirect_finalize_pending_transactions_in_block committee4 True second_blocks
       (gc_rounds_of dag4 [cst_commit first_state, cst_commit second_state]) (BlockRef 1 0 7) [0] = Some res \<and>
     (\<forall>idx \<in> set res. reached_quorum committee4 (stake_of committee4 (accept_supporters True second_blocks
        (gced_transaction_votes_for_pending_block (gc_rounds_of dag4 [cst_commit first_state, cst_commit second_state]) 1
          (cr_index (csd_commit_ref (cst_commit first_state)))) (BlockRef 1 0 7) idx)))"
    using indirect_finalization_quorum [OF committee4_wf, of finalizer_certifier first_state "[second_state]" second_blocks "BlockRef 1 0 7" dag4 "[0]"]
    by auto
  then show ?thesis using second_finalizes by (simp add: first_state_def)
qed

theorem direct_finalize_decides_witness:
  "\<exists>st st'. commit_state_new (cst_commit first_state) = Some st \<and> direct_finalize committee4 finalizer_certifier st = Some st' \<and>
     listed (cst_pending_transactions st') (BlockRef 1 0 7) 0 \<and> \<not> listed (cst_rejected_transactions st') (BlockRef 1 0 7) 0"
proof -
  have ok: "commit_blocks_ok committee4 (cst_commit first_state)" by (simp add: first_state_def sub_dag_blocks_ok grid_block_valid)
  have votes: "\<forall>b \<in> set (csd_blocks (cst_commit first_state)). get_reject_votes finalizer_certifier (vb_reference b) \<noteq> None"
    by (simp add: first_state_def finalizer_votes [simplified One_nat_def])
  have b: "grid_block 1 0 \<in> set (csd_blocks (cst_commit first_state))" by (simp add: first_state_def)
  have "reject_stake finalizer_certifier (BlockRef 1 0 7) 0 s \<longleftrightarrow> s = 1" for s
    unfolding reject_stake_def finalizer_votes(1) by simp
  moreover have "(1::nat) < c_quorum_threshold committee4" by (simp add: committee4_def)
  ultimately show ?thesis using direct_finalize_decides [OF ok votes] b by force
qed

end
