(* ===== verification/Ancestor_State.thy ===== *)
theory Ancestor_State
  imports Quorum_Rounds
begin

section \<open>Ancestor selection state\<close>

text \<open>
  \<^verbatim>\<open>core/src/ancestor.rs\<close>: which authorities' blocks a proposer may leave out.  Authorities with bad
  propagation scores are excluded, never more than a share of the stake, and a changed state is
  locked for a number of rounds.
\<close>

datatype ancestor_state = Include | Exclude nat

record ancestor_info =
  ai_state :: ancestor_state
  ai_lock_until_round :: Round

record state_transition =
  st_authority_id :: AuthorityIndex
  st_score :: nat
  st_stake :: Stake
  st_high_quorum_round :: Round

record ancestor_state_manager =
  asm_context :: consensus_context
  asm_state_map :: "ancestor_info list"
  asm_excluded_nodes_stake_threshold :: Stake
  asm_total_excluded_stake :: Stake
  asm_propagation_scores :: reputation_scores

abbreviation (input) STATE_LOCK_CLOCK_ROUNDS :: nat where "STATE_LOCK_CLOCK_ROUNDS \<equiv> 450"
abbreviation (input) SCORE_EXCLUSION_THRESHOLD_PERCENTAGE :: nat where
  "SCORE_EXCLUSION_THRESHOLD_PERCENTAGE \<equiv> 20"

definition ancestor_info_new :: ancestor_info where
  "ancestor_info_new = \<lparr>ai_state = Include, ai_lock_until_round = 0\<rparr>"

definition is_locked :: "ancestor_info \<Rightarrow> Round \<Rightarrow> bool" where
  "is_locked info current_clock_round \<longleftrightarrow> ai_lock_until_round info \<ge> current_clock_round"

definition set_lock :: "ancestor_info \<Rightarrow> Round \<Rightarrow> ancestor_info" where
  "set_lock info lock_until_round = info\<lparr>ai_lock_until_round := lock_until_round\<rparr>"

definition ancestor_state_manager_new :: "consensus_context \<Rightarrow> ancestor_state_manager" where
  "ancestor_state_manager_new ctx =
     (let percentage = u64_mul 2 (ctx_consensus_bad_nodes_stake_threshold ctx) div 3
      in \<lparr>asm_context = ctx,
          asm_state_map = replicate (committee_size (ctx_committee ctx)) ancestor_info_new,
          asm_excluded_nodes_stake_threshold = u64_mul percentage (c_total_stake (ctx_committee ctx)) div 100,
          asm_total_excluded_stake = 0, asm_propagation_scores = reputation_scores_default\<rparr>)"

definition set_propagation_scores :: "ancestor_state_manager \<Rightarrow> reputation_scores \<Rightarrow> ancestor_state_manager" where
  "set_propagation_scores m scores = m\<lparr>asm_propagation_scores := scores\<rparr>"

definition get_ancestor_states :: "ancestor_state_manager \<Rightarrow> ancestor_state list" where
  "get_ancestor_states m = map ai_state (asm_state_map m)"

definition calculate_network_high_quorum_round :: "ancestor_state_manager \<Rightarrow> quorum_round list \<Rightarrow> Round" where
  "calculate_network_high_quorum_round m accepted_quorum_rounds =
     (let c = ctx_committee (asm_context m)
      in quorum_pick (c_quorum_threshold c) 0 0 (sort (with_stake c (map snd accepted_quorum_rounds))))"

definition apply_state_change ::
  "Round \<Rightarrow> state_transition \<Rightarrow> ancestor_state \<Rightarrow> ancestor_state_manager \<Rightarrow> ancestor_state_manager option" where
  "apply_state_change current_clock_round t new_state m = do {
     _ \<leftarrow> committee_authority (ctx_committee (asm_context m)) (st_authority_id t);
     info \<leftarrow> vec_get (asm_state_map m) (st_authority_id t);
     excluded \<leftarrow> (case (ai_state info, new_state) of
         (Exclude _, Include) \<Rightarrow>
           if asm_total_excluded_stake m < st_stake t then None
           else Some (asm_total_excluded_stake m - st_stake t)
       | (Include, Exclude _) \<Rightarrow> Some (u64_add (asm_total_excluded_stake m) (st_stake t))
       | _ \<Rightarrow> None);
     infos \<leftarrow> vec_set (asm_state_map m) (st_authority_id t)
       (set_lock (info\<lparr>ai_state := new_state\<rparr>) (u32_add current_clock_round STATE_LOCK_CLOCK_ROUNDS));
     Some (m\<lparr>asm_total_excluded_stake := excluded, asm_state_map := infos\<rparr>)
   }"

text \<open>The first loop: the transitions to \<open>Include\<close> and to \<open>Exclude\<close>, in the order of the authorities.\<close>

definition collect_transition ::
  "ancestor_state_manager \<Rightarrow> quorum_round list \<Rightarrow> Round \<Rightarrow> nat \<Rightarrow> Round \<Rightarrow> nat \<times> nat \<Rightarrow>
   state_transition list \<times> state_transition list \<Rightarrow> (state_transition list \<times> state_transition list) option" where
  "collect_transition m accepted_quorum_rounds clock low_score_threshold network_high =
     (\<lambda>(idx, score) (exclude_to_include, include_to_exclude). do {
        authority_id \<leftarrow> to_authority_index (ctx_committee (asm_context m)) idx;
        info \<leftarrow> vec_get (asm_state_map m) idx;
        quorum \<leftarrow> vec_get accepted_quorum_rounds idx;
        authority \<leftarrow> committee_authority (ctx_committee (asm_context m)) authority_id;
        let t = \<lparr>st_authority_id = authority_id, st_score = score, st_stake = au_stake authority,
                 st_high_quorum_round = snd quorum\<rparr>;
        if is_locked info clock then Some (exclude_to_include, include_to_exclude)
        else case ai_state info of
          Include \<Rightarrow>
            if score \<le> low_score_threshold then Some (exclude_to_include, include_to_exclude @ [t])
            else Some (exclude_to_include, include_to_exclude)
        | Exclude _ \<Rightarrow>
            if score > low_score_threshold \<or> snd quorum \<ge> network_high
            then Some (exclude_to_include @ [t], include_to_exclude)
            else Some (exclude_to_include, include_to_exclude)
      })"

definition exclude_if_allowed ::
  "Round \<Rightarrow> state_transition \<Rightarrow> ancestor_state_manager \<Rightarrow> ancestor_state_manager option" where
  "exclude_if_allowed clock t m =
     (if u64_add (asm_total_excluded_stake m) (st_stake t) \<le> asm_excluded_nodes_stake_threshold m
      then apply_state_change clock t (Exclude (st_score t)) m
      else Some m)"

definition update_all_ancestors_state ::
  "dag_state \<Rightarrow> quorum_round list \<Rightarrow> ancestor_state_manager \<Rightarrow> ancestor_state_manager option" where
  "update_all_ancestors_state d accepted_quorum_rounds m = do {
     let network_high = calculate_network_high_quorum_round m accepted_quorum_rounds;
     let clock = tc_round (ds_threshold_clock d);
     let low_score_threshold =
       u64_mul (highest_score (asm_propagation_scores m)) SCORE_EXCLUSION_THRESHOLD_PERCENTAGE div 100;
     (exclude_to_include, include_to_exclude) \<leftarrow>
       fold_opt (collect_transition m accepted_quorum_rounds clock low_score_threshold network_high)
         (enumerate 0 (rs_scores_per_authority (asm_propagation_scores m))) ([], []);
     m \<leftarrow> fold_opt (\<lambda>t. apply_state_change clock t Include) exclude_to_include m;
     fold_opt (exclude_if_allowed clock) (sort_key st_score include_to_exclude) m
   }"

subsection \<open>The excluded stake\<close>

abbreviation asm_committee :: "ancestor_state_manager \<Rightarrow> committee" where
  "asm_committee m \<equiv> ctx_committee (asm_context m)"

definition excluded :: "ancestor_state_manager \<Rightarrow> AuthorityIndex set" where
  "excluded m = {i. i < length (asm_state_map m) \<and> ai_state (asm_state_map m ! i) \<noteq> Include}"

definition asm_inv :: "ancestor_state_manager \<Rightarrow> bool" where
  "asm_inv m \<longleftrightarrow>
     committee_wf (asm_committee m) \<and> length (asm_state_map m) = committee_size (asm_committee m) \<and>
     asm_total_excluded_stake m = stake_of (asm_committee m) (excluded m) \<and>
     asm_total_excluded_stake m \<le> asm_excluded_nodes_stake_threshold m"

definition transition_ok :: "ancestor_state_manager \<Rightarrow> state_transition \<Rightarrow> bool" where
  "transition_ok m t \<longleftrightarrow> st_authority_id t < committee_size (asm_committee m) \<and>
     st_stake t = au_stake (c_authorities (asm_committee m) ! st_authority_id t)"

text \<open>What a change of one authority leaves alone.\<close>

definition changed_only :: "Round \<Rightarrow> AuthorityIndex set \<Rightarrow> ancestor_state_manager \<Rightarrow> ancestor_state_manager \<Rightarrow> bool" where
  "changed_only clock A m m' \<longleftrightarrow>
     asm_context m' = asm_context m \<and> length (asm_state_map m') = length (asm_state_map m) \<and>
     asm_excluded_nodes_stake_threshold m' = asm_excluded_nodes_stake_threshold m \<and>
     asm_propagation_scores m' = asm_propagation_scores m \<and>
     (\<forall>i < length (asm_state_map m). asm_state_map m' ! i = asm_state_map m ! i \<or>
        i \<in> A \<and> ai_lock_until_round (asm_state_map m' ! i) = u32_add clock 450)"

lemma changed_only_refl: "changed_only clock A m m"
  by (simp add: changed_only_def)

lemma changed_only_trans: "changed_only clock A m m1 \<Longrightarrow> changed_only clock B m1 m2 \<Longrightarrow> changed_only clock (A \<union> B) m m2"
  by (auto simp: changed_only_def) metis+

lemma excluded_update:
  "i < length (asm_state_map m) \<Longrightarrow>
     excluded (m\<lparr>asm_total_excluded_stake := e, asm_state_map := (asm_state_map m)[i := info]\<rparr>) =
     (if ai_state info = Include then excluded m - {i} else insert i (excluded m))"
  by (auto simp: excluded_def nth_list_update)

lemma authority_nth: "i < committee_size c \<Longrightarrow> committee_authority c i = Some (c_authorities c ! i)"
  by (simp add: committee_authority_def committee_size_def)

lemma apply_include:
  assumes inv: "asm_inv m" and t: "transition_ok m t" and e: "st_authority_id t \<in> excluded m"
  shows "\<exists>m'. apply_state_change clock t Include m = Some m' \<and> asm_inv m' \<and>
     changed_only clock {st_authority_id t} m m' \<and> excluded m' = excluded m - {st_authority_id t}"
proof -
  let ?i = "st_authority_id t" and ?c = "asm_committee m"
  let ?info = "set_lock ((asm_state_map m ! ?i)\<lparr>ai_state := Include\<rparr>) (u32_add clock 450)"
  let ?m = "m\<lparr>asm_total_excluded_stake := asm_total_excluded_stake m - st_stake t, asm_state_map := (asm_state_map m)[?i := ?info]\<rparr>"
  have i: "?i < length (asm_state_map m)" "?i < committee_size ?c" using inv t by (auto simp: asm_inv_def transition_ok_def)
  obtain n where n: "ai_state (asm_state_map m ! ?i) = Exclude n"
    using e by (cases "ai_state (asm_state_map m ! ?i)") (auto simp: excluded_def)
  have split: "stake_of ?c (excluded m) = stake_of ?c (excluded m - {?i}) + st_stake t"
    using stake_of_insert [of ?i "excluded m - {?i}" ?c] e i(2) t by (simp add: insert_absorb transition_ok_def)
  have ex: "excluded ?m = excluded m - {?i}" using i(1) by (subst excluded_update) (simp_all add: set_lock_def)
  have "apply_state_change clock t Include m = Some ?m"
    using i n split inv by (auto simp: apply_state_change_def authority_nth asm_inv_def vec_get_def vec_set_def)
  moreover have "asm_inv ?m" using inv split unfolding asm_inv_def ex by auto
  moreover have "changed_only clock {?i} m ?m" using i(1) by (auto simp: changed_only_def nth_list_update set_lock_def)
  ultimately show ?thesis using ex by blast
qed

lemma apply_exclude:
  assumes inv: "asm_inv m" and t: "transition_ok m t" and e: "st_authority_id t \<notin> excluded m"
  shows "\<exists>m'. exclude_if_allowed clock t m = Some m' \<and> asm_inv m' \<and>
     changed_only clock {st_authority_id t} m m' \<and> excluded m \<subseteq> excluded m' \<and> excluded m' \<subseteq> insert (st_authority_id t) (excluded m)"
proof -
  let ?i = "st_authority_id t" and ?c = "asm_committee m"
  let ?info = "set_lock ((asm_state_map m ! ?i)\<lparr>ai_state := Exclude (st_score t)\<rparr>) (u32_add clock 450)"
  have wf: "committee_wf ?c" and tot: "asm_total_excluded_stake m = stake_of ?c (excluded m)" using inv by (auto simp: asm_inv_def)
  have i: "?i < length (asm_state_map m)" "?i < committee_size ?c" using inv t by (auto simp: asm_inv_def transition_ok_def)
  have n: "ai_state (asm_state_map m ! ?i) = Include" using e i(1) by (auto simp: excluded_def)
  have split: "stake_of ?c (insert ?i (excluded m)) = stake_of ?c (excluded m) + st_stake t"
    using stake_of_insert [OF e i(2)] t by (simp add: transition_ok_def)
  have add: "u64_add (asm_total_excluded_stake m) (st_stake t) = stake_of ?c (insert ?i (excluded m))"
    using stake_of_bound [OF wf, of "insert ?i (excluded m)"] unfolding split tot by (rule u64_add_eq)
  let ?m = "m\<lparr>asm_total_excluded_stake := stake_of ?c (insert ?i (excluded m)), asm_state_map := (asm_state_map m)[?i := ?info]\<rparr>"
  show ?thesis
  proof (cases "stake_of ?c (insert ?i (excluded m)) \<le> asm_excluded_nodes_stake_threshold m")
    case True
    have ex: "excluded ?m = insert ?i (excluded m)" using i(1) by (subst excluded_update) (simp_all add: set_lock_def)
    have "exclude_if_allowed clock t m = Some ?m"
      using True i n by (simp add: exclude_if_allowed_def add apply_state_change_def authority_nth vec_get_def vec_set_def)
    moreover have "asm_inv ?m" using inv True unfolding asm_inv_def ex by auto
    moreover have "changed_only clock {?i} m ?m" using i(1) by (auto simp: changed_only_def nth_list_update set_lock_def)
    ultimately show ?thesis using ex by blast
  next
    case False
    then show ?thesis using inv by (auto simp: exclude_if_allowed_def add changed_only_refl)
  qed
qed

lemma transition_ok_changed: "changed_only clock A m m' \<Longrightarrow> transition_ok m' t = transition_ok m t"
  by (simp add: changed_only_def transition_ok_def)

lemma include_all:
  assumes "asm_inv m" "\<And>t. t \<in> set ts \<Longrightarrow> transition_ok m t \<and> st_authority_id t \<in> excluded m" "distinct (map st_authority_id ts)"
  shows "\<exists>m'. fold_opt (\<lambda>t. apply_state_change clock t Include) ts m = Some m' \<and> asm_inv m' \<and>
     changed_only clock (st_authority_id ` set ts) m m' \<and> excluded m' = excluded m - st_authority_id ` set ts"
  using assms
proof (induction ts arbitrary: m)
  case Nil
  then show ?case by (auto simp: changed_only_refl)
next
  case (Cons t ts)
  obtain m1 where m1: "apply_state_change clock t Include m = Some m1" "asm_inv m1"
     "changed_only clock {st_authority_id t} m m1" "excluded m1 = excluded m - {st_authority_id t}"
    using apply_include [OF Cons.prems(1), of t clock] Cons.prems(2) by auto
  have "transition_ok m1 x \<and> st_authority_id x \<in> excluded m1" if "x \<in> set ts" for x
    using Cons.prems(2,3) that transition_ok_changed [OF m1(3)] m1(4) by (force simp: image_iff)
  with Cons.IH [OF m1(2)] Cons.prems(3) obtain m' where m': "fold_opt (\<lambda>t. apply_state_change clock t Include) ts m1 = Some m'"
     "asm_inv m'" "changed_only clock (st_authority_id ` set ts) m1 m'" "excluded m' = excluded m1 - st_authority_id ` set ts" by auto
  have "changed_only clock (st_authority_id ` set (t # ts)) m m'" using changed_only_trans [OF m1(3) m'(3)] by simp
  moreover have "excluded m' = excluded m - st_authority_id ` set (t # ts)" using m1(4) m'(4) by auto
  ultimately show ?case using m1(1) m'(1,2) by auto
qed

lemma exclude_all:
  assumes "asm_inv m" "\<And>t. t \<in> set ts \<Longrightarrow> transition_ok m t \<and> st_authority_id t \<notin> excluded m" "distinct (map st_authority_id ts)"
  shows "\<exists>m'. fold_opt (exclude_if_allowed clock) ts m = Some m' \<and> asm_inv m' \<and>
     changed_only clock (st_authority_id ` set ts) m m' \<and> excluded m' \<subseteq> excluded m \<union> st_authority_id ` set ts"
  using assms
proof (induction ts arbitrary: m)
  case Nil
  then show ?case by (auto simp: changed_only_refl)
next
  case (Cons t ts)
  obtain m1 where m1: "exclude_if_allowed clock t m = Some m1" "asm_inv m1"
     "changed_only clock {st_authority_id t} m m1" "excluded m1 \<subseteq> insert (st_authority_id t) (excluded m)"
    using apply_exclude [OF Cons.prems(1), of t clock] Cons.prems(2) by auto
  have "transition_ok m1 x \<and> st_authority_id x \<notin> excluded m1" if "x \<in> set ts" for x
    using Cons.prems(2,3) that transition_ok_changed [OF m1(3)] m1(4) by (force simp: image_iff)
  with Cons.IH [OF m1(2)] Cons.prems(3) obtain m' where m': "fold_opt (exclude_if_allowed clock) ts m1 = Some m'"
     "asm_inv m'" "changed_only clock (st_authority_id ` set ts) m1 m'" "excluded m' \<subseteq> excluded m1 \<union> st_authority_id ` set ts" by auto
  have "changed_only clock (st_authority_id ` set (t # ts)) m m'" using changed_only_trans [OF m1(3) m'(3)] by simp
  moreover have "excluded m' \<subseteq> excluded m \<union> st_authority_id ` set (t # ts)" using m1(4) m'(4) by auto
  ultimately show ?case using m1(1) m'(1,2) by auto
qed

subsection \<open>Updating all authorities\<close>

definition unlocked :: "ancestor_state_manager \<Rightarrow> Round \<Rightarrow> AuthorityIndex \<Rightarrow> bool" where
  "unlocked m clock i \<longleftrightarrow> \<not> is_locked (asm_state_map m ! i) clock"

definition collected ::
  "ancestor_state_manager \<Rightarrow> Round \<Rightarrow> nat \<Rightarrow> (nat \<times> nat) list \<Rightarrow> state_transition list \<Rightarrow> state_transition list \<Rightarrow> bool" where
  "collected m clock low xs e i \<longleftrightarrow>
     (\<forall>t \<in> set e. transition_ok m t \<and> st_authority_id t \<in> excluded m \<and> unlocked m clock (st_authority_id t) \<and>
        st_authority_id t \<in> fst ` set xs) \<and>
     (\<forall>t \<in> set i. transition_ok m t \<and> st_authority_id t \<notin> excluded m \<and> unlocked m clock (st_authority_id t) \<and>
        st_score t \<le> low \<and> (st_authority_id t, st_score t) \<in> set xs) \<and>
     distinct (map st_authority_id e) \<and> distinct (map st_authority_id i)"

lemma collect_step:
  assumes inv: "asm_inv m" and idx: "idx < committee_size (asm_committee m)" "idx < length qs"
  shows "\<exists>e' i'. collect_transition m qs clock low nh (idx, score) (e, i) = Some (e @ e', i @ i') \<and>
     collected m clock low [(idx, score)] e' i'"
proof -
  have len: "length (asm_state_map m) = committee_size (asm_committee m)" using inv by (simp add: asm_inv_def)
  let ?t = "\<lparr>st_authority_id = idx, st_score = score, st_stake = au_stake (c_authorities (asm_committee m) ! idx),
                 st_high_quorum_round = snd (qs ! idx)\<rparr>"
  let ?move_in = "\<not> is_locked (asm_state_map m ! idx) clock \<and> ai_state (asm_state_map m ! idx) \<noteq> Include \<and> (score > low \<or> snd (qs ! idx) \<ge> nh)"
  let ?move_out = "\<not> is_locked (asm_state_map m ! idx) clock \<and> ai_state (asm_state_map m ! idx) = Include \<and> score \<le> low"
  have "collect_transition m qs clock low nh (idx, score) (e, i) =
      Some (e @ (if ?move_in then [?t] else []), i @ (if ?move_out then [?t] else []))"
    using idx len
    by (cases "ai_state (asm_state_map m ! idx)")
      (simp_all add: collect_transition_def to_authority_index_def committee_size_def authority_nth vec_get_def Let_def)
  moreover have "collected m clock low [(idx, score)] (if ?move_in then [?t] else []) (if ?move_out then [?t] else [])"
    using idx len by (auto simp: collected_def transition_ok_def excluded_def unlocked_def)
  ultimately show ?thesis by blast
qed

lemma disjoint_mono: "A \<subseteq> X \<Longrightarrow> B \<subseteq> Y \<Longrightarrow> X \<inter> Y = {} \<Longrightarrow> A \<inter> B = {}"
  by blast

lemma collected_append:
  assumes "collected m clock low xs e i" "collected m clock low ys e' i'" "fst ` set xs \<inter> fst ` set ys = {}"
  shows "collected m clock low (xs @ ys) (e @ e') (i @ i')"
proof -
  have more: "collected m clock low (xs @ ys) e i" "collected m clock low (xs @ ys) e' i'"
    using assms(1,2) by (auto simp: collected_def)
  have e: "st_authority_id ` set e \<subseteq> fst ` set xs" "st_authority_id ` set e' \<subseteq> fst ` set ys"
    using assms(1,2) by (auto simp: collected_def)
  have i: "st_authority_id ` set i \<subseteq> fst ` set xs" "st_authority_id ` set i' \<subseteq> fst ` set ys"
    using assms(1,2) by (auto simp: collected_def intro: rev_image_eqI)
  note d = disjoint_mono [OF e assms(3)] disjoint_mono [OF i assms(3)]
  show ?thesis using more d by (simp add: collected_def ball_Un)
qed

lemma collect_all:
  assumes inv: "asm_inv m" and "\<And>x. x \<in> set xs \<Longrightarrow> fst x < committee_size (asm_committee m) \<and> fst x < length qs"
    and "distinct (map fst xs)"
  shows "\<exists>e' i'. fold_opt (collect_transition m qs clock low nh) xs (e, i) = Some (e @ e', i @ i') \<and>
     collected m clock low xs e' i'"
  using assms(2,3)
proof (induction xs arbitrary: e i)
  case Nil
  then show ?case by (auto simp: collected_def)
next
  case (Cons x xs)
  obtain idx score where x: "x = (idx, score)" by (cases x)
  obtain e1 i1 where s: "collect_transition m qs clock low nh x (e, i) = Some (e @ e1, i @ i1)" "collected m clock low [x] e1 i1"
    using collect_step [OF inv, of idx qs clock low nh score e i] Cons.prems(1) [of x] by (auto simp: x)
  obtain e2 i2 where t: "fold_opt (collect_transition m qs clock low nh) xs (e @ e1, i @ i1) = Some ((e @ e1) @ e2, (i @ i1) @ i2)"
      "collected m clock low xs e2 i2"
    using Cons.IH [of "e @ e1" "i @ i1"] Cons.prems by auto
  have "collected m clock low ([x] @ xs) (e1 @ e2) (i1 @ i2)"
    by (rule collected_append [OF s(2) t(2)]) (use Cons.prems(2) in simp)
  with s(1) t(1) show ?case by auto
qed

text \<open>C35: bounded exclusion of ancestors.  Updating the states never panics, in particular the tracked
  excluded stake never underflows; it stays the stake of exactly the excluded authorities and never
  exceeds the configured share of the total stake.  Only authorities whose lock has expired change,
  and they are locked again for 450 rounds; a newly excluded authority has a score of at most a fifth
  of the best one.\<close>

theorem update_all_ancestors_bounded:
  assumes "asm_inv m" "length (rs_scores_per_authority (asm_propagation_scores m)) \<le> committee_size (ctx_committee (asm_context m))"
    and "length (rs_scores_per_authority (asm_propagation_scores m)) \<le> length accepted_quorum_rounds"
  shows "\<exists>m'. update_all_ancestors_state d accepted_quorum_rounds m = Some m' \<and> asm_inv m' \<and>
     asm_excluded_nodes_stake_threshold m' = asm_excluded_nodes_stake_threshold m \<and>
     (\<forall>i < length (asm_state_map m). asm_state_map m' ! i \<noteq> asm_state_map m ! i \<longrightarrow>
        \<not> is_locked (asm_state_map m ! i) (tc_round (ds_threshold_clock d)) \<and>
        ai_lock_until_round (asm_state_map m' ! i) = u32_add (tc_round (ds_threshold_clock d)) 450) \<and>
     (\<forall>i \<in> excluded m' - excluded m. rs_scores_per_authority (asm_propagation_scores m) ! i \<le>
        u64_mul (highest_score (asm_propagation_scores m)) 20 div 100)"
proof -
  let ?scores = "rs_scores_per_authority (asm_propagation_scores m)" and ?clock = "tc_round (ds_threshold_clock d)"
  let ?low = "u64_mul (highest_score (asm_propagation_scores m)) 20 div 100"
  let ?xs = "enumerate 0 ?scores"
  have nth: "(j, x) \<in> set ?xs \<Longrightarrow> j < length ?scores \<and> x = ?scores ! j" for j x
    by (auto simp: in_set_enumerate_eq)
  obtain e i where c: "fold_opt (collect_transition m accepted_quorum_rounds ?clock ?low
        (calculate_network_high_quorum_round m accepted_quorum_rounds)) ?xs ([], []) = Some (e, i)"
      "collected m ?clock ?low ?xs e i"
    using collect_all [OF assms(1), of ?xs accepted_quorum_rounds ?clock ?low _ "[]" "[]"] assms(2,3) nth by fastforce
  have E: "\<And>t. t \<in> set e \<Longrightarrow> transition_ok m t \<and> st_authority_id t \<in> excluded m"
    and I: "\<And>t. t \<in> set i \<Longrightarrow> transition_ok m t \<and> st_authority_id t \<notin> excluded m"
    and D: "distinct (map st_authority_id e)" "distinct (map st_authority_id i)"
    and U: "\<And>t. t \<in> set e \<union> set i \<Longrightarrow> unlocked m ?clock (st_authority_id t)"
    and S: "\<And>t. t \<in> set i \<Longrightarrow> ?scores ! st_authority_id t \<le> ?low"
    using c(2) nth by (force simp: collected_def)+
  obtain m1 where m1: "fold_opt (\<lambda>t. apply_state_change ?clock t Include) e m = Some m1" "asm_inv m1"
      "changed_only ?clock (st_authority_id ` set e) m m1" "excluded m1 = excluded m - st_authority_id ` set e"
    using include_all [OF assms(1) E D(1)] by blast
  let ?i = "sort_key st_score i"
  have I1: "transition_ok m1 t \<and> st_authority_id t \<notin> excluded m1" if "t \<in> set ?i" for t
    using I that transition_ok_changed [OF m1(3)] m1(4) by auto
  have "distinct (map st_authority_id ?i)"
    using D(2) by (metis mset_eq_imp_distinct_iff mset_map mset_sort)
  with exclude_all [OF m1(2) I1] obtain m' where m': "fold_opt (exclude_if_allowed ?clock) ?i m1 = Some m'" "asm_inv m'"
      "changed_only ?clock (st_authority_id ` set ?i) m1 m'" "excluded m' \<subseteq> excluded m1 \<union> st_authority_id ` set ?i"
    by blast
  have ch: "changed_only ?clock (st_authority_id ` set e \<union> st_authority_id ` set i) m m'"
    using changed_only_trans [OF m1(3) m'(3)] by simp
  have "update_all_ancestors_state d accepted_quorum_rounds m = Some m'"
    using c(1) m1(1) m'(1) by (simp add: update_all_ancestors_state_def Let_def)
  moreover have "\<forall>j < length (asm_state_map m). asm_state_map m' ! j \<noteq> asm_state_map m ! j \<longrightarrow>
        \<not> is_locked (asm_state_map m ! j) ?clock \<and> ai_lock_until_round (asm_state_map m' ! j) = u32_add ?clock 450"
    using ch U by (fastforce simp: changed_only_def unlocked_def)
  moreover have "\<forall>j \<in> excluded m' - excluded m. ?scores ! j \<le> ?low" using m'(4) m1(4) S by auto
  ultimately show ?thesis using m'(2) ch by (auto simp: changed_only_def)
qed

lemma asm_new_inv: "committee_wf (ctx_committee ctx) \<Longrightarrow> asm_inv (ancestor_state_manager_new ctx)"
proof -
  assume wf: "committee_wf (ctx_committee ctx)"
  have "excluded (ancestor_state_manager_new ctx) = {}"
    by (auto simp: excluded_def ancestor_state_manager_new_def ancestor_info_new_def Let_def)
  then show ?thesis using wf by (simp add: asm_inv_def) (simp add: ancestor_state_manager_new_def Let_def)
qed

text \<open>Four authorities, where authority 2 is excluded and its lock has expired.\<close>

definition ancestors4 :: ancestor_state_manager where
  "ancestors4 = \<lparr>asm_context = context4,
     asm_state_map = [ancestor_info_new, ancestor_info_new, \<lparr>ai_state = Exclude 1, ai_lock_until_round = 0\<rparr>, ancestor_info_new],
     asm_excluded_nodes_stake_threshold = 1, asm_total_excluded_stake = 1,
     asm_propagation_scores = \<lparr>rs_scores_per_authority = [10, 1, 9, 8], rs_commit_range = commit_range_default\<rparr>\<rparr>"

lemma ancestors4_inv: "asm_inv ancestors4"
proof -
  have "i \<in> excluded ancestors4 \<longleftrightarrow> i = 2" for i
    by (cases "i = 0 \<or> i = 1 \<or> i = 2 \<or> i = 3")
      (auto simp: excluded_def ancestors4_def ancestor_info_new_def)
  then have "excluded ancestors4 = {2}" by blast
  then show ?thesis
    by (simp add: asm_inv_def) (simp add: ancestors4_def committee4_wf stake_of_committee4)
qed

theorem update_all_ancestors_bounded_witness:
  "\<exists>m'. update_all_ancestors_state dag4 (replicate 4 (3, 5)) ancestors4 = Some m' \<and> asm_inv m' \<and>
     asm_total_excluded_stake m' \<le> 1"
proof -
  have "asm_excluded_nodes_stake_threshold ancestors4 = 1" by (simp add: ancestors4_def)
  moreover have "length (rs_scores_per_authority (asm_propagation_scores ancestors4)) = 4"
    "committee_size (ctx_committee (asm_context ancestors4)) = 4" by (simp_all add: ancestors4_def)
  ultimately obtain m' where m': "update_all_ancestors_state dag4 (replicate 4 (3, 5)) ancestors4 = Some m'" "asm_inv m'"
      "asm_excluded_nodes_stake_threshold m' = 1"
    using update_all_ancestors_bounded [OF ancestors4_inv, of "replicate 4 (3, 5)" dag4] by auto
  then show ?thesis by (auto simp: asm_inv_def)
qed

end
