(* ===== verification/Proposer.thy ===== *)
theory Proposer
  imports Ancestor_State Block_Verifier Universal_Committer
begin

section \<open>Choosing the ancestors of a proposal\<close>

text \<open>
  \<^verbatim>\<open>get_last_cached_block_per_authority\<close> of \<^verbatim>\<open>core/src/dag_state/read.rs\<close> and
  \<^verbatim>\<open>smart_ancestors_to_propose\<close>, \<^verbatim>\<open>leaders_exist\<close> and the small readers of \<^verbatim>\<open>core/src/core/proposer.rs\<close>.
  Of the fields of \<^verbatim>\<open>Core\<close> the record \<open>proposer_core\<close> has those these functions use.  The ancestors
  chosen are shown to be ones that \<open>verify_ancestors\<close> of \<open>Block_Verifier\<close> accepts.
\<close>

subsection \<open>The newest blocks of all authorities\<close>

fun last_cached_loop ::
  "(block_ref, block_info) btree_map \<Rightarrow> block_ref list \<Rightarrow> Round \<Rightarrow> verified_block \<Rightarrow> block_ref list \<Rightarrow>
   (verified_block \<times> block_ref list) option" where
  "last_cached_loop recent [] last_round block equivocating = Some (block, equivocating)"
| "last_cached_loop recent (r # rs) last_round block equivocating =
     (if last_round = 0
      then (case btm_get recent r of
              None \<Rightarrow> None
            | Some info \<Rightarrow> last_cached_loop recent rs (br_round r) (bi_block info) equivocating)
      else if br_round r < last_round then Some (block, equivocating)
      else last_cached_loop recent rs last_round block (equivocating @ [r]))"

definition last_cached_step ::
  "dag_state \<Rightarrow> Round \<Rightarrow> nat \<times> block_ref btree_set \<Rightarrow> verified_block list \<times> block_ref list list \<Rightarrow>
   (verified_block list \<times> block_ref list list) option" where
  "last_cached_step d end_round = (\<lambda>(authority_index, block_refs) (blocks, equivocating_blocks). do {
     a \<leftarrow> to_authority_index (ctx_committee (ds_context d)) authority_index;
     last_evicted_round \<leftarrow> vec_get (ds_evicted_rounds d) a;
     if end_round - 1 \<le> last_evicted_round then None
     else do {
       let refs = rev (filter (\<lambda>r. BlockRef (u32_add last_evicted_round 1) a digest_min \<le> r \<and>
                                r < BlockRef end_round a digest_min) block_refs);
       genesis_block \<leftarrow> vec_get blocks a;
       equivocating \<leftarrow> vec_get equivocating_blocks a;
       (block, equivocating) \<leftarrow>
         last_cached_loop (ds_recent_blocks d) refs 0 genesis_block equivocating;
       blocks \<leftarrow> vec_set blocks a block;
       equivocating_blocks \<leftarrow> vec_set equivocating_blocks a equivocating;
       Some (blocks, equivocating_blocks)
     }
   })"

definition get_last_cached_block_per_authority ::
  "dag_state \<Rightarrow> Round \<Rightarrow> (verified_block \<times> block_ref list) list option" where
  "get_last_cached_block_per_authority d end_round =
     (let blocks = map snd (ds_genesis d);
          equivocating_blocks = replicate (committee_size (ctx_committee (ds_context d))) []
      in if end_round = GENESIS_ROUND \<or> end_round = GENESIS_ROUND + 1
         then Some (map (\<lambda>b. (b, [])) blocks)
         else do {
           (blocks, equivocating_blocks) \<leftarrow>
             fold_opt (last_cached_step d end_round) (enumerate 0 (ds_recent_refs_by_authority d))
               (blocks, equivocating_blocks);
           Some (zip blocks equivocating_blocks)
         })"

record proposer_core =
  pc_context :: consensus_context
  pc_dag_state :: dag_state
  pc_last_included_ancestors :: "block_ref option list"
  pc_ancestor_state_manager :: ancestor_state_manager
  pc_round_tracker :: peer_round_tracker
  pc_committer :: universal_committer

subsection \<open>Leaders and the last proposal\<close>

definition leaders :: "leader_rand \<Rightarrow> proposer_core \<Rightarrow> Round \<Rightarrow> slot list option" where
  "leaders R pc round = map_option (map (Slot round)) (get_leaders R (pc_committer pc) round)"

fun all_slots_cached :: "dag_state \<Rightarrow> slot list \<Rightarrow> bool option" where
  "all_slots_cached d [] = Some True"
| "all_slots_cached d (leader # rest) =
     (case contains_cached_block_at_slot d leader of
        None \<Rightarrow> None
      | Some found \<Rightarrow> if \<not> found then Some False else all_slots_cached d rest)"

definition leaders_exist :: "leader_rand \<Rightarrow> proposer_core \<Rightarrow> Round \<Rightarrow> bool option" where
  "leaders_exist R pc round = Option.bind (leaders R pc round) (all_slots_cached (pc_dag_state pc))"

definition first_leader :: "leader_rand \<Rightarrow> proposer_core \<Rightarrow> Round \<Rightarrow> AuthorityIndex option" where
  "first_leader R pc round =
     Option.bind (leaders R pc round) (\<lambda>slots. case slots of [] \<Rightarrow> None | s # _ \<Rightarrow> Some (slot_authority s))"

definition last_proposed_block :: "proposer_core \<Rightarrow> verified_block option" where
  "last_proposed_block pc = get_last_proposed_block (pc_dag_state pc)"

definition last_proposed_round :: "proposer_core \<Rightarrow> Round option" where
  "last_proposed_round pc = map_option vb_round (last_proposed_block pc)"

definition last_proposed_timestamp_ms :: "proposer_core \<Rightarrow> nat option" where
  "last_proposed_timestamp_ms pc = map_option vb_timestamp_ms (last_proposed_block pc)"

subsection \<open>Selecting ancestors\<close>

text \<open>The closure over all newest blocks: included ancestors, pending excluded ancestors with their
  score, and the references that are excluded at once.\<close>

definition select_ancestor ::
  "AuthorityIndex \<Rightarrow> block_ref option list \<Rightarrow> ancestor_state list \<Rightarrow> verified_block \<times> block_ref list \<Rightarrow>
   verified_block list \<times> (nat \<times> verified_block) list \<times> block_ref btree_set \<Rightarrow>
   (verified_block list \<times> (nat \<times> verified_block) list \<times> block_ref btree_set) option" where
  "select_ancestor own last_included states =
     (\<lambda>(ancestor, equivocating) (included, pending, excluded).
        if vb_author ancestor = own then Some (included, pending, excluded)
        else do {
          last_block_ref \<leftarrow> vec_get last_included (vb_author ancestor);
          if (case last_block_ref of Some r \<Rightarrow> br_round r \<ge> vb_round ancestor | None \<Rightarrow> False)
          then Some (included, pending, excluded)
          else do {
            let excluded = fold bts_insert equivocating excluded;
            state \<leftarrow> vec_get states (vb_author ancestor);
            case state of
              Include \<Rightarrow> Some (included @ [ancestor], pending, excluded)
            | Exclude score \<Rightarrow> Some (included, pending @ [(score, ancestor)], excluded)
          }
        })"

definition count_parent ::
  "committee \<Rightarrow> verified_block \<Rightarrow> stake_aggregator \<Rightarrow> stake_aggregator option" where
  "count_parent c ancestor agg = map_option snd (aggregator_add reached_quorum agg (vb_author ancestor) c)"

definition include_pending ::
  "committee \<Rightarrow> Round \<Rightarrow> nat \<times> verified_block \<Rightarrow>
   verified_block list \<times> (nat \<times> verified_block) list \<times> stake_aggregator \<Rightarrow>
   (verified_block list \<times> (nat \<times> verified_block) list \<times> stake_aggregator) option" where
  "include_pending c quorum_round = (\<lambda>(score, ancestor) (to_propose, excluded_ancestors, agg). do {
     _ \<leftarrow> committee_authority c (vb_author ancestor);
     if \<not> reached_threshold reached_quorum agg c \<and> vb_round ancestor = quorum_round
     then do {
       agg \<leftarrow> count_parent c ancestor agg;
       Some (to_propose @ [ancestor], excluded_ancestors, agg)
     }
     else Some (to_propose, excluded_ancestors @ [(score, ancestor)], agg)
   })"

definition include_excluded ::
  "dag_state \<Rightarrow> committee \<Rightarrow> quorum_round list \<Rightarrow> Round \<Rightarrow> nat \<times> verified_block \<Rightarrow>
   verified_block list \<times> block_ref option list \<times> block_ref btree_set \<Rightarrow>
   (verified_block list \<times> block_ref option list \<times> block_ref btree_set) option" where
  "include_excluded d c accepted_quorum_rounds quorum_round =
     (\<lambda>(score, ancestor) (to_propose, last_included, excluded). do {
        let excluded_author = vb_author ancestor;
        _ \<leftarrow> committee_authority c excluded_author;
        accepted \<leftarrow> vec_get accepted_quorum_rounds excluded_author;
        let low = min (fst accepted) quorum_round;
        last_ref \<leftarrow> vec_get last_included excluded_author;
        let last_included_round = (case last_ref of Some r \<Rightarrow> br_round r | None \<Rightarrow> GENESIS_ROUND);
        if vb_round ancestor \<le> last_included_round then Some (to_propose, last_included, excluded)
        else if last_included_round \<ge> low
        then Some (to_propose, last_included, bts_insert (vb_reference ancestor) excluded)
        else if vb_round ancestor \<le> low
        then do {
          last_included \<leftarrow> vec_set last_included excluded_author (Some (vb_reference ancestor));
          Some (to_propose @ [ancestor], last_included, excluded)
        }
        else do {
          let excluded = bts_insert (vb_reference ancestor) excluded;
          found \<leftarrow> get_last_cached_block_in_range d excluded_author
            (u32_add last_included_round 1) (u32_add low 1);
          case found of
            None \<Rightarrow> Some (to_propose, last_included, excluded)
          | Some earlier \<Rightarrow> do {
              last_included \<leftarrow> vec_set last_included excluded_author (Some (vb_reference earlier));
              Some (to_propose @ [earlier], last_included, excluded)
            }
        }
      })"

definition smart_ancestors_to_propose ::
  "proposer_core \<Rightarrow> Round \<Rightarrow> bool \<Rightarrow> ((verified_block list \<times> block_ref btree_set) \<times> proposer_core) option" where
  "smart_ancestors_to_propose pc clock_round smart_select = do {
     let d = pc_dag_state pc;
     let c = ctx_committee (pc_context pc);
     all_ancestors \<leftarrow> get_last_cached_block_per_authority d clock_round;
     if length all_ancestors \<noteq> committee_size c then None
     else do {
       accepted_quorum_rounds \<leftarrow> compute_accepted_quorum_rounds (pc_round_tracker pc);
       m \<leftarrow> update_all_ancestors_state d accepted_quorum_rounds (pc_ancestor_state_manager pc);
       let pc = pc\<lparr>pc_ancestor_state_manager := m\<rparr>;
       let quorum_round = clock_round - 1;
       last_proposed \<leftarrow> last_proposed_block pc;
       (included, pending, excluded) \<leftarrow>
         fold_opt (select_ancestor (ctx_own_index (pc_context pc)) (pc_last_included_ancestors pc)
             (get_ancestor_states m)) all_ancestors ([last_proposed], [], []);
       agg \<leftarrow> fold_opt (count_parent c) (filter (\<lambda>a. vb_round a = quorum_round) included) aggregator_new;
       if smart_select \<and> \<not> reached_threshold reached_quorum agg c then Some (([], []), pc)
       else do {
         (to_propose, excluded_ancestors, agg) \<leftarrow>
           fold_opt (include_pending c quorum_round) (sort_key (\<lambda>(score, _). - int score) pending)
             (included, [], agg);
         (to_propose, last_included, excluded) \<leftarrow>
           fold_opt (include_excluded d c accepted_quorum_rounds quorum_round) excluded_ancestors
             (to_propose, pc_last_included_ancestors pc, excluded);
         if \<not> reached_threshold reached_quorum agg c then None
         else Some ((to_propose, excluded), pc\<lparr>pc_last_included_ancestors := last_included\<rparr>)
       }
     }
   }"

subsection \<open>The newest blocks are by their authorities\<close>

definition genesis_complete :: "dag_state \<Rightarrow> bool" where
  "genesis_complete d \<longleftrightarrow> length (ds_genesis d) = committee_size (ds_committee d) \<and>
     btm_wf (ds_genesis d) \<and> (\<forall>i < length (ds_genesis d). br_author (fst (ds_genesis d ! i)) = i)"

definition candidate :: "dag_state \<Rightarrow> Round \<Rightarrow> verified_block \<Rightarrow> bool" where
  "candidate d clock b \<longleftrightarrow> vb_author b < committee_size (ds_committee d) \<and> vb_round b < clock \<and>
     get_block d (vb_reference b) = Some b"

lemma genesis_candidate:
  assumes "dag_inv d" "genesis_complete d" "i < committee_size (ds_committee d)" "0 < clock"
  shows "vb_author (map snd (ds_genesis d) ! i) = i" "candidate d clock (map snd (ds_genesis d) ! i)"
proof -
  have i: "i < length (ds_genesis d)" using assms(2,3) by (simp add: genesis_complete_def)
  let ?r = "fst (ds_genesis d ! i)" and ?b = "snd (ds_genesis d ! i)"
  have "(?r, ?b) \<in> set (ds_genesis d)" using i by simp
  then have g: "btm_get (ds_genesis d) ?r = Some ?b"
    using assms(2) btm_get_in_set [of "ds_genesis d" ?r ?b] by (simp add: genesis_complete_def del: prod.collapse)
  then have r: "vb_reference ?b = ?r" "br_round ?r = 0" using assms(1) by (auto simp: dag_inv_def)
  have a: "br_author ?r = i" using assms(2) i by (simp add: genesis_complete_def)
  have "get_block d ?r = Some ?b" using g r(2) by (simp add: get_block_eq)
  moreover have "vb_author ?b = br_author ?r" "vb_round ?b = br_round ?r" using r(1) by (metis vb_reference_sel)+
  ultimately show "vb_author (map snd (ds_genesis d) ! i) = i" "candidate d clock (map snd (ds_genesis d) ! i)"
    using i a r assms(3,4) by (auto simp: candidate_def)
qed

lemma last_cached_loop_block:
  assumes "last_cached_loop recent rs lr b eqs = Some (b', eqs')" "P b"
    and "\<And>r info. r \<in> set rs \<Longrightarrow> btm_get recent r = Some info \<Longrightarrow> P (bi_block info)"
  shows "P b'"
  using assms
proof (induction rs arbitrary: lr b eqs)
  case (Cons r rs)
  show ?case
  proof (cases "lr = 0")
    case True
    with Cons.prems(1) obtain info where i: "btm_get recent r = Some info"
        "last_cached_loop recent rs (br_round r) (bi_block info) eqs = Some (b', eqs')" by (auto split: option.splits)
    have "P (bi_block info)" using Cons.prems(3) [of r info] i(1) by simp
    then show ?thesis by (rule Cons.IH [OF i(2)]) (rule Cons.prems(3), simp_all)
  next
    case False
    show ?thesis
    proof (cases "br_round r < lr")
      case True
      then show ?thesis using False Cons.prems by simp
    next
      case nl: False
      with False Cons.prems(1) have "last_cached_loop recent rs lr b (eqs @ [r]) = Some (b', eqs')" by simp
      then show ?thesis by (rule Cons.IH [OF _ Cons.prems(2)]) (rule Cons.prems(3), simp_all)
    qed
  qed
qed simp

definition per_authority :: "dag_state \<Rightarrow> Round \<Rightarrow> verified_block list \<Rightarrow> bool" where
  "per_authority d clock bs \<longleftrightarrow> length bs = committee_size (ds_committee d) \<and>
     (\<forall>i < length bs. vb_author (bs ! i) = i \<and> candidate d clock (bs ! i))"

lemma recent_candidate:
  assumes inv: "dag_inv d" and a: "a < committee_size (ds_committee d)"
    and r: "r \<in> set (ds_recent_refs_by_authority d ! a)" "r < BlockRef clock a 0"
    and info: "btm_get (ds_recent_blocks d) r = Some info"
  shows "vb_author (bi_block info) = a \<and> candidate d clock (bi_block info)"
proof -
  have ra: "br_author r = a" using dag_inv_refs [OF inv a] r(1) by auto
  have ok: "vb_reference (bi_block info) = r" "0 < br_round r" using inv info by (auto simp: dag_inv_def recent_ok_def)
  have "br_round r < clock" using r(2) ra by (auto simp: block_ref_less_iff)
  moreover have "get_block d r = Some (bi_block info)" using ok(2) info by (simp add: get_block_eq)
  moreover have "vb_author (bi_block info) = br_author r" "vb_round (bi_block info) = br_round r"
    using ok(1) by (metis vb_reference_sel)+
  ultimately show ?thesis using ok(1) ra a by (auto simp: candidate_def)
qed

lemma last_cached_step_keeps:
  assumes inv: "dag_inv d" and bs: "per_authority d clock bs" and len: "length eqs = committee_size (ds_committee d)"
    and refs: "refs = ds_recent_refs_by_authority d ! i" "i < committee_size (ds_committee d)"
    and run: "last_cached_step d clock (i, refs) (bs, eqs) = Some (bs', eqs')"
  shows "per_authority d clock bs' \<and> length eqs' = committee_size (ds_committee d)"
proof -
  obtain ev b es where s: "last_cached_loop (ds_recent_blocks d) (rev (filter (\<lambda>r. BlockRef (u32_add ev 1) i 0 \<le> r \<and>
        r < BlockRef clock i 0) refs)) 0 (bs ! i) (eqs ! i) = Some (b, es)" "bs' = bs[i := b]" "eqs' = eqs[i := es]"
    using run refs(2) unfolding last_cached_step_def
    by (auto simp: to_authority_index_def Let_def committee_size_def split: bind_splits if_splits)
  have "vb_author b = i \<and> candidate d clock b"
    by (rule last_cached_loop_block [OF s(1)])
      (use bs refs recent_candidate [OF inv refs(2)] in \<open>auto simp: per_authority_def\<close>)
  then show ?thesis using bs len refs(2) by (auto simp: s per_authority_def nth_list_update)
qed

lemma last_cached_fold:
  assumes inv: "dag_inv d" and "per_authority d clock bs" "length eqs = committee_size (ds_committee d)"
    and "\<forall>x \<in> set xs. snd x = ds_recent_refs_by_authority d ! fst x \<and> fst x < committee_size (ds_committee d)"
    and "fold_opt (last_cached_step d clock) xs (bs, eqs) = Some (bs', eqs')"
  shows "per_authority d clock bs' \<and> length eqs' = committee_size (ds_committee d)"
  using assms(2-5)
proof (induction xs arbitrary: bs eqs)
  case (Cons x xs)
  obtain b1 e1 where st: "last_cached_step d clock x (bs, eqs) = Some (b1, e1)"
      "fold_opt (last_cached_step d clock) xs (b1, e1) = Some (bs', eqs')"
    using Cons.prems(4) by (cases "last_cached_step d clock x (bs, eqs)") auto
  have "last_cached_step d clock (fst x, snd x) (bs, eqs) = Some (b1, e1)" using st(1) by simp
  from last_cached_step_keeps [OF inv Cons.prems(1,2) _ _ this] Cons.prems(3)
  have "per_authority d clock b1" "length e1 = committee_size (ds_committee d)" by simp_all
  from Cons.IH [OF this _ st(2)] Cons.prems(3) show ?case by simp
qed simp

lemma get_last_cached_spec:
  assumes inv: "dag_inv d" and gen: "genesis_complete d" and pos: "0 < clock"
    and run: "get_last_cached_block_per_authority d clock = Some xs"
  shows "per_authority d clock (map fst xs)"
proof -
  have g: "per_authority d clock (map snd (ds_genesis d))"
    using genesis_candidate [OF inv gen _ pos] gen by (simp add: per_authority_def genesis_complete_def)
  show ?thesis
  proof (cases "clock = 1")
    case True
    then show ?thesis using run g by (auto simp: get_last_cached_block_per_authority_def comp_def)
  next
    case False
    let ?e = "replicate (committee_size (ds_committee d)) []"
    obtain bs eqs where f: "fold_opt (last_cached_step d clock) (enumerate 0 (ds_recent_refs_by_authority d))
        (map snd (ds_genesis d), ?e) = Some (bs, eqs)" "xs = zip bs eqs"
      using run False pos by (auto simp: get_last_cached_block_per_authority_def Let_def split: bind_splits)
    have "length (ds_recent_refs_by_authority d) = committee_size (ds_committee d)"
      using inv by (simp add: dag_inv_def refs_ok_def)
    then have "\<forall>x \<in> set (enumerate 0 (ds_recent_refs_by_authority d)).
        snd x = ds_recent_refs_by_authority d ! fst x \<and> fst x < committee_size (ds_committee d)"
      by (auto simp: in_set_enumerate_eq)
    from last_cached_fold [OF inv g _ this f(1)] have "per_authority d clock bs" "length eqs = length bs"
      by (auto simp: per_authority_def)
    then show ?thesis by (simp add: f(2))
  qed
qed


lemma genesis_block_candidate:
  assumes "dag_inv d" "genesis_complete d" "(r, b) \<in> set (ds_genesis d)" "0 < clock"
  shows "vb_author b = br_author r \<and> candidate d clock b"
proof -
  obtain i where i: "i < length (ds_genesis d)" "ds_genesis d ! i = (r, b)" using assms(3) by (auto simp: in_set_conv_nth)
  then have "i < committee_size (ds_committee d)" "br_author r = i"
    using assms(2) by (auto simp: genesis_complete_def)
  then show ?thesis using genesis_candidate [OF assms(1,2) _ assms(4)] i by (metis nth_map snd_conv)
qed

lemma bts_last_in: "bts_last xs = Some x \<Longrightarrow> x \<in> set xs"
  by (auto simp: bts_last_def split: if_splits)

lemma last_block_candidate:
  assumes inv: "dag_inv d" and gen: "genesis_complete d"
    and run: "get_last_block_for_authority d a = Some b" and lt: "vb_round b < clock"
  shows "vb_author b = a \<and> candidate d clock b"
proof -
  obtain refs where refs: "a < committee_size (ds_committee d)" "refs = ds_recent_refs_by_authority d ! a"
    using run inv by (auto simp: get_last_block_for_authority_def vec_get_def dag_inv_def refs_ok_def split: if_splits)
  show ?thesis
  proof (cases "bts_last refs")
    case None
    then obtain r where f: "List.find (\<lambda>(r, _). br_author r = a) (ds_genesis d) = Some (r, b)"
      using run refs by (auto simp: get_last_block_for_authority_def vec_get_def split: if_splits)
    then have "(r, b) \<in> set (ds_genesis d)" "br_author r = a" by (auto simp: find_Some_iff in_set_conv_nth)
    then show ?thesis using genesis_block_candidate [OF inv gen] lt by (metis less_nat_zero_code not_gr_zero)
  next
    case (Some r)
    then obtain info where i: "btm_get (ds_recent_blocks d) r = Some info" "b = bi_block info"
      using run refs by (auto simp: get_last_block_for_authority_def vec_get_def split: if_splits)
    have r: "r \<in> set refs" using Some by (rule bts_last_in)
    have "vb_reference b = r" using inv i by (simp add: dag_inv_def recent_ok_def)
    moreover have "br_author r = a" using dag_inv_refs [OF inv refs(1)] r refs(2) by auto
    ultimately have "r < BlockRef clock a 0" using lt by (metis block_ref_less_iff block_ref.sel(1) vb_reference_sel(1))
    then show ?thesis using recent_candidate [OF inv refs(1) _ _ i(1)] r refs(2) i(2) by simp
  qed
qed

lemma last_cached_in_range_candidate:
  assumes inv: "dag_inv d" and run: "get_last_cached_block_in_range d a lo hi = Some (Some b)"
    and hi: "hi \<le> clock"
  shows "vb_author b = a \<and> candidate d clock b"
proof -
  have len: "length (ds_recent_refs_by_authority d) = committee_size (ds_committee d)"
    using inv by (simp add: dag_inv_def refs_ok_def)
  obtain r info where a: "a < committee_size (ds_committee d)"
      and last: "bts_last (filter (\<lambda>r. BlockRef lo a 0 \<le> r \<and> r < BlockRef hi 0 0) (ds_recent_refs_by_authority d ! a)) = Some r"
      and i: "btm_get (ds_recent_blocks d) r = Some info" "b = bi_block info"
    using run len by (auto simp: get_last_cached_block_in_range_def vec_get_def split: if_splits option.splits)
  have r: "r \<in> set (ds_recent_refs_by_authority d ! a)" "r < BlockRef hi 0 0" using bts_last_in [OF last] by auto
  have "br_author r = a" using dag_inv_refs [OF inv a] r(1) by auto
  with r(2) hi have "r < BlockRef clock a 0" by (auto simp: block_ref_less_iff)
  from recent_candidate [OF inv a r(1) this i(1)] show ?thesis by (simp add: i(2))
qed

subsection \<open>The stages of the selection\<close>

text \<open>A list of candidate blocks with at most one block per author.\<close>

definition one_per_author :: "dag_state \<Rightarrow> Round \<Rightarrow> verified_block list \<Rightarrow> bool" where
  "one_per_author d clock bs \<longleftrightarrow> distinct (map vb_author bs) \<and> (\<forall>b \<in> set bs. candidate d clock b)"

lemma one_per_author_append:
  "one_per_author d clock (xs @ ys) \<longleftrightarrow> one_per_author d clock xs \<and> one_per_author d clock ys \<and>
     vb_author ` set xs \<inter> vb_author ` set ys = {}"
  by (auto simp: one_per_author_def)

lemma one_per_author_mset:
  assumes "mset xs = mset ys" shows "one_per_author d clock xs = one_per_author d clock ys"
proof -
  have "mset (map vb_author xs) = mset (map vb_author ys)" using assms by simp
  from mset_eq_imp_distinct_iff [OF this] mset_eq_setD [OF assms] show ?thesis by (simp add: one_per_author_def)
qed

lemma per_authority_one: "per_authority d clock bs \<Longrightarrow> one_per_author d clock bs"
  by (auto simp: per_authority_def one_per_author_def distinct_conv_nth in_set_conv_nth)

lemma select_ancestors_split:
  assumes "fold_opt (select_ancestor own li st) xs (inc, pen, exc) = Some (inc', pen', exc')"
    and "one_per_author d clock (map fst xs)"
  shows "\<exists>ys zs. inc' = inc @ ys \<and> pen' = pen @ zs \<and> one_per_author d clock (ys @ map snd zs) \<and>
     set (ys @ map snd zs) \<subseteq> fst ` set xs \<and> own \<notin> vb_author ` set (ys @ map snd zs)"
  using assms
proof (induction xs arbitrary: inc pen exc)
  case Nil
  then show ?case by (simp add: one_per_author_def)
next
  case (Cons x xs)
  obtain inc1 pen1 exc1 where st: "select_ancestor own li st x (inc, pen, exc) = Some (inc1, pen1, exc1)"
      "fold_opt (select_ancestor own li st) xs (inc1, pen1, exc1) = Some (inc', pen', exc')"
    using Cons.prems(1) by (cases "select_ancestor own li st x (inc, pen, exc)") auto
  have tl: "one_per_author d clock (map fst xs)" and new: "candidate d clock (fst x)" "vb_author (fst x) \<notin> vb_author ` fst ` set xs"
    using Cons.prems(2) by (auto simp: one_per_author_def image_image)
  from Cons.IH [OF st(2) tl] obtain ys zs where IH: "inc' = inc1 @ ys" "pen' = pen1 @ zs"
      "one_per_author d clock (ys @ map snd zs)" "set (ys @ map snd zs) \<subseteq> fst ` set xs" "own \<notin> vb_author ` set (ys @ map snd zs)"
    by blast
  have fresh: "vb_author (fst x) \<notin> vb_author ` set (ys @ map snd zs)" using IH(4) new(2) by blast
  consider "inc1 = inc" "pen1 = pen"
    | "inc1 = inc @ [fst x]" "pen1 = pen" "vb_author (fst x) \<noteq> own"
    | score where "inc1 = inc" "pen1 = pen @ [(score, fst x)]" "vb_author (fst x) \<noteq> own"
    using st(1) by (cases x) (auto simp: select_ancestor_def Let_def split: bind_splits if_splits ancestor_state.splits)
  then show ?case
  proof cases
    case 1
    show ?thesis by (rule exI [of _ ys], rule exI [of _ zs]) (use IH 1 in auto)
  next
    case 2
    show ?thesis
      by (rule exI [of _ "fst x # ys"], rule exI [of _ zs]) (use IH 2 fresh new(1) in \<open>auto simp: one_per_author_def\<close>)
  next
    case 3
    show ?thesis
      by (rule exI [of _ ys], rule exI [of _ "(score, fst x) # zs"]) (use IH 3 fresh new(1) in \<open>auto simp: one_per_author_def\<close>)
  qed
qed

text \<open>The votes counted are the authors of the chosen blocks of the parent round.\<close>

definition counted :: "committee \<Rightarrow> Round \<Rightarrow> verified_block list \<Rightarrow> stake_aggregator \<Rightarrow> bool" where
  "counted c q bs agg \<longleftrightarrow> agg_inv c agg \<and> set (sa_votes agg) = {vb_author b |b. b \<in> set bs \<and> vb_round b = q}"

lemma count_parent_insert:
  assumes "committee_wf c" "agg_inv c agg" "count_parent c b agg = Some agg'"
  shows "agg_inv c agg' \<and> set (sa_votes agg') = insert (vb_author b) (set (sa_votes agg))"
  using assms(3) aggregator_add_Some [OF assms(1,2)] by (auto simp: count_parent_def)

lemma count_parents:
  assumes "committee_wf c" "agg_inv c agg" "fold_opt (count_parent c) bs agg = Some agg'"
  shows "agg_inv c agg' \<and> set (sa_votes agg') = set (sa_votes agg) \<union> vb_author ` set bs"
  using assms(2,3)
proof (induction bs arbitrary: agg)
  case (Cons b bs)
  then obtain agg1 where st: "count_parent c b agg = Some agg1" "fold_opt (count_parent c) bs agg1 = Some agg'"
    by (cases "count_parent c b agg") auto
  from count_parent_insert [OF assms(1) Cons.prems(1) st(1)] have one: "agg_inv c agg1"
    "set (sa_votes agg1) = insert (vb_author b) (set (sa_votes agg))" by auto
  from Cons.IH [OF one(1) st(2)] show ?case by (auto simp: one(2))
qed simp

lemma include_pending_split:
  assumes wf: "committee_wf c"
    and "fold_opt (include_pending c q) xs (tp, ex, agg) = Some (tp', ex', agg')" "counted c q tp agg"
  shows "\<exists>ys zs. tp' = tp @ ys \<and> ex' = ex @ zs \<and> mset (ys @ map snd zs) = mset (map snd xs) \<and> counted c q tp' agg'"
  using assms(2,3)
proof (induction xs arbitrary: tp ex agg)
  case (Cons x xs)
  obtain tp1 ex1 agg1 where st: "include_pending c q x (tp, ex, agg) = Some (tp1, ex1, agg1)"
      "fold_opt (include_pending c q) xs (tp1, ex1, agg1) = Some (tp', ex', agg')"
    using Cons.prems(1) by (cases "include_pending c q x (tp, ex, agg)") auto
  consider "tp1 = tp" "ex1 = ex @ [x]" "agg1 = agg"
    | "tp1 = tp @ [snd x]" "ex1 = ex" "vb_round (snd x) = q" "count_parent c (snd x) agg = Some agg1"
    using st(1) by (cases x) (auto simp: include_pending_def split: bind_splits if_splits)
  then show ?case
  proof cases
    case 1
    with Cons.IH [OF st(2)] Cons.prems(2) obtain ys zs where "tp' = tp @ ys" "ex' = ex @ x # zs"
      "mset (ys @ map snd zs) = mset (map snd xs)" "counted c q tp' agg'" by auto
    then show ?thesis by (intro exI [of _ ys] exI [of _ "x # zs"]) auto
  next
    case 2
    have "counted c q tp1 agg1"
      using count_parent_insert [OF wf _ 2(4)] Cons.prems(2) 2(1,3) by (auto simp: counted_def)
    from Cons.IH [OF st(2) this] 2 obtain ys zs where "tp' = tp @ snd x # ys" "ex' = ex @ zs"
      "mset (ys @ map snd zs) = mset (map snd xs)" "counted c q tp' agg'" by auto
    then show ?thesis by (intro exI [of _ "snd x # ys"] exI [of _ zs]) auto
  qed
qed simp

lemma include_excluded_block:
  assumes inv: "dag_inv d" and q: "q < clock" and x: "candidate d clock (snd x)"
    and run: "include_excluded d c qs q x (tp, li, exc) = Some (tp', li', exc')"
  shows "\<exists>ys. tp' = tp @ ys \<and> (ys = [] \<or> (\<exists>b. ys = [b] \<and> vb_author b = vb_author (snd x) \<and> candidate d clock b))"
proof -
  have earlier: "vb_author b = a \<and> candidate d clock b"
    if "get_last_cached_block_in_range d a lo (u32_add (min l q) (Suc 0)) = Some (Some b)" for a b lo l
  proof (rule last_cached_in_range_candidate [OF inv that])
    have "u32_add (min l q) (Suc 0) \<le> min l q + 1" by (simp add: u32_add_def)
    then show "u32_add (min l q) (Suc 0) \<le> clock" using q by simp
  qed
  show ?thesis using run x
    by (cases x) (auto simp: include_excluded_def Let_def split: bind_splits if_splits option.splits dest!: earlier)
qed

lemma include_excluded_append:
  assumes inv: "dag_inv d" and q: "q < clock"
    and "fold_opt (include_excluded d c qs q) xs (tp, li, exc) = Some (tp', li', exc')"
    and "one_per_author d clock (map snd xs)"
  shows "\<exists>ys. tp' = tp @ ys \<and> one_per_author d clock ys \<and> vb_author ` set ys \<subseteq> vb_author ` snd ` set xs"
  using assms(3,4)
proof (induction xs arbitrary: tp li exc)
  case Nil
  then show ?case by (simp add: one_per_author_def)
next
  case (Cons x xs)
  obtain tp1 li1 exc1 where st: "include_excluded d c qs q x (tp, li, exc) = Some (tp1, li1, exc1)"
      "fold_opt (include_excluded d c qs q) xs (tp1, li1, exc1) = Some (tp', li', exc')"
    using Cons.prems(1) by (cases "include_excluded d c qs q x (tp, li, exc)") auto
  have tl: "one_per_author d clock (map snd xs)" and new: "candidate d clock (snd x)" "vb_author (snd x) \<notin> vb_author ` snd ` set xs"
    using Cons.prems(2) by (auto simp: one_per_author_def image_image)
  obtain us where us: "tp1 = tp @ us" "us = [] \<or> (\<exists>b. us = [b] \<and> vb_author b = vb_author (snd x) \<and> candidate d clock b)"
    using include_excluded_block [OF inv q new(1) st(1)] by blast
  obtain ys where ys: "tp' = tp1 @ ys" "one_per_author d clock ys" "vb_author ` set ys \<subseteq> vb_author ` snd ` set xs"
    using Cons.IH [OF st(2) tl] by blast
  have "vb_author (snd x) \<notin> vb_author ` set ys" using ys(3) new(2) by blast
  then have "one_per_author d clock (us @ ys)" "vb_author ` set (us @ ys) \<subseteq> vb_author ` snd ` set (x # xs)"
    using us(2) ys(2,3) by (auto simp: one_per_author_def)
  then show ?case using us(1) ys(1) by (intro exI [of _ "us @ ys"]) simp
qed

subsection \<open>The verifier accepts the ancestors chosen\<close>

lemma candidate_reference:
  "dag_inv d \<Longrightarrow> candidate d clock b \<Longrightarrow> vb_round b = 0 \<Longrightarrow> vb_reference b \<in> set (btm_keys (ds_genesis d))"
  by (auto simp: candidate_def get_block_eq btm_keys_def btm_get_def dest!: map_of_SomeD split: if_splits intro: rev_image_eqI)

lemma smart_ancestors_stages:
  assumes run: "smart_ancestors_to_propose pc clock smart = Some ((bs, exc), pc')"
    and b: "get_last_proposed_block (pc_dag_state pc) = Some b" and wf: "committee_wf (ctx_committee (pc_context pc))"
    and inv: "dag_inv (pc_dag_state pc)" and gen: "genesis_complete (pc_dag_state pc)" and pos: "0 < clock"
    and own: "vb_author b = ctx_own_index (pc_context pc)" "candidate (pc_dag_state pc) clock b"
  shows "bs = [] \<and> exc = [] \<and> smart \<or>
     hd bs = b \<and> bs \<noteq> [] \<and> one_per_author (pc_dag_state pc) clock bs \<and>
     (\<exists>agg us vs. bs = us @ vs \<and> counted (ctx_committee (pc_context pc)) (clock - 1) us agg \<and>
        reached_quorum (ctx_committee (pc_context pc)) (sa_stake agg))"
proof -
  let ?d = "pc_dag_state pc" and ?c = "ctx_committee (pc_context pc)" and ?q = "clock - 1"
  obtain all qs m inc pen exc1 agg where
      all: "get_last_cached_block_per_authority ?d clock = Some all"
      and sel: "fold_opt (select_ancestor (ctx_own_index (pc_context pc)) (pc_last_included_ancestors pc)
             (get_ancestor_states m)) all ([b], [], []) = Some (inc, pen, exc1)"
      and cnt: "fold_opt (count_parent ?c) (filter (\<lambda>a. vb_round a = ?q) inc) aggregator_new = Some agg"
      and rest: "(smart \<and> bs = [] \<and> exc = []) \<or> (\<exists>tp ex agg1 li.
         fold_opt (include_pending ?c ?q) (sort_key (\<lambda>(score, _). - int score) pen) (inc, [], agg) = Some (tp, ex, agg1) \<and>
         fold_opt (include_excluded ?d ?c qs ?q) ex (tp, pc_last_included_ancestors pc, exc1) = Some (bs, li, exc) \<and>
         reached_quorum ?c (sa_stake agg1))"
    using run b unfolding smart_ancestors_to_propose_def last_proposed_block_def
    by (auto simp: Let_def reached_threshold_def split: bind_splits if_splits) blast+
  have "one_per_author ?d clock (map fst all)"
    using get_last_cached_spec [OF inv gen pos all] by (rule per_authority_one)
  from select_ancestors_split [OF sel this] obtain ys zs where s1: "inc = b # ys" "pen = zs"
      "one_per_author ?d clock (ys @ map snd zs)" "vb_author b \<notin> vb_author ` set (ys @ map snd zs)"
    unfolding own(1) by auto
  have c1: "counted ?c ?q inc agg"
    using count_parents [OF wf agg_inv_new cnt] by (auto simp: counted_def aggregator_new_def)
  show ?thesis using rest
  proof (elim disjE exE conjE)
    fix tp ex agg1 li
    assume pend: "fold_opt (include_pending ?c ?q) (sort_key (\<lambda>(score, _). - int score) pen) (inc, [], agg) = Some (tp, ex, agg1)"
      and exl: "fold_opt (include_excluded ?d ?c qs ?q) ex (tp, pc_last_included_ancestors pc, exc1) = Some (bs, li, exc)"
      and quorum: "reached_quorum ?c (sa_stake agg1)"
    from include_pending_split [OF wf pend c1] obtain us where s2: "tp = inc @ us" "counted ?c ?q tp agg1"
        "mset (us @ map snd ex) = mset (map snd zs)" by (auto simp: s1(2))
    have "mset ((b # ys) @ us @ map snd ex) = mset ((b # ys) @ map snd zs)" using s2(3) by simp
    moreover have "one_per_author ?d clock ((b # ys) @ map snd zs)" using s1(3,4) own(2) by (auto simp: one_per_author_def)
    ultimately have "one_per_author ?d clock ((b # ys) @ us @ map snd ex)"
      using one_per_author_mset by blast
    then have all1: "one_per_author ?d clock (tp @ map snd ex)" by (simp add: s1(1) s2(1))
    have "?q < clock" using pos by simp
    from include_excluded_append [OF inv this exl] all1 obtain vs where s3: "bs = tp @ vs"
        "one_per_author ?d clock vs" "vb_author ` set vs \<subseteq> vb_author ` snd ` set ex" by (auto simp: one_per_author_append)
    have "one_per_author ?d clock bs" using all1 s3 unfolding one_per_author_append s3(1) set_map by blast
    moreover have "hd bs = b" "bs \<noteq> []" by (simp_all add: s3(1) s2(1) s1(1))
    ultimately show ?thesis using s3(1) s2(2) quorum by blast
  qed auto
qed

lemma smart_ancestors_checked:
  assumes inv: "dag_inv (pc_dag_state pc)" and gen: "genesis_complete (pc_dag_state pc)"
    and ctx: "ds_context (pc_dag_state pc) = pc_context pc"
    and last: "get_last_proposed_block (pc_dag_state pc) = Some b" "vb_round b < clock"
    and run: "smart_ancestors_to_propose pc clock smart = Some ((bs, exc), pc')"
  shows "(bs = [] \<longrightarrow> smart \<and> exc = []) \<and>
    (bs \<noteq> [] \<longrightarrow> hd bs = b \<and> length bs \<le> committee_size (ctx_committee (pc_context pc)) \<and>
       (\<forall>x \<in> set bs. get_block (pc_dag_state pc) (vb_reference x) = Some x) \<and>
       (\<exists>stake. verify_ancestors (ctx_committee (pc_context pc)) (btm_keys (ds_genesis (pc_dag_state pc)))
          (ctx_own_index (pc_context pc)) clock 0 (map vb_reference bs)
          (replicate (committee_size (ctx_committee (pc_context pc))) False) 0 = Some (Inr stake) \<and>
          reached_quorum (ctx_committee (pc_context pc)) stake))"
proof (cases "bs = []")
  case False
  let ?d = "pc_dag_state pc" and ?c = "ctx_committee (pc_context pc)" and ?rs = "map vb_reference bs"
  let ?own = "ctx_own_index (pc_context pc)" and ?gen = "btm_keys (ds_genesis (pc_dag_state pc))"
  have wf: "committee_wf ?c" using inv ctx by (auto simp: dag_inv_def)
  have own: "vb_author b = ?own" "candidate ?d clock b"
    using last_block_candidate [OF inv gen _ last(2)] last(1) by (auto simp: get_last_proposed_block_def ctx)
  obtain agg us vs where s: "hd bs = b" "one_per_author ?d clock bs" "bs = us @ vs" "counted ?c (clock - 1) us agg"
      "reached_quorum ?c (sa_stake agg)"
    using smart_ancestors_stages [OF run last(1) wf inv gen _ own] last(2) False by auto
  have dist: "distinct (map br_author ?rs)" using s(2) by (simp add: one_per_author_def comp_def)
  have cand: "\<forall>x \<in> set bs. candidate ?d clock x" using s(2) by (simp add: one_per_author_def)
  have rs: "\<forall>a \<in> set ?rs. br_author a < committee_size ?c \<and> br_round a < clock \<and> (br_round a = 0 \<longrightarrow> a \<in> set ?gen)"
    using cand candidate_reference [OF inv] by (auto simp: candidate_def ctx)
  have "\<exists>x xs. ?rs = x # xs \<and> br_author x = ?own" using False s(1) own(1) by (cases bs) auto
  then have ok: "ancestors_ok ?c ?gen ?own clock 0 ?rs {} \<and> ?rs \<noteq> []"
    unfolding ancestors_ok_start by (intro conjI dist rs)
  have "set (sa_votes agg) \<subseteq> parent_authors clock ?rs" using s(3,4) by (force simp: counted_def parent_authors_def)
  moreover have "parent_authors clock ?rs \<subseteq> {..<committee_size ?c}" using rs by (auto simp: parent_authors_def)
  ultimately have "sa_stake agg \<le> stake_of ?c (parent_authors clock ?rs)"
    using s(4) by (simp add: counted_def agg_inv_def stake_of_mono)
  then have quorum: "reached_quorum ?c (stake_of ?c (parent_authors clock ?rs))"
    using s(5) by (simp add: reached_quorum_def)
  have "verify_ancestors ?c ?gen ?own clock 0 ?rs (replicate (committee_size ?c) False) 0
      = Some (Inr (stake_of ?c (parent_authors clock ?rs)))"
    using verify_ancestors_exact [OF wf, of clock "replicate (committee_size ?c) False" "{}" "{}" 0 ?gen ?own 0 ?rs]
      last(2) ok by auto
  moreover have "length bs \<le> committee_size ?c"
    using distinct_authors_length [OF dist, of "committee_size ?c"] rs by simp
  ultimately show ?thesis using quorum s(1) cand False by (simp add: candidate_def)
next
  case True
  have wf: "committee_wf (ctx_committee (pc_context pc))" using inv ctx by (auto simp: dag_inv_def)
  have own: "vb_author b = ctx_own_index (pc_context pc)" "candidate (pc_dag_state pc) clock b"
    using last_block_candidate [OF inv gen _ last(2)] last(1) by (auto simp: get_last_proposed_block_def ctx)
  show ?thesis using smart_ancestors_stages [OF run last(1) wf inv gen _ own] last(2) True by auto
qed

text \<open>The block a node proposes has valid ancestors.  On a DAG state that satisfies its invariant and
  holds the genesis block of every authority, with the clock above the last own block,
  \<^verbatim>\<open>smart_ancestors_to_propose\<close> either returns no ancestor, which it does only when smart selection is
  asked for, or a list of at most one block per authority that starts with the last own block, whose
  blocks are all in the DAG and whose references pass the ancestor checks of every correct verifier
  (\<^verbatim>\<open>verify_block\<close>): positions, rounds, genesis references, no duplicate author and a quorum of
  stake in the round before.\<close>

theorem smart_ancestors_valid:
  assumes inv: "dag_inv (pc_dag_state pc)" and gen: "genesis_complete (pc_dag_state pc)"
    and ctx: "ds_context (pc_dag_state pc) = pc_context pc"
    and last: "get_last_proposed_block (pc_dag_state pc) = Some b" "vb_round b < clock"
    and run: "smart_ancestors_to_propose pc clock smart = Some ((bs, exc), pc')"
  shows "(bs = [] \<longrightarrow> smart \<and> exc = []) \<and>
    (bs \<noteq> [] \<longrightarrow> hd bs = b \<and> length bs \<le> committee_size (ctx_committee (pc_context pc)) \<and>
       (\<forall>x \<in> set bs. get_block (pc_dag_state pc) (vb_reference x) = Some x) \<and>
       (\<exists>stake. verify_ancestors (ctx_committee (pc_context pc)) (btm_keys (ds_genesis (pc_dag_state pc)))
          (ctx_own_index (pc_context pc)) clock 0 (map vb_reference bs)
          (replicate (committee_size (ctx_committee (pc_context pc))) False) 0 = Some (Inr stake) \<and>
          reached_quorum (ctx_committee (pc_context pc)) stake))"
  by (rule smart_ancestors_checked [OF assms])

text \<open>A node at the start of an epoch, with nothing but the genesis blocks.\<close>

definition core4 :: proposer_core where
  "core4 = \<lparr>pc_context = context4, pc_dag_state = dag4, pc_last_included_ancestors = replicate 4 None,
     pc_ancestor_state_manager = ancestor_state_manager_new context4,
     pc_round_tracker = peer_round_tracker_new context4,
     pc_committer = \<lparr>uc_context = context4, uc_committers = []\<rparr>\<rparr>"

lemma dag4_genesis:
  "ds_genesis dag4 = map (\<lambda>i. (BlockRef 0 i 7, example_block 0 i 7 1000 [])) [0..<4]"
  by (simp add: dag4_def fresh_dag_state_def genesis_map_def upt_rec btree_simps block_ref_less_iff)

lemma dag4_fields [simp]: "ds_recent_refs_by_authority dag4 = replicate 4 []" "ds_evicted_rounds dag4 = replicate 4 0"
  by (simp_all add: dag4_def fresh_dag_state_def)

lemma dag4_complete: "genesis_complete dag4"
proof -
  have "btm_wf (ds_genesis dag4)"
    by (simp add: dag4_genesis btm_wf_def btm_keys_def upt_rec block_ref_less_iff)
  moreover have "length (ds_genesis dag4) = committee_size (ds_committee dag4)" by (simp add: dag4_genesis)
  moreover have "\<forall>i < 4. br_author (fst (ds_genesis dag4 ! i)) = i" by (simp add: dag4_genesis)
  ultimately show ?thesis by (simp add: genesis_complete_def)
qed

lemma dag4_last_proposed: "get_last_proposed_block dag4 = Some (example_block 0 0 7 1000 [])"
  by (simp add: get_last_proposed_block_def get_last_block_for_authority_def dag4_genesis upt_rec context4_def
      vec_get_def bts_last_def)

lemma replicate4: "replicate 4 x = [x, x, x, x]"
  by (simp add: numeral_nat)

lemma core4_rounds: "compute_accepted_quorum_rounds (peer_round_tracker_new context4) = Some (replicate 4 (0, 0))"
proof -
  have "compute_quorum_round committee4 i (replicate 4 (replicate 4 0)) = Some (0, 0)" if "i < 4" for i
  proof -
    have "replicate 4 (0::nat) ! i = 0" using that by simp
    then show ?thesis
      using that by (simp add: compute_quorum_round_def replicate4 [of "replicate 4 (0::nat)"] committee_indices_def committee4_def
          with_stake_def vec_get_def example_authority_def u64_add_def)
  qed
  moreover have "max_rounds (replicate 4 (replicate 4 0)) (replicate 4 (replicate 4 0)) = replicate 4 (replicate 4 0)"
    by (simp add: max_rounds_def replicate4)
  ultimately show ?thesis
    by (simp add: compute_accepted_quorum_rounds_def peer_round_tracker_new_def Let_def)
      (simp add: committee_indices_def committee4_def replicate4)
qed

lemma core4_ancestors: "update_all_ancestors_state dag4 qs (ancestor_state_manager_new context4)
    = Some (ancestor_state_manager_new context4)"
  by (simp add: update_all_ancestors_state_def ancestor_state_manager_new_def Let_def reputation_scores_default_def)

lemma core4_all: "get_last_cached_block_per_authority dag4 1 = Some (map (\<lambda>i. (example_block 0 i 7 1000 [], [])) [0..<4])"
  by (simp add: get_last_cached_block_per_authority_def dag4_genesis)

lemma core4_selected:
  "fold_opt (select_ancestor 0 (replicate 4 None) (get_ancestor_states (ancestor_state_manager_new context4)))
     (map (\<lambda>i. (example_block 0 i 7 1000 [], [])) [0..<4]) ([example_block 0 0 7 1000 []], [], [])
   = Some (map (\<lambda>i. example_block 0 i 7 1000 []) [0..<4], [], [])"
  by (simp add: upt_rec select_ancestor_def vec_get_def get_ancestor_states_def ancestor_state_manager_new_def
      ancestor_info_new_def Let_def)

lemma core4_votes:
  "bts_insert (Suc (Suc (Suc 0))) (bts_insert (Suc (Suc 0)) (bts_insert (Suc 0) (bts_insert 0 []))) = [0, Suc 0, 2, 3]"
  by (simp add: bts_insert_def insort_insert_key_def)

lemma core4_counted:
  "fold_opt (count_parent committee4) (map (\<lambda>i. example_block 0 i 7 1000 []) [0..<4]) aggregator_new
   = Some \<lparr>sa_votes = [0, 1, 2, 3], sa_stake = 4\<rparr>"
  by (simp add: upt_rec count_parent_def aggregator_add_def aggregator_new_def committee_stake_def committee4_def
      vec_get_def example_authority_def u64_add_def btree_simps core4_votes)

lemma core4_run:
  "smart_ancestors_to_propose core4 1 True = Some ((map (\<lambda>i. example_block 0 i 7 1000 []) [0..<4], []), core4)"
proof -
  have own: "ctx_own_index context4 = 0" "ctx_committee context4 = committee4" by (simp_all add: context4_def)
  have all0: "filter (\<lambda>a. vb_round a = 0) (map (\<lambda>i. example_block 0 i 7 1000 []) [0..<4]) = map (\<lambda>i. example_block 0 i 7 1000 []) [0..<4]"
    by (simp add: filter_id_conv)
  have q: "reached_quorum committee4 4" by (simp add: reached_quorum_def committee4_def)
  show ?thesis
    unfolding smart_ancestors_to_propose_def last_proposed_block_def core4_def
    by (simp add: Let_def core4_all [simplified] core4_rounds core4_ancestors dag4_last_proposed own core4_selected all0 core4_counted
        reached_threshold_def q)
qed

theorem smart_ancestors_valid_witness:
  "\<exists>bs exc pc'. smart_ancestors_to_propose core4 1 True = Some ((bs, exc), pc') \<and> length bs = 4 \<and>
     (\<exists>stake. verify_ancestors committee4 (btm_keys (ds_genesis dag4)) 0 1 0 (map vb_reference bs) (replicate 4 False) 0
        = Some (Inr stake) \<and> reached_quorum committee4 stake)"
proof -
  let ?bs = "map (\<lambda>i. example_block 0 i 7 1000 []) [0..<4]"
  have c: "pc_dag_state core4 = dag4" "pc_context core4 = context4" by (simp_all add: core4_def)
  have own: "ctx_own_index context4 = 0" "ctx_committee context4 = committee4" by (simp_all add: context4_def)
  have "(?bs = [] \<longrightarrow> True \<and> ([]::block_ref list) = []) \<and>
    (?bs \<noteq> [] \<longrightarrow> hd ?bs = example_block 0 0 7 1000 [] \<and> length ?bs \<le> committee_size (ctx_committee (pc_context core4)) \<and>
       (\<forall>x \<in> set ?bs. get_block (pc_dag_state core4) (vb_reference x) = Some x) \<and>
       (\<exists>stake. verify_ancestors (ctx_committee (pc_context core4)) (btm_keys (ds_genesis (pc_dag_state core4)))
          (ctx_own_index (pc_context core4)) 1 0 (map vb_reference ?bs)
          (replicate (committee_size (ctx_committee (pc_context core4))) False) 0 = Some (Inr stake) \<and>
          reached_quorum (ctx_committee (pc_context core4)) stake))"
    by (rule smart_ancestors_valid [OF _ _ _ _ _ core4_run]) (simp_all only: c dag4_inv dag4_complete dag4_context
        dag4_last_proposed, simp)
  then show ?thesis using core4_run unfolding c own by auto
qed

end
