(* ===== verification/Transaction_Pool.thy ===== *)
theory Transaction_Pool
  imports Block_Verifier Round_Maps "HOL-Library.Sublist"
begin

section \<open>The transaction pool\<close>

text \<open>
  \<^verbatim>\<open>core/src/transaction.rs\<close>: the client that submits transactions, the consumer that pulls them into
  proposed blocks, the acknowledgements and the block status notifications, and the injection of
  system transactions by \<^verbatim>\<open>try_new_block\<close>.  The channel is a list of submissions.  A submission
  has one acknowledgement channel and later one status channel; both are named by the number
  \<open>tg_ack\<close>, and what is sent on them is returned.
\<close>

abbreviation (input) PING_TRANSACTION_INDEX :: TransactionIndex where "PING_TRANSACTION_INDEX \<equiv> 65535"
abbreviation (input) TRANSACTION_INDEX_MAX :: TransactionIndex where "TRANSACTION_INDEX_MAX \<equiv> 65535"
abbreviation (input) NUM_RESERVED_TRANSACTION_INDICES :: TransactionIndex where
  "NUM_RESERVED_TRANSACTION_INDICES \<equiv> 8"

definition u16_of :: "nat \<Rightarrow> nat" where
  "u16_of n = n mod 2 ^ 16"

record transactions_guard =
  tg_transactions :: "bytes list"
  tg_ack :: nat

datatype block_status = Sequenced block_ref | GarbageCollected block_ref

datatype limit_reached = MaxNumOfTransactions | MaxBytes | AllTransactionsIncluded

record transaction_consumer =
  tx_receiver :: "transactions_guard list"
  tx_max_bytes :: nat
  tx_max_num :: nat
  tx_pending :: "transactions_guard option"
  tx_subscribers :: "(block_ref, nat list) btree_map"

definition transaction_consumer_new :: "transactions_guard list \<Rightarrow> protocol_limits \<Rightarrow> transaction_consumer option" where
  "transaction_consumer_new receiver limits =
     (if max_num_transactions_in_block limits - 1 < TRANSACTION_INDEX_MAX - NUM_RESERVED_TRANSACTION_INDICES
      then Some \<lparr>tx_receiver = receiver, tx_max_bytes = max_transactions_in_block_bytes limits,
                 tx_max_num = max_num_transactions_in_block limits, tx_pending = None, tx_subscribers = []\<rparr>
      else None)"

subsection \<open>Pulling transactions into a block\<close>

text \<open>The variables the closure \<^verbatim>\<open>handle_txs\<close> captures.\<close>

record pull_state =
  ps_transactions :: "bytes list"
  ps_acks :: "(nat \<times> TransactionIndex list) list"
  ps_total_bytes :: nat
  ps_limit_reached :: limit_reached

definition pull_start :: pull_state where
  "pull_start = \<lparr>ps_transactions = [], ps_acks = [], ps_total_bytes = 0, ps_limit_reached = AllTransactionsIncluded\<rparr>"

definition handle_txs ::
  "nat \<Rightarrow> nat \<Rightarrow> transactions_guard \<Rightarrow> pull_state \<Rightarrow> transactions_guard option \<times> pull_state" where
  "handle_txs max_bytes max_num t ps =
     (if tg_transactions t = []
      then (None, ps\<lparr>ps_acks := ps_acks ps @ [(tg_ack t, [PING_TRANSACTION_INDEX])]\<rparr>)
      else let transactions_bytes = u64_sum (map length (tg_transactions t)) in
        if u64_add (ps_total_bytes ps) transactions_bytes > max_bytes
        then (Some t, ps\<lparr>ps_limit_reached := MaxBytes\<rparr>)
        else if u64_add (length (ps_transactions ps)) (length (tg_transactions t)) > max_num
        then (Some t, ps\<lparr>ps_limit_reached := MaxNumOfTransactions\<rparr>)
        else let start_idx = u16_of (length (ps_transactions ps));
                 indices = [start_idx..<u16_of (start_idx + u16_of (length (tg_transactions t)))]
             in (None, ps\<lparr>ps_total_bytes := u64_add (ps_total_bytes ps) transactions_bytes,
                          ps_acks := ps_acks ps @ [(tg_ack t, indices)],
                          ps_transactions := ps_transactions ps @ tg_transactions t\<rparr>))"

text \<open>The loop: the guard that did not fit, the rest of the channel and the variables.\<close>

fun pull_loop ::
  "nat \<Rightarrow> nat \<Rightarrow> transactions_guard list \<Rightarrow> pull_state \<Rightarrow>
   transactions_guard option \<times> transactions_guard list \<times> pull_state" where
  "pull_loop max_bytes max_num [] ps = (None, [], ps)"
| "pull_loop max_bytes max_num (t # queue) ps =
     (case handle_txs max_bytes max_num t ps of
        (None, ps) \<Rightarrow> pull_loop max_bytes max_num queue ps
      | (Some t, ps) \<Rightarrow> (Some t, queue, ps))"

definition next_transactions ::
  "transaction_consumer \<Rightarrow>
   (bytes list \<times> (nat \<times> TransactionIndex list) list \<times> limit_reached) \<times> transaction_consumer" where
  "next_transactions c =
     (let ps = (case tx_pending c of
                  None \<Rightarrow> pull_start
                | Some t \<Rightarrow> snd (handle_txs (tx_max_bytes c) (tx_max_num c) t pull_start));
          (pending, queue, ps) = pull_loop (tx_max_bytes c) (tx_max_num c) (tx_receiver c) ps
      in ((ps_transactions ps, ps_acks ps, ps_limit_reached ps),
          c\<lparr>tx_pending := pending, tx_receiver := queue\<rparr>))"

subsection \<open>Acknowledgements and block status\<close>

text \<open>The callback that \<^verbatim>\<open>next\<close> returns.  Every submission gets the block, its indices and a status
  channel that is subscribed to the block.\<close>

definition acknowledge_one ::
  "block_ref \<Rightarrow> nat \<times> TransactionIndex list \<Rightarrow>
   (nat \<times> block_ref \<times> TransactionIndex list) list \<times> (block_ref, nat list) btree_map \<Rightarrow>
   (nat \<times> block_ref \<times> TransactionIndex list) list \<times> (block_ref, nat list) btree_map" where
  "acknowledge_one block_ref = (\<lambda>(ack, tx_indices) (sent, subscribers).
     (sent @ [(ack, block_ref, tx_indices)],
      btm_insert block_ref ((case btm_get subscribers block_ref of None \<Rightarrow> [] | Some ss \<Rightarrow> ss) @ [ack]) subscribers))"

definition ack_transactions ::
  "(nat \<times> TransactionIndex list) list \<Rightarrow> block_ref \<Rightarrow> transaction_consumer \<Rightarrow>
   (nat \<times> block_ref \<times> TransactionIndex list) list \<times> transaction_consumer" where
  "ack_transactions acks block_ref c =
     (let (sent, subscribers) = fold (acknowledge_one block_ref) acks ([], tx_subscribers c)
      in (sent, c\<lparr>tx_subscribers := subscribers\<rparr>))"

definition notify_committed ::
  "block_ref \<Rightarrow> (nat \<times> block_status) list \<times> (block_ref, nat list) btree_map \<Rightarrow>
   (nat \<times> block_status) list \<times> (block_ref, nat list) btree_map" where
  "notify_committed block_ref = (\<lambda>(sent, subscribers).
     case btm_get subscribers block_ref of
       None \<Rightarrow> (sent, subscribers)
     | Some ss \<Rightarrow> (sent @ map (\<lambda>s. (s, Sequenced block_ref)) ss, btm_remove block_ref subscribers))"

fun notify_collected ::
  "Round \<Rightarrow> (nat \<times> block_status) list \<Rightarrow> (block_ref, nat list) btree_map \<Rightarrow>
   (nat \<times> block_status) list \<times> (block_ref, nat list) btree_map" where
  "notify_collected gc sent [] = (sent, [])"
| "notify_collected gc sent ((block_ref, ss) # rest) =
     (if br_round block_ref \<le> gc
      then notify_collected gc (sent @ map (\<lambda>s. (s, GarbageCollected block_ref)) ss) rest
      else (sent, btm_insert block_ref ss rest))"

definition notify_own_blocks_status ::
  "transaction_consumer \<Rightarrow> block_ref list \<Rightarrow> Round \<Rightarrow> (nat \<times> block_status) list \<times> transaction_consumer" where
  "notify_own_blocks_status c committed_blocks gc =
     (let (sent, subscribers) = fold notify_committed committed_blocks ([], tx_subscribers c);
          (sent, subscribers) = notify_collected gc sent subscribers
      in (sent, c\<lparr>tx_subscribers := subscribers\<rparr>))"

subsection \<open>Submitting transactions\<close>

record transaction_client =
  tcl_max_transaction_size :: nat
  tcl_max_transactions_in_block_bytes :: nat
  tcl_max_transactions_in_block_count :: nat

datatype client_error =
    ConsensusShuttingDown
  | OversizedTransaction nat nat
  | OversizedTransactionBundleBytes nat nat
  | OversizedTransactionBundleCount nat nat

definition transaction_client_new :: "protocol_limits \<Rightarrow> transaction_client" where
  "transaction_client_new limits =
     \<lparr>tcl_max_transaction_size = max_transaction_size_bytes limits,
      tcl_max_transactions_in_block_bytes = max_transactions_in_block_bytes limits,
      tcl_max_transactions_in_block_count = max_num_transactions_in_block limits\<rparr>"

fun check_bundle :: "transaction_client \<Rightarrow> nat \<Rightarrow> bytes list \<Rightarrow> client_error + unit" where
  "check_bundle cl bundle_size [] = Inr ()"
| "check_bundle cl bundle_size (t # ts) =
     (if length t > tcl_max_transaction_size cl
      then Inl (OversizedTransaction (length t) (tcl_max_transaction_size cl))
      else let bundle_size = u64_add bundle_size (length t) in
        if bundle_size > tcl_max_transactions_in_block_bytes cl
        then Inl (OversizedTransactionBundleBytes bundle_size (tcl_max_transactions_in_block_bytes cl))
        else check_bundle cl bundle_size ts)"

text \<open>Sends the submission with acknowledgement channel \<open>ack\<close> when the consumer is still there
  (\<open>channel_open\<close>); the result is the channel with the submission.\<close>

definition submit_no_wait ::
  "transaction_client \<Rightarrow> bool \<Rightarrow> nat \<Rightarrow> bytes list \<Rightarrow> transactions_guard list \<Rightarrow>
   client_error + transactions_guard list" where
  "submit_no_wait cl channel_open ack transactions queue =
     (if length transactions > tcl_max_transactions_in_block_count cl
      then Inl (OversizedTransactionBundleCount (length transactions) (tcl_max_transactions_in_block_count cl))
      else case check_bundle cl 0 transactions of
        Inl e \<Rightarrow> Inl e
      | Inr _ \<Rightarrow>
          if channel_open then Inr (queue @ [\<lparr>tg_transactions = transactions, tg_ack = ack\<rparr>])
          else Inl ConsensusShuttingDown)"

subsection \<open>System transactions\<close>

text \<open>The part of \<^verbatim>\<open>try_new_block\<close> that puts system transactions before the pulled ones, when this node
  leads the round.  The provider returns the serialised transactions, \<open>None\<close> where that failed.\<close>

definition inject_system_transactions ::
  "(nat \<Rightarrow> CommitIndex \<Rightarrow> bytes option list option) option \<Rightarrow> bool \<Rightarrow> nat \<Rightarrow> CommitIndex \<Rightarrow>
   bytes list \<Rightarrow> bytes list" where
  "inject_system_transactions provider is_leader epoch commit_index transactions =
     (case provider of
        None \<Rightarrow> transactions
      | Some get_system_transactions \<Rightarrow>
          if is_leader
          then (case get_system_transactions epoch commit_index of
                  None \<Rightarrow> transactions
                | Some txs \<Rightarrow> List.map_filter (\<lambda>t. t) txs @ transactions)
          else transactions)"

subsection \<open>Which submissions a block takes\<close>

abbreviation guard_bytes :: "transactions_guard \<Rightarrow> nat" where
  "guard_bytes t \<equiv> sum_list (map length (tg_transactions t))"

definition contents :: "transactions_guard list \<Rightarrow> bytes list" where
  "contents ts = concat (map tg_transactions ts)"

lemma contents_simps [simp]:
  "contents [] = []" "contents (t # ts) = tg_transactions t @ contents ts" "contents (ts @ us) = contents ts @ contents us"
  by (simp_all add: contents_def)

text \<open>The abstract specification: the longest prefix of the submissions in which each fits after
  those before it.  An empty submission (a ping) always fits.\<close>

definition fits :: "nat \<Rightarrow> nat \<Rightarrow> transactions_guard list \<Rightarrow> transactions_guard \<Rightarrow> bool" where
  "fits max_bytes max_num taken t \<longleftrightarrow> tg_transactions t = [] \<or>
     sum_list (map length (contents taken)) + guard_bytes t \<le> max_bytes \<and>
     length (contents taken) + length (tg_transactions t) \<le> max_num"

fun take_fitting ::
  "nat \<Rightarrow> nat \<Rightarrow> transactions_guard list \<Rightarrow> transactions_guard list \<Rightarrow>
   transactions_guard list \<times> transactions_guard list" where
  "take_fitting max_bytes max_num taken [] = (taken, [])"
| "take_fitting max_bytes max_num taken (t # ts) =
     (if fits max_bytes max_num taken t then take_fitting max_bytes max_num (taken @ [t]) ts
      else (taken, t # ts))"

fun indices_from :: "nat \<Rightarrow> transactions_guard list \<Rightarrow> (nat \<times> TransactionIndex list) list" where
  "indices_from offset [] = []"
| "indices_from offset (t # ts) =
     (tg_ack t, if tg_transactions t = [] then [PING_TRANSACTION_INDEX]
                else [offset..<offset + length (tg_transactions t)])
     # indices_from (offset + length (tg_transactions t)) ts"

lemma indices_from_append:
  "indices_from k (ts @ us) = indices_from k ts @ indices_from (k + length (contents ts)) us"
  by (induction ts arbitrary: k) (simp_all add: add.assoc)

definition limits_ok :: "nat \<Rightarrow> nat \<Rightarrow> bool" where
  "limits_ok max_bytes max_num \<longleftrightarrow> max_bytes < 2 ^ 63 \<and> max_num < 2 ^ 16 - 8"

definition guard_ok :: "nat \<Rightarrow> nat \<Rightarrow> transactions_guard \<Rightarrow> bool" where
  "guard_ok max_bytes max_num t \<longleftrightarrow> guard_bytes t \<le> max_bytes \<and> length (tg_transactions t) \<le> max_num"

definition pulled :: "nat \<Rightarrow> nat \<Rightarrow> transactions_guard list \<Rightarrow> pull_state \<Rightarrow> bool" where
  "pulled max_bytes max_num taken ps \<longleftrightarrow>
     ps_transactions ps = contents taken \<and> ps_acks ps = indices_from 0 taken \<and>
     ps_total_bytes ps = sum_list (map length (contents taken)) \<and>
     length (contents taken) \<le> max_num \<and> sum_list (map length (contents taken)) \<le> max_bytes"

lemma handle_txs_fits:
  assumes lim: "limits_ok max_bytes max_num" and t: "guard_ok max_bytes max_num t"
    and ps: "pulled max_bytes max_num taken ps"
  shows "if fits max_bytes max_num taken t
     then \<exists>ps'. handle_txs max_bytes max_num t ps = (None, ps') \<and> pulled max_bytes max_num (taken @ [t]) ps' \<and>
            ps_limit_reached ps' = ps_limit_reached ps
     else \<exists>ps'. handle_txs max_bytes max_num t ps = (Some t, ps') \<and> pulled max_bytes max_num taken ps' \<and>
            ps_limit_reached ps' \<noteq> AllTransactionsIncluded"
proof -
  let ?n = "length (contents taken)" and ?m = "length (tg_transactions t)"
  have small: "sum_list (map length (contents taken)) + guard_bytes t < 2 ^ 64" "?n + ?m < 2 ^ 64"
      "guard_bytes t < 2 ^ 64" "?n < 2 ^ 16" "?m < 2 ^ 16"
    using lim t ps by (auto simp: limits_ok_def guard_ok_def pulled_def)
  then have eqs: "u64_add (ps_total_bytes ps) (u64_sum (map length (tg_transactions t)))
        = sum_list (map length (contents taken)) + guard_bytes t"
      "u64_add (length (ps_transactions ps)) ?m = ?n + ?m" "u16_of ?n = ?n" "u16_of ?m = ?m"
    using ps by (simp_all add: pulled_def u64_sum_eq u64_add_def u16_of_def)
  show ?thesis
  proof (cases "fits max_bytes max_num taken t")
    case True
    then have "u16_of (?n + ?m) = ?n + ?m" if "tg_transactions t \<noteq> []"
      using that lim by (simp add: fits_def u16_of_def limits_ok_def)
    then show ?thesis
      using True ps eqs by (auto simp: handle_txs_def Let_def fits_def pulled_def indices_from_append)
  next
    case False
    then show ?thesis using ps eqs by (auto simp: handle_txs_def Let_def fits_def pulled_def)
  qed
qed

lemma pull_loop_take:
  assumes lim: "limits_ok max_bytes max_num"
    and "\<forall>t \<in> set ts. guard_ok max_bytes max_num t" "pulled max_bytes max_num taken ps"
    and "ps_limit_reached ps = AllTransactionsIncluded" "take_fitting max_bytes max_num taken ts = (taken', rest)"
  shows "\<exists>pending queue ps'. pull_loop max_bytes max_num ts ps = (pending, queue, ps') \<and>
     pulled max_bytes max_num taken' ps' \<and> rest = (case pending of None \<Rightarrow> queue | Some t \<Rightarrow> t # queue) \<and>
     (ps_limit_reached ps' = AllTransactionsIncluded \<longleftrightarrow> rest = [])"
  using assms(2-5)
proof (induction ts arbitrary: taken ps)
  case (Cons t ts)
  show ?case
  proof (cases "fits max_bytes max_num taken t")
    case True
    then obtain ps1 where p: "handle_txs max_bytes max_num t ps = (None, ps1)" "pulled max_bytes max_num (taken @ [t]) ps1"
        "ps_limit_reached ps1 = AllTransactionsIncluded"
      using handle_txs_fits [OF lim, of t taken ps] Cons.prems by auto
    from Cons.IH [OF _ p(2,3)] Cons.prems True show ?thesis by (simp add: p(1))
  next
    case False
    then obtain ps1 where p: "handle_txs max_bytes max_num t ps = (Some t, ps1)" "pulled max_bytes max_num taken ps1"
        "ps_limit_reached ps1 \<noteq> AllTransactionsIncluded"
      using handle_txs_fits [OF lim, of t taken ps] Cons.prems by auto
    then show ?thesis using Cons.prems(4) False by auto
  qed
qed auto

lemma take_fitting_append:
  assumes "take_fitting max_bytes max_num taken ts = (taken', rest)"
  shows "taken @ ts = taken' @ rest \<and> (rest \<noteq> [] \<longrightarrow> \<not> fits max_bytes max_num taken' (hd rest)) \<and>
     length taken \<le> length taken'"
  using assms by (induction ts arbitrary: taken) (fastforce split: if_splits)+

subsection \<open>What the consumer returns\<close>

definition submissions :: "transaction_consumer \<Rightarrow> transactions_guard list" where
  "submissions c = (case tx_pending c of None \<Rightarrow> [] | Some t \<Rightarrow> [t]) @ tx_receiver c"

definition consumer_ok :: "transaction_consumer \<Rightarrow> bool" where
  "consumer_ok c \<longleftrightarrow> limits_ok (tx_max_bytes c) (tx_max_num c) \<and>
     (\<forall>t \<in> set (submissions c). guard_ok (tx_max_bytes c) (tx_max_num c) t)"

lemma fits_first: "guard_ok max_bytes max_num t \<Longrightarrow> fits max_bytes max_num [] t"
  by (simp add: fits_def guard_ok_def)

lemma pulled_start: "pulled max_bytes max_num [] pull_start"
  by (simp add: pulled_def pull_start_def)

lemma next_takes:
  assumes ok: "consumer_ok c" and take: "take_fitting (tx_max_bytes c) (tx_max_num c) [] (submissions c) = (taken, rest)"
  shows "\<exists>limit c'. next_transactions c = ((contents taken, indices_from 0 taken, limit), c') \<and>
     (limit = AllTransactionsIncluded \<longleftrightarrow> rest = []) \<and> submissions c' = rest \<and>
     c' = c\<lparr>tx_pending := tx_pending c', tx_receiver := tx_receiver c'\<rparr> \<and>
     length (contents taken) \<le> tx_max_num c \<and> sum_list (map length (contents taken)) \<le> tx_max_bytes c"
proof -
  let ?B = "tx_max_bytes c" and ?N = "tx_max_num c"
  have lim: "limits_ok ?B ?N" and good: "\<forall>t \<in> set (submissions c). guard_ok ?B ?N t" using ok by (simp_all add: consumer_ok_def)
  define ps where "ps = (case tx_pending c of None \<Rightarrow> pull_start | Some t \<Rightarrow> snd (handle_txs ?B ?N t pull_start))"
  define first where "first = (case tx_pending c of None \<Rightarrow> [] | Some t \<Rightarrow> [t])"
  have "pulled ?B ?N first ps \<and> ps_limit_reached ps = AllTransactionsIncluded \<and>
      take_fitting ?B ?N first (tx_receiver c) = (taken, rest)"
  proof (cases "tx_pending c")
    case None
    then show ?thesis using take pulled_start by (simp add: ps_def first_def submissions_def) (simp add: pull_start_def)
  next
    case (Some t)
    then have "fits ?B ?N [] t" "guard_ok ?B ?N t" using good fits_first by (auto simp: submissions_def)
    then show ?thesis
      using handle_txs_fits [OF lim _ pulled_start, of t] take Some
      by (auto simp: ps_def first_def submissions_def pull_start_def)
  qed
  then have start: "pulled ?B ?N first ps" "ps_limit_reached ps = AllTransactionsIncluded"
      "take_fitting ?B ?N first (tx_receiver c) = (taken, rest)" by simp_all
  have "\<forall>t \<in> set (tx_receiver c). guard_ok ?B ?N t" using good by (simp add: submissions_def)
  from pull_loop_take [OF lim this start] obtain pending queue ps' where l: "pull_loop ?B ?N (tx_receiver c) ps = (pending, queue, ps')"
      "pulled ?B ?N taken ps'" "rest = (case pending of None \<Rightarrow> queue | Some t \<Rightarrow> t # queue)"
      "ps_limit_reached ps' = AllTransactionsIncluded \<longleftrightarrow> rest = []" by blast
  have run: "next_transactions c = ((ps_transactions ps', ps_acks ps', ps_limit_reached ps'),
      c\<lparr>tx_pending := pending, tx_receiver := queue\<rparr>)"
    unfolding next_transactions_def ps_def [symmetric] Let_def l(1) by simp
  show ?thesis
    using l(2-4) unfolding run by (auto simp: pulled_def submissions_def split: option.splits)
qed

lemma indices_from_nth:
  assumes "i < length ts"
  shows "indices_from k ts ! i = (tg_ack (ts ! i),
     if tg_transactions (ts ! i) = [] then [PING_TRANSACTION_INDEX]
     else [k + length (contents (take i ts))..<k + length (contents (take (Suc i) ts))])"
  using assms
proof (induction ts arbitrary: k i)
  case (Cons t ts)
  then show ?case by (cases i) (auto simp: add.assoc)
qed simp

lemma indices_from_length: "length (indices_from k ts) = length ts"
  by (induction ts arbitrary: k) simp_all

lemma contents_at:
  assumes "i < length ts"
  shows "map ((!) (contents ts)) [length (contents (take i ts))..<length (contents (take (Suc i) ts))] = tg_transactions (ts ! i)"
proof -
  have split: "contents ts = contents (take i ts) @ tg_transactions (ts ! i) @ contents (drop (Suc i) ts)"
    using assms by (metis append_take_drop_id contents_simps(2,3) Cons_nth_drop_Suc)
  have len: "length (contents (take (Suc i) ts)) = length (contents (take i ts)) + length (tg_transactions (ts ! i))"
    using assms by (simp add: take_Suc_conv_app_nth)
  show ?thesis
    unfolding len by (rule nth_equalityI) (simp_all add: split nth_append)
qed

lemma acked_positions:
  assumes "i < length ts"
  shows "if tg_transactions (ts ! i) = [] then snd (indices_from 0 ts ! i) = [PING_TRANSACTION_INDEX]
        else map ((!) (contents ts)) (snd (indices_from 0 ts ! i)) = tg_transactions (ts ! i)"
  using contents_at [OF assms] by (simp add: indices_from_nth [OF assms])

text \<open>C25: pulling transactions into a block.  While every waiting submission alone respects the limits of a
  block, \<^verbatim>\<open>next\<close> takes the longest prefix of the submissions that fits, in the order of submission,
  and at least one if any waits.  It splits and drops none: the others stay whole, in order.  The block
  stays within both limits, and the limit reported is \<^verbatim>\<open>AllTransactionsIncluded\<close> exactly when nothing
  is left.  The indices acknowledged to a submission with transactions are their positions among the
  pulled transactions; an empty submission (a ping) is acknowledged with the one reserved index
  \<^verbatim>\<open>PING_TRANSACTION_INDEX\<close> (65535), not with an empty list of indices.\<close>

theorem next_transactions_spec:
  assumes "consumer_ok c"
  shows "\<exists>taken rest acks limit c'. next_transactions c = ((contents taken, acks, limit), c') \<and>
     submissions c = taken @ rest \<and> submissions c' = rest \<and> consumer_ok c' \<and>
     (submissions c \<noteq> [] \<longrightarrow> taken \<noteq> []) \<and>
     (rest \<noteq> [] \<longrightarrow> \<not> fits (tx_max_bytes c) (tx_max_num c) taken (hd rest)) \<and>
     (limit = AllTransactionsIncluded \<longleftrightarrow> rest = []) \<and>
     length (contents taken) \<le> tx_max_num c \<and> sum_list (map length (contents taken)) \<le> tx_max_bytes c \<and>
     map fst acks = map tg_ack taken \<and>
     (\<forall>i < length taken. if tg_transactions (taken ! i) = [] then snd (acks ! i) = [PING_TRANSACTION_INDEX]
        else map ((!) (contents taken)) (snd (acks ! i)) = tg_transactions (taken ! i))"
proof -
  obtain taken rest where take: "take_fitting (tx_max_bytes c) (tx_max_num c) [] (submissions c) = (taken, rest)"
    by fastforce
  obtain limit c' where n: "next_transactions c = ((contents taken, indices_from 0 taken, limit), c')"
      "limit = AllTransactionsIncluded \<longleftrightarrow> rest = []" "submissions c' = rest"
      "c' = c\<lparr>tx_pending := tx_pending c', tx_receiver := tx_receiver c'\<rparr>"
      "length (contents taken) \<le> tx_max_num c" "sum_list (map length (contents taken)) \<le> tx_max_bytes c"
    using next_takes [OF assms take] by blast
  have split: "submissions c = taken @ rest" "rest \<noteq> [] \<longrightarrow> \<not> fits (tx_max_bytes c) (tx_max_num c) taken (hd rest)"
    using take_fitting_append [OF take] by simp_all
  have lims: "tx_max_bytes c' = tx_max_bytes c" "tx_max_num c' = tx_max_num c" by (subst n(4), simp)+
  have ok: "consumer_ok c'" using assms by (simp add: consumer_ok_def lims n(3) split(1))
  have some: "taken \<noteq> []" if "submissions c \<noteq> []"
  proof
    assume "taken = []"
    moreover have "guard_ok (tx_max_bytes c) (tx_max_num c) (hd (submissions c))"
      using assms that by (simp add: consumer_ok_def)
    ultimately show False using fits_first split that by force
  qed
  have acks: "map fst (indices_from k ts) = map tg_ack ts" for k ts by (induction ts arbitrary: k) simp_all
  show ?thesis
    by (rule exI [of _ taken], rule exI [of _ rest], rule exI [of _ "indices_from 0 taken"], rule exI [of _ limit],
        rule exI [of _ c']) (intro conjI allI impI n(1-3,5,6) split ok some acks acked_positions)
qed

subsection \<open>Every submission gets its turn\<close>

text \<open>Pulling once after each batch of new submissions; the channels acknowledged, in order.\<close>

fun pulls :: "transaction_consumer \<Rightarrow> transactions_guard list list \<Rightarrow> nat list" where
  "pulls c [] = []"
| "pulls c (new # news) =
     (case next_transactions (c\<lparr>tx_receiver := tx_receiver c @ new\<rparr>) of
        ((_, acks, _), c') \<Rightarrow> map fst acks @ pulls c' news)"

text \<open>C26: no submission is lost, overtaken or starved.  However new submissions arrive between the calls, the
  submissions acknowledged by a sequence of calls of \<^verbatim>\<open>next\<close> are a prefix of all submissions in their
  order, and the first \<open>n\<close> calls cover the first \<open>n\<close> submissions that waited at the start.\<close>

theorem submissions_served:
  assumes "consumer_ok c" "\<forall>new \<in> set news. \<forall>t \<in> set new. guard_ok (tx_max_bytes c) (tx_max_num c) t"
  shows "prefix (pulls c news) (map tg_ack (submissions c @ concat news)) \<and>
     min (length (submissions c)) (length news) \<le> length (pulls c news)"
  using assms
proof (induction news arbitrary: c)
  case (Cons new news)
  let ?c = "c\<lparr>tx_receiver := tx_receiver c @ new\<rparr>"
  have sub: "submissions ?c = submissions c @ new" by (simp add: submissions_def)
  have ok: "consumer_ok ?c" using Cons.prems by (auto simp: consumer_ok_def sub)
  obtain taken rest where take: "take_fitting (tx_max_bytes ?c) (tx_max_num ?c) [] (submissions ?c) = (taken, rest)" by fastforce
  obtain limit c' where n: "next_transactions ?c = ((contents taken, indices_from 0 taken, limit), c')" "submissions c' = rest"
      "c' = ?c\<lparr>tx_pending := tx_pending c', tx_receiver := tx_receiver c'\<rparr>"
    using next_takes [OF ok take] by blast
  have lims: "tx_max_bytes c' = tx_max_bytes c" "tx_max_num c' = tx_max_num c" by (subst n(3), simp)+
  have split: "submissions c @ new = taken @ rest" using take_fitting_append [OF take] by (simp add: sub)
  have "\<forall>t \<in> set (taken @ rest). guard_ok (tx_max_bytes c) (tx_max_num c) t"
    using ok unfolding consumer_ok_def sub split by simp
  then have ok': "consumer_ok c'" using ok by (simp add: consumer_ok_def lims n(2))
  have IH: "prefix (pulls c' news) (map tg_ack (rest @ concat news))" "min (length rest) (length news) \<le> length (pulls c' news)"
    using Cons.IH [OF ok'] Cons.prems(2) by (simp_all add: lims n(2))
  have acks: "map fst (indices_from k ts) = map tg_ack ts" for k ts by (induction ts arbitrary: k) simp_all
  have run: "pulls c (new # news) = map tg_ack taken @ pulls c' news" by (simp add: n(1) acks)
  have "taken \<noteq> []" if "submissions c \<noteq> []"
  proof
    assume "taken = []"
    moreover have "guard_ok (tx_max_bytes c) (tx_max_num c) (hd (submissions c))" using Cons.prems(1) that by (simp add: consumer_ok_def)
    ultimately show False
      using fits_first take that unfolding sub by (cases "submissions c") (auto dest: take_fitting_append)
  qed
  moreover have "length (submissions c) \<le> length taken + length rest"
    using arg_cong [OF split, of length] by simp
  moreover have "min s (Suc n) \<le> t + p" if "s = 0 \<or> 1 \<le> t" "s \<le> t + r" "min r n \<le> p" for s t r n p :: nat
    using that by (cases "r \<le> n") (auto simp: min_def split: if_splits)
  ultimately have "min (length (submissions c)) (length (new # news)) \<le> length (pulls c (new # news))"
    using IH(2) unfolding run length_append length_map length_Cons by (metis One_nat_def Suc_leI length_0_conv length_greater_0_conv)
  moreover have "prefix (pulls c (new # news)) (map tg_ack (submissions c @ concat (new # news)))"
  proof -
    have "submissions c @ concat (new # news) = taken @ rest @ concat news" using split by (simp flip: append_assoc)
    then show ?thesis using IH(1) unfolding run by (simp only: map_append same_prefix_prefix)
  qed
  ultimately show ?case by simp
qed simp

subsection \<open>Status notifications\<close>

lemma notify_committed_eq:
  "notify_committed r (sent, m) = (case btm_get m r of None \<Rightarrow> (sent, m)
     | Some ss \<Rightarrow> (sent @ map (\<lambda>s. (s, Sequenced r)) ss, btm_remove r m))"
  by (simp add: notify_committed_def)

definition subscribers_of :: "(block_ref, nat list) btree_map \<Rightarrow> block_ref \<Rightarrow> nat set" where
  "subscribers_of m r = (case btm_get m r of None \<Rightarrow> {} | Some ss \<Rightarrow> set ss)"

lemma notify_committed_fold:
  assumes "fold notify_committed cs (sent, m) = (sent', m')" "btm_wf m"
  shows "btm_wf m' \<and> (\<forall>r. btm_get m' r = (if r \<in> set cs then None else btm_get m r)) \<and>
     set sent' = set sent \<union> (\<Union>r \<in> set cs. (\<lambda>s. (s, Sequenced r)) ` subscribers_of m r)"
  using assms
proof (induction cs arbitrary: sent m)
  case (Cons r cs)
  show ?case
  proof (cases "btm_get m r")
    case None
    then have "fold notify_committed cs (sent, m) = (sent', m')" using Cons.prems(1) by (simp add: notify_committed_eq)
    from Cons.IH [OF this Cons.prems(2)] None show ?thesis by (auto simp: subscribers_of_def)
  next
    case (Some ss)
    then have "fold notify_committed cs (sent @ map (\<lambda>s. (s, Sequenced r)) ss, btm_remove r m) = (sent', m')"
      using Cons.prems(1) by (simp add: notify_committed_eq)
    from Cons.IH [OF this] Cons.prems(2)
    have IH: "btm_wf m'" "\<And>k. btm_get m' k = (if k \<in> set cs then None else btm_get (btm_remove r m) k)"
        "set sent' = set sent \<union> (\<lambda>s. (s, Sequenced r)) ` set ss \<union>
          (\<Union>k \<in> set cs. (\<lambda>s. (s, Sequenced k)) ` subscribers_of (btm_remove r m) k)"
      by (simp_all add: btree_simps)
    define f where "f k = (\<lambda>s. (s, Sequenced k)) ` subscribers_of m k" for k
    have "(\<lambda>s. (s, Sequenced r)) ` set ss = f r"
        "(\<lambda>s. (s, Sequenced k)) ` subscribers_of (btm_remove r m) k = (if k = r then {} else f k)" for k
      using Some by (simp_all add: f_def subscribers_of_def btm_get_remove)
    then have "set sent' = set sent \<union> (\<Union>k \<in> set (r # cs). f k)"
      unfolding IH(3) by (auto split: if_splits)
    then have "set sent' = set sent \<union> (\<Union>k \<in> set (r # cs). (\<lambda>s. (s, Sequenced k)) ` subscribers_of m k)"
      by (simp add: f_def)
    then show ?thesis using IH(1,2) by (simp add: btm_get_remove)
  qed
qed simp

lemma notify_collected_spec:
  assumes "notify_collected gc sent m = (sent', m')" "btm_wf m"
  shows "m' = filter (\<lambda>(r, _). gc < br_round r) m \<and>
     set sent' = set sent \<union> (\<Union>(r, ss) \<in> set m. if br_round r \<le> gc then (\<lambda>s. (s, GarbageCollected r)) ` set ss else {})"
  using assms
proof (induction gc sent m rule: notify_collected.induct)
  case (2 gc sent r ss rest)
  have wf: "btm_wf rest" and later: "\<forall>k \<in> fst ` set rest. r < k" using 2(3) by (auto simp: btm_wf_def btm_keys_def)
  show ?case
  proof (cases "br_round r \<le> gc")
    case True
    then show ?thesis using 2(1) [OF True _ wf] 2(2) by auto
  next
    case False
    have up: "gc < br_round (fst p)" if "p \<in> set rest" for p
      using later that False block_ref_less_round [of r "fst p"] by fastforce
    then have keep: "filter (\<lambda>(r, _). gc < br_round r) rest = rest" by (auto simp: filter_id_conv)
    have "(\<Union>(r, ss) \<in> set ((r, ss) # rest). if br_round r \<le> gc then (\<lambda>s. (s, GarbageCollected r)) ` set ss else {}) = {}"
      using up False by fastforce
    moreover have "sent' = sent" "m' = (r, ss) # rest" using 2(2) False btm_insert_first [OF 2(3)] by simp_all
    ultimately show ?thesis using False keep by simp
  qed
qed simp

text \<open>Block status notifications.  \<^verbatim>\<open>notify_own_blocks_status\<close> tells every submitter waiting for a committed
  block that it was sequenced, every other submitter waiting for a block at or below the garbage
  collection round that it was collected, and nobody else.  Exactly the others keep waiting.\<close>

theorem notify_status_spec:
  assumes "btm_wf (tx_subscribers c)"
  shows "\<exists>sent c'. notify_own_blocks_status c committed gc = (sent, c') \<and> btm_wf (tx_subscribers c') \<and>
     (\<forall>r. btm_get (tx_subscribers c') r =
        (if r \<in> set committed \<or> br_round r \<le> gc then None else btm_get (tx_subscribers c) r)) \<and>
     (\<forall>s r. ((s, Sequenced r) \<in> set sent \<longleftrightarrow> s \<in> subscribers_of (tx_subscribers c) r \<and> r \<in> set committed) \<and>
        ((s, GarbageCollected r) \<in> set sent \<longleftrightarrow>
           s \<in> subscribers_of (tx_subscribers c) r \<and> r \<notin> set committed \<and> br_round r \<le> gc))"
proof -
  obtain sent1 m1 where f: "fold notify_committed committed ([], tx_subscribers c) = (sent1, m1)" by fastforce
  obtain sent m where g: "notify_collected gc sent1 m1 = (sent, m)" by fastforce
  from notify_committed_fold [OF f assms] have F: "btm_wf m1"
      "\<And>r. btm_get m1 r = (if r \<in> set committed then None else btm_get (tx_subscribers c) r)"
      "set sent1 = (\<Union>r \<in> set committed. (\<lambda>s. (s, Sequenced r)) ` subscribers_of (tx_subscribers c) r)" by auto
  from notify_collected_spec [OF g F(1)] have G: "m = filter (\<lambda>(r, _). gc < br_round r) m1"
      "set sent = set sent1 \<union> (\<Union>(r, ss) \<in> set m1. if br_round r \<le> gc then (\<lambda>s. (s, GarbageCollected r)) ` set ss else {})"
    by auto
  have run: "notify_own_blocks_status c committed gc = (sent, c\<lparr>tx_subscribers := m\<rparr>)"
    by (simp add: notify_own_blocks_status_def f g)
  have wf: "btm_wf m" using F(1) unfolding G(1) by (auto simp: btm_wf_def btm_keys_def sorted_wrt_map sorted_wrt_filter)
  have get: "btm_get m r = (if r \<in> set committed \<or> br_round r \<le> gc then None else btm_get (tx_subscribers c) r)" for r
    using F(2) [of r] unfolding G(1) by (simp add: btm_get_def map_of_filter_round)
  have entry: "(r, ss) \<in> set m1 \<longleftrightarrow> r \<notin> set committed \<and> btm_get (tx_subscribers c) r = Some ss" for r ss
    using btm_get_in_set [OF F(1), of r ss] F(2) [of r] by (auto split: if_splits)
  have seq: "(s, Sequenced r) \<in> set sent \<longleftrightarrow> s \<in> subscribers_of (tx_subscribers c) r \<and> r \<in> set committed" for s r
    unfolding G(2) F(3) by (auto split: if_splits)
  have col: "(s, GarbageCollected r) \<in> set sent \<longleftrightarrow>
      s \<in> subscribers_of (tx_subscribers c) r \<and> r \<notin> set committed \<and> br_round r \<le> gc" for s r
  proof
    assume "(s, GarbageCollected r) \<in> set sent"
    then show "s \<in> subscribers_of (tx_subscribers c) r \<and> r \<notin> set committed \<and> br_round r \<le> gc"
      unfolding G(2) F(3) by (auto simp: entry subscribers_of_def split: if_splits)
  next
    assume a: "s \<in> subscribers_of (tx_subscribers c) r \<and> r \<notin> set committed \<and> br_round r \<le> gc"
    then obtain ss where "(r, ss) \<in> set m1" "s \<in> set ss" by (auto simp: entry subscribers_of_def split: option.splits)
    then show "(s, GarbageCollected r) \<in> set sent" using a unfolding G(2) by fastforce
  qed
  show ?thesis
    by (rule exI [of _ sent], rule exI [of _ "c\<lparr>tx_subscribers := m\<rparr>"]) (simp add: run wf get seq col)
qed

subsection \<open>From submission to the verifier\<close>

lemma check_bundle_exact:
  assumes "tcl_max_transactions_in_block_bytes cl < 2 ^ 63" "tcl_max_transaction_size cl < 2 ^ 63"
    and "sz \<le> tcl_max_transactions_in_block_bytes cl"
  shows "check_bundle cl sz ts = Inr () \<longleftrightarrow> (\<forall>t \<in> set ts. length t \<le> tcl_max_transaction_size cl) \<and>
     sz + sum_list (map length ts) \<le> tcl_max_transactions_in_block_bytes cl"
  using assms(3)
proof (induction ts arbitrary: sz)
  case (Cons t ts)
  show ?case
  proof (cases "length t \<le> tcl_max_transaction_size cl")
    case True
    then have eq: "u64_add sz (length t) = sz + length t" using assms(1,2) Cons.prems by (simp add: u64_add_def)
    show ?thesis
    proof (cases "sz + length t \<le> tcl_max_transactions_in_block_bytes cl")
      case fits: True
      then show ?thesis using Cons.IH [OF fits] True eq by (auto simp: Let_def)
    qed (use True eq in \<open>simp add: Let_def\<close>)
  qed simp
qed simp

text \<open>A client queues a bundle exactly when the consumer is there and the bundle respects the limits.\<close>

lemma submit_exact:
  assumes "max_transactions_in_block_bytes limits < 2 ^ 63" "max_transaction_size_bytes limits < 2 ^ 63"
  shows "submit_no_wait (transaction_client_new limits) channel_open ack ts queue = Inr queue' \<longleftrightarrow>
      channel_open \<and> length ts \<le> max_num_transactions_in_block limits \<and>
      (\<forall>t \<in> set ts. length t \<le> max_transaction_size_bytes limits) \<and>
      sum_list (map length ts) \<le> max_transactions_in_block_bytes limits \<and>
      queue' = queue @ [\<lparr>tg_transactions = ts, tg_ack = ack\<rparr>]"
  using check_bundle_exact [of "transaction_client_new limits" 0 ts] assms
  by (auto simp: submit_no_wait_def transaction_client_new_def split: sum.splits if_splits)

text \<open>The states of a consumer whose channel is filled by clients of the same protocol limits.\<close>

inductive pool_reachable :: "protocol_limits \<Rightarrow> transaction_consumer \<Rightarrow> bool" for limits where
  start: "transaction_consumer_new [] limits = Some c \<Longrightarrow> pool_reachable limits c"
| submit: "pool_reachable limits c \<Longrightarrow>
     submit_no_wait (transaction_client_new limits) True ack ts (tx_receiver c) = Inr queue \<Longrightarrow>
     pool_reachable limits (c\<lparr>tx_receiver := queue\<rparr>)"
| pull: "pool_reachable limits c \<Longrightarrow> pool_reachable limits (snd (next_transactions c))"
| acknowledge: "pool_reachable limits c \<Longrightarrow> pool_reachable limits (snd (ack_transactions acks r c))"
| notify: "pool_reachable limits c \<Longrightarrow> pool_reachable limits (snd (notify_own_blocks_status c committed gc))"

definition pool_inv :: "protocol_limits \<Rightarrow> transaction_consumer \<Rightarrow> bool" where
  "pool_inv limits c \<longleftrightarrow> consumer_ok c \<and> btm_wf (tx_subscribers c) \<and>
     tx_max_bytes c = max_transactions_in_block_bytes limits \<and> tx_max_num c = max_num_transactions_in_block limits \<and>
     (\<forall>t \<in> set (submissions c). \<forall>x \<in> set (tg_transactions t). length x \<le> max_transaction_size_bytes limits)"

lemma submissions_subscribers [simp]: "submissions (c\<lparr>tx_subscribers := m\<rparr>) = submissions c"
  by (simp add: submissions_def)

lemma acknowledge_one_eq:
  "acknowledge_one r (ack, idx) (sent, m) = (sent @ [(ack, r, idx)],
     btm_insert r ((case btm_get m r of None \<Rightarrow> [] | Some ss \<Rightarrow> ss) @ [ack]) m)"
  by (simp add: acknowledge_one_def)

lemma acknowledge_wf:
  "btm_wf m \<Longrightarrow> fold (acknowledge_one r) acks (sent, m) = (sent', m') \<Longrightarrow> btm_wf m'"
proof (induction acks arbitrary: sent m)
  case (Cons a acks)
  obtain ack idx where a: "a = (ack, idx)" by fastforce
  show ?case by (rule Cons.IH) (use Cons.prems in \<open>auto simp: a acknowledge_one_eq btree_simps\<close>)
qed simp

lemma pool_reachable_inv:
  assumes "pool_reachable limits c" "max_transactions_in_block_bytes limits < 2 ^ 63" "max_transaction_size_bytes limits < 2 ^ 63"
  shows "pool_inv limits c"
  using assms(1)
proof induction
  case (start c)
  then show ?case using assms(2)
    by (auto simp: transaction_consumer_new_def pool_inv_def consumer_ok_def limits_ok_def submissions_def split: if_splits)
next
  case (submit c ack ts queue)
  note q = submit.hyps(2) [unfolded submit_exact [OF assms(2,3)]]
  then show ?case
    using submit.IH by (auto simp: pool_inv_def consumer_ok_def guard_ok_def submissions_def)
next
  case (pull c)
  then have ok: "consumer_ok c" by (simp add: pool_inv_def)
  obtain taken rest where t: "take_fitting (tx_max_bytes c) (tx_max_num c) [] (submissions c) = (taken, rest)" by fastforce
  obtain limit c' where n: "next_transactions c = ((contents taken, indices_from 0 taken, limit), c')" "submissions c' = rest"
      "c' = c\<lparr>tx_pending := tx_pending c', tx_receiver := tx_receiver c'\<rparr>"
    using next_takes [OF ok t] by blast
  have same: "tx_max_bytes c' = tx_max_bytes c" "tx_max_num c' = tx_max_num c" "tx_subscribers c' = tx_subscribers c"
    by (subst n(3), simp)+
  have "set rest \<subseteq> set (submissions c)" using take_fitting_append [OF t] by auto
  then show ?case using pull.IH n(1,2) same by (auto simp: pool_inv_def consumer_ok_def)
next
  case (acknowledge c acks r)
  then show ?case using acknowledge_wf [of "tx_subscribers c" r acks "[]"]
    by (auto simp: ack_transactions_def pool_inv_def consumer_ok_def split: prod.splits)
next
  case (notify c committed gc)
  obtain sent m where f: "fold notify_committed committed ([], tx_subscribers c) = (sent, m)" by fastforce
  obtain sent' m' where g: "notify_collected gc sent m = (sent', m')" by fastforce
  have "btm_wf m" using notify_committed_fold [OF f] notify.IH by (simp add: pool_inv_def)
  with notify_collected_spec [OF g this] have "btm_wf m'"
    by (auto simp: btm_wf_def btm_keys_def sorted_wrt_map sorted_wrt_filter)
  then show ?case using notify.IH
    by (auto simp: notify_own_blocks_status_def f g pool_inv_def consumer_ok_def)
qed

lemma pool_takes:
  assumes "pool_reachable limits c"
    and "max_transactions_in_block_bytes limits < 2 ^ 63" "max_transaction_size_bytes limits < 2 ^ 63"
    and "next_transactions c = ((ts, acks, limit), c')"
  obtains taken rest where "submissions c = taken @ rest" "ts = contents taken" "acks = indices_from 0 taken"
proof -
  have ok: "consumer_ok c" using pool_reachable_inv [OF assms(1-3)] by (simp add: pool_inv_def)
  obtain taken rest where t: "take_fitting (tx_max_bytes c) (tx_max_num c) [] (submissions c) = (taken, rest)" by fastforce
  show thesis by (rule that [of taken rest]) (use take_fitting_append [OF t] next_takes [OF ok t] assms(4) in auto)
qed

lemma pool_transactions_checked:
  assumes "pool_reachable limits c"
    and "max_transactions_in_block_bytes limits < 2 ^ 63" "max_transaction_size_bytes limits < 2 ^ 63"
    and "next_transactions c = ((ts, acks, limit), c')"
  shows "check_transactions limits ts = Inr ()"
proof -
  have inv: "pool_inv limits c" by (rule pool_reachable_inv [OF assms(1-3)])
  then have ok: "consumer_ok c" by (simp add: pool_inv_def)
  obtain taken rest where t: "take_fitting (tx_max_bytes c) (tx_max_num c) [] (submissions c) = (taken, rest)" by fastforce
  have n: "ts = contents taken" "length ts \<le> tx_max_num c" "sum_list (map length ts) \<le> tx_max_bytes c"
    using next_takes [OF ok t] assms(4) by auto
  have "set taken \<subseteq> set (submissions c)" using take_fitting_append [OF t] by auto
  then have "\<forall>x \<in> set ts. length x \<le> max_transaction_size_bytes limits"
    using inv unfolding n(1) contents_def by (fastforce simp: pool_inv_def)
  then have "transactions_ok limits ts" using n(2,3) inv by (simp add: transactions_ok_def pool_inv_def)
  moreover have "sum_list (map length ts) < 2 ^ 64" using n(3) inv assms(2) by (simp add: pool_inv_def)
  ultimately show ?thesis by (simp add: check_transactions_exact)
qed

text \<open>What the pool puts into a block passes the verifier.  Whatever clients submit and however pulls,
  acknowledgements and notifications interleave, the transactions that \<^verbatim>\<open>next\<close> returns satisfy the
  transaction checks of every verifier with the same protocol limits.\<close>

theorem pool_blocks_verified:
  assumes "pool_reachable limits c"
    and "max_transactions_in_block_bytes limits < 2 ^ 63" "max_transaction_size_bytes limits < 2 ^ 63"
    and "next_transactions c = ((ts, acks, limit), c')"
  shows "check_transactions limits ts = Inr ()"
  by (rule pool_transactions_checked [OF assms])

subsection \<open>A concrete pool\<close>

definition limits3 :: protocol_limits where
  "limits3 = \<lparr>max_transaction_size_bytes = 10, max_num_transactions_in_block = 3, max_transactions_in_block_bytes = 10\<rparr>"

definition guard :: "nat \<Rightarrow> bytes list \<Rightarrow> transactions_guard" where
  "guard ack ts = \<lparr>tg_transactions = ts, tg_ack = ack\<rparr>"

definition pool3 :: transaction_consumer where
  "pool3 = \<lparr>tx_receiver = [guard 0 [[1], [2]], guard 1 [], guard 2 [[3], [4]], guard 3 [[5]]],
     tx_max_bytes = 10, tx_max_num = 3, tx_pending = None,
     tx_subscribers = [(BlockRef 1 0 7, [8]), (BlockRef 2 0 7, [9]), (BlockRef 5 0 7, [6])]\<rparr>"

lemma pool3_ok: "consumer_ok pool3"
  by (simp add: consumer_ok_def pool3_def submissions_def limits_ok_def guard_ok_def guard_def)

lemma pool3_next: "next_transactions pool3 = (([[1], [2]], [(0, [0, 1]), (1, [65535])], MaxNumOfTransactions),
    pool3\<lparr>tx_pending := Some (guard 2 [[3], [4]]), tx_receiver := [guard 3 [[5]]]\<rparr>)"
  by (simp add: next_transactions_def pool3_def handle_txs_def pull_start_def u64_sum_def u64_add_def u16_of_def guard_def
      upt_rec Let_def)

theorem next_transactions_spec_witness:
  "\<exists>taken rest c'. next_transactions pool3 = ((contents taken, [(0, [0, 1]), (1, [65535])], MaxNumOfTransactions), c') \<and>
     submissions pool3 = taken @ rest \<and> submissions c' = rest \<and> consumer_ok c' \<and> taken \<noteq> [] \<and> rest \<noteq> []"
proof -
  obtain taken rest acks limit c' where n: "next_transactions pool3 = ((contents taken, acks, limit), c')"
      "submissions pool3 = taken @ rest" "submissions c' = rest" "consumer_ok c'" "submissions pool3 \<noteq> [] \<longrightarrow> taken \<noteq> []"
      "limit = AllTransactionsIncluded \<longleftrightarrow> rest = []"
    using next_transactions_spec [OF pool3_ok] by blast
  moreover have "submissions pool3 \<noteq> []" by (simp add: submissions_def pool3_def)
  moreover have "acks = [(0, [0, 1]), (1, [65535])]" "limit = MaxNumOfTransactions" using n(1) pool3_next by simp_all
  ultimately show ?thesis by auto
qed

theorem submissions_served_witness:
  "prefix (pulls pool3 [[], [guard 4 [[6]]]]) [0, 1, 2, 3, 4] \<and> 2 \<le> length (pulls pool3 [[], [guard 4 [[6]]]])"
proof -
  have new: "\<forall>new \<in> set [[], [guard 4 [[6]]]]. \<forall>t \<in> set new. guard_ok (tx_max_bytes pool3) (tx_max_num pool3) t"
    by (simp add: guard_ok_def guard_def pool3_def)
  have sub: "map tg_ack (submissions pool3) = [0, 1, 2, 3]" "length (submissions pool3) = 4" by (simp_all add: submissions_def pool3_def guard_def)
  show ?thesis using submissions_served [OF pool3_ok new] by (simp add: sub guard_def)
qed

theorem notify_status_spec_witness:
  "\<exists>sent c'. notify_own_blocks_status pool3 [BlockRef 2 0 7] 2 = (sent, c') \<and>
     (9, Sequenced (BlockRef 2 0 7)) \<in> set sent \<and> (8, GarbageCollected (BlockRef 1 0 7)) \<in> set sent \<and>
     btm_get (tx_subscribers c') (BlockRef 5 0 7) = Some [6]"
proof -
  have "btm_wf (tx_subscribers pool3)" by (simp add: pool3_def btm_wf_def btm_keys_def block_ref_less_iff)
  from notify_status_spec [OF this, of "[BlockRef 2 0 7]" 2] obtain sent c' where
      "notify_own_blocks_status pool3 [BlockRef 2 0 7] 2 = (sent, c')"
      "\<forall>r. btm_get (tx_subscribers c') r =
        (if r \<in> set [BlockRef 2 0 7] \<or> br_round r \<le> 2 then None else btm_get (tx_subscribers pool3) r)"
      "\<forall>s r. ((s, Sequenced r) \<in> set sent \<longleftrightarrow> s \<in> subscribers_of (tx_subscribers pool3) r \<and> r \<in> set [BlockRef 2 0 7]) \<and>
        ((s, GarbageCollected r) \<in> set sent \<longleftrightarrow>
           s \<in> subscribers_of (tx_subscribers pool3) r \<and> r \<notin> set [BlockRef 2 0 7] \<and> br_round r \<le> 2)" by blast
  then show ?thesis by (auto simp: pool3_def subscribers_of_def btm_get_def)
qed

definition pool0 :: transaction_consumer where
  "pool0 = \<lparr>tx_receiver = [], tx_max_bytes = 10, tx_max_num = 3, tx_pending = None, tx_subscribers = []\<rparr>"

lemma pool0_submitted: "pool_reachable limits3 (pool0\<lparr>tx_receiver := [guard 0 [[1], [2]]]\<rparr>)"
proof (rule pool_reachable.submit)
  show "pool_reachable limits3 pool0"
    by (rule pool_reachable.start) (simp add: transaction_consumer_new_def limits3_def pool0_def)
  show "submit_no_wait (transaction_client_new limits3) True 0 [[1], [2]] (tx_receiver pool0) = Inr [guard 0 [[1], [2]]]"
    by (simp add: submit_no_wait_def transaction_client_new_def limits3_def guard_def u64_add_def pool0_def)
qed

theorem pool_blocks_verified_witness:
  "\<exists>c ts acks limit c'. pool_reachable limits3 c \<and> next_transactions c = ((ts, acks, limit), c') \<and> ts = [[1], [2]] \<and>
     check_transactions limits3 ts = Inr ()"
proof -
  let ?c = "pool0\<lparr>tx_receiver := [guard 0 [[1], [2]]]\<rparr>"
  have n: "next_transactions ?c = (([[1], [2]], [(0, [0, 1])], AllTransactionsIncluded), pool0)"
    by (simp add: next_transactions_def handle_txs_def pull_start_def u64_sum_def u64_add_def u16_of_def guard_def upt_rec
        pool0_def Let_def)
  have "check_transactions limits3 [[1], [2]] = Inr ()"
    by (rule pool_blocks_verified [OF pool0_submitted _ _ n]) (simp_all add: limits3_def)
  with pool0_submitted n show ?thesis by blast
qed

end
