(* ===== verification/Core.thy ===== *)
theory Core
  imports Proposer Block_Manager Linearizer Transaction_Pool Transaction_Certifier
begin

section \<open>The core\<close>

text \<open>
  \<^verbatim>\<open>core/src/core.rs\<close>, \<^verbatim>\<open>core/src/core/{proposer,commit_manager,block_importer}.rs\<close>, \<^verbatim>\<open>handle_commit\<close> of
  \<^verbatim>\<open>commit_observer.rs\<close> and \<^verbatim>\<open>core_signals.rs\<close>: the thread that calls the components in turn.  The record
  \<open>core_state\<close> owns what the components share through \<^verbatim>\<open>Arc\<close>: the DAG state and the leader schedule
  (the copies in the committers are replaced with it).  What is sent on channels is appended to
  \<open>co_output\<close>; the receivers are there, so the error of a closed channel does not occur.
  \<open>core_env\<close> has what lies outside: signing, hashing, serialisation, random numbers, the clock, which
  an operation reads once, the metric with the commit index of a quorum, and node parameters.
  The adaptive delay is left out: \<^verbatim>\<open>calculate_adaptive_delay\<close> returns zero.
\<close>

abbreviation (input) MAX_COMMIT_VOTES_PER_BLOCK :: nat where "MAX_COMMIT_VOTES_PER_BLOCK \<equiv> 100"

record ('kp, 'sig) core_env =
  en_rand :: leader_rand
  en_crypto :: "('kp, 'sig) block_crypto"
  en_block_signer :: 'kp
  en_block_bytes :: "signed_block \<Rightarrow> bytes option"
  en_block_hash :: "bytes \<Rightarrow> digest"
  en_commit_bytes :: "commit \<Rightarrow> bytes option"
  en_commit_hash :: "bytes \<Rightarrow> digest"
  en_timestamp_utc_ms :: BlockTimestampMs
  en_now :: nat
  en_quorum_commit_index :: CommitIndex
  en_min_round_delay :: nat
  en_propagation_delay_stop_proposal_threshold :: Round
  en_system_transaction_provider :: "(nat \<Rightarrow> CommitIndex \<Rightarrow> bytes option list option) option"
  en_epoch_change_data :: "bytes option \<times> bytes list"

datatype core_output =
    NewBlock verified_block "block_ref list"
  | NewRound Round
  | FinalizeCommit committed_sub_dag
  | CertifiedBlocks "certified_block list"
  | Included nat block_ref "TransactionIndex list"
  | StatusOf nat block_status

record core_state =
  co_proposer :: proposer_core
  co_transaction_consumer :: transaction_consumer
  co_transaction_certifier :: certifier_state
  co_block_manager :: block_manager
  co_propagation_delay :: Round
  co_last_signaled_round :: Round
  co_last_decided_leader :: slot
  co_leader_schedule :: leader_schedule
  co_commit_interpreter :: linearizer
  co_last_known_proposed_round :: "Round option"
  co_quorum_ready :: bool
  co_output :: "core_output list"

abbreviation co_dag :: "core_state \<Rightarrow> dag_state" where "co_dag core \<equiv> pc_dag_state (co_proposer core)"
abbreviation co_context :: "core_state \<Rightarrow> consensus_context" where "co_context core \<equiv> pc_context (co_proposer core)"
abbreviation clock_round :: "dag_state \<Rightarrow> Round" where "clock_round d \<equiv> tc_round (ds_threshold_clock d)"

definition set_dag :: "dag_state \<Rightarrow> core_state \<Rightarrow> core_state" where
  "set_dag d core = core\<lparr>co_proposer := (co_proposer core)\<lparr>pc_dag_state := d\<rparr>\<rparr>"

definition emit :: "core_output list \<Rightarrow> core_state \<Rightarrow> core_state" where
  "emit out core = core\<lparr>co_output := co_output core @ out\<rparr>"

subsection \<open>Signals\<close>

definition signal_new_block :: "verified_block \<Rightarrow> block_ref list \<Rightarrow> core_state \<Rightarrow> core_state" where
  "signal_new_block block excluded_ancestors core =
     (if committee_size (ctx_committee (co_context core)) > 1
      then if vb_round block = GENESIS_ROUND then core else emit [NewBlock block excluded_ancestors] core
      else core)"

definition try_signal_new_round :: "core_state \<Rightarrow> core_state" where
  "try_signal_new_round core =
     (let new_clock_round = clock_round (co_dag core) in
      if new_clock_round \<le> co_last_signaled_round core then core
      else (emit [NewRound new_clock_round] core)\<lparr>co_last_signaled_round := new_clock_round\<rparr>)"

subsection \<open>Committing\<close>

definition observer_handle_commit ::
  "('kp, 'sig) core_env \<Rightarrow> core_state \<Rightarrow> verified_block list \<Rightarrow> bool \<Rightarrow>
   (committed_sub_dag list \<times> core_state) option" where
  "observer_handle_commit env core committed_leaders local = do {
     (sub_dags, lin, d) \<leftarrow> handle_commit (en_commit_hash env) (en_commit_bytes env) (co_commit_interpreter core)
       (co_dag core) committed_leaders;
     let sub_dags = map (\<lambda>s. s\<lparr>csd_decided_with_local_blocks := local\<rparr>) sub_dags;
     let sub_dags = (if leader_schedule_updated d
       then (case sub_dags of [] \<Rightarrow> []
             | s # rest \<Rightarrow> s\<lparr>csd_reputation_scores_desc :=
                 lst_reputation_scores_desc (ls_swap_table (co_leader_schedule core))\<rparr> # rest)
       else sub_dags);
     d \<leftarrow> add_scoring_subdags d sub_dags;
     Some (sub_dags, emit (map FinalizeCommit sub_dags) (set_dag d (core\<lparr>co_commit_interpreter := lin\<rparr>)))
   }"

definition filter_new_commits :: "dag_state \<Rightarrow> certified_commit list \<Rightarrow> certified_commit list consensus_result" where
  "filter_new_commits d commits =
     (let last = last_commit_index d;
          commits = filter (\<lambda>c. tcm_index (cc_commit c) > last) commits
      in case commits of
           [] \<Rightarrow> Inr commits
         | c # _ \<Rightarrow>
             if tcm_index (cc_commit c) \<noteq> u32_add last 1
             then Inl (UnexpectedCertifiedCommitIndex (u32_add last 1) (tcm_index (cc_commit c)))
             else Inr commits)"

definition certified_leader :: "certified_commit \<Rightarrow> (decided_leader \<times> certified_commit) option" where
  "certified_leader c =
     map_option (\<lambda>b. (DecidedCommit b False, c)) (find (\<lambda>b. vb_reference b = tcm_leader (cc_commit c)) (cc_blocks c))"

definition try_select_certified_leaders ::
  "certified_commit list \<Rightarrow> nat \<Rightarrow> ((decided_leader \<times> certified_commit) list \<times> certified_commit list) option" where
  "try_select_certified_leaders certified_commits limit =
     (if limit = 0 then None
      else if certified_commits = [] then Some ([], [])
      else if length certified_commits \<ge> limit
      then map_option (\<lambda>ls. (ls, drop limit certified_commits)) (map_opt certified_leader (take limit certified_commits))
      else map_option (\<lambda>ls. (ls, [])) (map_opt certified_leader certified_commits))"

definition share_schedule :: "leader_schedule \<Rightarrow> universal_committer \<Rightarrow> universal_committer" where
  "share_schedule ls uc = uc\<lparr>uc_committers := map (\<lambda>b. b\<lparr>bc_leader_schedule := ls\<rparr>) (uc_committers uc)\<rparr>"

text \<open>The start of an iteration of \<^verbatim>\<open>try_commit\<close>: the number of commits until the next schedule, which is changed at zero.\<close>

definition refresh_schedule :: "('kp, 'sig) core_env \<Rightarrow> core_state \<Rightarrow> (nat \<times> core_state) option" where
  "refresh_schedule env core = do {
     commits_until_update \<leftarrow> commits_until_leader_schedule_update (co_leader_schedule core) (co_dag core);
     (commits_until_update, core) \<leftarrow>
       (if commits_until_update = 0 then do {
          (ls, d) \<leftarrow> update_leader_schedule_v2 (en_rand env) (co_leader_schedule core) (co_dag core);
          let pc = co_proposer core;
          let core = core\<lparr>co_leader_schedule := ls,
            co_proposer := pc\<lparr>pc_dag_state := d, pc_committer := share_schedule ls (pc_committer pc),
              pc_ancestor_state_manager := set_propagation_scores (pc_ancestor_state_manager pc)
                (lst_reputation_scores (ls_swap_table ls))\<rparr>\<rparr>;
          n \<leftarrow> commits_until_leader_schedule_update ls d;
          Some (n, core)
        } else Some (commits_until_update, core));
     if commits_until_update = 0 then None else Some (commits_until_update, core)
   }"

text \<open>
  One iteration of \<^verbatim>\<open>try_commit\<close>: the state, the certified commits left over and the new sub-DAGs; \<open>None\<close> in
  their place ends the loop.
\<close>

definition commit_iteration ::
  "('kp, 'sig) core_env \<Rightarrow> core_state \<Rightarrow> certified_commit list \<Rightarrow>
   (core_state \<times> certified_commit list \<times> committed_sub_dag list option) option" where
  "commit_iteration env core certified_commits = do {
     (commits_until_update, core) \<leftarrow> refresh_schedule env core;
     (selected, certified_commits) \<leftarrow> try_select_certified_leaders certified_commits commits_until_update;
     (_, d, bm) \<leftarrow> try_accept_committed_blocks (en_now env) (co_dag core) (co_block_manager core)
       (concat (map (\<lambda>(_, c). cc_blocks c) selected));
     let core = (set_dag d core)\<lparr>co_block_manager := bm\<rparr>;
     (decided_leaders, local) \<leftarrow>
       (if selected = []
        then map_option (\<lambda>ls. (take commits_until_update ls, True))
               (try_decide (en_rand env) (pc_committer (co_proposer core)) d (co_last_decided_leader core))
        else Some (map fst selected, False));
     if decided_leaders = [] then Some (core, certified_commits, None)
     else do {
       let core = core\<lparr>co_last_decided_leader := decided_slot (last decided_leaders)\<rparr>;
       let sequenced_leaders = List.map_filter into_committed_block decided_leaders;
       if sequenced_leaders = [] then Some (core, certified_commits, None)
       else do {
         (sub_dags, core) \<leftarrow> observer_handle_commit env core sequenced_leaders local;
         (d, bm) \<leftarrow> try_unsuspend_blocks_for_latest_gc_round (en_now env) (co_dag core) (co_block_manager core);
         Some ((set_dag d core)\<lparr>co_block_manager := bm\<rparr>, certified_commits, Some sub_dags)
       }
     }
   }"

partial_function (option) commit_loop ::
  "('kp, 'sig) core_env \<Rightarrow> core_state \<Rightarrow> certified_commit list \<Rightarrow> committed_sub_dag list \<Rightarrow>
   (committed_sub_dag list \<times> core_state) option" where
  "commit_loop env core certified_commits committed =
     (case commit_iteration env core certified_commits of
        None \<Rightarrow> None
      | Some (core, certified_commits, None) \<Rightarrow> Some (committed, core)
      | Some (core, certified_commits, Some sub_dags) \<Rightarrow> commit_loop env core certified_commits (committed @ sub_dags))"

definition check_certified ::
  "committed_sub_dag \<Rightarrow> (CommitIndex, commit_ref) btree_map \<Rightarrow> (CommitIndex, commit_ref) btree_map option" where
  "check_certified sub_dag m =
     (case btm_get m (cr_index (csd_commit_ref sub_dag)) of
        None \<Rightarrow> Some m
      | Some commit_ref \<Rightarrow>
          if commit_ref = csd_commit_ref sub_dag then Some (btm_remove (cr_index (csd_commit_ref sub_dag)) m) else None)"

definition try_commit ::
  "('kp, 'sig) core_env \<Rightarrow> core_state \<Rightarrow> certified_commit list \<Rightarrow> (committed_sub_dag list \<times> core_state) option" where
  "try_commit env core certified_commits = do {
     let certified_map = fold (\<lambda>c. btm_insert (tcm_index (cc_commit c)) (trusted_commit_reference (cc_commit c))) certified_commits [];
     (sub_dags, core) \<leftarrow> commit_loop env core certified_commits [];
     _ \<leftarrow> fold_opt check_certified sub_dags certified_map;
     let own = map vb_reference (filter (\<lambda>b. vb_author b = ctx_own_index (co_context core)) (concat (map csd_blocks sub_dags)));
     let (sent, consumer) = notify_own_blocks_status (co_transaction_consumer core) own (gc_round (co_dag core));
     Some (sub_dags, emit (map (\<lambda>(s, st). StatusOf s st) sent) (core\<lparr>co_transaction_consumer := consumer\<rparr>))
   }"

subsection \<open>Proposing\<close>

text \<open>
  The lag percentage is a quotient of two \<^verbatim>\<open>u32\<close> as \<^verbatim>\<open>f64\<close>.  The comparison with ten percent is exact: one tenth
  times 100 rounds to 10, and another quotient differs from one tenth by more than the rounding error.
\<close>

definition lagging :: "CommitIndex \<Rightarrow> CommitIndex \<Rightarrow> bool" where
  "lagging local_commit_index quorum_index =
     (let lag = quorum_index - local_commit_index
      in lag > 100 \<or> 10 * lag > quorum_index)"

definition is_cold_start :: "CommitIndex \<Rightarrow> CommitIndex \<Rightarrow> bool" where
  "is_cold_start local_commit_index quorum_index \<longleftrightarrow> local_commit_index = 0 \<and> quorum_index > 200"

definition should_propose :: "('kp, 'sig) core_env \<Rightarrow> core_state \<Rightarrow> bool" where
  "should_propose env core =
     (let clock = clock_round (co_dag core);
          local_commit_index = last_commit_index (co_dag core);
          quorum_index = en_quorum_commit_index env;
          cold_start = is_cold_start local_commit_index quorum_index
      in if clock > 1 \<and> \<not> co_quorum_ready core then False
         else if \<not> cold_start \<and> lagging local_commit_index quorum_index then False
         else if \<not> cold_start \<and> co_propagation_delay core > en_propagation_delay_stop_proposal_threshold env then False
         else case co_last_known_proposed_round core of
           None \<Rightarrow> cold_start
         | Some last_known \<Rightarrow> cold_start \<or> \<not> clock \<le> last_known)"

text \<open>The conditions of a proposal that is not forced: the leaders are there and the delay is over.\<close>

definition proposal_due :: "('kp, 'sig) core_env \<Rightarrow> core_state \<Rightarrow> Round \<Rightarrow> bool option" where
  "proposal_due env core quorum_round = do {
     exist \<leftarrow> leaders_exist (en_rand env) (co_proposer core) quorum_round;
     if \<not> exist then Some False
     else do {
       last \<leftarrow> last_proposed_timestamp_ms (co_proposer core);
       Some (\<not> en_timestamp_utc_ms env - last < en_min_round_delay env)
     }
   }"

definition include_ancestor :: "verified_block \<Rightarrow> block_ref option list \<Rightarrow> block_ref option list option" where
  "include_ancestor ancestor refs = vec_set refs (vb_author ancestor) (Some (vb_reference ancestor))"

definition link_ancestors ::
  "verified_block \<Rightarrow> block_ref list \<times> dag_state \<Rightarrow> (block_ref list \<times> dag_state) option" where
  "link_ancestors ancestor = (\<lambda>(refs, d).
     map_option (\<lambda>(linked, d). (refs @ linked, d)) (link_causal_history d (vb_reference ancestor)))"

definition proposed_transaction_votes ::
  "core_state \<Rightarrow> verified_block list \<Rightarrow> dag_state \<Rightarrow> (block_transaction_votes list \<times> dag_state) option" where
  "proposed_transaction_votes core ancestors d =
     (if ctx_mysticeti_fastpath (co_context core) then do {
        (history, d) \<leftarrow> fold_opt link_ancestors ancestors ([], d);
        votes \<leftarrow> get_own_votes (co_transaction_certifier core) history;
        Some (votes, d)
      } else Some ([], d))"

definition proposed_block ::
  "('kp, 'sig) core_env \<Rightarrow> consensus_context \<Rightarrow> Round \<Rightarrow> block_ref list \<Rightarrow> bytes list \<Rightarrow> commit_ref list \<Rightarrow>
   block_transaction_votes list \<Rightarrow> block" where
  "proposed_block env ctx clock ancestors transactions commit_votes transaction_votes =
     set_epoch_change_votes (snd (en_epoch_change_data env))
       (set_epoch_change_proposal (fst (en_epoch_change_data env))
         (if ctx_mysticeti_fastpath ctx
          then V2 \<lparr>b2_epoch = c_epoch (ctx_committee ctx), b2_round = clock, b2_author = ctx_own_index ctx,
                   b2_timestamp_ms = en_timestamp_utc_ms env, b2_ancestors = ancestors, b2_transactions = transactions,
                   b2_transaction_votes = transaction_votes, b2_commit_votes = commit_votes,
                   b2_misbehavior_reports = [], b2_epoch_change_proposal = None, b2_epoch_change_votes = []\<rparr>
          else V1 \<lparr>b1_epoch = c_epoch (ctx_committee ctx), b1_round = clock, b1_author = ctx_own_index ctx,
                   b1_timestamp_ms = en_timestamp_utc_ms env, b1_ancestors = ancestors, b1_transactions = transactions,
                   b1_commit_votes = commit_votes,
                   b1_misbehavior_reports = [], b1_epoch_change_proposal = None, b1_epoch_change_votes = []\<rparr>))"

definition sign_block :: "('kp, 'sig) core_env \<Rightarrow> block \<Rightarrow> verified_block option" where
  "sign_block env b =
     (case signed_block_new (en_crypto env) b (en_block_signer env) of
        Inl e \<Rightarrow> None
      | Inr sb \<Rightarrow> map_option (verified_block_new (en_block_hash env) sb) (en_block_bytes env sb))"

text \<open>The end of \<^verbatim>\<open>try_new_block\<close>: the new block is accepted, voted on, persisted and acknowledged.\<close>

definition accept_own_block ::
  "('kp, 'sig) core_env \<Rightarrow> core_state \<Rightarrow> verified_block \<Rightarrow> block_ref list \<Rightarrow> (nat \<times> TransactionIndex list) list \<Rightarrow>
   core_state option" where
  "accept_own_block env core block excluded_ancestors acks = do {
     (accepted, missing, d, bm) \<leftarrow> try_accept_blocks (en_now env) (co_dag core) (co_block_manager core) [block];
     if length accepted \<noteq> 1 \<or> missing \<noteq> [] then None
     else do {
       (certified, cs, d) \<leftarrow> (if ctx_mysticeti_fastpath (co_context core) then do {
           (certified, cs) \<leftarrow> add_voted_blocks (co_transaction_certifier core) [(block, [])];
           (_, d) \<leftarrow> link_causal_history d (vb_reference block);
           Some (certified, cs, d)
         } else Some ([], co_transaction_certifier core, d));
       d \<leftarrow> flush d;
       let (sent, consumer) = ack_transactions acks (vb_reference block) (co_transaction_consumer core);
       tracker \<leftarrow> update_from_verified_block (pc_round_tracker (co_proposer core)) block excluded_ancestors;
       let pc = (co_proposer core)\<lparr>pc_dag_state := d, pc_round_tracker := tracker\<rparr>;
       Some (emit ((if certified = [] then [] else [CertifiedBlocks certified]) @ map (\<lambda>(a, r, is). Included a r is) sent)
         (core\<lparr>co_proposer := pc, co_block_manager := bm, co_transaction_certifier := cs,
               co_transaction_consumer := consumer\<rparr>))
     }
   }"

definition assemble_block ::
  "('kp, 'sig) core_env \<Rightarrow> core_state \<Rightarrow> Round \<Rightarrow> verified_block list \<Rightarrow>
   (verified_block \<times> (nat \<times> TransactionIndex list) list \<times> core_state) option" where
  "assemble_block env core clock ancestors = do {
     let ctx = co_context core;
     let ((transactions, acks, _), consumer) = next_transactions (co_transaction_consumer core);
     is_leader \<leftarrow> (case en_system_transaction_provider env of
         None \<Rightarrow> Some False
       | Some _ \<Rightarrow> map_option (\<lambda>l. l = ctx_own_index ctx) (first_leader (en_rand env) (co_proposer core) clock));
     let transactions = inject_system_transactions (en_system_transaction_provider env) is_leader
       (c_epoch (ctx_committee ctx)) (last_commit_index (co_dag core)) transactions;
     let (commit_votes, d) = take_commit_votes (co_dag core) MAX_COMMIT_VOTES_PER_BLOCK;
     (transaction_votes, d) \<leftarrow> proposed_transaction_votes core ancestors d;
     block \<leftarrow> sign_block env (proposed_block env ctx clock (map vb_reference ancestors) transactions commit_votes transaction_votes);
     Some (block, acks, (set_dag d core)\<lparr>co_transaction_consumer := consumer\<rparr>)
   }"

definition try_new_block ::
  "('kp, 'sig) core_env \<Rightarrow> core_state \<Rightarrow> bool \<Rightarrow> ((verified_block \<times> block_ref list) option \<times> core_state) option" where
  "try_new_block env core force = do {
     let c = ctx_committee (co_context core);
     let clock = clock_round (co_dag core);
     last \<leftarrow> last_proposed_block (co_proposer core);
     if clock \<le> vb_round last then Some (None, core)
     else do {
       due \<leftarrow> (if force then Some True else proposal_due env core (clock - 1));
       if \<not> due then Some (None, core)
       else do {
         ((ancestors, excluded_ancestors), pc) \<leftarrow> smart_ancestors_to_propose (co_proposer core) clock (\<not> force);
         if ancestors = [] then if force then None else Some (None, core\<lparr>co_proposer := pc\<rparr>)
         else do {
           let excluded_ancestors = take (2 * committee_size c) excluded_ancestors;
           included \<leftarrow> fold_opt include_ancestor ancestors (pc_last_included_ancestors pc);
           let core = core\<lparr>co_proposer := pc\<lparr>pc_last_included_ancestors := included\<rparr>\<rparr>;
           leader \<leftarrow> first_leader (en_rand env) (co_proposer core) (clock - 1);
           _ \<leftarrow> committee_authority c leader;
           _ \<leftarrow> map_opt (\<lambda>a. committee_authority c (vb_author a)) ancestors;
           (block, acks, core) \<leftarrow> assemble_block env core clock ancestors;
           core \<leftarrow> accept_own_block env core block excluded_ancestors acks;
           Some (Some (block, excluded_ancestors), core)
         }
       }
     }
   }"

definition try_propose ::
  "('kp, 'sig) core_env \<Rightarrow> core_state \<Rightarrow> bool \<Rightarrow> (verified_block option \<times> core_state) option" where
  "try_propose env core force =
     (if \<not> should_propose env core then Some (None, core)
      else do {
        (proposed, core) \<leftarrow> try_new_block env core force;
        case proposed of
          None \<Rightarrow> Some (None, core)
        | Some (block, excluded_ancestors) \<Rightarrow> do {
            (_, core) \<leftarrow> try_commit env (signal_new_block block excluded_ancestors core) [];
            Some (Some block, core)
          }
      })"

definition new_block ::
  "('kp, 'sig) core_env \<Rightarrow> core_state \<Rightarrow> Round \<Rightarrow> bool \<Rightarrow> (verified_block option \<times> core_state) option" where
  "new_block env core round force = do {
     last \<leftarrow> last_proposed_round (co_proposer core);
     if last < round
     then map_option (\<lambda>(block, core). (block, try_signal_new_round core)) (try_propose env core force)
     else Some (None, core)
   }"

subsection \<open>Blocks and commits from peers\<close>

definition add_blocks ::
  "('kp, 'sig) core_env \<Rightarrow> core_state \<Rightarrow> verified_block list \<Rightarrow> (block_ref btree_set \<times> core_state) option" where
  "add_blocks env core blocks = do {
     (accepted, missing, d, bm) \<leftarrow> try_accept_blocks (en_now env) (co_dag core) (co_block_manager core) blocks;
     let core = (set_dag d core)\<lparr>co_block_manager := bm\<rparr>;
     if accepted = [] then Some (missing, core)
     else do {
       (_, core) \<leftarrow> try_commit env core [];
       (_, core) \<leftarrow> try_propose env core False;
       Some (missing, try_signal_new_round core)
     }
   }"

definition add_certified_commits ::
  "('kp, 'sig) core_env \<Rightarrow> core_state \<Rightarrow> certified_commit list \<Rightarrow> verified_block list \<Rightarrow>
   (block_ref btree_set \<times> core_state) option" where
  "add_certified_commits env core certified_commits votes = do {
     commits \<leftarrow> (case filter_new_commits (co_dag core) certified_commits of Inl _ \<Rightarrow> None | Inr cs \<Rightarrow> Some cs);
     (_, missing, d, bm) \<leftarrow> try_accept_blocks (en_now env) (co_dag core) (co_block_manager core) votes;
     (_, core) \<leftarrow> try_commit env ((set_dag d core)\<lparr>co_block_manager := bm\<rparr>) commits;
     (_, core) \<leftarrow> try_propose env core False;
     Some (missing, try_signal_new_round core)
   }"

definition check_block_refs :: "core_state \<Rightarrow> block_ref list \<Rightarrow> (block_ref btree_set \<times> core_state) option" where
  "check_block_refs core block_refs =
     map_option (\<lambda>(missing, bm). (missing, core\<lparr>co_block_manager := bm\<rparr>))
       (try_find_blocks (co_dag core) (co_block_manager core) block_refs)"

definition get_missing_blocks :: "core_state \<Rightarrow> block_ref btree_set" where
  "get_missing_blocks core = bm_missing (co_block_manager core)"

definition set_propagation_delay :: "Round \<Rightarrow> core_state \<Rightarrow> core_state" where
  "set_propagation_delay delay core = core\<lparr>co_propagation_delay := delay\<rparr>"

definition set_last_known_proposed_round :: "Round \<Rightarrow> core_state \<Rightarrow> core_state" where
  "set_last_known_proposed_round round core =
     (if co_last_known_proposed_round core \<noteq> None then core else core\<lparr>co_last_known_proposed_round := Some round\<rparr>)"

subsection \<open>Start\<close>

definition recover_core :: "('kp, 'sig) core_env \<Rightarrow> core_state \<Rightarrow> core_state option" where
  "recover_core env core = do {
     (_, core) \<leftarrow> try_commit env core [];
     (proposed, core) \<leftarrow> try_propose env core True;
     core \<leftarrow> (case proposed of
         Some _ \<Rightarrow> Some core
       | None \<Rightarrow> do {
           last \<leftarrow> last_proposed_block (co_proposer core);
           if should_propose env core \<and> \<not> vb_round last > GENESIS_ROUND then None
           else Some (signal_new_block last [] core)
         });
     Some (try_signal_new_round core)
   }"

definition core_new ::
  "('kp, 'sig) core_env \<Rightarrow> consensus_context \<Rightarrow> leader_schedule \<Rightarrow> transaction_consumer \<Rightarrow> certifier_state \<Rightarrow>
   block_manager \<Rightarrow> linearizer \<Rightarrow> dag_state \<Rightarrow> bool \<Rightarrow> peer_round_tracker \<Rightarrow> bool \<Rightarrow> core_state option" where
  "core_new env ctx schedule consumer certifier bm lin d sync_last_known_own_block tracker quorum_ready = do {
     last_decided_leader \<leftarrow> last_commit_leader d;
     let number_of_leaders = (case ctx_mysticeti_num_leaders_per_round ctx of Some n \<Rightarrow> n | None \<Rightarrow> 1);
     let committer = universal_committer_build (with_pipeline True
       (with_number_of_leaders number_of_leaders (universal_committer_builder_new ctx schedule)));
     last \<leftarrow> get_last_proposed_block d;
     included \<leftarrow> fold_opt (\<lambda>a refs. vec_set refs (br_author a) (Some a)) (vb_ancestors last)
       (replicate (committee_size (ctx_committee ctx)) None);
     recover_core env
       \<lparr>co_proposer = \<lparr>pc_context = ctx, pc_dag_state = d, pc_last_included_ancestors = included,
          pc_ancestor_state_manager = set_propagation_scores (ancestor_state_manager_new ctx)
            (lst_reputation_scores (ls_swap_table schedule)),
          pc_round_tracker = tracker, pc_committer = committer\<rparr>,
        co_transaction_consumer = consumer, co_transaction_certifier = certifier, co_block_manager = bm,
        co_propagation_delay = 0, co_last_signaled_round = vb_round last, co_last_decided_leader = last_decided_leader,
        co_leader_schedule = schedule, co_commit_interpreter = lin,
        co_last_known_proposed_round = (if sync_last_known_own_block then None else Some 0),
        co_quorum_ready = quorum_ready, co_output = []\<rparr>
   }"

end
