(* ===== verification/Core_Properties.thy ===== *)
theory Core_Properties
  imports Core
begin

section \<open>Properties of the core\<close>

text \<open>A block the core proposes passes the verifier of every correct peer, and has a round above all own blocks.\<close>

lemma proposed_block_sel [simp]:
  "block_epoch (proposed_block env ctx clock as ts cvs tvs) = c_epoch (ctx_committee ctx)"
  "block_round (proposed_block env ctx clock as ts cvs tvs) = clock"
  "block_author (proposed_block env ctx clock as ts cvs tvs) = ctx_own_index ctx"
  "block_ancestors (proposed_block env ctx clock as ts cvs tvs) = as"
  "block_transactions (proposed_block env ctx clock as ts cvs tvs) = ts"
  by (simp_all add: proposed_block_def)

lemma sign_block_Some:
  assumes "sign_block env b = Some vb"
    and "\<And>m. cy_verify (en_crypto env) (au_protocol_key (c_authorities (ctx_committee ctx) ! block_author b)) m
           (cy_sign (en_crypto env) (en_block_signer env) m) = Inr ()"
    and "\<And>s. cy_from_bytes (en_crypto env) (cy_to_bytes (en_crypto env) s) = Inr s"
    and "block_author b < committee_size (ctx_committee ctx)"
  shows "sb_inner (vb_block vb) = b \<and> verify_signature (en_crypto env) ctx (vb_block vb) = Some (Inr ())"
  using sign_verify_roundtrip [OF assms(2-4)] assms(1)
  by (auto simp: sign_block_def verified_block_new_def split: sum.splits)

text \<open>The stages of a proposal.\<close>

lemma try_new_block_stages:
  assumes "try_new_block env core force = Some (Some (block, exc), core')"
  obtains last ancestors exc' pc included core1 acks where
    "last_proposed_block (co_proposer core) = Some last" "vb_round last < clock_round (co_dag core)"
    "smart_ancestors_to_propose (co_proposer core) (clock_round (co_dag core)) (\<not> force) = Some ((ancestors, exc'), pc)"
    "ancestors \<noteq> []"
    "assemble_block env (core\<lparr>co_proposer := pc\<lparr>pc_last_included_ancestors := included\<rparr>\<rparr>) (clock_round (co_dag core)) ancestors
       = Some (block, acks, core1)"
    "accept_own_block env core1 block exc acks = Some core'"
  using assms by (auto simp: try_new_block_def Let_def not_le split: bind_splits if_splits prod.splits)

lemma assemble_block_Some:
  assumes "assemble_block env core clock ancestors = Some (block, acks, core1)" "en_system_transaction_provider env = None"
  obtains ts limit consumer commit_votes transaction_votes where
    "next_transactions (co_transaction_consumer core) = ((ts, acks, limit), consumer)"
    "sign_block env (proposed_block env (co_context core) clock (map vb_reference ancestors) ts commit_votes transaction_votes) = Some block"
  using assms by (auto simp: assemble_block_def Let_def inject_system_transactions_def split: bind_splits prod.splits)

lemma smart_ancestors_context:
  "smart_ancestors_to_propose pc clock smart = Some (res, pc') \<Longrightarrow> pc_context pc' = pc_context pc"
  by (auto simp: smart_ancestors_to_propose_def Let_def split: bind_splits if_splits prod.splits)

lemma sign_block_inner: "sign_block env b = Some vb \<Longrightarrow> sb_inner (vb_block vb) = b"
  by (auto simp: sign_block_def signed_block_new_def verified_block_new_def and_then_Inr split: sum.splits bind_splits)

lemma try_new_block_round:
  assumes "try_new_block env core force = Some (Some (block, exc), core')"
  shows "vb_round block = clock_round (co_dag core)"
proof -
  obtain ancestors core1 acks core2 where "assemble_block env core1 (clock_round (co_dag core)) ancestors = Some (block, acks, core2)"
    using try_new_block_stages [OF assms] by metis
  then show ?thesis
    by (auto simp: assemble_block_def Let_def vb_round_def dest!: sign_block_inner split: bind_splits prod.splits)
qed

text \<open>No step of a proposal reads or changes the last known proposed round.\<close>

lemma map_option_bind: "map_option f (Option.bind m g) = Option.bind m (\<lambda>x. map_option f (g x))"
  by (cases m) simp_all

lemma bind_map_option: "Option.bind (map_option f m) g = Option.bind m (\<lambda>x. g (f x))"
  by (cases m) simp_all

lemmas option_push = map_option_bind bind_map_option prod.case_distrib [of "map_option f" for f] if_distrib [of "map_option f" for f]
  case_prod_beta case_prod_unfold

lemma known_round_last:
  "core\<lparr>co_last_known_proposed_round := k, co_proposer := pc\<rparr> = core\<lparr>co_proposer := pc, co_last_known_proposed_round := k\<rparr>"
  "core\<lparr>co_last_known_proposed_round := k, co_transaction_consumer := c\<rparr> = core\<lparr>co_transaction_consumer := c, co_last_known_proposed_round := k\<rparr>"
  "core\<lparr>co_last_known_proposed_round := k, co_transaction_certifier := cs\<rparr> = core\<lparr>co_transaction_certifier := cs, co_last_known_proposed_round := k\<rparr>"
  "core\<lparr>co_last_known_proposed_round := k, co_block_manager := bm\<rparr> = core\<lparr>co_block_manager := bm, co_last_known_proposed_round := k\<rparr>"
  "core\<lparr>co_last_known_proposed_round := k, co_output := out\<rparr> = core\<lparr>co_output := out, co_last_known_proposed_round := k\<rparr>"
  by simp_all

lemma assemble_block_known_round:
  "assemble_block env (core\<lparr>co_last_known_proposed_round := k\<rparr>) clock ancestors =
     map_option (\<lambda>(block, acks, core). (block, acks, core\<lparr>co_last_known_proposed_round := k\<rparr>)) (assemble_block env core clock ancestors)"
  by (simp add: assemble_block_def Let_def set_dag_def proposed_transaction_votes_def option_push known_round_last cong: if_cong option.case_cong)

lemma accept_own_block_known_round:
  "accept_own_block env (core\<lparr>co_last_known_proposed_round := k\<rparr>) block exc acks =
     map_option (\<lambda>core. core\<lparr>co_last_known_proposed_round := k\<rparr>) (accept_own_block env core block exc acks)"
  by (simp add: accept_own_block_def Let_def emit_def option_push known_round_last cong: if_cong)

lemma try_new_block_known_round:
  "try_new_block env (core\<lparr>co_last_known_proposed_round := k\<rparr>) force =
     map_option (\<lambda>(proposed, core). (proposed, core\<lparr>co_last_known_proposed_round := k\<rparr>)) (try_new_block env core force)"
proof -
  have due: "proposal_due env (core\<lparr>co_last_known_proposed_round := k\<rparr>) r = proposal_due env core r" for r
    by (simp add: proposal_due_def cong: if_cong)
  show ?thesis
    by (simp add: try_new_block_def Let_def due known_round_last assemble_block_known_round accept_own_block_known_round
        option_push cong: if_cong)
qed

text \<open>C12: What a node proposes, its peers accept.  The core is consistent (its DAG state satisfies its invariant, with the
  genesis blocks of all authorities, and the pool was filled through clients), no system transactions
  are injected, and signatures verify with the key of the own authority.  When the core proposes a
  block, its round is the round of the threshold clock, above every earlier own block, and the block
  passes \<^verbatim>\<open>verify_block\<close> of every verifier with the same committee, limits and genesis blocks.\<close>

theorem proposed_block_verified:
  assumes inv: "dag_inv (co_dag core)" and gen: "genesis_complete (co_dag core)" and ctx: "ds_context (co_dag core) = co_context core"
    and pool: "pool_reachable limits (co_transaction_consumer core)"
      "max_transactions_in_block_bytes limits < 2 ^ 63" "max_transaction_size_bytes limits < 2 ^ 63"
    and sys: "en_system_transaction_provider env = None"
    and key: "\<And>m. cy_verify (en_crypto env) (au_protocol_key (c_authorities (ctx_committee (co_context core)) ! ctx_own_index (co_context core))) m
           (cy_sign (en_crypto env) (en_block_signer env) m) = Inr ()"
    and codec: "\<And>s. cy_from_bytes (en_crypto env) (cy_to_bytes (en_crypto env) s) = Inr s"
    and v: "ctx_committee (sv_context v) = ctx_committee (co_context core)" "sv_crypto v = en_crypto env" "sv_limits v = limits"
      "sv_genesis v = btm_keys (ds_genesis (co_dag core))"
    and own: "ctx_own_index (co_context core) < committee_size (ctx_committee (co_context core))"
    and run: "try_new_block env core force = Some (Some (block, exc), core')"
  shows "vb_round block = clock_round (co_dag core) \<and> vb_author block = ctx_own_index (co_context core) \<and>
     (\<exists>last. get_last_proposed_block (co_dag core) = Some last \<and> vb_round last < vb_round block \<and>
        hd (vb_ancestors block) = vb_reference last) \<and>
     verify_block v (vb_block block) = Some (Inr ())"
proof -
  let ?c = "ctx_committee (co_context core)" and ?clock = "clock_round (co_dag core)"
  obtain last ancestors exc' pc included core1 acks where s:
      "last_proposed_block (co_proposer core) = Some last" "vb_round last < ?clock"
      "smart_ancestors_to_propose (co_proposer core) ?clock (\<not> force) = Some ((ancestors, exc'), pc)" "ancestors \<noteq> []"
      "assemble_block env (core\<lparr>co_proposer := pc\<lparr>pc_last_included_ancestors := included\<rparr>\<rparr>) ?clock ancestors = Some (block, acks, core1)"
    by (rule try_new_block_stages [OF run])
  have last: "get_last_proposed_block (co_dag core) = Some last" using s(1) by (simp add: last_proposed_block_def)
  let ?core = "core\<lparr>co_proposer := pc\<lparr>pc_last_included_ancestors := included\<rparr>\<rparr>"
  have same: "co_transaction_consumer ?core = co_transaction_consumer core" "co_context ?core = co_context core"
    using smart_ancestors_context [OF s(3)] by simp_all
  obtain ts limit consumer cvs tvs where a: "next_transactions (co_transaction_consumer core) = ((ts, acks, limit), consumer)"
      "sign_block env (proposed_block env (co_context core) ?clock (map vb_reference ancestors) ts cvs tvs) = Some block"
    by (rule assemble_block_Some [OF s(5) sys, unfolded same])
  have "block_author (proposed_block env (co_context core) ?clock (map vb_reference ancestors) ts cvs tvs) < committee_size (ctx_committee (sv_context v))"
    using own v(1) by simp
  then have b: "sb_inner (vb_block block) = proposed_block env (co_context core) ?clock (map vb_reference ancestors) ts cvs tvs"
      "verify_signature (sv_crypto v) (sv_context v) (vb_block block) = Some (Inr ())"
    using sign_block_Some [OF a(2), of "sv_context v"] key codec v by simp_all
  have anc: "hd ancestors = last" "length ancestors \<le> committee_size ?c"
      "\<exists>stake. verify_ancestors ?c (btm_keys (ds_genesis (co_dag core))) (ctx_own_index (co_context core)) ?clock 0 (map vb_reference ancestors)
          (replicate (committee_size ?c) False) 0 = Some (Inr stake) \<and> reached_quorum ?c stake"
    using smart_ancestors_checked [OF inv gen ctx last s(2,3)] s(4) by auto
  have txs: "check_transactions limits ts = Inr ()" by (rule pool_transactions_checked [OF pool a(1)])
  have "verify_block v (vb_block block) = Some (Inr ())"
    using b anc(2,3) txs v s(2,4) own by (auto simp: verify_block_def Let_def is_valid_index_def)
  then show ?thesis using b(1) last s(2,4) anc(1)
    by (simp add: vb_round_def vb_author_def vb_ancestors_def hd_map)
qed

text \<open>C39: when a node may propose.  A proposed block has the round of the threshold clock, beyond round 1 only when the
  quorum is ready.  Outside a cold start its round is above the last known proposed round, which must be known, and the node
  neither lags the quorum commit index by more than 100 commits or ten percent nor exceeds the propagation delay threshold.
  In a cold start (no local commit and a quorum commit index above 200) the last known proposed round has no influence: for
  every value of \<^verbatim>\<open>last_known_proposed_round\<close>, known or not and however high, the node makes the same proposal, although the
  comment on that field says that any proposal should be for a higher round.\<close>

theorem proposal_round_guard:
  assumes "should_propose env core" "try_new_block env core force = Some (Some (block, exc), core')"
  shows "vb_round block = clock_round (co_dag core) \<and> (1 < vb_round block \<longrightarrow> co_quorum_ready core) \<and>
     (if last_commit_index (co_dag core) = 0 \<and> 200 < en_quorum_commit_index env
      then \<forall>known. should_propose env (core\<lparr>co_last_known_proposed_round := known\<rparr>) \<and>
        (\<exists>core''. try_new_block env (core\<lparr>co_last_known_proposed_round := known\<rparr>) force = Some (Some (block, exc), core''))
      else (\<exists>known. co_last_known_proposed_round core = Some known \<and> known < vb_round block) \<and>
        en_quorum_commit_index env - last_commit_index (co_dag core) \<le> 100 \<and>
        10 * (en_quorum_commit_index env - last_commit_index (co_dag core)) \<le> en_quorum_commit_index env \<and>
        co_propagation_delay core \<le> en_propagation_delay_stop_proposal_threshold env)"
  using assms try_new_block_round [OF assms(2)]
  by (auto simp: should_propose_def is_cold_start_def lagging_def Let_def try_new_block_known_round not_less split: if_splits option.splits)

lemma verify_block_too_many:
  assumes "0 < max_num_transactions_in_block (sv_limits v)"
    and "max_num_transactions_in_block (sv_limits v) < length (block_transactions (sb_inner sb))"
  shows "verify_block v sb \<noteq> Some (Inr ())"
proof -
  have "check_transactions (sv_limits v) (block_transactions (sb_inner sb)) \<noteq> Inr ()"
    using assms by (simp add: check_transactions_def and_then_Inr Let_def)
  then show ?thesis by (auto simp: verify_block_def Let_def split: bind_splits if_splits sum.splits)
qed

lemma assemble_block_injected:
  assumes "assemble_block env core clock ancestors = Some (block, acks, core')"
    and "first_leader (en_rand env) (co_proposer core) clock = Some (ctx_own_index (co_context core))"
    and "en_system_transaction_provider env = Some get_system_transactions"
    and "get_system_transactions (c_epoch (ctx_committee (co_context core))) (last_commit_index (co_dag core)) = Some txs"
  obtains ts limit consumer where "next_transactions (co_transaction_consumer core) = ((ts, acks, limit), consumer)"
    "block_transactions (sb_inner (vb_block block)) = List.map_filter (\<lambda>t. t) txs @ ts"
  using assms by (auto simp: assemble_block_def Let_def inject_system_transactions_def dest!: sign_block_inner split: bind_splits prod.splits)

text \<open>C40: system transactions and the pool.  The node leads the round and its provider returns system transactions, of
  which \<open>sys\<close> are those that could be serialised.  The assembled block carries them before the pulled transactions, which alone
  pass the transaction checks.  The transactions of a submission are at the acknowledged indices plus the number of
  system transactions, and an acknowledged index below that number names a system transaction.  When both together exceed
  the limit on the number of transactions, as whenever the pool filled the block to that limit and \<open>sys\<close> is not empty,
  \<^verbatim>\<open>verify_block\<close> of every verifier with these limits refuses the block.\<close>

theorem system_transactions_shift:
  assumes pool: "pool_reachable limits (co_transaction_consumer core)"
      "max_transactions_in_block_bytes limits < 2 ^ 63" "max_transaction_size_bytes limits < 2 ^ 63"
    and run: "assemble_block env core clock ancestors = Some (block, acks, core')"
    and lead: "first_leader (en_rand env) (co_proposer core) clock = Some (ctx_own_index (co_context core))"
    and provider: "en_system_transaction_provider env = Some get_system_transactions"
      "get_system_transactions (c_epoch (ctx_committee (co_context core))) (last_commit_index (co_dag core)) = Some txs"
    and sys: "sys = List.map_filter (\<lambda>t. t) txs"
  shows "\<exists>taken rest. submissions (co_transaction_consumer core) = taken @ rest \<and> length acks = length taken \<and>
     block_transactions (sb_inner (vb_block block)) = sys @ contents taken \<and> check_transactions limits (contents taken) = Inr () \<and>
     (\<forall>i < length taken. tg_transactions (taken ! i) \<noteq> [] \<longrightarrow>
        map (\<lambda>j. block_transactions (sb_inner (vb_block block)) ! (length sys + j)) (snd (acks ! i)) = tg_transactions (taken ! i) \<and>
        (\<forall>j \<in> set (snd (acks ! i)). j < length sys \<longrightarrow> block_transactions (sb_inner (vb_block block)) ! j = sys ! j)) \<and>
     (0 < max_num_transactions_in_block limits \<and> max_num_transactions_in_block limits < length sys + length (contents taken) \<longrightarrow>
        (\<forall>v. sv_limits v = limits \<longrightarrow> verify_block v (vb_block block) \<noteq> Some (Inr ())))"
proof -
  obtain ts limit consumer where n: "next_transactions (co_transaction_consumer core) = ((ts, acks, limit), consumer)"
      "block_transactions (sb_inner (vb_block block)) = sys @ ts"
    unfolding sys by (rule assemble_block_injected [OF run lead provider])
  obtain taken rest where t: "submissions (co_transaction_consumer core) = taken @ rest" "ts = contents taken" "acks = indices_from 0 taken"
    by (rule pool_takes [OF pool n(1)])
  have len: "length acks = length taken" unfolding t(3) by (rule indices_from_length)
  have at: "map (\<lambda>j. (sys @ contents taken) ! (length sys + j)) (snd (acks ! i)) = tg_transactions (taken ! i)"
    if "i < length taken" "tg_transactions (taken ! i) \<noteq> []" for i
    using acked_positions [OF that(1)] that(2) by (simp add: t(3))
  have refused: "verify_block v (vb_block block) \<noteq> Some (Inr ())"
    if "0 < max_num_transactions_in_block limits" "max_num_transactions_in_block limits < length sys + length (contents taken)"
      "sv_limits v = limits" for v :: "('c, 'd) signed_block_verifier"
    by (rule verify_block_too_many) (use that n(2) in \<open>simp_all add: t(2)\<close>)
  show ?thesis
    unfolding n(2) by (rule exI [of _ taken], rule exI [of _ rest])
      (use t(1,2) len at refused pool_transactions_checked [OF pool n(1)] in \<open>auto simp: nth_append\<close>)
qed

end
