(* ===== verification/Example_Core.thy ===== *)
theory Example_Core
  imports Core_Properties Block_Manager_Properties Example_Dag
begin

section \<open>A concrete proposal\<close>

text \<open>Authority 0 of the committee of four proposes its first block on top of the genesis blocks; it is the block \<open>(1, 0)\<close>
  of the grid of \<open>Example_Dag\<close>.\<close>

definition crypto1 :: "(unit, unit) block_crypto" where
  "crypto1 = \<lparr>cy_block_bytes = \<lambda>_. Inr [], cy_hash = \<lambda>_. 7, cy_intent_bytes = \<lambda>_. Inr [],
     cy_sign = \<lambda>_ _. (), cy_to_bytes = \<lambda>_. [], cy_from_bytes = \<lambda>_. Inr (), cy_verify = \<lambda>_ _ _. Inr ()\<rparr>"

definition env1 :: "CommitIndex \<Rightarrow> (unit, unit) core_env" where
  "env1 n = \<lparr>en_rand = rand_first, en_crypto = crypto1, en_block_signer = (), en_block_bytes = \<lambda>_. Some [], en_block_hash = \<lambda>_. 7,
     en_commit_bytes = \<lambda>_. Some [], en_commit_hash = \<lambda>_. 9, en_timestamp_utc_ms = 1001, en_now = 5, en_quorum_commit_index = n,
     en_min_round_delay = 0, en_propagation_delay_stop_proposal_threshold = 20, en_system_transaction_provider = None,
     en_epoch_change_data = (None, [])\<rparr>"

definition core1 :: "Round \<Rightarrow> core_state" where
  "core1 k = \<lparr>co_proposer = core4\<lparr>pc_committer := universal4\<rparr>, co_transaction_consumer = pool0,
     co_transaction_certifier = certifier_state_new context4, co_block_manager = block_manager_new context4,
     co_propagation_delay = 0, co_last_signaled_round = 0, co_last_decided_leader = Slot 0 0,
     co_leader_schedule = schedule4, co_commit_interpreter = linearizer_new context4,
     co_last_known_proposed_round = Some k, co_quorum_ready = True, co_output = []\<rparr>"

definition verifier1 :: "(unit, unit) signed_block_verifier" where
  "verifier1 = \<lparr>sv_context = context4, sv_limits = limits3, sv_crypto = crypto1, sv_genesis = btm_keys (ds_genesis dag4),
     sv_transaction_verifier = \<lparr>tv_verify_batch = \<lambda>_. Inr (), tv_verify_and_vote_batch = \<lambda>_ _. Inr []\<rparr>\<rparr>"

abbreviation genesis4 :: "verified_block list" where
  "genesis4 \<equiv> map (\<lambda>i. example_block 0 i 7 1000 []) [0..<4]"

lemma core1_ancestors:
  "smart_ancestors_to_propose (co_proposer (core1 k)) 1 False = Some ((genesis4, []), co_proposer (core1 k))"
proof -
  have own: "ctx_own_index context4 = 0" "ctx_committee context4 = committee4" by (simp_all add: context4_def)
  have all0: "filter (\<lambda>a. vb_round a = 0) genesis4 = genesis4" by (simp add: filter_id_conv)
  have q: "reached_quorum committee4 4" by (simp add: reached_quorum_def committee4_def)
  show ?thesis
    unfolding smart_ancestors_to_propose_def last_proposed_block_def core1_def core4_def
    by (simp add: Let_def core4_all [simplified] core4_rounds core4_ancestors dag4_last_proposed own core4_selected all0 core4_counted
        reached_threshold_def q)
qed

lemma dag4_clock: "clock_round dag4 = 1"
  by (simp add: dag4_def fresh_dag_state_def threshold_clock_new_def)

lemma core1_leader: "first_leader rand_first (co_proposer (core1 k)\<lparr>pc_last_included_ancestors := l\<rparr>) 0 = Some 0"
  by (simp add: first_leader_def leaders_def get_leaders_def core1_def core4_def universal4_def universal_committer_build_def with_pipeline_def
      universal_committer_builder_new_def base_committer_new_def bc_elect_leader_def upt_rec List.map_filter_def
      wave_number_def elect_leader_def elect_leader_stake_based_def rand_first_def schedule4_def leader_schedule_new_def
      swap_leader_def leader_swap_table_default_def vec_get_def committee_indices_def committee4_def context4_def committee_size_def Let_def leader_round_def u32_add_def u32_mul_def)

lemma grid_block_signed:
  "sign_block (env1 n) (proposed_block (env1 n) context4 1 (map (\<lambda>j. BlockRef 0 j 7) [0..<4]) [] [] []) = Some (grid_block 1 0)"
  by (simp add: sign_block_def signed_block_new_def compute_block_signature_def block_message_def compute_inner_block_digest_def
      proposed_block_def env1_def crypto1_def verified_block_new_def grid_block_def example_block_def context4_def committee4_def)

lemma dag4_contains: "br_author r < 4 \<Longrightarrow> contains_block dag4 r = Some (br_round r = 0 \<and> br_digest r = 7)"
proof -
  assume a: "br_author r < 4"
  obtain d where d: "d = dag4" "grid_upto 0 4 d" using grid_genesis by blast
  have "get_block dag4 r \<noteq> None \<longleftrightarrow> br_round r = 0 \<and> br_digest r = 7"
    using grid_get [OF d(2), of r] a by (cases r) (auto simp: d(1))
  then show ?thesis using contains_block_correct [OF dag4_inv, of r] a by simp
qed

lemma core1_accepted:
  "\<exists>d bm. try_accept_blocks 5 dag4 (block_manager_new context4) [grid_block 1 0] = Some ([grid_block 1 0], [], d, bm) \<and> dag_inv d"
proof -
  obtain d where d: "d = dag4" "grid_upto 0 4 d" using grid_genesis by blast
  have g: "grid_upto 1 0 dag4" using grid_upto_next [OF d(2)] d(1) by simp
  obtain d' where d': "accept_block dag4 (grid_block 1 0) 5 = Some d'" "grid_upto 1 1 d'" using grid_step [OF g, of ] by auto
  have "gc_round dag4 = 0" using g gc_round_no_commit by (simp add: grid_upto_def)
  moreover have "contains_blocks dag4 (map (\<lambda>j. BlockRef 0 j 7) [0..<4]) = Some (replicate 4 True)"
    using dag4_contains by (simp add: contains_blocks_Cons upt_rec replicate4) (simp add: contains_blocks_def)
  moreover have "dag_inv d'" using d'(2) dag_viewD(1) by (simp add: grid_upto_def)
  ultimately show ?thesis using d'(1) dag4_contains [of "BlockRef 1 0 7"]
    by (simp add: try_accept_blocks_def try_accept_blocks_internal_def accept_step_def update_block_received_metrics_def
        block_manager_new_def vec_get_def vec_set_def committee_authority_def committee4_def context4_def try_accept_one_block_def Let_def
        u64_mul_def accept_with_children_def try_unsuspend_children_blocks_def accept_blocks_def bts_remove_def replicate4 upt_rec filter_id_conv committee_size_def)
qed

lemma core1_assembled:
  "assemble_block (env1 n) ((core1 k)\<lparr>co_proposer := (co_proposer (core1 k))\<lparr>pc_last_included_ancestors := l\<rparr>\<rparr>) 1 genesis4
   = Some (grid_block 1 0, [], (core1 k)\<lparr>co_proposer := (co_proposer (core1 k))\<lparr>pc_last_included_ancestors := l\<rparr>\<rparr>)"
proof -
  have n: "next_transactions pool0 = (([], [], AllTransactionsIncluded), pool0)"
    by (simp add: next_transactions_def pull_start_def pool0_def)
  have t: "take_commit_votes dag4 100 = ([], dag4)" by (simp add: take_commit_votes_def dag4_def fresh_dag_state_def)
  have f: "\<not> ctx_mysticeti_fastpath context4" by (simp add: context4_def)
  have refs: "map vb_reference genesis4 = map (\<lambda>j. BlockRef 0 j 7) [0..<4]" by simp
  have env: "en_system_transaction_provider (env1 n) = None" by (simp add: env1_def)
  have core: "co_transaction_consumer (core1 k) = pool0" "pc_context (co_proposer (core1 k)) = context4" "pc_dag_state (co_proposer (core1 k)) = dag4"
    by (simp_all add: core1_def core4_def)
  show ?thesis
    unfolding assemble_block_def Let_def
    by (simp add: n t f env core proposed_transaction_votes_def inject_system_transactions_def grid_block_signed [simplified] set_dag_def comp_def)
qed

lemma core1_proposes: "\<exists>exc core'. try_new_block (env1 n) (core1 k) True = Some (Some (grid_block 1 0, exc), core')"
proof -
  let ?pc = "co_proposer (core1 k)"
  have core: "pc_context ?pc = context4" "pc_dag_state ?pc = dag4" "ctx_committee context4 = committee4" "\<not> ctx_mysticeti_fastpath context4"
    by (simp_all add: core1_def core4_def context4_def)
  have last: "last_proposed_block ?pc = Some (example_block 0 0 7 1000 [])" by (simp add: last_proposed_block_def core dag4_last_proposed)
  have inc: "fold_opt include_ancestor genesis4 (pc_last_included_ancestors ?pc) = Some (map (\<lambda>j. Some (BlockRef 0 j 7)) [0..<4])"
    by (simp add: core1_def core4_def include_ancestor_def vec_set_def upt_rec replicate4)
  let ?core = "(core1 k)\<lparr>co_proposer := ?pc\<lparr>pc_last_included_ancestors := map (\<lambda>j. Some (BlockRef 0 j 7)) [0..<4]\<rparr>\<rparr>"
  have authorities: "committee_authority committee4 0 \<noteq> None" "map_opt (\<lambda>a. committee_authority committee4 (vb_author a)) genesis4 \<noteq> None"
    by (simp_all add: committee_authority_def vec_get_def committee4_def upt_rec)
  obtain d bm where acc: "try_accept_blocks 5 dag4 (block_manager_new context4) [grid_block 1 0] = Some ([grid_block 1 0], [], d, bm)" "dag_inv d"
    using core1_accepted by blast
  obtain d' where flush: "flush d = Some d'" using flush_total [OF acc(2)] by blast
  have tracker: "update_from_verified_block (pc_round_tracker ?pc) (grid_block 1 0) [] \<noteq> None"
    by (simp add: update_from_verified_block_def core1_def core4_def peer_round_tracker_new_def raise_round_def vec_get_def vec_set_def
        upt_rec context4_def replicate4 Let_def)
  have "accept_own_block (env1 n) ?core (grid_block 1 0) [] [] \<noteq> None"
    using acc(1) flush tracker core unfolding accept_own_block_def
    by (auto simp: env1_def core1_def ack_transactions_def)
  then show ?thesis
    using last inc authorities core1_ancestors core1_leader core1_assembled core dag4_clock
    by (auto simp: try_new_block_def Let_def env1_def)
qed

theorem proposed_block_verified_witness:
  "\<exists>exc core'. try_new_block (env1 0) (core1 0) True = Some (Some (grid_block 1 0, exc), core') \<and>
     verify_block verifier1 (vb_block (grid_block 1 0)) = Some (Inr ())"
proof -
  obtain exc core' where run: "try_new_block (env1 0) (core1 0) True = Some (Some (grid_block 1 0, exc), core')" using core1_proposes [of 0 0] by blast
  have core: "co_context (core1 0) = context4" "co_dag (core1 0) = dag4" "co_transaction_consumer (core1 0) = pool0" by (simp_all add: core1_def core4_def)
  have "pool_reachable limits3 pool0" by (rule pool_reachable.start) (simp add: transaction_consumer_new_def limits3_def pool0_def)
  then have "vb_round (grid_block 1 0) = clock_round (co_dag (core1 0)) \<and> vb_author (grid_block 1 0) = ctx_own_index (co_context (core1 0)) \<and>
     (\<exists>last. get_last_proposed_block (co_dag (core1 0)) = Some last \<and> vb_round last < vb_round (grid_block 1 0) \<and>
        hd (vb_ancestors (grid_block 1 0)) = vb_reference last) \<and>
     verify_block verifier1 (vb_block (grid_block 1 0)) = Some (Inr ())"
    by (intro proposed_block_verified [OF _ _ _ _ _ _ _ _ _ _ _ _ _ _ run, of limits3])
      (simp_all add: core dag4_inv dag4_complete verifier1_def env1_def crypto1_def, simp_all add: limits3_def context4_def)
  with run show ?thesis by blast
qed

lemma core1_may_propose:
  "should_propose (env1 0) (core1 0)" "should_propose (env1 500) (core1 4828)"
proof -
  have d: "pc_dag_state (co_proposer (core1 k)) = dag4" for k by (simp add: core1_def core4_def)
  have l: "last_commit_index dag4 = 0" by (simp add: last_commit_index_def dag4_def fresh_dag_state_def)
  show "should_propose (env1 0) (core1 0)" "should_propose (env1 500) (core1 4828)"
    unfolding should_propose_def Let_def d l dag4_clock by (simp_all add: is_cold_start_def lagging_def env1_def core1_def)
qed

text \<open>A fresh node that knows it has proposed nothing proposes in round 1; so does, with no local commit and 500 commits of
  its peers, a node that has learnt that it proposed up to round 4828.\<close>

theorem proposal_round_guard_witness:
  "(\<exists>block exc core'. try_new_block (env1 0) (core1 0) True = Some (Some (block, exc), core') \<and> vb_round block = 1 \<and>
      co_last_known_proposed_round (core1 0) = Some 0) \<and>
   (\<exists>block exc core'. try_new_block (env1 500) (core1 4828) True = Some (Some (block, exc), core') \<and> vb_round block = 1 \<and>
      co_last_known_proposed_round (core1 4828) = Some 4828 \<and>
      (\<forall>known. should_propose (env1 500) ((core1 4828)\<lparr>co_last_known_proposed_round := known\<rparr>)))"
proof -
  have clock: "clock_round (co_dag (core1 k)) = 1" "last_commit_index (co_dag (core1 k)) = 0" "co_last_known_proposed_round (core1 k) = Some k" for k
    using dag4_clock by (simp_all add: core1_def core4_def last_commit_index_def dag4_def fresh_dag_state_def)
  obtain exc core' where run: "try_new_block (env1 0) (core1 0) True = Some (Some (grid_block 1 0, exc), core')"
    using core1_proposes [of 0 0] by blast
  obtain exc2 core2 where run2: "try_new_block (env1 500) (core1 4828) True = Some (Some (grid_block 1 0, exc2), core2)"
    using core1_proposes [of 500 4828] by blast
  have "vb_round (grid_block 1 0) = 1" using proposal_round_guard [OF core1_may_propose(1) run] clock by simp
  moreover have "200 < en_quorum_commit_index (env1 500)" by (simp add: env1_def)
  then have "\<forall>known. should_propose (env1 500) ((core1 4828)\<lparr>co_last_known_proposed_round := known\<rparr>)"
    using proposal_round_guard [OF core1_may_propose(2) run2] clock by simp
  ultimately show ?thesis using run run2 clock(3) by blast
qed

text \<open>The same node leads round 1, with a pool limited to one transaction per block, which holds one, and a provider that
  returns one system transaction.\<close>

definition limits1 :: protocol_limits where
  "limits1 = \<lparr>max_transaction_size_bytes = 10, max_num_transactions_in_block = 1, max_transactions_in_block_bytes = 10\<rparr>"

definition pool1 :: transaction_consumer where
  "pool1 = \<lparr>tx_receiver = [guard 3 [[7]]], tx_max_bytes = 10, tx_max_num = 1, tx_pending = None, tx_subscribers = []\<rparr>"

definition env_sys :: "(unit, unit) core_env" where
  "env_sys = (env1 0)\<lparr>en_system_transaction_provider := Some (\<lambda>_ _. Some [Some [9], None])\<rparr>"

definition core_sys :: core_state where
  "core_sys = (core1 0)\<lparr>co_transaction_consumer := pool1\<rparr>"

lemma pool1_reachable: "pool_reachable limits1 pool1"
proof -
  have "pool_reachable limits1 (pool1\<lparr>tx_receiver := []\<rparr>)"
    by (rule pool_reachable.start) (simp add: transaction_consumer_new_def limits1_def pool1_def)
  moreover have "submit_no_wait (transaction_client_new limits1) True 3 [[7]] [] = Inr [guard 3 [[7]]]"
    by (simp add: submit_no_wait_def transaction_client_new_def limits1_def guard_def u64_add_def)
  ultimately show ?thesis
    using pool_reachable.submit [of limits1 "pool1\<lparr>tx_receiver := []\<rparr>" 3 "[[7]]" "[guard 3 [[7]]]"] by (simp add: pool1_def)
qed

lemma core_sys_leader: "first_leader rand_first (co_proposer core_sys) 1 = Some 0"
  by (simp add: core_sys_def first_leader_def leaders_def get_leaders_def core1_def core4_def universal4_def universal_committer_build_def with_pipeline_def
      universal_committer_builder_new_def base_committer_new_def bc_elect_leader_def upt_rec List.map_filter_def
      wave_number_def elect_leader_def elect_leader_stake_based_def rand_first_def schedule4_def leader_schedule_new_def
      swap_leader_def leader_swap_table_default_def vec_get_def committee_indices_def committee4_def context4_def committee_size_def Let_def leader_round_def u32_add_def u32_mul_def)

lemma core_sys_assembled:
  "\<exists>block core'. assemble_block env_sys core_sys 1 genesis4 = Some (block, [(3, [0])], core')"
proof -
  have n: "next_transactions pool1 = (([[7]], [(3, [0])], AllTransactionsIncluded), pool1\<lparr>tx_receiver := []\<rparr>)"
    by (simp add: next_transactions_def pool1_def handle_txs_def pull_start_def u64_sum_def u64_add_def u16_of_def guard_def upt_rec Let_def)
  have t: "take_commit_votes dag4 100 = ([], dag4)" by (simp add: take_commit_votes_def dag4_def fresh_dag_state_def)
  have core: "co_transaction_consumer core_sys = pool1" "pc_context (co_proposer core_sys) = context4" "pc_dag_state (co_proposer core_sys) = dag4"
    by (simp_all add: core_sys_def core1_def core4_def)
  have env: "en_rand env_sys = rand_first" "en_system_transaction_provider env_sys = Some (\<lambda>_ _. Some [Some [9], None])"
    "sign_block env_sys b \<noteq> None" for b
    by (simp_all add: env_sys_def env1_def crypto1_def sign_block_def signed_block_new_def compute_block_signature_def block_message_def
        compute_inner_block_digest_def split: sum.split)
  have f: "\<not> ctx_mysticeti_fastpath context4" by (simp add: context4_def)
  show ?thesis
    unfolding assemble_block_def Let_def core env proposed_transaction_votes_def
    using env(3) by (simp add: n t f core core_sys_leader [simplified] bind_eq_Some_conv)
qed

theorem system_transactions_shift_witness:
  "\<exists>block core'. assemble_block env_sys core_sys 1 genesis4 = Some (block, [(3, [0])], core') \<and>
     block_transactions (sb_inner (vb_block block)) = [[9], [7]] \<and>
     verify_block (verifier1\<lparr>sv_limits := limits1\<rparr>) (vb_block block) \<noteq> Some (Inr ())"
proof -
  obtain block core' where run: "assemble_block env_sys core_sys 1 genesis4 = Some (block, [(3, [0])], core')"
    using core_sys_assembled by blast
  have pool: "pool_reachable limits1 (co_transaction_consumer core_sys)" using pool1_reachable by (simp add: core_sys_def)
  have small: "max_transactions_in_block_bytes limits1 < 2 ^ 63" "max_transaction_size_bytes limits1 < 2 ^ 63" by (simp_all add: limits1_def)
  have lead: "first_leader (en_rand env_sys) (co_proposer core_sys) 1 = Some (ctx_own_index (co_context core_sys))"
    using core_sys_leader by (simp add: env_sys_def env1_def) (simp add: core_sys_def core1_def core4_def context4_def)
  have provider: "en_system_transaction_provider env_sys = Some (\<lambda>_ _. Some [Some [9], None])" by (simp add: env_sys_def)
  have sys: "[[9]] = List.map_filter (\<lambda>t. t) [Some [9 :: 8 word], None]" by (simp add: map_filter_simps)
  obtain taken rest where s: "submissions (co_transaction_consumer core_sys) = taken @ rest" "length [(3 :: nat, [0 :: nat])] = length taken"
      "block_transactions (sb_inner (vb_block block)) = [[9]] @ contents taken"
      "0 < max_num_transactions_in_block limits1 \<and> max_num_transactions_in_block limits1 < length [[9 :: 8 word]] + length (contents taken) \<longrightarrow>
        (\<forall>v. sv_limits v = limits1 \<longrightarrow> verify_block (v :: (unit, unit) signed_block_verifier) (vb_block block) \<noteq> Some (Inr ()))"
    using system_transactions_shift [OF pool small run lead provider refl sys] by blast
  have "taken = [guard 3 [[7]]]" using s(1,2) by (cases taken) (auto simp: submissions_def pool1_def core_sys_def)
  then have "contents taken = [[7]]" by (simp add: guard_def)
  with s(3,4) run show ?thesis by (auto simp: limits1_def)
qed

end
