(* ===== verification/Commit_Syncer.thy ===== *)
theory Commit_Syncer
  imports Core Quorum_Rounds
begin

section \<open>Commit syncer\<close>

text \<open>
  \<^verbatim>\<open>core/src/commit_syncer.rs\<close>: a node that is behind fetches ranges of commits from its peers, checks that a
  quorum voted for them, fetches their blocks and hands both to the core.  The scheduler is the record
  \<open>commit_syncer\<close>; its \<open>sy_inflight_fetches\<close> has the ranges of the running fetch tasks.  The fields that
  throttle log messages, the metrics and the adaptive delay are left out.

  An operation takes what it reads from other components as arguments: the commit index of a quorum from the
  vote monitor, the last local commit, the last commit the consumer handled.  The core thread is the
  argument \<open>dispatch\<close> on a state of its own; its value \<open>None\<close> is the error \<^verbatim>\<open>Shutdown\<close>.  The answers of a
  peer are arguments of \<open>fetch_once\<close>, parsing of the third-party \<^verbatim>\<open>bcs\<close> format as well.

  Percentages are quotients of two \<^verbatim>\<open>u32\<close> as \<^verbatim>\<open>f64\<close>, compared with 5 or 10 percent.  The comparison is exact,
  as one twentieth and one tenth times 100 round to 5 and 10 and any other quotient differs from these by
  more than the rounding error.
\<close>

record sync_parameters =
  sp_commit_sync_batch_size :: nat
  sp_commit_sync_batches_ahead :: nat
  sp_commit_sync_parallel_fetches :: nat
  sp_max_blocks_per_fetch :: nat

record certified_commits =
  ccs_commits :: "certified_commit list"
  ccs_votes :: "verified_block list"

text \<open>Ranges are ordered by start, then end.\<close>

instantiation commit_range :: linorder
begin

definition less_eq_commit_range :: "commit_range \<Rightarrow> commit_range \<Rightarrow> bool" where
  "less_eq_commit_range r s \<longleftrightarrow>
     range_first r < range_first s \<or> range_first r = range_first s \<and> range_next r \<le> range_next s"

definition less_commit_range :: "commit_range \<Rightarrow> commit_range \<Rightarrow> bool" where
  "less_commit_range r s \<longleftrightarrow>
     range_first r < range_first s \<or> range_first r = range_first s \<and> range_next r < range_next s"

instance
  by intro_classes (auto simp: less_eq_commit_range_def less_commit_range_def intro: commit_range.expand)

end

record commit_syncer =
  sy_inflight_fetches :: "commit_range list"
  sy_pending_fetches :: "commit_range btree_set"
  sy_fetched_ranges :: "(commit_range, certified_commits) btree_map"
  sy_highest_scheduled_index :: "CommitIndex option"
  sy_highest_fetched_commit_index :: CommitIndex
  sy_synced_commit_index :: CommitIndex
  sy_is_sync_mode :: bool

definition commit_syncer_new :: "CommitIndex \<Rightarrow> commit_syncer" where
  "commit_syncer_new last_commit =
     \<lparr>sy_inflight_fetches = [], sy_pending_fetches = [], sy_fetched_ranges = [],
      sy_highest_scheduled_index = None, sy_highest_fetched_commit_index = 0,
      sy_synced_commit_index = last_commit, sy_is_sync_mode = False\<rparr>"

subsection \<open>Scheduling\<close>

definition unhandled_commits_threshold :: "sync_parameters \<Rightarrow> nat" where
  "unhandled_commits_threshold p =
     u32_mul (sp_commit_sync_batch_size p) (sp_commit_sync_batches_ahead p mod 2 ^ 32)"

text \<open>\<open>schedule_interval\<close> is the period of the scheduler, in seconds.\<close>

definition schedule_interval :: "CommitIndex \<Rightarrow> CommitIndex \<Rightarrow> nat" where
  "schedule_interval quorum_commit local_commit =
     (let lag = quorum_commit - local_commit in if lag > 50 \<or> 20 * lag > quorum_commit then 1 else 2)"

definition should_be_in_sync_mode :: "nat \<Rightarrow> CommitIndex \<Rightarrow> bool" where
  "should_be_in_sync_mode lag quorum_commit \<longleftrightarrow> lag > 50 \<or> 20 * lag > quorum_commit"

definition is_severe_lag :: "nat \<Rightarrow> CommitIndex \<Rightarrow> bool" where
  "is_severe_lag lag quorum_commit \<longleftrightarrow> lag > 200 \<or> 10 * lag > quorum_commit"

definition effective_batch_size :: "sync_parameters \<Rightarrow> bool \<Rightarrow> nat \<Rightarrow> CommitIndex \<Rightarrow> nat" where
  "effective_batch_size p sync_mode lag quorum_commit =
     (let base = sp_commit_sync_batch_size p in
      if sync_mode
      then if is_severe_lag lag quorum_commit then u32_mul base 2 else u32_add base (base div 2)
      else base)"

text \<open>A node without commits skips to the quorum when that is far ahead.\<close>

definition fast_forward :: "CommitIndex \<Rightarrow> CommitIndex \<Rightarrow> commit_syncer \<Rightarrow> commit_syncer" where
  "fast_forward quorum_commit local_commit sy =
     (if local_commit = 0 \<and> quorum_commit > 200 \<and> sy_synced_commit_index sy < quorum_commit
      then sy\<lparr>sy_synced_commit_index := quorum_commit, sy_pending_fetches := [],
              sy_highest_scheduled_index := Some quorum_commit\<rparr>
      else sy)"

text \<open>The loop that adds ranges of \<open>batch\<close> commits after \<open>prev_end\<close>; \<open>limit\<close> bounds the unhandled commits.\<close>

function schedule_ranges :: "CommitIndex \<Rightarrow> CommitIndex \<Rightarrow> nat \<Rightarrow> CommitIndex \<Rightarrow> commit_syncer \<Rightarrow> commit_syncer" where
  "schedule_ranges quorum_commit limit batch prev_end sy =
     (if batch = 0 \<or> quorum_commit < prev_end then sy
      else
        let range_start = u32_add prev_end 1;
            range_end = u32_add prev_end batch
        in if quorum_commit < range_end then sy
           else if limit < range_end then sy
           else schedule_ranges quorum_commit limit batch (prev_end + batch)
                  (sy\<lparr>sy_pending_fetches := bts_insert (commit_range_new range_start range_end) (sy_pending_fetches sy),
                      sy_highest_scheduled_index := Some range_end\<rparr>))"
  by pat_completeness auto

termination
  by (relation "measure (\<lambda>(quorum_commit, _, _, prev_end, _). Suc quorum_commit - prev_end)") auto

declare schedule_ranges.simps [simp del]

definition fetch_after_index :: "commit_syncer \<Rightarrow> CommitIndex" where
  "fetch_after_index sy =
     max (sy_synced_commit_index sy) (case sy_highest_scheduled_index sy of None \<Rightarrow> 0 | Some i \<Rightarrow> i)"

definition try_schedule_once ::
  "sync_parameters \<Rightarrow> CommitIndex \<Rightarrow> CommitIndex \<Rightarrow> CommitIndex \<Rightarrow> commit_syncer \<Rightarrow> commit_syncer option" where
  "try_schedule_once p quorum_commit local_commit highest_handled sy = do {
     let sy = sy\<lparr>sy_synced_commit_index := max (sy_synced_commit_index sy) local_commit\<rparr>;
     let sy = fast_forward quorum_commit local_commit sy;
     let lag = quorum_commit - local_commit;
     let sy = sy\<lparr>sy_is_sync_mode := should_be_in_sync_mode lag quorum_commit\<rparr>;
     let sy = sy\<lparr>sy_pending_fetches :=
       filter (\<lambda>r. commit_range_end r > sy_synced_commit_index sy) (sy_pending_fetches sy)\<rparr>;
     let batch = effective_batch_size p (sy_is_sync_mode sy) lag quorum_commit;
     let threshold = (if sy_is_sync_mode sy then u32_mul (unhandled_commits_threshold p) 2 else unhandled_commits_threshold p);
     if batch = 0 then None
     else Some (schedule_ranges quorum_commit (u32_add highest_handled threshold) batch (fetch_after_index sy) sy)
   }"

subsection \<open>Results of fetches\<close>

text \<open>The loop that sends fetched ranges to the core; the flag is false when the core is gone.\<close>

fun drain_fetched ::
  "committee \<Rightarrow> (certified_commits \<Rightarrow> 'c \<Rightarrow> (block_ref btree_set \<times> 'c) option) \<Rightarrow>
   (commit_range, certified_commits) btree_map \<Rightarrow> CommitIndex \<Rightarrow> 'c \<Rightarrow>
   ((commit_range, certified_commits) btree_map \<times> CommitIndex \<times> 'c \<times> bool) option" where
  "drain_fetched c dispatch [] synced core = Some ([], synced, core, True)"
| "drain_fetched c dispatch ((r, commits) # fetched) synced core =
     (if commit_range_start r \<le> u32_add synced 1
      then if commit_range_end r \<le> synced then drain_fetched c dispatch fetched synced core
           else case dispatch commits core of
             None \<Rightarrow> Some (fetched, synced, core, False)
           | Some (missing, core) \<Rightarrow> do {
               _ \<leftarrow> map_opt (\<lambda>b. committee_authority c (br_author b)) missing;
               drain_fetched c dispatch fetched (max synced (commit_range_end r)) core
             }
      else Some ((r, commits) # fetched, synced, core, True))"

definition commits_start :: "certified_commits \<Rightarrow> CommitIndex" where
  "commits_start cs = tcm_index (cc_commit (hd (ccs_commits cs)))"

definition commits_end :: "certified_commits \<Rightarrow> CommitIndex" where
  "commits_end cs = tcm_index (cc_commit (last (ccs_commits cs)))"

text \<open>The bookkeeping of a result: the rest of the range is fetched again, the commits wait for their turn.\<close>

definition record_fetched :: "CommitIndex \<Rightarrow> CommitIndex \<Rightarrow> certified_commits \<Rightarrow> commit_syncer \<Rightarrow> commit_syncer" where
  "record_fetched local_commit target_end commits sy =
     (let commit_start = commits_start commits;
          commit_end = commits_end commits;
          sy = sy\<lparr>sy_highest_fetched_commit_index := max (sy_highest_fetched_commit_index sy) commit_end\<rparr>;
          sy = (if commit_end < target_end
            then sy\<lparr>sy_pending_fetches :=
              bts_insert (commit_range_new (u32_add commit_end 1) target_end) (sy_pending_fetches sy)\<rparr>
            else sy);
          sy = sy\<lparr>sy_synced_commit_index := max (sy_synced_commit_index sy) local_commit\<rparr>
      in if sy_synced_commit_index sy < commit_end
         then sy\<lparr>sy_fetched_ranges :=
           btm_insert (commit_range_new commit_start commit_end) commits (sy_fetched_ranges sy)\<rparr>
         else sy)"

definition handle_fetch_result ::
  "committee \<Rightarrow> (certified_commits \<Rightarrow> 'c \<Rightarrow> (block_ref btree_set \<times> 'c) option) \<Rightarrow> CommitIndex \<Rightarrow>
   CommitIndex \<Rightarrow> certified_commits \<Rightarrow> commit_syncer \<Rightarrow> 'c \<Rightarrow> (commit_syncer \<times> 'c \<times> bool) option" where
  "handle_fetch_result c dispatch local_commit target_end commits sy core =
     (if ccs_commits commits = [] then None
      else do {
        let sy = record_fetched local_commit target_end commits sy;
        (fetched, synced, core, up) \<leftarrow> drain_fetched c dispatch (sy_fetched_ranges sy) (sy_synced_commit_index sy) core;
        Some (sy\<lparr>sy_fetched_ranges := fetched, sy_synced_commit_index := synced\<rparr>, core, up)
      })"

definition target_parallel_fetches :: "sync_parameters \<Rightarrow> committee \<Rightarrow> commit_syncer \<Rightarrow> nat" where
  "target_parallel_fetches p c sy =
     (let base = sp_commit_sync_parallel_fetches p;
          effective = (if sy_is_sync_mode sy then min (u64_add base (base div 2)) (committee_size c) else base)
      in max (min (min effective (u64_mul (committee_size c) 2 div 3))
                  (sp_commit_sync_batches_ahead p - length (sy_fetched_ranges sy))) 1)"

fun start_fetches :: "nat \<Rightarrow> commit_range list \<Rightarrow> commit_range btree_set \<Rightarrow> commit_range list \<times> commit_range btree_set" where
  "start_fetches target inflight [] = (inflight, [])"
| "start_fetches target inflight (r # pending) =
     (if length inflight \<ge> target then (inflight, r # pending)
      else start_fetches target (inflight @ [r]) pending)"

definition try_start_fetches :: "sync_parameters \<Rightarrow> committee \<Rightarrow> commit_syncer \<Rightarrow> commit_syncer" where
  "try_start_fetches p c sy =
     (let (inflight, pending) =
        start_fetches (target_parallel_fetches p c sy) (sy_inflight_fetches sy) (sy_pending_fetches sy)
      in sy\<lparr>sy_inflight_fetches := inflight, sy_pending_fetches := pending\<rparr>)"

subsection \<open>Verifying fetched commits\<close>

record ('kp, 'sig) sync_env =
  se_verifier :: "('kp, 'sig) signed_block_verifier"
  se_commit_hash :: "bytes \<Rightarrow> digest"
  se_parse_commit :: "bytes \<Rightarrow> string + commit"
  se_parse_block :: "bytes \<Rightarrow> string + signed_block"

abbreviation se_committee :: "('kp, 'sig) sync_env \<Rightarrow> committee" where
  "se_committee env \<equiv> ctx_committee (sv_context (se_verifier env))"

abbreviation se_block_hash :: "('kp, 'sig) sync_env \<Rightarrow> bytes \<Rightarrow> digest" where
  "se_block_hash env \<equiv> cy_hash (sv_crypto (se_verifier env))"

text \<open>The commits of the answer, up to the end of the range, with their digests.\<close>

fun chain_commits ::
  "('kp, 'sig) sync_env \<Rightarrow> AuthorityIndex \<Rightarrow> commit_range \<Rightarrow> (digest \<times> commit) list \<Rightarrow> bytes list \<Rightarrow>
   (digest \<times> commit) list consensus_result" where
  "chain_commits env peer r commits [] = Inr commits"
| "chain_commits env peer r commits (serialized # rest) =
     and_then (map_err MalformedCommit (se_parse_commit env serialized)) (\<lambda>commit.
       if commits = [] \<and> cm_index commit \<noteq> commit_range_start r
       then Inl (UnexpectedStartCommit peer (commit_range_start r) commit)
       else if commits \<noteq> [] \<and>
         (cm_index commit \<noteq> u32_add (cm_index (snd (last commits))) 1 \<or> cm_previous_digest commit \<noteq> fst (last commits))
       then Inl (UnexpectedCommitSequence peer (snd (last commits)) commit)
       else if cm_index commit > commit_range_end r then Inr commits
       else chain_commits env peer r (commits @ [(se_commit_hash env serialized, commit)]) rest)"

text \<open>
  The votes of one block.  The certifier is shared: what it learns stays when a later block is rejected, so its
  state and its output are part of the value on both branches.
\<close>

definition certify_votes ::
  "('kp, 'sig) sync_env \<Rightarrow> (verified_block \<times> TransactionIndex list) list \<Rightarrow> certified_block list \<times> certifier_state \<Rightarrow>
   (certified_block list \<times> certifier_state) option" where
  "certify_votes env voted = (\<lambda>(out, cs).
     if ctx_mysticeti_fastpath (sv_context (se_verifier env))
     then map_option (\<lambda>(certified, cs). (out @ certified, cs)) (add_voted_blocks cs voted)
     else Some (out, cs))"

definition count_end_votes ::
  "committee \<Rightarrow> commit_ref \<Rightarrow> verified_block \<Rightarrow> stake_aggregator \<Rightarrow> stake_aggregator option" where
  "count_end_votes c end_ref block =
     fold_opt (\<lambda>vote agg. if vote = end_ref then map_option snd (aggregator_add reached_quorum agg (vb_author block) c) else Some agg)
       (vb_commit_votes block)"

fun count_commit_votes ::
  "('kp, 'sig) sync_env \<Rightarrow> commit_ref \<Rightarrow> stake_aggregator \<Rightarrow> verified_block list \<Rightarrow>
   certified_block list \<times> certifier_state \<Rightarrow> bytes list \<Rightarrow>
   ((stake_aggregator \<times> verified_block list) consensus_result \<times> certified_block list \<times> certifier_state) option" where
  "count_commit_votes env end_ref agg vote_blocks cert [] = Some (Inr (agg, vote_blocks), cert)"
| "count_commit_votes env end_ref agg vote_blocks cert (serialized # rest) =
     (case map_err MalformedBlock (se_parse_block env serialized) of
        Inl e \<Rightarrow> Some (Inl e, cert)
      | Inr sb \<Rightarrow> do {
          verified \<leftarrow> verify_and_vote (se_verifier env) sb serialized;
          case verified of
            Inl e \<Rightarrow> Some (Inl e, cert)
          | Inr (block, reject_votes) \<Rightarrow> do {
              cert \<leftarrow> certify_votes env [(block, reject_votes)] cert;
              agg \<leftarrow> count_end_votes (se_committee env) end_ref block agg;
              count_commit_votes env end_ref agg (vote_blocks @ [block]) cert rest
            }
        })"

definition verify_commits ::
  "('kp, 'sig) sync_env \<Rightarrow> AuthorityIndex \<Rightarrow> commit_range \<Rightarrow> bytes list \<Rightarrow> bytes list \<Rightarrow> certified_block list \<times> certifier_state \<Rightarrow>
   ((trusted_commit list \<times> verified_block list) consensus_result \<times> certified_block list \<times> certifier_state) option" where
  "verify_commits env peer r serialized_commits serialized_vote_blocks cert =
     (case chain_commits env peer r [] serialized_commits of
        Inl e \<Rightarrow> Some (Inl e, cert)
      | Inr commits \<Rightarrow>
          if commits = [] then Some (Inl (NoCommitReceived peer), cert)
          else do {
            let (end_digest, end_commit) = last commits;
            (counted, cert) \<leftarrow> count_commit_votes env (commit_ref_new (cm_index end_commit) end_digest) aggregator_new [] cert
              serialized_vote_blocks;
            case counted of
              Inl e \<Rightarrow> Some (Inl e, cert)
            | Inr (agg, vote_blocks) \<Rightarrow>
                if \<not> reached_threshold reached_quorum agg (se_committee env)
                then Some (Inl (NotEnoughCommitVotes (sa_stake agg) peer end_commit), cert)
                else Some (Inr (map (\<lambda>((_, commit), s). trusted_commit_new (se_commit_hash env) commit s)
                                 (zip commits serialized_commits), vote_blocks), cert)
          })"

subsection \<open>Fetching from one peer\<close>

fun parse_blocks :: "('kp, 'sig) sync_env \<Rightarrow> bytes list \<Rightarrow> signed_block list consensus_result" where
  "parse_blocks env [] = Inr []"
| "parse_blocks env (s # ss) =
     and_then (map_err MalformedBlock (se_parse_block env s)) (\<lambda>b. and_then (parse_blocks env ss) (\<lambda>bs. Inr (b # bs)))"

fun match_blocks ::
  "('kp, 'sig) sync_env \<Rightarrow> AuthorityIndex \<Rightarrow> ((block_ref \<times> signed_block) \<times> bytes) list \<Rightarrow> verified_block list consensus_result" where
  "match_blocks env peer [] = Inr []"
| "match_blocks env peer (((requested, sb), serialized) # rest) =
     (let received = BlockRef (block_round (sb_inner sb)) (block_author (sb_inner sb)) (se_block_hash env serialized) in
      if requested \<noteq> received then Inl (UnexpectedBlockForCommit peer requested received)
      else and_then (match_blocks env peer rest) (\<lambda>blocks. Inr (verified_block_new (se_block_hash env) sb serialized # blocks)))"

text \<open>At most three attempts; the peer's answer may depend on the attempt.\<close>

fun fetch_with_retries :: "(nat \<Rightarrow> 'a consensus_result) \<Rightarrow> nat \<Rightarrow> nat \<Rightarrow> 'a consensus_result" where
  "fetch_with_retries ask attempt 0 = ask attempt"
| "fetch_with_retries ask attempt (Suc left) =
     (case ask attempt of Inr x \<Rightarrow> Inr x | Inl e \<Rightarrow> fetch_with_retries ask (attempt + 1) left)"

definition fetch_chunk ::
  "('kp, 'sig) sync_env \<Rightarrow> AuthorityIndex \<Rightarrow> (block_ref list \<Rightarrow> nat \<Rightarrow> bytes list consensus_result) \<Rightarrow> block_ref list \<Rightarrow>
   verified_block list consensus_result" where
  "fetch_chunk env peer fetch_blocks refs =
     and_then (fetch_with_retries (fetch_blocks refs) 0 2) (\<lambda>serialized_blocks.
       if length refs \<noteq> length serialized_blocks
       then Inl (UnexpectedNumberOfBlocksFetched peer (length refs) (length serialized_blocks))
       else and_then (parse_blocks env serialized_blocks) (\<lambda>signed_blocks.
         match_blocks env peer (zip (zip refs signed_blocks) serialized_blocks)))"

function chunks :: "nat \<Rightarrow> 'a list \<Rightarrow> 'a list list" where
  "chunks n xs = (if n = 0 \<or> xs = [] then [] else take n xs # chunks n (drop n xs))"
  by pat_completeness auto

termination
  by (relation "measure (\<lambda>(_, xs). length xs)") auto

declare chunks.simps [simp del]

fun fetch_chunks ::
  "('kp, 'sig) sync_env \<Rightarrow> AuthorityIndex \<Rightarrow> (block_ref list \<Rightarrow> nat \<Rightarrow> bytes list consensus_result) \<Rightarrow> block_ref list list \<Rightarrow>
   (block_ref, verified_block) btree_map \<Rightarrow> (block_ref, verified_block) btree_map consensus_result" where
  "fetch_chunks env peer fetch_blocks [] fetched = Inr fetched"
| "fetch_chunks env peer fetch_blocks (refs # rest) fetched =
     and_then (fetch_chunk env peer fetch_blocks refs) (\<lambda>blocks.
       fetch_chunks env peer fetch_blocks rest (fold (\<lambda>b. btm_insert (vb_reference b) b) blocks fetched))"

text \<open>Each commit takes its blocks out of the fetched ones; a missing block is a panic.\<close>

fun take_blocks ::
  "block_ref list \<Rightarrow> (block_ref, verified_block) btree_map \<Rightarrow> (verified_block list \<times> (block_ref, verified_block) btree_map) option" where
  "take_blocks [] fetched = Some ([], fetched)"
| "take_blocks (r # rs) fetched = do {
     b \<leftarrow> btm_get fetched r;
     (bs, fetched) \<leftarrow> take_blocks rs (btm_remove r fetched);
     Some (b # bs, fetched)
   }"

fun assign_blocks ::
  "trusted_commit list \<Rightarrow> (block_ref, verified_block) btree_map \<Rightarrow> certified_commit list option" where
  "assign_blocks [] fetched = Some []"
| "assign_blocks (c # cs) fetched = do {
     (blocks, fetched) \<leftarrow> take_blocks (tcm_blocks c) fetched;
     rest \<leftarrow> assign_blocks cs fetched;
     Some (\<lparr>cc_commit = c, cc_blocks = blocks\<rparr> # rest)
   }"

definition fetch_once ::
  "('kp, 'sig) sync_env \<Rightarrow> sync_parameters \<Rightarrow> (bytes list \<times> bytes list) consensus_result \<Rightarrow>
   (block_ref list \<Rightarrow> nat \<Rightarrow> bytes list consensus_result) \<Rightarrow> AuthorityIndex \<Rightarrow> commit_range \<Rightarrow>
   certified_block list \<times> certifier_state \<Rightarrow>
   (certified_commits consensus_result \<times> certified_block list \<times> certifier_state) option" where
  "fetch_once env p fetch_commits fetch_blocks peer r cert =
     (case fetch_commits of
        Inl e \<Rightarrow> Some (Inl e, cert)
      | Inr (serialized_commits, serialized_blocks) \<Rightarrow> do {
          (verified, cert) \<leftarrow> verify_commits env peer r serialized_commits serialized_blocks cert;
          case verified of
            Inl e \<Rightarrow> Some (Inl e, cert)
          | Inr (commits, vote_blocks) \<Rightarrow>
              if sp_max_blocks_per_fetch p = 0 then None
              else
                (case fetch_chunks env peer fetch_blocks
                        (chunks (sp_max_blocks_per_fetch p) (sort (concat (map tcm_blocks commits)))) [] of
                   Inl e \<Rightarrow> Some (Inl e, cert)
                 | Inr fetched \<Rightarrow> do {
                     certified \<leftarrow> assign_blocks commits fetched;
                     cert \<leftarrow> fold_opt (\<lambda>b. certify_votes env [(b, [])]) (concat (map cc_blocks certified)) cert;
                     Some (Inr \<lparr>ccs_commits = certified, ccs_votes = vote_blocks\<rparr>, cert)
                   })
        })"

subsection \<open>Retrying until a peer answers\<close>

text \<open>
  The peers as a fetch task meets them: the shuffle of the targets and the answers in each round of attempts, and
  for an attempt that is cancelled at its timeout what the certifier has learnt from it.
\<close>

record sync_network =
  sn_shuffle :: "nat \<Rightarrow> AuthorityIndex list \<Rightarrow> AuthorityIndex list"
  sn_fetch_commits :: "nat \<Rightarrow> AuthorityIndex \<Rightarrow> commit_range \<Rightarrow> nat \<Rightarrow> (bytes list \<times> bytes list) consensus_result"
  sn_fetch_blocks :: "nat \<Rightarrow> AuthorityIndex \<Rightarrow> nat \<Rightarrow> block_ref list \<Rightarrow> nat \<Rightarrow> bytes list consensus_result"
  sn_timed_out :: "nat \<Rightarrow> AuthorityIndex \<Rightarrow> nat \<Rightarrow> (certified_block list \<times> certifier_state) option"

definition request_timeout :: "nat \<Rightarrow> nat" where
  "request_timeout round = 10 * min (round + 1) 12"

fun fetch_from_targets ::
  "('kp, 'sig) sync_env \<Rightarrow> sync_parameters \<Rightarrow> sync_network \<Rightarrow> commit_range \<Rightarrow> nat \<Rightarrow> AuthorityIndex list \<Rightarrow>
   certified_block list \<times> certifier_state \<Rightarrow> (certified_commits option \<times> certified_block list \<times> certifier_state) option" where
  "fetch_from_targets env p net r round [] cert = Some (None, cert)"
| "fetch_from_targets env p net r round (peer # targets) cert =
     (case sn_timed_out net round peer (4 * request_timeout round) of
        Some cert \<Rightarrow> do {
          _ \<leftarrow> committee_authority (se_committee env) peer;
          fetch_from_targets env p net r round targets cert
        }
      | None \<Rightarrow> do {
          (result, cert) \<leftarrow> fetch_once env p (sn_fetch_commits net round peer r (request_timeout round))
            (sn_fetch_blocks net round peer (request_timeout round)) peer r cert;
          case result of
            Inr commits \<Rightarrow> Some (Some commits, cert)
          | Inl e \<Rightarrow> do {
              _ \<leftarrow> committee_authority (se_committee env) peer;
              fetch_from_targets env p net r round targets cert
            }
        })"

definition fetch_targets :: "consensus_context \<Rightarrow> sync_network \<Rightarrow> nat \<Rightarrow> AuthorityIndex list" where
  "fetch_targets ctx net round =
     take 24 (sn_shuffle net round (filter (\<lambda>i. i \<noteq> ctx_own_index ctx) [0..<committee_size (ctx_committee ctx)]))"

partial_function (option) fetch_loop ::
  "('kp, 'sig) sync_env \<Rightarrow> sync_parameters \<Rightarrow> sync_network \<Rightarrow> commit_range \<Rightarrow> nat \<Rightarrow>
   certified_block list \<times> certifier_state \<Rightarrow> ((CommitIndex \<times> certified_commits) \<times> certified_block list \<times> certifier_state) option" where
  "fetch_loop env p net r round cert =
     (case fetch_from_targets env p net r round (fetch_targets (sv_context (se_verifier env)) net round) cert of
        None \<Rightarrow> None
      | Some (Some commits, cert) \<Rightarrow> Some ((commit_range_end r, commits), cert)
      | Some (None, cert) \<Rightarrow> fetch_loop env p net r (round + 1) cert)"

end
