(* ===== verification/Commit_Certification.thy ===== *)
theory Commit_Certification
  imports Commit_Syncer Commit_Sequence
begin

section \<open>What a peer's commits must satisfy to be accepted\<close>

text \<open>
  \<^verbatim>\<open>verify_commits\<close> and \<^verbatim>\<open>fetch_once\<close>: an accepted answer is a chain of commits from the start of the requested
  range, linked by digests, whose last commit has the votes of a quorum in valid blocks, and every commit comes
  with exactly the blocks it names.  Two answers that end at the same commit index therefore agree.
  The last section shows which votes are counted, and that the votes a node casts are not among them.
\<close>

subsection \<open>The chain\<close>

definition chained :: "commit_range \<Rightarrow> (digest \<times> commit) list \<Rightarrow> bool" where
  "chained r commits \<longleftrightarrow>
     map (\<lambda>p. cm_index (snd p)) commits = [commit_range_start r..<commit_range_start r + length commits] \<and>
     (\<forall>p \<in> set commits. cm_index (snd p) \<le> commit_range_end r) \<and>
     (\<forall>i. Suc i < length commits \<longrightarrow> cm_previous_digest (snd (commits ! Suc i)) = fst (commits ! i))"

lemma chained_Nil [simp]: "chained r []"
  by (simp add: chained_def)

lemma chained_last:
  assumes "chained r commits" "commits \<noteq> []"
  shows "cm_index (snd (last commits)) + 1 = commit_range_start r + length commits"
proof -
  have "last (map (\<lambda>p. cm_index (snd p)) commits) = commit_range_start r + length commits - 1"
    using assms by (simp add: chained_def)
  then show ?thesis using assms(2) by (simp add: last_map)
qed

lemma chained_snoc:
  assumes "chained r commits" "cm_index c = commit_range_start r + length commits" "cm_index c \<le> commit_range_end r"
    and "commits \<noteq> [] \<Longrightarrow> cm_previous_digest c = fst (last commits)"
  shows "chained r (commits @ [(d, c)])"
proof -
  have "cm_previous_digest c = fst (commits ! i)" if "Suc i = length commits" for i
  proof -
    have "commits \<noteq> []" "i = length commits - 1" using that by auto
    then show ?thesis using assms(4) by (simp add: last_conv_nth)
  qed
  then show ?thesis using assms(1-3) by (auto simp: chained_def nth_append less_Suc_eq)
qed

lemma chain_commits_spec:
  assumes "chain_commits env peer r acc ss = Inr out" "chained r acc" "commit_range_end r < 2 ^ 32 - 1"
  shows "chained r out \<and> (\<exists>new. out = acc @ new \<and> length new \<le> length ss \<and>
    (\<forall>i < length new. fst (new ! i) = se_commit_hash env (ss ! i) \<and> se_parse_commit env (ss ! i) = Inr (snd (new ! i))))"
  using assms
proof (induction env peer r acc ss rule: chain_commits.induct)
  case (2 env peer r commits s rest)
  from "2.prems"(1) obtain c where c: "se_parse_commit env s = Inr c" by (auto simp: and_then_Inr)
  show ?case
  proof (cases "cm_index c > commit_range_end r")
    case True
    then have "out = commits" using "2.prems"(1) c by (auto split: if_splits)
    then show ?thesis using "2.prems"(2) by auto
  next
    case False
    have lst: "commits \<noteq> [] \<Longrightarrow> cm_index (snd (last commits)) < 2 ^ 32 - 1"
      using "2.prems"(2,3) by (auto simp: chained_def intro: le_less_trans dest!: bspec [OF _ last_in_set])
    have idx: "cm_index c = commit_range_start r + length commits"
    proof (cases "commits = []")
      case True
      then show ?thesis using "2.prems"(1) c by (auto split: if_splits)
    next
      case False
      then have "cm_index c = cm_index (snd (last commits)) + 1"
        using "2.prems"(1) c lst by (auto simp: u32_add_eq split: if_splits)
      then show ?thesis using chained_last [OF "2.prems"(2) False] by simp
    qed
    have prev: "commits \<noteq> [] \<Longrightarrow> cm_previous_digest c = fst (last commits)"
      using "2.prems"(1) c by (auto split: if_splits)
    have run: "chain_commits env peer r (commits @ [(se_commit_hash env s, c)]) rest = Inr out"
      using "2.prems"(1) c False by (auto split: if_splits)
    have "chained r (commits @ [(se_commit_hash env s, c)])"
      using chained_snoc [OF "2.prems"(2) idx _ prev] False by simp
    with "2.IH" [of c] run obtain new where new: "chained r out" "out = (commits @ [(se_commit_hash env s, c)]) @ new"
        "length new \<le> length rest"
        "\<forall>i < length new. fst (new ! i) = se_commit_hash env (rest ! i) \<and> se_parse_commit env (rest ! i) = Inr (snd (new ! i))"
      using "2.prems"(1,3) c False by (auto split: if_splits)
    then show ?thesis using c
      by (intro conjI exI [of _ "(se_commit_hash env s, c) # new"]) (auto simp: less_Suc_eq_0_disj nth_Cons split: nat.splits)
  qed
qed auto

subsection \<open>The votes\<close>

definition commit_voters :: "commit_ref \<Rightarrow> verified_block list \<Rightarrow> AuthorityIndex set" where
  "commit_voters ref blocks = vb_author ` {b \<in> set blocks. ref \<in> set (vb_commit_votes b)}"

lemma commit_voters_simps [simp]:
  "commit_voters ref [] = {}"
  "commit_voters ref (bs @ [b]) =
     commit_voters ref bs \<union> (if ref \<in> set (vb_commit_votes b) then {vb_author b} else {})"
  by (auto simp: commit_voters_def)

lemma count_end_votes_spec:
  assumes "committee_wf c" "agg_inv c agg" "count_end_votes c ref b agg = Some agg'"
  shows "agg_inv c agg' \<and>
    set (sa_votes agg') = set (sa_votes agg) \<union> (if ref \<in> set (vb_commit_votes b) then {vb_author b} else {})"
proof -
  have "fold_opt (\<lambda>vote agg. if vote = ref then map_option snd (aggregator_add reached_quorum agg (vb_author b) c) else Some agg)
      votes agg = Some agg' \<Longrightarrow> agg_inv c agg \<Longrightarrow>
    agg_inv c agg' \<and> set (sa_votes agg') = set (sa_votes agg) \<union> (if ref \<in> set votes then {vb_author b} else {})" for votes
  proof (induction votes arbitrary: agg)
    case (Cons v votes)
    show ?case
    proof (cases "v = ref")
      case True
      then obtain reached agg2 where add: "aggregator_add reached_quorum agg (vb_author b) c = Some (reached, agg2)"
        using Cons.prems(1) by (auto split: option.splits)
      from aggregator_add_Some [OF assms(1) Cons.prems(2) add] Cons.IH [of agg2] Cons.prems(1) True add
      show ?thesis by auto
    qed (use Cons in auto)
  qed auto
  then show ?thesis using assms(2,3) unfolding count_end_votes_def by blast
qed

lemma count_commit_votes_spec:
  assumes "committee_wf (se_committee env)"
    and "count_commit_votes env ref agg blocks cert ss = Some (Inr (agg', blocks'), cert')"
    and "agg_inv (se_committee env) agg" "set (sa_votes agg) = commit_voters ref blocks"
  shows "agg_inv (se_committee env) agg' \<and> set (sa_votes agg') = commit_voters ref blocks' \<and>
    (\<exists>new. blocks' = blocks @ new \<and> (\<forall>b \<in> set new. verify_block (se_verifier env) (vb_block b) = Some (Inr ())))"
  using assms
proof (induction env ref agg blocks cert ss rule: count_commit_votes.induct)
  case (2 env ref agg blocks cert s rest)
  from "2.prems"(2) obtain sb where sb: "map_err MalformedBlock (se_parse_block env s) = Inr sb"
    by (auto split: sum.splits)
  with "2.prems"(2) obtain b rejected cert1 agg1 where step: "verify_and_vote (se_verifier env) sb s = Some (Inr (b, rejected))"
      "certify_votes env [(b, rejected)] cert = Some cert1" "count_end_votes (se_committee env) ref b agg = Some agg1"
      "count_commit_votes env ref agg1 (blocks @ [b]) cert1 rest = Some (Inr (agg', blocks'), cert')"
    by (auto split: sum.splits bind_splits)
  have valid: "verify_block (se_verifier env) (vb_block b) = Some (Inr ())"
    using verify_and_vote_block [OF step(1)] by (auto simp: verified_block_new_def)
  have agg1: "agg_inv (se_committee env) agg1" "set (sa_votes agg1) = commit_voters ref (blocks @ [b])"
    using count_end_votes_spec [OF "2.prems"(1,3) step(3)] "2.prems"(4) by auto
  have "agg_inv (se_committee env) agg' \<and> set (sa_votes agg') = commit_voters ref blocks' \<and>
    (\<exists>new. blocks' = (blocks @ [b]) @ new \<and> (\<forall>b \<in> set new. verify_block (se_verifier env) (vb_block b) = Some (Inr ())))"
    by (rule "2.IH" [OF sb step(1) refl refl step(2,3) "2.prems"(1) step(4) agg1])
  with valid show ?case by auto
qed auto

subsection \<open>Accepted answers\<close>

definition certified_chain :: "('kp, 'sig) sync_env \<Rightarrow> commit_range \<Rightarrow> trusted_commit list \<Rightarrow> bool" where
  "certified_chain env r cs \<longleftrightarrow>
     cs \<noteq> [] \<and> map tcm_index cs = [commit_range_start r..<commit_range_start r + length cs] \<and>
     tcm_index (last cs) \<le> commit_range_end r \<and>
     (\<forall>c \<in> set cs. se_parse_commit env (tcm_serialized c) = Inr (tcm_inner c) \<and>
        tcm_digest c = se_commit_hash env (tcm_serialized c)) \<and>
     (\<forall>i. Suc i < length cs \<longrightarrow> cm_previous_digest (tcm_inner (cs ! Suc i)) = tcm_digest (cs ! i))"

lemma verify_commits_sound:
  assumes wf: "committee_wf (se_committee env)" and bound: "commit_range_end r < 2 ^ 32 - 1"
    and run: "verify_commits env peer r ss bs cert = Some (Inr (cs, votes), cert')"
  shows "certified_chain env r cs \<and> map tcm_serialized cs = take (length cs) ss \<and>
    reached_quorum (se_committee env)
      (stake_of (se_committee env) (commit_voters (commit_ref_new (tcm_index (last cs)) (tcm_digest (last cs))) votes)) \<and>
    (\<forall>b \<in> set votes. verify_block (se_verifier env) (vb_block b) = Some (Inr ()))"
proof -
  from run obtain commits where commits: "chain_commits env peer r [] ss = Inr commits" "commits \<noteq> []"
    by (auto simp: verify_commits_def split: sum.splits if_splits)
  obtain ed ec where ed: "last commits = (ed, ec)" by fastforce
  let ?ref = "commit_ref_new (cm_index ec) ed"
  let ?cs = "map (\<lambda>((_, commit), s). trusted_commit_new (se_commit_hash env) commit s) (zip commits ss)"
  from run commits ed obtain agg where
    agg: "count_commit_votes env ?ref aggregator_new [] cert bs = Some (Inr (agg, votes), cert')"
      "reached_threshold reached_quorum agg (se_committee env)" "cs = ?cs"
    by (auto simp: verify_commits_def split: sum.splits if_splits bind_splits)
  have chain: "chained r commits" "length commits \<le> length ss"
    "\<forall>i < length commits. fst (commits ! i) = se_commit_hash env (ss ! i) \<and> se_parse_commit env (ss ! i) = Inr (snd (commits ! i))"
    using chain_commits_spec [OF commits(1) _ bound] by auto
  have len: "length cs = length commits" using chain(2) agg(3) by simp
  have nth: "cs ! i = \<lparr>tcm_inner = snd (commits ! i), tcm_digest = fst (commits ! i), tcm_serialized = ss ! i\<rparr>"
    if "i < length commits" for i
    using that chain(2,3) agg(3) by (simp add: trusted_commit_new_def split_beta)
  have lst: "tcm_inner (last cs) = ec" "tcm_digest (last cs) = ed"
    using nth [of "length commits - 1"] len commits(2) ed last_conv_nth [of cs] last_conv_nth [of commits] by fastforce+
  have "map tcm_index cs = map (\<lambda>p. cm_index (snd p)) commits"
    by (rule nth_equalityI) (simp_all add: len nth)
  moreover have "map tcm_serialized cs = take (length cs) ss"
    using chain(2) by (intro nth_equalityI) (simp_all add: len nth)
  moreover have "cm_index ec \<le> commit_range_end r"
    using chain(1) commits(2) ed last_in_set by (fastforce simp: chained_def)
  moreover have "\<forall>c \<in> set cs. se_parse_commit env (tcm_serialized c) = Inr (tcm_inner c) \<and>
        tcm_digest c = se_commit_hash env (tcm_serialized c)"
    using chain(3) by (auto simp: in_set_conv_nth len nth)
  moreover have "\<forall>i. Suc i < length cs \<longrightarrow> cm_previous_digest (tcm_inner (cs ! Suc i)) = tcm_digest (cs ! i)"
    using chain(1) by (auto simp: chained_def len nth)
  ultimately have "certified_chain env r cs \<and> map tcm_serialized cs = take (length cs) ss"
    using chain(1) commits(2) lst len by (auto simp: certified_chain_def chained_def)
  moreover have "agg_inv (se_committee env) agg" "set (sa_votes agg) = commit_voters ?ref votes"
    "\<forall>b \<in> set votes. verify_block (se_verifier env) (vb_block b) = Some (Inr ())"
    using count_commit_votes_spec [OF wf agg(1) agg_inv_new] by (auto simp: aggregator_new_def)
  ultimately show ?thesis using agg(2) lst by (simp add: reached_threshold_def agg_inv_def)
qed

lemma same_commit:
  assumes "certified_chain env r1 cs1" "certified_chain env r2 cs2" "x \<in> set cs1" "y \<in> set cs2"
    and "tcm_digest x = tcm_digest y" "tcm_serialized x = tcm_serialized y"
  shows "x = y"
proof -
  have "se_parse_commit env (tcm_serialized x) = Inr (tcm_inner x)" "se_parse_commit env (tcm_serialized y) = Inr (tcm_inner y)"
    using assms(1-4) by (auto simp: certified_chain_def)
  then show ?thesis using assms(5,6) by (intro trusted_commit.equality) auto
qed

lemma certified_chain_back:
  assumes "certified_chain env r1 cs1" "certified_chain env r2 cs2" "tcm_digest (last cs1) = tcm_digest (last cs2)"
    and inj: "\<forall>x \<in> set cs1. \<forall>y \<in> set cs2. tcm_digest x = tcm_digest y \<longrightarrow> tcm_serialized x = tcm_serialized y"
    and k: "k < length cs1" "k < length cs2"
  shows "cs1 ! (length cs1 - 1 - k) = cs2 ! (length cs2 - 1 - k)"
  using k
proof (induction k)
  case 0
  then have "last cs1 = cs1 ! (length cs1 - 1)" "last cs2 = cs2 ! (length cs2 - 1)"
    "last cs1 \<in> set cs1" "last cs2 \<in> set cs2"
    using last_conv_nth [of cs1] last_conv_nth [of cs2] by auto
  then show ?case using same_commit [OF assms(1,2)] assms(3) inj by simp
next
  case (Suc k)
  let ?i = "length cs1 - 1 - Suc k" and ?j = "length cs2 - 1 - Suc k"
  have "Suc ?i = length cs1 - 1 - k" "Suc ?j = length cs2 - 1 - k" using Suc.prems by auto
  then have next_eq: "cs1 ! Suc ?i = cs2 ! Suc ?j" using Suc by simp
  have less: "Suc ?i < length cs1" "Suc ?j < length cs2" using Suc.prems by auto
  then have "tcm_digest (cs1 ! ?i) = tcm_digest (cs2 ! ?j)"
    using assms(1,2) next_eq unfolding certified_chain_def by metis
  moreover have "cs1 ! ?i \<in> set cs1" "cs2 ! ?j \<in> set cs2" using less by auto
  ultimately show ?case using same_commit [OF assms(1,2)] inj by simp
qed

lemma certified_chains_agree:
  assumes "certified_chain env r1 cs1" "certified_chain env r2 cs2" "tcm_digest (last cs1) = tcm_digest (last cs2)"
    and "tcm_index (last cs1) = tcm_index (last cs2)"
    and inj: "\<forall>x \<in> set cs1. \<forall>y \<in> set cs2. tcm_digest x = tcm_digest y \<longrightarrow> tcm_serialized x = tcm_serialized y"
    and "x \<in> set cs1" "y \<in> set cs2" "tcm_index x = tcm_index y"
  shows "x = y"
proof -
  have nth: "tcm_index (cs ! i) = commit_range_start r + i" if "certified_chain env r cs" "i < length cs" for r cs i
    using that nth_map [of i cs tcm_index] by (simp add: certified_chain_def del: nth_map)
  obtain i j where ij: "i < length cs1" "x = cs1 ! i" "j < length cs2" "y = cs2 ! j"
    using assms(6,7) by (auto simp: in_set_conv_nth)
  have ne: "cs1 \<noteq> []" "cs2 \<noteq> []" using assms(1,2) by (auto simp: certified_chain_def)
  have "length cs1 - 1 - i = length cs2 - 1 - j"
    using assms(4,8) nth [OF assms(1)] nth [OF assms(2)] ij ne by (simp add: last_conv_nth)
  moreover have "length cs1 - 1 - (length cs1 - 1 - i) = i" "length cs2 - 1 - (length cs2 - 1 - j) = j" using ij by auto
  ultimately show ?thesis
    using certified_chain_back [OF assms(1-3) inj, of "length cs1 - 1 - i"] ij by auto
qed

text \<open>C14: answers to commit requests agree.  Two nodes of the same committee that accept answers which end at the
  same commit index have equal commits at every index the answers share, when the faulty authorities have no more
  stake than is tolerated, a correct authority votes for one commit per index, and the digests do not collide.\<close>

theorem certified_commits_agree:
  assumes "committee_wf (se_committee env)" "se_committee env' = se_committee env"
    and "se_parse_commit env' = se_parse_commit env" "se_commit_hash env' = se_commit_hash env"
    and "commit_range_end r < 2 ^ 32 - 1" "commit_range_end r' < 2 ^ 32 - 1"
    and "verify_commits env peer r ss bs cert = Some (Inr (cs, votes), out)"
    and "verify_commits env' peer' r' ss' bs' cert' = Some (Inr (cs', votes'), out')"
    and "tcm_index (last cs) = tcm_index (last cs')"
    and "stake_of (se_committee env) byz \<le> fault_tolerance (se_committee env)"
    and honest: "\<forall>b \<in> set votes. \<forall>b' \<in> set votes'. vb_author b \<notin> byz \<and> vb_author b = vb_author b' \<longrightarrow>
      (\<forall>v \<in> set (vb_commit_votes b). \<forall>v' \<in> set (vb_commit_votes b'). cr_index v = cr_index v' \<longrightarrow> v = v')"
    and inj: "\<forall>s \<in> set ss. \<forall>s' \<in> set ss'. se_commit_hash env s = se_commit_hash env s' \<longrightarrow> s = s'"
  shows "\<forall>c \<in> set cs. \<forall>c' \<in> set cs'. tcm_index c = tcm_index c' \<longrightarrow> c = c'"
proof -
  let ?C = "se_committee env"
  let ?ref = "\<lambda>cs. commit_ref_new (tcm_index (last cs)) (tcm_digest (last cs))"
  have run: "certified_chain env r cs" "map tcm_serialized cs = take (length cs) ss"
      "reached_quorum ?C (stake_of ?C (commit_voters (?ref cs) votes))"
    using verify_commits_sound [OF assms(1,5,7)] by auto
  have run': "certified_chain env r' cs'" "map tcm_serialized cs' = take (length cs') ss'"
      "reached_quorum ?C (stake_of ?C (commit_voters (?ref cs') votes'))"
    using verify_commits_sound [OF _ assms(6,8)] assms(1-4) by (auto simp: certified_chain_def)
  obtain a where "a \<in> commit_voters (?ref cs) votes" "a \<in> commit_voters (?ref cs') votes'" "a \<notin> byz"
    using quorum_overlap_honest [OF assms(1) run(3) run'(3) assms(10)] by auto
  then obtain b b' where b: "b \<in> set votes" "b' \<in> set votes'" "vb_author b \<notin> byz" "vb_author b = vb_author b'"
      "?ref cs \<in> set (vb_commit_votes b)" "?ref cs' \<in> set (vb_commit_votes b')"
    unfolding commit_voters_def by auto
  moreover have "cr_index (?ref cs) = cr_index (?ref cs')" using assms(9) by (simp add: commit_ref_new_def)
  ultimately have "?ref cs = ?ref cs'" using honest by blast
  then have digests: "tcm_digest (last cs) = tcm_digest (last cs')" by (simp add: commit_ref_new_def)
  have sub: "tcm_serialized x \<in> set ss" if "x \<in> set cs" for x
    using that run(2) by (metis image_eqI in_set_takeD list.set_map)
  have sub': "tcm_serialized x \<in> set ss'" if "x \<in> set cs'" for x
    using that run'(2) by (metis image_eqI in_set_takeD list.set_map)
  have "tcm_serialized x = tcm_serialized y" if "x \<in> set cs" "y \<in> set cs'" "tcm_digest x = tcm_digest y" for x y
    using that sub sub' inj run(1) run'(1) by (auto simp: certified_chain_def)
  then show ?thesis using certified_chains_agree [OF run(1) run'(1) digests assms(9)] by auto
qed

subsection \<open>The blocks of the commits\<close>

definition block_from_bytes :: "('kp, 'sig) sync_env \<Rightarrow> verified_block \<Rightarrow> bool" where
  "block_from_bytes env b \<longleftrightarrow>
     se_parse_block env (vb_serialized b) = Inr (vb_block b) \<and> vb_digest b = se_block_hash env (vb_serialized b)"

definition fetched_ok :: "('kp, 'sig) sync_env \<Rightarrow> (block_ref, verified_block) btree_map \<Rightarrow> bool" where
  "fetched_ok env m \<longleftrightarrow> (\<forall>r b. btm_get m r = Some b \<longrightarrow> vb_reference b = r \<and> block_from_bytes env b)"

lemma parse_blocks_spec:
  "parse_blocks env ss = Inr bs \<Longrightarrow> length bs = length ss \<and> (\<forall>i < length ss. se_parse_block env (ss ! i) = Inr (bs ! i))"
  by (induction ss arbitrary: bs) (auto simp: and_then_Inr nth_Cons split: nat.splits)

lemma match_blocks_spec:
  assumes "match_blocks env peer ps = Inr bs" "\<forall>p \<in> set ps. se_parse_block env (snd p) = Inr (snd (fst p))"
  shows "\<forall>b \<in> set bs. block_from_bytes env b"
  using assms
proof (induction env peer ps arbitrary: bs rule: match_blocks.induct)
  case (2 env peer requested sb s rest)
  then show ?case by (auto simp: Let_def and_then_Inr block_from_bytes_def verified_block_new_def split: if_splits)
qed simp

lemma fetch_chunk_spec:
  assumes "fetch_chunk env peer fetch refs = Inr bs"
  shows "\<forall>b \<in> set bs. block_from_bytes env b"
proof -
  from assms obtain ss sbs where "length refs = length ss" "parse_blocks env ss = Inr sbs"
      "match_blocks env peer (zip (zip refs sbs) ss) = Inr bs"
    by (auto simp: fetch_chunk_def and_then_Inr split: if_splits)
  with parse_blocks_spec [of env ss sbs] show ?thesis
    by (intro match_blocks_spec) (auto simp: set_zip)
qed

lemma fetched_ok_insert:
  assumes "fetched_ok env m" "\<forall>b \<in> set bs. block_from_bytes env b"
  shows "fetched_ok env (fold (\<lambda>b. btm_insert (vb_reference b) b) bs m)"
  using assms
proof (induction bs arbitrary: m)
  case (Cons b bs)
  have "fetched_ok env (btm_insert (vb_reference b) b m)"
    using Cons.prems by (simp add: fetched_ok_def btree_simps)
  then show ?case using Cons by simp
qed simp

lemma fetch_chunks_ok:
  "fetch_chunks env peer fetch rss m = Inr m' \<Longrightarrow> fetched_ok env m \<Longrightarrow> fetched_ok env m'"
  by (induction env peer fetch rss m rule: fetch_chunks.induct)
    (auto simp: and_then_Inr intro: fetched_ok_insert dest: fetch_chunk_spec)

lemma take_blocks_spec:
  "take_blocks rs m = Some (bs, m') \<Longrightarrow> fetched_ok env m \<Longrightarrow>
     map vb_reference bs = rs \<and> (\<forall>b \<in> set bs. block_from_bytes env b) \<and> fetched_ok env m'"
proof (induction rs m arbitrary: bs rule: take_blocks.induct)
  case (2 r rs m)
  then obtain b bs1 where b: "btm_get m r = Some b" "take_blocks rs (btm_remove r m) = Some (bs1, m')" "bs = b # bs1"
    by (auto split: bind_splits)
  moreover have "fetched_ok env (btm_remove r m)" using "2.prems"(2) by (auto simp: fetched_ok_def btree_simps)
  ultimately show ?case using "2.IH" [OF b(1)] "2.prems"(2) by (auto simp: fetched_ok_def)
qed auto

lemma assign_blocks_spec:
  "assign_blocks cs m = Some ccs \<Longrightarrow> fetched_ok env m \<Longrightarrow>
     map cc_commit ccs = cs \<and>
     (\<forall>cc \<in> set ccs. map vb_reference (cc_blocks cc) = tcm_blocks (cc_commit cc) \<and> (\<forall>b \<in> set (cc_blocks cc). block_from_bytes env b))"
proof (induction cs m arbitrary: ccs rule: assign_blocks.induct)
  case (2 c cs m)
  then obtain bs m1 rest where step: "take_blocks (tcm_blocks c) m = Some (bs, m1)" "assign_blocks cs m1 = Some rest"
      "ccs = \<lparr>cc_commit = c, cc_blocks = bs\<rparr> # rest"
    by (auto split: bind_splits)
  from take_blocks_spec [OF step(1) "2.prems"(2)] "2.IH" [OF step(1) refl step(2)] step(3) show ?case by auto
qed auto

text \<open>C13: what a fetched batch of commits is.  When \<^verbatim>\<open>fetch_once\<close> returns commits for a range, they are a chain
  from the start of the range and do not go past its end: consecutive indices, each commit naming the digest of the
  one before, each digest the hash of the received bytes.  A quorum of stake voted for the last commit, in blocks that
  pass the block verifier, and every commit comes with exactly the blocks it names, parsed from bytes with the
  digest of the reference.\<close>

theorem fetched_commits_certified:
  assumes "committee_wf (se_committee env)" "commit_range_end r < 2 ^ 32 - 1"
    and "fetch_once env p fetch_commits fetch_blocks peer r cert = Some (Inr fetched, out)"
  shows "let commits = map cc_commit (ccs_commits fetched);
             end_ref = commit_ref_new (tcm_index (last commits)) (tcm_digest (last commits))
         in certified_chain env r commits \<and>
            c_quorum_threshold (se_committee env) \<le> stake_of (se_committee env) (commit_voters end_ref (ccs_votes fetched)) \<and>
            (\<forall>b \<in> set (ccs_votes fetched). verify_block (se_verifier env) (vb_block b) = Some (Inr ())) \<and>
            (\<forall>cc \<in> set (ccs_commits fetched). map vb_reference (cc_blocks cc) = tcm_blocks (cc_commit cc) \<and>
               (\<forall>b \<in> set (cc_blocks cc). block_from_bytes env b))"
proof -
  from assms(3) obtain ss bs cs votes cert1 m where
    run: "verify_commits env peer r ss bs cert = Some (Inr (cs, votes), cert1)"
      "fetch_chunks env peer fetch_blocks (chunks (sp_max_blocks_per_fetch p) (sort (concat (map tcm_blocks cs)))) [] = Inr m"
      "assign_blocks cs m = Some (ccs_commits fetched)" "ccs_votes fetched = votes"
    by (auto simp: fetch_once_def split: sum.splits bind_splits if_splits)
  have "fetched_ok env []" by (simp add: fetched_ok_def)
  then have "map cc_commit (ccs_commits fetched) = cs" and blocks: "\<forall>cc \<in> set (ccs_commits fetched).
      map vb_reference (cc_blocks cc) = tcm_blocks (cc_commit cc) \<and> (\<forall>b \<in> set (cc_blocks cc). block_from_bytes env b)"
    using assign_blocks_spec [OF run(3) fetch_chunks_ok [OF run(2)]] by auto
  with verify_commits_sound [OF assms(1,2) run(1)] run(4) show ?thesis
    unfolding Let_def reached_quorum_def by auto
qed

subsection \<open>The votes that are counted\<close>

lemma linearize_keeps_votes:
  assumes "linearize_sub_dag dag_state_api leader d = Some (bs, d')"
  shows "ds_pending_commit_votes d' = ds_pending_commit_votes d \<and> ds_last_commit d' = ds_last_commit d"
proof -
  have mark: "ds_pending_commit_votes e' = ds_pending_commit_votes e \<and> ds_last_commit e' = ds_last_commit e"
    if "set_committed e x = (ok, e')" for e e' x ok
    using that by (auto simp: set_committed_def split: option.splits if_splits)
  have fold: "ds_pending_commit_votes (snd st') = ds_pending_commit_votes (snd st) \<and> ds_last_commit (snd st') = ds_last_commit (snd st)"
    if f: "fold_opt (commit_ancestor dag_state_api) xs st = Some st'" for xs st st'
    by (rule fold_opt_invariant [OF f]) (auto simp: commit_ancestor_def dag_state_api_def dest: mark split: prod.splits if_splits)
  have loop: "ds_pending_commit_votes (snd y) = ds_pending_commit_votes e \<and> ds_last_commit (snd y) = ds_last_commit e"
    if "linearize_loop dag_state_api gc e buffer acc = Some y" for gc e buffer acc y
    using that
  proof (induction rule: linearize_loop_induct)
    case (step d buffer x to_commit st y)
    then show ?case using fold [OF step(1)] by simp
  qed simp
  from assms obtain d1 to_commit where d1: "set_committed d (vb_reference leader) = (True, d1)"
      "linearize_loop dag_state_api (gc_round d) d1 [leader] [] = Some (to_commit, d')"
    by (auto simp: linearize_sub_dag_def Let_def dag_state_api_def split: prod.splits if_splits bind_splits)
  show ?thesis using mark [OF d1(1)] loop [OF d1(2)] by simp
qed

lemma add_commit_votes:
  assumes "add_commit d c = Some d'"
  shows "set (ds_pending_commit_votes d') \<subseteq> insert (trusted_commit_reference c) (set (ds_pending_commit_votes d))"
    and "last_commit_index d' \<le> max (last_commit_index d) (tcm_index c)"
  using assms by (auto simp: add_commit_def Let_def last_commit_index_def split: option.splits if_splits bind_splits)

lemma handle_leaders_votes:
  assumes "handle_leaders hash bcs lin d Ls acc = Some (subs, lin', d')"
    and "\<forall>v \<in> set (ds_pending_commit_votes d). has_global_context v"
    and "last_commit_index d + length Ls < 2 ^ 32"
    and "lin_epoch_base_index lin + last_commit_index d + length Ls < 2 ^ 64"
  shows "\<forall>v \<in> set (ds_pending_commit_votes d'). has_global_context v"
  using assms
proof (induction hash bcs lin d Ls acc rule: handle_leaders.induct)
  case (2 hash bcs lin d leader Ls acc)
  from "2.prems"(1) obtain sub tc d1 d2 where
    step: "try_collect_sub_dag_and_commit hash bcs lin d leader = Some (Some (sub, tc), d1)"
      "add_commit d1 tc = Some d2" "handle_leaders hash bcs lin d2 Ls (acc @ [sub]) = Some (subs, lin', d')"
    by (auto simp: try_collect_sub_dag_and_commit_def Let_def split: option.splits bind_splits)
  from step(1) obtain bs where bs: "linearize_sub_dag dag_state_api leader d = Some (bs, d1)"
    and tc: "tcm_index tc = last_commit_index d + 1"
      "cm_global_exec_index (tcm_inner tc) = lin_epoch_base_index lin + last_commit_index d + 1"
    using "2.prems"(3,4)
    by (auto simp: try_collect_sub_dag_and_commit_def Let_def trusted_commit_new_def commit_new_def u32_add_eq u64_add_eq
        split: bind_splits)
  note keep = linearize_keeps_votes [OF bs]
  have "has_global_context (trusted_commit_reference tc)"
    by (simp add: has_global_context_def trusted_commit_reference_def tc)
  then have votes: "\<forall>v \<in> set (ds_pending_commit_votes d2). has_global_context v"
    using add_commit_votes(1) [OF step(2)] "2.prems"(2) keep by auto
  have "last_commit_index d2 \<le> last_commit_index d + 1"
    using add_commit_votes(2) [OF step(2)] keep tc(1) by (simp add: last_commit_index_def)
  then show ?case using "2.IH"(1) [OF step(1) refl refl refl step(2,3) votes] "2.prems"(3,4) by simp
qed simp

lemma count_end_votes_none:
  assumes "ref \<notin> set (vb_commit_votes b)"
  shows "count_end_votes c ref b agg = Some agg"
proof -
  have "ref \<notin> set votes \<Longrightarrow>
    fold_opt (\<lambda>vote agg. if vote = ref then map_option snd (aggregator_add reached_quorum agg (vb_author b) c) else Some agg)
      votes agg = Some agg" for votes
    by (induction votes) auto
  with assms show ?thesis by (simp add: count_end_votes_def)
qed

text \<open>C17: the votes a node casts are not the votes that \<^verbatim>\<open>verify_commits\<close> counts.  A node votes with the references
  of the commits its linearizer made, which carry the global execution index; \<^verbatim>\<open>verify_commits\<close> looks for a
  reference with global index 0.  A block whose commit votes come from \<^verbatim>\<open>take_commit_votes\<close> after \<^verbatim>\<open>handle_commit\<close>
  therefore adds no stake for any commit index and digest.\<close>

theorem commit_votes_not_counted:
  assumes "handle_commit hash bcs lin d Ls = Some (subs, lin', d')"
    and "\<forall>v \<in> set (ds_pending_commit_votes d). has_global_context v"
    and "last_commit_index d + length (lin_deferred_leaders lin @ Ls) < 2 ^ 32"
    and "lin_epoch_base_index lin + last_commit_index d + length (lin_deferred_leaders lin @ Ls) < 2 ^ 64"
    and "vb_commit_votes b = fst (take_commit_votes d' limit)"
  shows "count_end_votes c (commit_ref_new index dig) b agg = Some agg"
proof -
  have pending: "\<forall>v \<in> set (ds_pending_commit_votes d'). has_global_context v"
    by (rule handle_leaders_votes [OF assms(1) [unfolded handle_commit_def]]) (use assms(2-4) in simp_all)
  obtain votes rest where loop: "take_votes_loop limit (ds_pending_commit_votes d') {} [] = (votes, rest)" by fastforce
  then have "vb_commit_votes b = votes" using assms(5) by (simp add: take_commit_votes_def)
  moreover have "set votes \<subseteq> set (ds_pending_commit_votes d')"
    using take_votes_loop_spec [OF loop] by auto
  moreover have "\<not> has_global_context (commit_ref_new index dig)" by (simp add: has_global_context_def commit_ref_new_def)
  ultimately have "commit_ref_new index dig \<notin> set (vb_commit_votes b)" using pending by blast
  then show ?thesis by (rule count_end_votes_none)
qed

lemma count_commit_votes_from:
  assumes "count_commit_votes env ref agg blocks cert ss = Some (Inr (agg', blocks'), cert')"
  shows "\<forall>b \<in> set blocks'. b \<in> set blocks \<or> (\<exists>s \<in> set ss. se_parse_block env s = Inr (vb_block b))"
  using assms
proof (induction env ref agg blocks cert ss rule: count_commit_votes.induct)
  case (2 env ref agg blocks cert s rest)
  from "2.prems" obtain sb where sb: "map_err MalformedBlock (se_parse_block env s) = Inr sb"
    by (auto split: sum.splits)
  with "2.prems" obtain b rejected cert1 agg1 where step: "verify_and_vote (se_verifier env) sb s = Some (Inr (b, rejected))"
      "certify_votes env [(b, rejected)] cert = Some cert1" "count_end_votes (se_committee env) ref b agg = Some agg1"
      "count_commit_votes env ref agg1 (blocks @ [b]) cert1 rest = Some (Inr (agg', blocks'), cert')"
    by (auto split: sum.splits bind_splits)
  have "se_parse_block env s = Inr (vb_block b)"
    using verify_and_vote_block [OF step(1)] sb by (simp add: verified_block_new_def)
  then show ?case using "2.IH" [OF sb step(1) refl refl step(2-4)] by auto
qed auto

text \<open>C18: commit synchronisation does not certify anything while the nodes vote as they do.  If every commit vote
  of the authorities outside a set below the quorum carries a global execution index, \<^verbatim>\<open>verify_commits\<close> returns an
  error, whatever chain of commits the peer sends.\<close>

theorem commit_sync_never_certifies:
  assumes "committee_wf (se_committee env)" "commit_range_end r < 2 ^ 32 - 1"
    and "stake_of (se_committee env) byz < c_quorum_threshold (se_committee env)"
    and votes: "\<forall>s \<in> set bs. \<forall>sb. se_parse_block env s = Inr sb \<and> block_author (sb_inner sb) \<notin> byz \<longrightarrow>
      (\<forall>v \<in> set (block_commit_votes (sb_inner sb)). has_global_context v)"
    and run: "verify_commits env peer r ss bs cert = Some (result, out)"
  shows "\<exists>e. result = Inl e"
proof (cases result)
  case (Inr ok)
  obtain cs vs where "ok = (cs, vs)" by fastforce
  with Inr run have run: "verify_commits env peer r ss bs cert = Some (Inr (cs, vs), out)" by simp
  let ?ref = "commit_ref_new (tcm_index (last cs)) (tcm_digest (last cs))"
  have from_bytes: "\<exists>s \<in> set bs. se_parse_block env s = Inr (vb_block b)" if "b \<in> set vs" for b
    using run that
    by (auto simp: verify_commits_def split: sum.splits if_splits bind_splits prod.splits dest!: count_commit_votes_from)
  have "commit_voters ?ref vs \<subseteq> byz"
  proof
    fix a assume "a \<in> commit_voters ?ref vs"
    then obtain b where b: "b \<in> set vs" "?ref \<in> set (vb_commit_votes b)" "a = vb_author b"
      by (auto simp: commit_voters_def)
    have "\<not> has_global_context ?ref" by (simp add: has_global_context_def commit_ref_new_def)
    then show "a \<in> byz"
      using b from_bytes [OF b(1)] votes by (auto simp: vb_commit_votes_def vb_author_def)
  qed
  then have "stake_of (se_committee env) (commit_voters ?ref vs) < c_quorum_threshold (se_committee env)"
    using assms(3) stake_of_mono by (meson le_less_trans)
  then show ?thesis
    using verify_commits_sound [OF assms(1,2) run] by (simp add: reached_quorum_def)
qed simp

subsection \<open>What a fetch task returns\<close>

lemma fetch_from_targets_once:
  assumes "fetch_from_targets env p net r round targets cert = Some (Some commits, out)"
  shows "\<exists>fc fb peer cert. fetch_once env p fc fb peer r cert = Some (Inr commits, out)"
  using assms
proof (induction targets arbitrary: cert)
  case (Cons peer targets)
  show ?case
  proof (cases "sn_timed_out net round peer (4 * request_timeout round)")
    case (Some cert')
    then show ?thesis using Cons by (auto split: bind_splits)
  next
    case None
    with Cons.prems obtain result cert' where once:
      "fetch_once env p (sn_fetch_commits net round peer r (request_timeout round))
         (sn_fetch_blocks net round peer (request_timeout round)) peer r cert = Some (result, cert')"
      by (auto split: bind_splits)
    show ?thesis
    proof (cases result)
      case (Inl e)
      then show ?thesis using Cons None once by (auto split: bind_splits)
    next
      case (Inr x)
      then show ?thesis using Cons.prems None once by (auto simp del: split_paired_Ex)
    qed
  qed
qed simp

lemma fetch_loop_once:
  assumes "fetch_loop env p net r round cert = Some ((target_end, commits), out)"
  shows "target_end = commit_range_end r \<and> (\<exists>fc fb peer cert. fetch_once env p fc fb peer r cert = Some (Inr commits, out))"
proof -
  have "fst (fst y) = commit_range_end r \<and> (\<exists>fc fb peer cert. fetch_once env p fc fb peer r cert = Some (Inr (snd (fst y)), snd y))"
    if "fetch_loop env p net r round cert = Some y" for y
    by (rule fetch_loop.raw_induct [OF _ that], goal_cases)
      (auto simp del: split_paired_Ex split: option.splits dest: fetch_from_targets_once)
  from this [OF assms] show ?thesis by simp
qed

text \<open>The task ends once some round has a peer whose answer is accepted.\<close>

lemma fetch_loop_returns:
  assumes no_panic: "\<And>n cert. fetch_from_targets env p net r n (fetch_targets (sv_context (se_verifier env)) net n) cert \<noteq> None"
    and answered: "\<And>cert. \<exists>commits out. fetch_from_targets env p net r k (fetch_targets (sv_context (se_verifier env)) net k) cert = Some (Some commits, out)"
    and "n \<le> k"
  shows "\<exists>y. fetch_loop env p net r n cert = Some y"
  using assms(3)
proof (induction "k - n" arbitrary: n cert)
  case 0
  then have "n = k" by simp
  with answered [of cert] show ?case by (subst fetch_loop.simps) auto
next
  case (Suc m)
  obtain found out where "fetch_from_targets env p net r n (fetch_targets (sv_context (se_verifier env)) net n) cert = Some (found, out)"
    using no_panic [of n cert] by auto
  moreover have "\<exists>y. fetch_loop env p net r (n + 1) out = Some y" using Suc by (intro Suc(1)) auto
  ultimately show ?case by (subst fetch_loop.simps) (auto split: option.splits)
qed

end
