(* ===== verification/Commit_Syncer_Properties.thy ===== *)
theory Commit_Syncer_Properties
  imports Commit_Certification
begin

section \<open>What the commit syncer guarantees\<close>

text \<open>
  The scheduler of the commit syncer.  Fetched batches reach the core in order and without a gap, and in every
  reachable state each commit that was scheduled and is not synced is in a range that is pending, in flight or
  fetched: no commit is lost, however the answers of the peers are interleaved and cut short.
\<close>

subsection \<open>Ranges\<close>

definition range_ok :: "CommitIndex \<Rightarrow> commit_range \<Rightarrow> bool" where
  "range_ok bound r \<longleftrightarrow> range_first r < range_next r \<and> range_next r \<le> bound + 1"

lemma range_ok_indices:
  "range_ok bound r \<Longrightarrow> commit_range_indices r = {commit_range_start r..commit_range_end r} \<and> commit_range_end r \<le> bound \<and>
     commit_range_start r \<le> commit_range_end r"
  by (auto simp: range_ok_def commit_range_indices_def commit_range_start_def commit_range_end_def)

lemma range_ok_new:
  assumes "i \<le> j" "j \<le> bound" "bound < 2 ^ 32 - 1"
  shows "range_ok bound (commit_range_new i j)" "commit_range_indices (commit_range_new i j) = {i..j}"
    "commit_range_start (commit_range_new i j) = i" "commit_range_end (commit_range_new i j) = j"
  using assms
  by (auto simp: range_ok_def commit_range_new_def commit_range_indices_def commit_range_start_def
      commit_range_end_def u32_sat_add_def min_def)

subsection \<open>Delivery to the core\<close>

text \<open>\<open>carries s rs e\<close>: the ranges, one after the other, take the synced index from \<open>s\<close> to \<open>e\<close>; none starts after
  a gap and each one brings something new.\<close>

fun carries :: "CommitIndex \<Rightarrow> commit_range list \<Rightarrow> CommitIndex \<Rightarrow> bool" where
  "carries s [] e \<longleftrightarrow> e = s"
| "carries s (r # rs) e \<longleftrightarrow> commit_range_start r \<le> s + 1 \<and> s < commit_range_end r \<and> carries (commit_range_end r) rs e"

definition deliver_batch ::
  "(certified_commits \<Rightarrow> 'c \<Rightarrow> (block_ref btree_set \<times> 'c) option) \<Rightarrow> certified_commits \<Rightarrow> 'c \<Rightarrow> 'c option" where
  "deliver_batch dispatch commits core = map_option snd (dispatch commits core)"

lemma carries_le: "carries s rs e \<Longrightarrow> s \<le> e"
  by (induction s rs e rule: carries.induct) auto

lemma carries_covers:
  "carries s rs e \<Longrightarrow> s < i \<Longrightarrow> i \<le> e \<Longrightarrow> \<exists>r \<in> set rs. commit_range_start r \<le> i \<and> i \<le> commit_range_end r"
proof (induction s rs e rule: carries.induct)
  case (2 s r rs e)
  then show ?case by (cases "i \<le> commit_range_end r") auto
qed auto

lemma drain_fetched_spec:
  assumes "drain_fetched c dispatch m s core = Some (m', s', core', up)" "s < 2 ^ 32 - 1"
    and "\<forall>r \<in> fst ` set m. commit_range_end r < 2 ^ 32 - 1"
  shows "\<exists>sent. set sent \<subseteq> set m \<and> carries s (map fst sent) s' \<and>
           fold_opt (deliver_batch dispatch) (map snd sent) core = Some core'"
  using assms
proof (induction m arbitrary: s core)
  case (Cons p m)
  obtain r commits where p: "p = (r, commits)" by (cases p)
  have s1: "u32_add s 1 = s + 1" using Cons.prems(2) by (simp add: u32_add_eq)
  consider (gap) "s + 1 < commit_range_start r"
    | (old) "commit_range_start r \<le> s + 1" "commit_range_end r \<le> s"
    | (new) "commit_range_start r \<le> s + 1" "s < commit_range_end r" by linarith
  then show ?case
  proof cases
    case gap
    then show ?thesis using Cons.prems(1) s1 by (auto simp: p intro!: exI [of _ "[]"])
  next
    case old
    then have "drain_fetched c dispatch m s core = Some (m', s', core', up)"
      using Cons.prems(1) s1 by (simp add: p)
    from Cons.IH [OF this] Cons.prems(2,3) show ?thesis by (auto simp: p)
  next
    case new
    show ?thesis
    proof (cases "dispatch commits core")
      case None
      then show ?thesis using Cons.prems(1) s1 new by (auto simp: p intro!: exI [of _ "[]"])
    next
      case (Some mc)
      obtain missing core2 where mc: "mc = (missing, core2)" by (cases mc)
      have "drain_fetched c dispatch m (commit_range_end r) core2 = Some (m', s', core', up)"
        using Cons.prems(1) s1 new Some by (auto simp: p mc max_def split: bind_splits)
      from Cons.IH [OF this] Cons.prems(3) obtain sent where sent: "set sent \<subseteq> set m"
          "carries (commit_range_end r) (map fst sent) s'" "fold_opt (deliver_batch dispatch) (map snd sent) core2 = Some core'"
        by (auto simp: p)
      moreover have "deliver_batch dispatch commits core = Some core2" by (simp add: deliver_batch_def Some mc)
      ultimately show ?thesis using new by (intro exI [of _ "(r, commits) # sent"]) (auto simp: p)
    qed
  qed
qed (auto intro!: exI [of _ "[]"])

text \<open>What is left starts after a gap; a range that was taken out is synced.\<close>

lemma drain_fetched_rest:
  assumes "drain_fetched c dispatch m s core = Some (m', s', core', True)" "s < 2 ^ 32 - 1" "btm_wf m"
    and "\<forall>r \<in> fst ` set m. commit_range_end r < 2 ^ 32 - 1"
  shows "(\<forall>p \<in> set m'. s' + 1 < commit_range_start (fst p)) \<and> set m' \<subseteq> set m \<and> btm_wf m' \<and>
         (\<forall>p \<in> set m - set m'. commit_range_end (fst p) \<le> s') \<and> s \<le> s'"
  using assms
proof (induction m arbitrary: s core)
  case (Cons p m)
  obtain r commits where p: "p = (r, commits)" by (cases p)
  have s1: "u32_add s 1 = s + 1" using Cons.prems(2) by (simp add: u32_add_eq)
  consider (gap) "s + 1 < commit_range_start r"
    | (old) "commit_range_start r \<le> s + 1" "commit_range_end r \<le> s"
    | (new) "commit_range_start r \<le> s + 1" "s < commit_range_end r" by linarith
  then show ?case
  proof cases
    case gap
    have "commit_range_start r \<le> commit_range_start (fst q)" if "q \<in> set m" for q
    proof -
      have "r < fst q" using Cons.prems(3) that by (auto simp: p btm_keys_def)
      then show ?thesis by (auto simp: less_commit_range_def commit_range_start_def)
    qed
    then show ?thesis using Cons.prems(1,3) s1 gap by (fastforce simp: p)
  next
    case old
    then have "drain_fetched c dispatch m s core = Some (m', s', core', True)"
      using Cons.prems(1) s1 by (simp add: p)
    from Cons.IH [OF this] Cons.prems(2-4) old show ?thesis by (auto simp: p)
  next
    case new
    then obtain missing core2 where "dispatch commits core = Some (missing, core2)"
      using Cons.prems(1) s1 by (auto simp: p split: option.splits)
    then have "drain_fetched c dispatch m (commit_range_end r) core2 = Some (m', s', core', True)"
      using Cons.prems(1) s1 new by (auto simp: p max_def split: bind_splits)
    from Cons.IH [OF this] Cons.prems(3,4) new show ?thesis by (auto simp: p)
  qed
qed auto

definition batch_of :: "commit_range \<Rightarrow> certified_commits \<Rightarrow> bool" where
  "batch_of r commits \<longleftrightarrow>
     ccs_commits commits \<noteq> [] \<and> commit_range_start r = commits_start commits \<and> commit_range_end r = commits_end commits"

subsection \<open>The invariant of the scheduler\<close>

definition sync_ranges :: "commit_syncer \<Rightarrow> commit_range set" where
  "sync_ranges sy = set (sy_inflight_fetches sy) \<union> set (sy_pending_fetches sy) \<union> fst ` set (sy_fetched_ranges sy)"

definition scheduled_index :: "commit_syncer \<Rightarrow> CommitIndex" where
  "scheduled_index sy = (case sy_highest_scheduled_index sy of None \<Rightarrow> 0 | Some i \<Rightarrow> i)"

definition sync_covered :: "commit_syncer \<Rightarrow> CommitIndex \<Rightarrow> bool" where
  "sync_covered sy i \<longleftrightarrow> (\<exists>r \<in> sync_ranges sy. i \<in> commit_range_indices r)"

definition sync_inv :: "CommitIndex \<Rightarrow> commit_syncer \<Rightarrow> bool" where
  "sync_inv bound sy \<longleftrightarrow>
     bts_wf (sy_pending_fetches sy) \<and> btm_wf (sy_fetched_ranges sy) \<and>
     (\<forall>r \<in> sync_ranges sy. range_ok bound r) \<and>
     (\<forall>(r, commits) \<in> set (sy_fetched_ranges sy). batch_of r commits) \<and>
     sy_synced_commit_index sy \<le> bound \<and> scheduled_index sy \<le> bound \<and>
     (\<forall>i. sy_synced_commit_index sy < i \<and> i \<le> scheduled_index sy \<longrightarrow> sync_covered sy i)"

lemma sync_inv_new: "i \<le> bound \<Longrightarrow> sync_inv bound (commit_syncer_new i)"
  by (simp add: sync_inv_def commit_syncer_new_def sync_ranges_def scheduled_index_def)

lemma sync_inv_synced:
  assumes "sync_inv bound sy" "local \<le> bound"
  shows "sync_inv bound (sy\<lparr>sy_synced_commit_index := max (sy_synced_commit_index sy) local\<rparr>)"
  using assms by (auto simp: sync_inv_def sync_ranges_def scheduled_index_def sync_covered_def)

lemma sync_inv_fast_forward:
  assumes "sync_inv bound sy" "quorum_commit \<le> bound"
  shows "sync_inv bound (fast_forward quorum_commit local sy)"
  using assms by (auto simp: fast_forward_def sync_inv_def sync_ranges_def scheduled_index_def)

lemma sync_inv_retain:
  assumes "sync_inv bound sy"
  shows "sync_inv bound (sy\<lparr>sy_pending_fetches :=
    filter (\<lambda>r. commit_range_end r > sy_synced_commit_index sy) (sy_pending_fetches sy)\<rparr>)" (is "sync_inv bound ?sy")
proof -
  have "sync_covered ?sy i" if i: "sy_synced_commit_index sy < i" "i \<le> scheduled_index sy" for i
  proof -
    from assms i obtain r where r: "r \<in> sync_ranges sy" "i \<in> commit_range_indices r" "range_ok bound r"
      by (auto simp: sync_inv_def sync_covered_def)
    then have "i \<le> commit_range_end r" by (auto dest: range_ok_indices)
    with r i show ?thesis by (auto simp: sync_covered_def sync_ranges_def)
  qed
  moreover have "bts_wf (filter P (sy_pending_fetches sy))" for P
    using assms by (auto simp: sync_inv_def bts_wf_def sorted_wrt_filter)
  ultimately show ?thesis
    using assms by (auto simp: sync_inv_def sync_ranges_def scheduled_index_def)
qed

lemma sync_inv_sync_mode: "sync_inv bound (sy\<lparr>sy_is_sync_mode := b\<rparr>) = sync_inv bound sy"
  by (simp add: sync_inv_def sync_ranges_def scheduled_index_def sync_covered_def)

lemma sync_inv_schedule_range:
  assumes "sync_inv bound sy" "prev_end + batch \<le> bound" "0 < batch" "bound < 2 ^ 32 - 1"
    and "prev_end = max (sy_synced_commit_index sy) (scheduled_index sy)"
  shows "sync_inv bound (sy\<lparr>sy_pending_fetches := bts_insert (commit_range_new (prev_end + 1) (prev_end + batch)) (sy_pending_fetches sy),
           sy_highest_scheduled_index := Some (prev_end + batch)\<rparr>)" (is "sync_inv bound ?sy")
proof -
  let ?r = "commit_range_new (prev_end + 1) (prev_end + batch)"
  have r: "range_ok bound ?r" "commit_range_indices ?r = {prev_end + 1..prev_end + batch}"
    using assms(2-4) range_ok_new [of "prev_end + 1" "prev_end + batch" bound] by auto
  have sub: "sync_ranges ?sy = insert ?r (sync_ranges sy)" by (auto simp: sync_ranges_def btree_simps)
  have "sync_covered ?sy i" if "sy_synced_commit_index sy < i" "i \<le> prev_end + batch" for i
  proof (cases "i \<le> prev_end")
    case True
    then have "sync_covered sy i" using assms(1,5) that by (auto simp: sync_inv_def max_def split: if_splits)
    then show ?thesis unfolding sync_covered_def sub by blast
  next
    case False
    then have "i \<in> commit_range_indices ?r" using that r(2) by simp
    then show ?thesis unfolding sync_covered_def sub by blast
  qed
  then show ?thesis
    using assms(1,2) r(1) unfolding sync_inv_def sub by (auto simp: scheduled_index_def btree_simps)
qed

lemma sync_inv_schedule_ranges:
  assumes "sync_inv bound sy" "quorum_commit \<le> bound" "bound + batch < 2 ^ 32 - 1"
    and "prev_end = max (sy_synced_commit_index sy) (scheduled_index sy)"
  shows "sync_inv bound (schedule_ranges quorum_commit limit batch prev_end sy)"
  using assms
proof (induction quorum_commit limit batch prev_end sy rule: schedule_ranges.induct)
  case (1 quorum_commit limit batch prev_end sy)
  show ?case
  proof (cases "batch = 0 \<or> quorum_commit < prev_end + batch \<or> limit < prev_end + batch")
    case True
    have "prev_end \<le> bound" using "1.prems"(1,4) by (simp add: sync_inv_def)
    then have "u32_add prev_end 1 = prev_end + 1" "u32_add prev_end batch = prev_end + batch"
      using "1.prems"(3) by (simp_all add: u32_add_eq)
    with True have "schedule_ranges quorum_commit limit batch prev_end sy = sy"
      by (subst schedule_ranges.simps) (auto simp: Let_def)
    then show ?thesis using "1.prems"(1) by simp
  next
    case False
    then have u: "u32_add prev_end 1 = prev_end + 1" "u32_add prev_end batch = prev_end + batch"
      using "1.prems"(2,3) by (simp_all add: u32_add_eq)
    let ?sy = "sy\<lparr>sy_pending_fetches := bts_insert (commit_range_new (prev_end + 1) (prev_end + batch)) (sy_pending_fetches sy),
           sy_highest_scheduled_index := Some (prev_end + batch)\<rparr>"
    have "sync_inv bound ?sy" using False "1.prems" by (intro sync_inv_schedule_range) auto
    moreover have "prev_end + batch = max (sy_synced_commit_index ?sy) (scheduled_index ?sy)"
      using "1.prems"(4) by (simp add: scheduled_index_def)
    moreover have "\<not> (batch = 0 \<or> quorum_commit < prev_end)" "\<not> quorum_commit < u32_add prev_end batch"
        "\<not> limit < u32_add prev_end batch"
      using False u by auto
    ultimately have "sync_inv bound (schedule_ranges quorum_commit limit batch (prev_end + batch) ?sy)"
      using "1.IH" [OF _ refl refl] "1.prems"(2,3) unfolding u by blast
    moreover have "schedule_ranges quorum_commit limit batch prev_end sy
        = schedule_ranges quorum_commit limit batch (prev_end + batch) ?sy"
      using False u by (subst schedule_ranges.simps) (simp add: Let_def)
    ultimately show ?thesis by simp
  qed
qed

lemma effective_batch_size_le: "effective_batch_size p sync_mode lag quorum_commit \<le> 2 * sp_commit_sync_batch_size p"
proof -
  have "(a::nat) mod 2 ^ 32 \<le> a" for a by simp
  from this [of "sp_commit_sync_batch_size p * 2"] this [of "sp_commit_sync_batch_size p + sp_commit_sync_batch_size p div 2"]
  show ?thesis by (auto simp: effective_batch_size_def u32_mul_def u32_add_def Let_def)
qed

lemma sync_inv_schedule_once:
  assumes "sync_inv bound sy" "try_schedule_once p quorum_commit local handled sy = Some sy'"
    and "quorum_commit \<le> bound" "local \<le> bound" "bound + 2 * sp_commit_sync_batch_size p < 2 ^ 32 - 1"
  shows "sync_inv bound sy'"
proof -
  define sy1 where "sy1 = fast_forward quorum_commit local (sy\<lparr>sy_synced_commit_index := max (sy_synced_commit_index sy) local\<rparr>)"
  define sy2 where "sy2 = sy1\<lparr>sy_is_sync_mode := should_be_in_sync_mode (quorum_commit - local) quorum_commit\<rparr>"
  define sy3 where "sy3 = sy2\<lparr>sy_pending_fetches :=
    filter (\<lambda>r. commit_range_end r > sy_synced_commit_index sy2) (sy_pending_fetches sy2)\<rparr>"
  let ?batch = "effective_batch_size p (sy_is_sync_mode sy3) (quorum_commit - local) quorum_commit"
  have "sync_inv bound sy3"
    unfolding sy3_def sy2_def sy1_def
    by (intro sync_inv_retain iffD2 [OF sync_inv_sync_mode] sync_inv_fast_forward sync_inv_synced assms)
  moreover have "bound + ?batch < 2 ^ 32 - 1" using effective_batch_size_le assms(5) by (meson le_less_trans add_left_mono)
  moreover have "fetch_after_index sy3 = max (sy_synced_commit_index sy3) (scheduled_index sy3)"
    by (simp add: fetch_after_index_def scheduled_index_def)
  ultimately have "sync_inv bound (schedule_ranges quorum_commit limit ?batch (fetch_after_index sy3) sy3)" for limit
    using assms(3) by (intro sync_inv_schedule_ranges)
  then show ?thesis
    using assms(2) unfolding try_schedule_once_def Let_def sy1_def [symmetric] sy2_def [symmetric] sy3_def [symmetric]
    by (auto split: if_splits)
qed

lemma start_fetches_set:
  "start_fetches target inflight pending = (inflight', pending') \<Longrightarrow>
     set inflight' \<union> set pending' = set inflight \<union> set pending \<and> (\<exists>started. pending = started @ pending')"
proof (induction target inflight pending rule: start_fetches.induct)
  case (2 target inflight r pending)
  show ?case
  proof (cases "length inflight \<ge> target")
    case False
    with 2 obtain started where "set inflight' \<union> set pending' = set (inflight @ [r]) \<union> set pending" "pending = started @ pending'"
      by auto
    then show ?thesis by (auto intro!: exI [of _ "r # started"])
  qed (use 2 in auto)
qed auto

lemma sync_inv_start_fetches:
  assumes "sync_inv bound sy"
  shows "sync_inv bound (try_start_fetches p c sy)"
proof -
  obtain inflight pending where st: "start_fetches (target_parallel_fetches p c sy) (sy_inflight_fetches sy) (sy_pending_fetches sy)
      = (inflight, pending)"
    by fastforce
  then have eq: "try_start_fetches p c sy = sy\<lparr>sy_inflight_fetches := inflight, sy_pending_fetches := pending\<rparr>"
    by (simp add: try_start_fetches_def)
  from start_fetches_set [OF st] have ranges: "sync_ranges (try_start_fetches p c sy) = sync_ranges sy"
    and "bts_wf pending"
    using assms by (auto simp: eq sync_ranges_def sync_inv_def bts_wf_def sorted_wrt_append)
  then show ?thesis
    using assms unfolding sync_inv_def sync_covered_def ranges by (auto simp: eq scheduled_index_def)
qed

text \<open>A result answers its range: it starts where the range starts and does not go past its end.\<close>

definition answers :: "commit_range \<Rightarrow> certified_commits \<Rightarrow> bool" where
  "answers r commits \<longleftrightarrow>
     ccs_commits commits \<noteq> [] \<and> commits_start commits = commit_range_start r \<and>
     commits_start commits \<le> commits_end commits \<and> commits_end commits \<le> commit_range_end r"

lemma record_fetched_fields:
  "sy_inflight_fetches (record_fetched local target commits sy) = sy_inflight_fetches sy"
  "sy_highest_scheduled_index (record_fetched local target commits sy) = sy_highest_scheduled_index sy"
  "sy_synced_commit_index (record_fetched local target commits sy) = max (sy_synced_commit_index sy) local"
  "sy_pending_fetches (record_fetched local target commits sy) =
     (if commits_end commits < target
      then bts_insert (commit_range_new (u32_add (commits_end commits) 1) target) (sy_pending_fetches sy)
      else sy_pending_fetches sy)"
  "sy_fetched_ranges (record_fetched local target commits sy) =
     (if max (sy_synced_commit_index sy) local < commits_end commits
      then btm_insert (commit_range_new (commits_start commits) (commits_end commits)) commits (sy_fetched_ranges sy)
      else sy_fetched_ranges sy)"
  by (simp_all add: record_fetched_def Let_def)

lemma set_btm_insert_subset: "set (btm_insert k v m) \<subseteq> insert (k, v) (set m)"
  by (induction k v m rule: btm_insert.induct) auto

lemma fst_set_btm_insert: "fst ` set (btm_insert k v m) = insert k (fst ` set m)"
  by (induction k v m rule: btm_insert.induct) auto

lemma sync_inv_record_fetched:
  assumes inv: "sync_inv bound sy" and r: "r \<in> set (sy_inflight_fetches sy)" "answers r commits"
    and bounds: "local \<le> bound" "bound < 2 ^ 32 - 1"
  shows "sync_inv bound (record_fetched local (commit_range_end r) commits
           (sy\<lparr>sy_inflight_fetches := remove1 r (sy_inflight_fetches sy)\<rparr>))" (is "sync_inv bound ?sy")
proof -
  let ?s = "commits_start commits" and ?e = "commits_end commits" and ?t = "commit_range_end r"
  have rok: "range_ok bound r" using inv r(1) by (auto simp: sync_inv_def sync_ranges_def)
  then have ri: "commit_range_indices r = {?s..?t}" "?s \<le> ?e" "?e \<le> ?t" "?t \<le> bound"
    using r(2) range_ok_indices [OF rok] by (auto simp: answers_def)
  have u: "u32_add ?e (Suc 0) = Suc ?e" using ri(3,4) bounds(2) by (simp add: u32_add_eq)
  have got: "range_ok bound (commit_range_new ?s ?e)" "commit_range_indices (commit_range_new ?s ?e) = {?s..?e}"
    "batch_of (commit_range_new ?s ?e) commits"
    using range_ok_new [of ?s ?e bound] ri bounds(2) r(2) by (auto simp: batch_of_def answers_def)
  have rest: "range_ok bound (commit_range_new (?e + 1) ?t)" "commit_range_indices (commit_range_new (?e + 1) ?t) = {?e + 1..?t}"
    if "?e < ?t"
    using range_ok_new [of "?e + 1" ?t bound] ri that bounds(2) by auto
  have old: "q \<in> sync_ranges ?sy" if "q \<in> sync_ranges sy" "q \<noteq> r" for q
    using that by (auto simp: sync_ranges_def record_fetched_fields btree_simps fst_set_btm_insert)
  have "sync_covered ?sy i" if i: "sy_synced_commit_index ?sy < i" "i \<le> scheduled_index sy" for i
  proof -
    from inv i obtain q where q: "q \<in> sync_ranges sy" "i \<in> commit_range_indices q"
      by (auto simp: sync_inv_def sync_covered_def record_fetched_fields)
    consider "q \<noteq> r" | "i \<in> {?s..?e}" | "i \<in> {?e + 1..?t}" using q(2) ri(1) by force
    then show ?thesis
    proof cases
      case 1
      then show ?thesis using q old by (auto simp: sync_covered_def)
    next
      case 2
      then have "commit_range_new ?s ?e \<in> sync_ranges ?sy"
        using i(1) by (auto simp: sync_ranges_def record_fetched_fields fst_set_btm_insert)
      then show ?thesis using 2 got(2) unfolding sync_covered_def by blast
    next
      case 3
      then have "commit_range_new (?e + 1) ?t \<in> sync_ranges ?sy"
        by (auto simp: sync_ranges_def record_fetched_fields btree_simps u)
      moreover have "i \<in> commit_range_indices (commit_range_new (?e + 1) ?t)" using 3 rest(2) by simp
      ultimately show ?thesis unfolding sync_covered_def by blast
    qed
  qed
  moreover have "range_ok bound q" if "q \<in> sync_ranges ?sy" for q
  proof -
    have "q \<in> sync_ranges sy \<or> q = commit_range_new ?s ?e \<or> ?e < ?t \<and> q = commit_range_new (?e + 1) ?t"
      using that notin_set_remove1
      by (auto simp: sync_ranges_def record_fetched_fields btree_simps fst_set_btm_insert u split: if_splits)
    then show ?thesis using inv got(1) rest(1) by (auto simp: sync_inv_def)
  qed
  moreover have "batch_of q b" if "(q, b) \<in> set (sy_fetched_ranges ?sy)" for q b
    using that inv got(3) set_btm_insert_subset [of "commit_range_new ?s ?e" commits "sy_fetched_ranges sy"]
    by (auto simp: sync_inv_def record_fetched_fields split: if_splits)
  moreover have "scheduled_index ?sy = scheduled_index sy" by (simp add: scheduled_index_def record_fetched_fields)
  moreover have "sy_synced_commit_index ?sy \<le> bound" "bts_wf (sy_pending_fetches ?sy)" "btm_wf (sy_fetched_ranges ?sy)"
    using inv bounds(1) by (auto simp: sync_inv_def record_fetched_fields btree_simps)
  ultimately show ?thesis using inv by (auto simp: sync_inv_def)
qed

lemma sync_inv_drain:
  assumes inv: "sync_inv bound sy" and "bound < 2 ^ 32 - 1"
    and drain: "drain_fetched c dispatch (sy_fetched_ranges sy) (sy_synced_commit_index sy) core = Some (fetched, synced, core', True)"
  shows "sync_inv bound (sy\<lparr>sy_fetched_ranges := fetched, sy_synced_commit_index := synced\<rparr>)" (is "sync_inv bound ?sy")
proof -
  have ends: "\<forall>r \<in> fst ` set (sy_fetched_ranges sy). commit_range_end r \<le> bound \<and> commit_range_end r < 2 ^ 32 - 1"
    using inv assms(2) range_ok_indices by (fastforce simp: sync_inv_def sync_ranges_def)
  have s: "sy_synced_commit_index sy < 2 ^ 32 - 1" using inv assms(2) by (auto simp: sync_inv_def)
  have rest: "set fetched \<subseteq> set (sy_fetched_ranges sy)" "btm_wf fetched" "sy_synced_commit_index sy \<le> synced"
    "\<forall>p \<in> set (sy_fetched_ranges sy) - set fetched. commit_range_end (fst p) \<le> synced"
    using drain_fetched_rest [OF drain s _] ends inv by (auto simp: sync_inv_def)
  obtain sent where sent: "set sent \<subseteq> set (sy_fetched_ranges sy)" "carries (sy_synced_commit_index sy) (map fst sent) synced"
    using drain_fetched_spec [OF drain s] ends by auto
  have "carries a rs e \<Longrightarrow> a \<le> bound \<Longrightarrow> \<forall>r \<in> set rs. commit_range_end r \<le> bound \<Longrightarrow> e \<le> bound" for a rs e
    by (induction a rs e rule: carries.induct) auto
  from this [OF sent(2)] have "synced \<le> bound"
    using sent(1) ends inv by (force simp: sync_inv_def)
  have sub: "sync_ranges ?sy \<subseteq> sync_ranges sy" using rest(1) by (auto simp: sync_ranges_def)
  have "sync_covered ?sy i" if i: "synced < i" "i \<le> scheduled_index sy" for i
  proof -
    have "sy_synced_commit_index sy < i" using i(1) rest(3) by simp
    with inv i(2) obtain q where q: "q \<in> sync_ranges sy" "i \<in> commit_range_indices q" "range_ok bound q"
      by (auto simp: sync_inv_def sync_covered_def)
    have "q \<in> sync_ranges ?sy"
    proof (rule ccontr)
      assume "q \<notin> sync_ranges ?sy"
      then obtain b where "(q, b) \<in> set (sy_fetched_ranges sy) - set fetched"
        using q(1) by (force simp: sync_ranges_def)
      from bspec [OF rest(4) this] have "commit_range_end q \<le> synced" by simp
      then show False using q(2,3) i(1) range_ok_indices by fastforce
    qed
    with q show ?thesis by (auto simp: sync_covered_def)
  qed
  then show ?thesis
    using inv sub rest(1,2) \<open>synced \<le> bound\<close> by (auto simp: sync_inv_def scheduled_index_def)
qed

lemma sync_inv_handle_fetch_result:
  assumes "sync_inv bound sy" "r \<in> set (sy_inflight_fetches sy)" "answers r commits" "local \<le> bound" "bound < 2 ^ 32 - 1"
    and "handle_fetch_result c dispatch local (commit_range_end r) commits
           (sy\<lparr>sy_inflight_fetches := remove1 r (sy_inflight_fetches sy)\<rparr>) core = Some (sy', core', True)"
  shows "sync_inv bound sy'"
  using assms(6) sync_inv_drain [OF sync_inv_record_fetched [OF assms(1-5)] assms(5)]
  by (auto simp: handle_fetch_result_def Let_def split: if_splits bind_splits)

subsection \<open>The scheduler as a transition system\<close>

text \<open>
  The iterations of \<^verbatim>\<open>schedule_loop\<close>: a tick of the interval, the result of a fetch task, and after either of them
  the start of new fetches.  The quorum and the local commit index are arbitrary up to \<open>bound\<close>, and the core may
  change between two iterations.  A run ends when the core is gone.
\<close>

inductive sync_reachable ::
  "('kp, 'sig) sync_env \<Rightarrow> sync_parameters \<Rightarrow> (certified_commits \<Rightarrow> 'c \<Rightarrow> (block_ref btree_set \<times> 'c) option) \<Rightarrow>
   CommitIndex \<Rightarrow> commit_syncer \<Rightarrow> 'c \<Rightarrow> bool"
  for env p dispatch bound where
  new: "last_commit \<le> bound \<Longrightarrow> sync_reachable env p dispatch bound (commit_syncer_new last_commit) core"
| tick: "sync_reachable env p dispatch bound sy core \<Longrightarrow> quorum_commit \<le> bound \<Longrightarrow> local_commit \<le> bound \<Longrightarrow>
     try_schedule_once p quorum_commit local_commit handled sy = Some sy' \<Longrightarrow>
     sync_reachable env p dispatch bound (try_start_fetches p (se_committee env) sy') core'"
| fetched: "sync_reachable env p dispatch bound sy core \<Longrightarrow> r \<in> set (sy_inflight_fetches sy) \<Longrightarrow> local_commit \<le> bound \<Longrightarrow>
     fetch_loop env p net r 0 cert = Some ((target_end, commits), cert') \<Longrightarrow>
     handle_fetch_result (se_committee env) dispatch local_commit target_end commits
       (sy\<lparr>sy_inflight_fetches := remove1 r (sy_inflight_fetches sy)\<rparr>) core' = Some (sy', core'', True) \<Longrightarrow>
     sync_reachable env p dispatch bound (try_start_fetches p (se_committee env) sy') core''"

inductive_cases sync_reachableE: "sync_reachable env p dispatch bound sy core"

lemma certified_answers:
  assumes "certified_chain env r (map cc_commit (ccs_commits commits))"
  shows "answers r commits"
proof -
  let ?cs = "ccs_commits commits"
  have ne: "?cs \<noteq> []" and map: "map (\<lambda>c. tcm_index (cc_commit c)) ?cs = [commit_range_start r..<commit_range_start r + length ?cs]"
    and le: "tcm_index (last (map cc_commit ?cs)) \<le> commit_range_end r"
    using assms by (auto simp: certified_chain_def comp_def)
  have "commits_start commits = commit_range_start r"
    using ne arg_cong [OF map, of hd] by (simp add: commits_start_def hd_map)
  moreover have "commits_end commits = commit_range_start r + length ?cs - 1"
    using ne arg_cong [OF map, of last] by (simp add: commits_end_def last_map)
  ultimately show ?thesis
    using ne le by (cases "length ?cs") (auto simp: answers_def commits_end_def last_map)
qed

lemma fetch_once_answers:
  assumes "committee_wf (se_committee env)" "commit_range_end r < 2 ^ 32 - 1"
    and "fetch_once env p fc fb peer r cert = Some (Inr commits, out)"
  shows "answers r commits"
proof -
  from assms(3) obtain ss bs cs votes cert1 m where
    run: "verify_commits env peer r ss bs cert = Some (Inr (cs, votes), cert1)"
      "fetch_chunks env peer fb (chunks (sp_max_blocks_per_fetch p) (sort (concat (map tcm_blocks cs)))) [] = Inr m"
      "assign_blocks cs m = Some (ccs_commits commits)"
    by (auto simp: fetch_once_def split: sum.splits bind_splits if_splits)
  have "fetched_ok env m" using fetch_chunks_ok [OF run(2)] by (simp add: fetched_ok_def)
  then have "map cc_commit (ccs_commits commits) = cs" using assign_blocks_spec [OF run(3)] by blast
  then show ?thesis using verify_commits_sound [OF assms(1,2) run(1)] by (intro certified_answers [of env]) simp
qed

lemma sync_reachable_inv:
  assumes "sync_reachable env p dispatch bound sy core" "committee_wf (se_committee env)"
    and "bound + 2 * sp_commit_sync_batch_size p < 2 ^ 32 - 1"
  shows "sync_inv bound sy"
  using assms
proof induction
  case (new i core)
  then show ?case by (simp add: sync_inv_new)
next
  case (tick sy core quorum_commit local handled sy' core')
  then show ?case by (intro sync_inv_start_fetches) (rule sync_inv_schedule_once)
next
  case (fetched sy core r local net cert target_end commits cert' core' sy' core'')
  have inv: "sync_inv bound sy" and bound: "bound < 2 ^ 32 - 1" using fetched by simp_all
  then have rb: "commit_range_end r < 2 ^ 32 - 1"
    using fetched.hyps(2) range_ok_indices [of bound r] by (auto simp: sync_inv_def sync_ranges_def)
  from fetch_loop_once [OF fetched.hyps(4)] fetch_once_answers [OF fetched.prems(1) rb]
  have r: "target_end = commit_range_end r" "answers r commits" by blast+
  have "sync_inv bound sy'"
    by (rule sync_inv_handle_fetch_result [OF inv fetched.hyps(2) r(2) fetched.hyps(3) bound fetched.hyps(5) [unfolded r(1)]])
  then show ?case by (rule sync_inv_start_fetches)
qed

text \<open>C15: no commit is lost.  In every state the scheduler reaches, with peers that answer anything, each commit index
  above the synced index and up to the highest scheduled one lies in a range that is waiting to be fetched, in flight or
  fetched, so the node will get to it without scheduling it again.  Every range in the state, whether it holds that index or
  not, is a proper one: it is not empty and ends at or below the bound on the commit indices seen.\<close>

theorem scheduled_commits_not_lost:
  assumes "sync_reachable env p dispatch bound sy core" "committee_wf (se_committee env)"
    and "bound + 2 * sp_commit_sync_batch_size p < 2 ^ 32 - 1"
  shows "(\<forall>i k. sy_synced_commit_index sy < i \<and> sy_highest_scheduled_index sy = Some k \<and> i \<le> k \<longrightarrow>
        (\<exists>r. (r \<in> set (sy_inflight_fetches sy) \<or> r \<in> set (sy_pending_fetches sy) \<or> r \<in> set (btm_keys (sy_fetched_ranges sy))) \<and>
           commit_range_start r \<le> i \<and> i \<le> commit_range_end r)) \<and>
     (\<forall>q. q \<in> set (sy_inflight_fetches sy) \<or> q \<in> set (sy_pending_fetches sy) \<or> q \<in> set (btm_keys (sy_fetched_ranges sy)) \<longrightarrow>
        commit_range_start q \<le> commit_range_end q \<and> commit_range_end q \<le> bound)"
proof -
  have inv: "sync_inv bound sy" by (rule sync_reachable_inv [OF assms])
  have ranges: "q \<in> sync_ranges sy \<longleftrightarrow>
      q \<in> set (sy_inflight_fetches sy) \<or> q \<in> set (sy_pending_fetches sy) \<or> q \<in> set (btm_keys (sy_fetched_ranges sy))" for q
    by (auto simp: sync_ranges_def btm_keys_def)
  have ok: "commit_range_indices q = {commit_range_start q..commit_range_end q} \<and> commit_range_end q \<le> bound \<and>
      commit_range_start q \<le> commit_range_end q" if "q \<in> sync_ranges sy" for q
    using inv that by (intro range_ok_indices) (simp add: sync_inv_def)
  have "\<exists>r \<in> sync_ranges sy. commit_range_start r \<le> i \<and> i \<le> commit_range_end r"
    if "sy_synced_commit_index sy < i" "sy_highest_scheduled_index sy = Some k" "i \<le> k" for i k
    using inv that ok by (fastforce simp: sync_inv_def scheduled_index_def sync_covered_def)
  with ok show ?thesis unfolding ranges [symmetric] by blast
qed

text \<open>C16: delivery to the core.  When a fetch result is handled in a reachable state, the batches sent to the core carry
  the synced index from its old value (or the local commit index, when that is higher) to its new one: each batch starts at
  most one above what is synced and ends above it, and is stored under the indices of its first and last commit.  When the
  core is still there, no batch that could be sent is left.\<close>

theorem batches_delivered_in_order:
  assumes "sync_reachable env p dispatch bound sy core" "committee_wf (se_committee env)"
    and "bound + 2 * sp_commit_sync_batch_size p < 2 ^ 32 - 1"
    and "r \<in> set (sy_inflight_fetches sy)" "local_commit \<le> bound"
    and "fetch_loop env p net r 0 cert = Some ((target_end, commits), cert')"
    and "handle_fetch_result (se_committee env) dispatch local_commit target_end commits
       (sy\<lparr>sy_inflight_fetches := remove1 r (sy_inflight_fetches sy)\<rparr>) core' = Some (sy', core'', up)"
  shows "(\<exists>sent. fold_opt (deliver_batch dispatch) (map snd sent) core' = Some core'' \<and>
            carries (max (sy_synced_commit_index sy) local_commit) (map fst sent) (sy_synced_commit_index sy') \<and>
            (\<forall>(q, batch) \<in> set sent. batch_of q batch)) \<and>
         (up \<longrightarrow> (\<forall>q \<in> set (btm_keys (sy_fetched_ranges sy')). sy_synced_commit_index sy' + 1 < commit_range_start q))"
proof -
  have inv: "sync_inv bound sy" and bound: "bound < 2 ^ 32 - 1" using sync_reachable_inv [OF assms(1-3)] assms(3) by simp_all
  then have rb: "commit_range_end r < 2 ^ 32 - 1"
    using assms(4) range_ok_indices [of bound r] by (auto simp: sync_inv_def sync_ranges_def)
  have r: "target_end = commit_range_end r" "answers r commits"
    using fetch_loop_once [OF assms(6)] fetch_once_answers [OF assms(2) rb] by blast+
  let ?sy = "record_fetched local_commit target_end commits (sy\<lparr>sy_inflight_fetches := remove1 r (sy_inflight_fetches sy)\<rparr>)"
  have rec: "sync_inv bound ?sy"
    unfolding r(1) by (rule sync_inv_record_fetched [OF inv assms(4) r(2) assms(5) bound])
  obtain m s where drain: "drain_fetched (se_committee env) dispatch (sy_fetched_ranges ?sy) (sy_synced_commit_index ?sy) core' = Some (m, s, core'', up)"
      "sy_fetched_ranges sy' = m" "sy_synced_commit_index sy' = s"
    using assms(7) by (auto simp: handle_fetch_result_def Let_def split: if_splits bind_splits)
  have ends: "\<forall>r \<in> fst ` set (sy_fetched_ranges ?sy). commit_range_end r < 2 ^ 32 - 1"
    using rec bound range_ok_indices by (fastforce simp: sync_inv_def sync_ranges_def)
  have s: "sy_synced_commit_index ?sy < 2 ^ 32 - 1" using rec bound by (auto simp: sync_inv_def)
  have start: "sy_synced_commit_index ?sy = max (sy_synced_commit_index sy) local_commit" by (simp add: record_fetched_fields)
  from drain_fetched_spec [OF drain(1) s ends] obtain sent where "set sent \<subseteq> set (sy_fetched_ranges ?sy)"
      "carries (sy_synced_commit_index ?sy) (map fst sent) s" "fold_opt (deliver_batch dispatch) (map snd sent) core' = Some core''"
    by auto
  moreover have "\<forall>q \<in> set (btm_keys m). s + 1 < commit_range_start q" if up
    using drain_fetched_rest [OF _ s _ ends, of _ _ _ m s core''] drain(1) that rec
    by (auto simp: sync_inv_def btm_keys_def)
  ultimately show ?thesis using rec unfolding drain(2,3) start sync_inv_def by blast
qed

end
