(* ===== verification/Example_Commit_Sync.thy ===== *)
theory Example_Commit_Sync
  imports Commit_Syncer_Properties Example_Commits
begin

section \<open>A concrete synchronisation\<close>

text \<open>
  A node of the committee of four that has no commits fetches the range 1 to 2.  Its peer answers with commit 1
  and the vote blocks of three authorities.  Byte strings are told apart by their length, which is also their digest.
\<close>

definition vote_block4 :: "AuthorityIndex \<Rightarrow> commit_ref \<Rightarrow> signed_block" where
  "vote_block4 a vote = \<lparr>sb_inner = V1 \<lparr>b1_epoch = 0, b1_round = 1, b1_author = a, b1_timestamp_ms = 1500,
     b1_ancestors = BlockRef 0 a 7 # map (\<lambda>i. BlockRef 0 i 7) (filter (\<lambda>i. i \<noteq> a) [0, 1, 2, 3]), b1_transactions = [],
     b1_commit_votes = [vote], b1_misbehavior_reports = [], b1_epoch_change_proposal = None, b1_epoch_change_votes = []\<rparr>,
     sb_signature = [1]\<rparr>"

definition leader_block4 :: signed_block where
  "leader_block4 = signed4 [BlockRef 0 2 7, BlockRef 0 0 7, BlockRef 0 3 7]"

definition synced_commit4 :: commit where
  "synced_commit4 = commit_new 1 0 1500 (BlockRef 1 2 9) [BlockRef 1 2 9] 101"

definition parse_block4 :: "bytes \<Rightarrow> string + signed_block" where
  "parse_block4 bs =
     (if length bs < 4 then Inr (vote_block4 (length bs) (commit_ref_new 1 1))
      else if length bs < 8 then Inr (vote_block4 (length bs - 4) (CommitRef 1 1 101 0))
      else if length bs = 9 then Inr leader_block4 else Inl ''malformed'')"

definition sync_env4 :: "(bytes, bytes) sync_env" where
  "sync_env4 = \<lparr>se_verifier = verifier4, se_commit_hash = length,
     se_parse_commit = (\<lambda>bs. if length bs = 1 then Inr synced_commit4 else Inl ''malformed''), se_parse_block = parse_block4\<rparr>"

definition sync_parameters4 :: sync_parameters where
  "sync_parameters4 = \<lparr>sp_commit_sync_batch_size = 1, sp_commit_sync_batches_ahead = 5,
     sp_commit_sync_parallel_fetches = 5, sp_max_blocks_per_fetch = 5\<rparr>"

definition network4 :: sync_network where
  "network4 = \<lparr>sn_shuffle = (\<lambda>_ targets. targets),
     sn_fetch_commits = (\<lambda>_ _ _ _. Inr ([[0]], [[], [0], [0, 0]])),
     sn_fetch_blocks = (\<lambda>_ _ _ refs _. Inr (map (\<lambda>_. replicate 9 0) refs)),
     sn_timed_out = (\<lambda>_ _ _. None)\<rparr>"

definition cert4 :: "certified_block list \<times> certifier_state" where
  "cert4 = ([], certifier_state_new context4)"

definition trusted4 :: trusted_commit where
  "trusted4 = trusted_commit_new length synced_commit4 [0]"

definition votes_synced4 :: "verified_block list" where
  "votes_synced4 = map (\<lambda>bs. verified_block_new length (vote_block4 (length bs) (commit_ref_new 1 1)) bs) [[], [0], [0, 0]]"

definition fetched4 :: certified_commits where
  "fetched4 = \<lparr>ccs_commits = [\<lparr>cc_commit = trusted4, cc_blocks = [verified_block_new length leader_block4 (replicate 9 0)]\<rparr>],
     ccs_votes = votes_synced4\<rparr>"

lemma sync_env4_wf: "committee_wf (se_committee sync_env4)"
  by (simp add: sync_env4_def verifier4_def context4_def committee4_wf)

lemma vote_block4_ok:
  assumes "a = 0 \<or> a = 1 \<or> a = 2"
  shows "verify_block verifier4 (vote_block4 a vote) = Some (Inr ())"
  using assms
  by (elim disjE) (simp_all add: verify_block_def verify_signature_def verify_block_signature_def block_message_def
      compute_inner_block_digest_def check_transactions_def Let_def verifier4_simps vote_block4_def)

lemma vote_block4_vote:
  assumes "a = 0 \<or> a = 1 \<or> a = 2"
  shows "verify_and_vote verifier4 (vote_block4 a vote) bs = Some (Inr (verified_block_new length (vote_block4 a vote) bs, []))"
  unfolding verify_and_vote_def vote_block4_ok [OF assms] by (simp add: Let_def verifier4_def crypto4_def context4_def)

lemma vote_block4_sel [simp]:
  "vb_author (verified_block_new h (vote_block4 a vote) bs) = a"
  "vb_commit_votes (verified_block_new h (vote_block4 a vote) bs) = [vote]"
  by (simp_all add: verified_block_new_def vb_author_def vb_commit_votes_def vote_block4_def)

lemma certify_votes4: "certify_votes sync_env4 voted cert = Some cert"
  by (cases cert) (simp add: certify_votes_def sync_env4_def verifier4_def context4_def)

definition agg4 :: "nat list \<Rightarrow> stake_aggregator" where
  "agg4 vs = \<lparr>sa_votes = vs, sa_stake = length vs\<rparr>"

lemma add_vote4:
  assumes "a = 0 \<and> vs = [] \<or> a = Suc 0 \<and> vs = [0] \<or> a = Suc (Suc 0) \<and> vs = [0, Suc 0]"
  shows "count_end_votes committee4 ref (verified_block_new h (vote_block4 a ref) bs) (agg4 vs) = Some (agg4 (vs @ [a]))"
  using assms
  by (elim disjE) (auto simp: count_end_votes_def agg4_def aggregator_add_def committee_stake_def vec_get_def committee4_def
      example_authority_def u64_add_def Let_def bts_insert_def insort_insert_key_def)

lemma sync_env4_sel:
  "ctx_committee (sv_context verifier4) = committee4" "cy_hash (sv_crypto verifier4) = length" "se_verifier sync_env4 = verifier4" "se_commit_hash sync_env4 = length"
  "se_parse_commit sync_env4 [0] = Inr synced_commit4"
  "se_parse_block sync_env4 = parse_block4"
  by (simp_all add: sync_env4_def verifier4_def context4_def crypto4_def)

lemma chain4: "chain_commits sync_env4 peer (commit_range_new 1 2) [] [[0]] = Inr [(1, synced_commit4)]"
  by (simp add: sync_env4_sel synced_commit4_def commit_new_def commit_range_start_def commit_range_end_def
      commit_range_new_def u32_sat_add_def)

lemma count4:
  "count_commit_votes sync_env4 (commit_ref_new 1 1) aggregator_new [] cert [[], [0], [0, 0]] =
     Some (Inr (agg4 [0, Suc 0, Suc (Suc 0)], votes_synced4), cert)"
proof -
  have agg0: "aggregator_new = agg4 []" by (simp add: aggregator_new_def agg4_def)
  show ?thesis
    unfolding agg0
    by (simp add: sync_env4_sel parse_block4_def vote_block4_vote certify_votes4 add_vote4 votes_synced4_def)
qed

lemma verify_commits4:
  "verify_commits sync_env4 peer (commit_range_new 1 2) [[0]] [[], [0], [0, 0]] cert = Some (Inr ([trusted4], votes_synced4), cert)"
proof -
  have "reached_threshold reached_quorum (agg4 [0, Suc 0, Suc (Suc 0)]) committee4"
    by (simp add: reached_threshold_def reached_quorum_def agg4_def committee4_def)
  moreover have "cm_index synced_commit4 = 1" by (simp add: synced_commit4_def commit_new_def)
  ultimately show ?thesis
    unfolding verify_commits_def chain4 by (simp add: count4 [unfolded One_nat_def] sync_env4_sel trusted4_def del: count_commit_votes.simps)
qed

lemma chunks4: "chunks 5 [x] = [[x]]"
  by (simp add: chunks.simps)

lemma fetch_once4:
  "fetch_once sync_env4 sync_parameters4 (Inr ([[0]], [[], [0], [0, 0]])) (\<lambda>refs _. Inr (map (\<lambda>_. replicate 9 0) refs))
     peer (commit_range_new 1 2) cert = Some (Inr fetched4, cert)"
proof -
  have blocks: "tcm_blocks trusted4 = [BlockRef 1 2 9]" by (simp add: trusted4_def trusted_commit_new_def synced_commit4_def commit_new_def)
  have leader: "block_round (sb_inner leader_block4) = 1" "block_author (sb_inner leader_block4) = 2"
    by (simp_all add: leader_block4_def signed4_def example_block_def)
  have "fetch_chunk sync_env4 peer (\<lambda>refs _. Inr (map (\<lambda>_. replicate 9 0) refs)) [BlockRef 1 2 9]
      = Inr [verified_block_new length leader_block4 (replicate 9 0)]"
    by (simp add: fetch_chunk_def fetch_with_retries.simps numeral_2_eq_2 sync_env4_sel parse_block4_def leader)
  moreover have "vb_reference (verified_block_new length leader_block4 (replicate 9 0)) = BlockRef 1 2 9"
    by (simp add: verified_block_new_def vb_reference_def vb_round_def vb_author_def leader)
  ultimately show ?thesis
    by (simp add: fetch_once_def verify_commits4 [unfolded One_nat_def] sync_parameters4_def blocks chunks4 btm_get_def certify_votes4 fetched4_def)
qed

lemma fetch_loop4:
  "fetch_loop sync_env4 sync_parameters4 network4 (commit_range_new 1 2) 0 cert = Some ((2, fetched4), cert)"
proof -
  have "fetch_targets (sv_context (se_verifier sync_env4)) network4 0 = [1, 2, 3]"
    by (simp add: fetch_targets_def network4_def sync_env4_sel) (simp add: verifier4_def context4_def upt_rec)
  then have "fetch_from_targets sync_env4 sync_parameters4 network4 (commit_range_new 1 2) 0
      (fetch_targets (sv_context (se_verifier sync_env4)) network4 0) cert = Some (Some fetched4, cert)"
    using fetch_once4 [of 1 cert] by (simp add: network4_def)
  moreover have "commit_range_end (commit_range_new 1 2) = 2"
    by (simp add: commit_range_end_def commit_range_new_def u32_sat_add_def)
  ultimately show ?thesis by (subst fetch_loop.simps) simp
qed

theorem fetched_commits_certified_witness:
  "certified_chain sync_env4 (commit_range_new 1 2) [trusted4] \<and>
   3 \<le> stake_of committee4 (commit_voters (commit_ref_new (tcm_index trusted4) (tcm_digest trusted4)) votes_synced4)"
proof -
  have "commit_range_end (commit_range_new 1 2) < 2 ^ 32 - 1"
    by (simp add: commit_range_end_def commit_range_new_def u32_sat_add_def)
  from fetched_commits_certified [OF sync_env4_wf this fetch_once4 [of 1 cert4]] show ?thesis
    by (simp add: fetched4_def sync_env4_sel Let_def) (simp add: committee4_def)
qed

theorem certified_commits_agree_witness:
  "\<exists>cs votes cs' votes'.
     verify_commits sync_env4 1 (commit_range_new 1 2) [[0]] [[], [0], [0, 0]] cert4 = Some (Inr (cs, votes), cert4) \<and>
     verify_commits sync_env4 3 (commit_range_new 1 2) [[0]] [[], [0], [0, 0]] cert4 = Some (Inr (cs', votes'), cert4) \<and>
     (\<forall>c \<in> set cs. \<forall>c' \<in> set cs'. tcm_index c = tcm_index c' \<longrightarrow> c = c')"
proof -
  have r: "commit_range_end (commit_range_new 1 2) < 2 ^ 32 - 1"
    by (simp add: commit_range_end_def commit_range_new_def u32_sat_add_def)
  have "stake_of (se_committee sync_env4) {} \<le> fault_tolerance (se_committee sync_env4)" by simp
  moreover have "\<forall>b \<in> set votes_synced4. \<forall>b' \<in> set votes_synced4. vb_author b \<notin> {} \<and> vb_author b = vb_author b' \<longrightarrow>
      (\<forall>v \<in> set (vb_commit_votes b). \<forall>v' \<in> set (vb_commit_votes b'). cr_index v = cr_index v' \<longrightarrow> v = v')"
    by (simp add: votes_synced4_def)
  ultimately have "\<forall>c \<in> set [trusted4]. \<forall>c' \<in> set [trusted4]. tcm_index c = tcm_index c' \<longrightarrow> c = c'"
    by (rule certified_commits_agree [OF sync_env4_wf refl refl refl r r verify_commits4 [of 1 cert4] verify_commits4 [of 3 cert4] refl]) simp
  then show ?thesis using verify_commits4 [of 1 cert4] verify_commits4 [of 3 cert4] by blast
qed

lemma verify_global_votes4:
  "verify_commits sync_env4 1 (commit_range_new 1 2) [[0]] [replicate 4 0, replicate 5 0, replicate 6 0] cert4 =
     Some (Inl (NotEnoughCommitVotes 0 1 synced_commit4), cert4)"
proof -
  have none: "count_end_votes c (commit_ref_new 1 1) (verified_block_new h (vote_block4 a (CommitRef 1 1 101 0)) bs) agg = Some agg"
    for c h a bs agg by (rule count_end_votes_none) (simp add: commit_ref_new_def)
  have "count_commit_votes sync_env4 (commit_ref_new 1 1) aggregator_new [] cert4 [replicate 4 0, replicate 5 0, replicate 6 0] =
     Some (Inr (aggregator_new, map (\<lambda>a. verified_block_new length (vote_block4 a (CommitRef 1 1 101 0)) (replicate (4 + a) 0)) [0, 1, 2]), cert4)"
    by (simp add: sync_env4_sel parse_block4_def vote_block4_vote certify_votes4 none [unfolded One_nat_def])
  moreover have "\<not> reached_threshold reached_quorum aggregator_new committee4"
    by (simp add: reached_threshold_def reached_quorum_def aggregator_new_def committee4_def)
  moreover have "cm_index synced_commit4 = 1" by (simp add: synced_commit4_def commit_new_def)
  ultimately show ?thesis
    unfolding verify_commits_def chain4 by (simp add: sync_env4_sel aggregator_new_def del: count_commit_votes.simps)
qed

theorem commit_sync_never_certifies_witness:
  "\<exists>result out e. verify_commits sync_env4 1 (commit_range_new 1 2) [[0]] [replicate 4 0, replicate 5 0, replicate 6 0] cert4
     = Some (result, out) \<and> result = Inl e"
proof -
  have r: "commit_range_end (commit_range_new 1 2) < 2 ^ 32 - 1"
    by (simp add: commit_range_end_def commit_range_new_def u32_sat_add_def)
  have byz: "stake_of (se_committee sync_env4) {3} < c_quorum_threshold (se_committee sync_env4)"
    by (simp add: sync_env4_sel stake_of_three) (simp add: committee4_def)
  have "\<forall>s \<in> set [replicate 4 0, replicate 5 0, replicate 6 0]. \<forall>sb. se_parse_block sync_env4 s = Inr sb \<and> block_author (sb_inner sb) \<notin> {3} \<longrightarrow>
      (\<forall>v \<in> set (block_commit_votes (sb_inner sb)). has_global_context v)"
    by (auto simp: sync_env4_sel parse_block4_def vote_block4_def has_global_context_def)
  from commit_sync_never_certifies [OF sync_env4_wf r byz this verify_global_votes4] verify_global_votes4
  show ?thesis by blast
qed

subsection \<open>The scheduler\<close>

definition sync_log :: "certified_commits \<Rightarrow> certified_commits list \<Rightarrow> (block_ref btree_set \<times> certified_commits list) option" where
  "sync_log commits sent = Some ([], sent @ [commits])"

definition scheduled4 :: commit_syncer where
  "scheduled4 = \<lparr>sy_inflight_fetches = [commit_range_new 1 2], sy_pending_fetches = [], sy_fetched_ranges = [],
     sy_highest_scheduled_index = Some 2, sy_highest_fetched_commit_index = 0, sy_synced_commit_index = 0, sy_is_sync_mode = True\<rparr>"

lemma schedule4: "\<exists>sy. try_schedule_once sync_parameters4 2 0 0 (commit_syncer_new 0) = Some sy \<and>
    try_start_fetches sync_parameters4 committee4 sy = scheduled4"
proof -
  let ?sy = "\<lparr>sy_inflight_fetches = [], sy_pending_fetches = [commit_range_new 1 2], sy_fetched_ranges = [],
     sy_highest_scheduled_index = Some 2, sy_highest_fetched_commit_index = 0, sy_synced_commit_index = 0, sy_is_sync_mode = True\<rparr>"
  have "try_schedule_once sync_parameters4 2 0 0 (commit_syncer_new 0) = Some ?sy"
    by (simp add: try_schedule_once_def commit_syncer_new_def fast_forward_def should_be_in_sync_mode_def effective_batch_size_def
        is_severe_lag_def sync_parameters4_def unhandled_commits_threshold_def fetch_after_index_def u32_mul_def u32_add_def
        schedule_ranges.simps Let_def bts_insert_def insort_insert_key_def numeral_2_eq_2 [symmetric])
  moreover have "try_start_fetches sync_parameters4 committee4 ?sy = scheduled4"
    by (simp add: try_start_fetches_def target_parallel_fetches_def sync_parameters4_def scheduled4_def u64_add_def u64_mul_def)
  ultimately show ?thesis by blast
qed

lemma scheduled4_reachable: "sync_reachable sync_env4 sync_parameters4 sync_log 100 scheduled4 core"
proof -
  obtain sy where "try_schedule_once sync_parameters4 2 0 0 (commit_syncer_new 0) = Some sy"
      "try_start_fetches sync_parameters4 committee4 sy = scheduled4"
    using schedule4 by blast
  with sync_reachable.tick [OF sync_reachable.new, of 0 100 2 0 sync_parameters4 0 sy sync_env4 sync_log]
  show ?thesis by (simp add: sync_env4_sel)
qed

text \<open>After the partial answer commit 1 is synced and delivered; commit 2 waits to be fetched again.\<close>

definition resumed4 :: commit_syncer where
  "resumed4 = \<lparr>sy_inflight_fetches = [], sy_pending_fetches = [commit_range_new 2 2], sy_fetched_ranges = [],
     sy_highest_scheduled_index = Some 2, sy_highest_fetched_commit_index = 1, sy_synced_commit_index = 1, sy_is_sync_mode = True\<rparr>"

lemma handle_result4:
  "handle_fetch_result committee4 sync_log 0 2 fetched4 (scheduled4\<lparr>sy_inflight_fetches := remove1 (commit_range_new 1 2) (sy_inflight_fetches scheduled4)\<rparr>) []
     = Some (resumed4, [fetched4], True)"
proof -
  have ends: "commits_start fetched4 = 1" "commits_end fetched4 = 1" "ccs_commits fetched4 \<noteq> []"
    by (simp_all add: commits_start_def commits_end_def fetched4_def trusted4_def trusted_commit_new_def synced_commit4_def commit_new_def)
  have "record_fetched 0 2 fetched4 (scheduled4\<lparr>sy_inflight_fetches := []\<rparr>) =
      resumed4\<lparr>sy_fetched_ranges := [(commit_range_new 1 1, fetched4)], sy_synced_commit_index := 0\<rparr>"
    by (simp add: record_fetched_def ends Let_def scheduled4_def resumed4_def u32_add_def bts_insert_def insort_insert_key_def
        numeral_2_eq_2 [symmetric])
  moreover have "drain_fetched committee4 sync_log [(commit_range_new 1 1, fetched4)] 0 [] = Some ([], 1, [fetched4], True)"
    by (simp add: sync_log_def commit_range_start_def commit_range_end_def commit_range_new_def u32_sat_add_def u32_add_def)
  ultimately show ?thesis
    by (simp add: handle_fetch_result_def ends(3)) (simp add: scheduled4_def resumed4_def)
qed

theorem scheduled_commits_not_lost_witness:
  "\<exists>sy core r. sync_reachable sync_env4 sync_parameters4 sync_log 100 sy core \<and> sy_synced_commit_index sy = 1 \<and>
     r \<in> set (sy_inflight_fetches sy) \<union> set (sy_pending_fetches sy) \<union> set (btm_keys (sy_fetched_ranges sy)) \<and>
     commit_range_start r \<le> 2 \<and> 2 \<le> commit_range_end r \<and>
     (\<forall>q \<in> set (sy_inflight_fetches sy) \<union> set (sy_pending_fetches sy) \<union> set (btm_keys (sy_fetched_ranges sy)).
        commit_range_start q \<le> commit_range_end q \<and> commit_range_end q \<le> 100)"
proof -
  let ?sy = "try_start_fetches sync_parameters4 (se_committee sync_env4) resumed4"
  have "sync_reachable sync_env4 sync_parameters4 sync_log 100 ?sy [fetched4]"
    by (rule sync_reachable.fetched [OF scheduled4_reachable [of "[]"] _ _ fetch_loop4 [of cert4], of 0 "[]"])
      (use handle_result4 in \<open>simp_all add: sync_env4_sel, simp add: scheduled4_def\<close>)
  moreover have "sy_synced_commit_index ?sy = 1" "sy_highest_scheduled_index ?sy = Some 2"
    by (simp_all add: try_start_fetches_def resumed4_def split: prod.split)
  moreover have "100 + 2 * sp_commit_sync_batch_size sync_parameters4 < 2 ^ 32 - 1" by (simp add: sync_parameters4_def)
  moreover note scheduled_commits_not_lost [OF calculation(1) sync_env4_wf calculation(4)]
  moreover have "(1::nat) < 2" "(2::nat) \<le> 2" by simp_all
  ultimately show ?thesis by (metis Un_iff)
qed

theorem batches_delivered_in_order_witness:
  "\<exists>sy core sent. sync_reachable sync_env4 sync_parameters4 sync_log 100 scheduled4 [] \<and>
     handle_fetch_result committee4 sync_log 0 2 fetched4 (scheduled4\<lparr>sy_inflight_fetches := remove1 (commit_range_new 1 2) (sy_inflight_fetches scheduled4)\<rparr>) []
       = Some (sy, core, True) \<and>
     fold_opt (deliver_batch sync_log) (map snd sent) [] = Some core \<and> carries 0 (map fst sent) (sy_synced_commit_index sy) \<and>
     sy_synced_commit_index sy = 1"
proof -
  have in_flight: "commit_range_new 1 2 \<in> set (sy_inflight_fetches scheduled4)" by (simp add: scheduled4_def)
  have "100 + 2 * sp_commit_sync_batch_size sync_parameters4 < 2 ^ 32 - 1" by (simp add: sync_parameters4_def)
  moreover have "handle_fetch_result (se_committee sync_env4) sync_log 0 2 fetched4
      (scheduled4\<lparr>sy_inflight_fetches := remove1 (commit_range_new 1 2) (sy_inflight_fetches scheduled4)\<rparr>) [] = Some (resumed4, [fetched4], True)"
    using handle_result4 by (simp add: sync_env4_sel)
  ultimately obtain sent where "fold_opt (deliver_batch sync_log) (map snd sent) [] = Some [fetched4]"
      "carries (max (sy_synced_commit_index scheduled4) 0) (map fst sent) (sy_synced_commit_index resumed4)"
    using batches_delivered_in_order [OF scheduled4_reachable [of "[]"] sync_env4_wf _ in_flight _ fetch_loop4 [of cert4], of 0 "[]" resumed4 "[fetched4]" True]
    by blast
  then show ?thesis
    using scheduled4_reachable [of "[]"] handle_result4
    by (intro exI [of _ resumed4] exI [of _ "[fetched4]"] exI [of _ sent]) (simp add: scheduled4_def resumed4_def)
qed

subsection \<open>The votes of a node\<close>

lemma accept_blocks_votes:
  assumes "accept_blocks d bs now = Some d'"
  shows "ds_pending_commit_votes d' = ds_pending_commit_votes d"
  using assms unfolding accept_blocks_def
  by (rule fold_opt_invariant [where P = "\<lambda>e. ds_pending_commit_votes e = ds_pending_commit_votes d"])
    (auto simp: accept_block_def update_block_metadata_def Let_def split: if_splits bind_splits prod.splits)

theorem commit_votes_not_counted_witness:
  "\<exists>d subs lin' d'. accept_blocks dag4 (grid 5) 5 = Some d \<and>
     handle_commit (\<lambda>_. 9) (\<lambda>_. Some []) linearizer4 d [grid_block 1 0] = Some (subs, lin', d') \<and> length subs = 1 \<and>
     count_end_votes committee4 (commit_ref_new 1 9)
       \<lparr>vb_block = \<lparr>sb_inner = V1 \<lparr>b1_epoch = 0, b1_round = 6, b1_author = 0, b1_timestamp_ms = 1500, b1_ancestors = [], b1_transactions = [],
          b1_commit_votes = fst (take_commit_votes d' 100), b1_misbehavior_reports = [], b1_epoch_change_proposal = None,
          b1_epoch_change_votes = []\<rparr>, sb_signature = []\<rparr>, vb_digest = 0, vb_serialized = []\<rparr> aggregator_new = Some aggregator_new"
proof -
  obtain d where d: "accept_blocks dag4 (grid 5) 5 = Some d" "grid_upto 5 4 d" using grid_accepted [of 5] by auto
  have ready: "leaders_ready d [grid_block 1 0]"
    using grid_known [OF d(2), of 1 0] grid_last_commit [OF d(2)] by (simp add: leaders_ready_def)
  obtain subs d' where run: "commit_chain (\<lambda>_. 9) (\<lambda>_. Some []) linearizer4 d [grid_block 1 0] subs d'"
      "handle_leaders (\<lambda>_. 9) (\<lambda>_. Some []) linearizer4 d [grid_block 1 0] [] = Some (subs, linearizer4, d')"
    using commit_chain_total [OF grid_can_commit [OF d(2)] ready, of "\<lambda>_. 9"] by auto
  have lin: "linearizer4\<lparr>lin_deferred_leaders := []\<rparr> = linearizer4" by (simp add: linearizer4_def linearizer_new_def set_epoch_base_index_def)
  have hc: "handle_commit (\<lambda>_. 9) (\<lambda>_. Some []) linearizer4 d [grid_block 1 0] = Some (subs, linearizer4, d')"
    using run(2) unfolding handle_commit_def lin by (simp only: linearizer4_simps append_Nil)
  have len: "length subs = 1" using run(1) by (cases subs; cases "tl subs") auto
  have "ds_pending_commit_votes d = []" using accept_blocks_votes [OF d(1)] by (simp add: dag4_def fresh_dag_state_def)
  then show ?thesis
    using commit_votes_not_counted [OF hc, where limit = 100 and c = committee4 and index = 1 and dig = 9 and agg = aggregator_new]
      grid_last_commit [OF d(2)] d(1) hc len
    by (intro exI [of _ d] exI [of _ subs] exI [of _ linearizer4] exI [of _ d']) (simp add: vb_commit_votes_def)
qed

end
