(* ===== verification/Spec2Isabelle.thy ===== *)
theory Spec2Isabelle
  imports Example_Commits Example_Blocks Example_Finalizer Example_Core Example_Commit_Sync
begin

text \<open>
  This is a model of the consensus core of the repository (a fork of Mysticeti), from the Rust
  crates \<^verbatim>\<open>src/metanode/meta-consensus/{config,types,core}\<close>, with the theorems that make it correct.

  \<^bold>\<open>The program.\<close>  A committee of authorities with stake produces blocks.  Every block of a round
  refers to a quorum of blocks of the previous round, so the blocks form a DAG.  An authority
  receives signed blocks and verifies them (\<^verbatim>\<open>block_verifier.rs\<close>).  The block manager holds a verified
  block back until all its ancestors are there (\<^verbatim>\<open>block_manager.rs\<close>), and accepts it into the
  DAG state, a cache in front of a store (\<^verbatim>\<open>dag_state/\<close>, \<^verbatim>\<open>storage/mem_store.rs\<close>), which also
  advances the threshold clock (\<^verbatim>\<open>threshold_clock.rs\<close>).  The committer reads the DAG and decides
  the leader slots elected by the leader schedule to be committed or skipped
  (\<^verbatim>\<open>base_committer.rs\<close>, \<^verbatim>\<open>universal_committer.rs\<close>, \<^verbatim>\<open>leader_schedule.rs\<close>, \<^verbatim>\<open>leader_scoring.rs\<close>).
  When the clock advances, the authority chooses the newest blocks of the others as ancestors of its
  next block, leaving out those of badly performing authorities where it can (\<^verbatim>\<open>core/proposer.rs\<close>,
  \<^verbatim>\<open>ancestor.rs\<close>, \<^verbatim>\<open>round_tracker.rs\<close>).
  The linearizer turns every committed leader into a commit: the not yet committed causal history
  of the leader, in a fixed order, with a timestamp (\<^verbatim>\<open>linearizer.rs\<close>).
  A proposal takes its transactions from the pool of submitted ones (\<^verbatim>\<open>transaction.rs\<close>).  On the fast path,
  the blocks that follow vote on its transactions.  The transaction certifier counts these votes before
  a commit (\<^verbatim>\<open>transaction_certifier.rs\<close>), and the commit finalizer holds a commit back until
  every transaction in it is finalized or rejected (\<^verbatim>\<open>commit_finalizer.rs\<close>).  An authority that is behind
  fetches certified commits from its peers and hands them to the core (\<^verbatim>\<open>commit_syncer.rs\<close>).

  \<^bold>\<open>Conventions.\<close>  A panic is \<open>None\<close>; an error result is a value of a sum type.  Unsigned integers
  are natural numbers with the wrap-around of a release build written out (\<open>u32_add\<close>, \<open>u64_add\<close>,
  and so on).  A \<^verbatim>\<open>BTreeMap\<close> is an association list in increasing key order, a \<^verbatim>\<open>BTreeSet\<close> an
  increasing list.  Hashing, BCS serialisation, signatures, transaction verification and the seeded
  random generator are third-party code and arguments of the definitions that use them.  Metrics
  and logs are left out.

  \<^bold>\<open>Theories\<close> (with the files of \<^verbatim>\<open>core/src\<close> unless said otherwise).
  \<^item> \<open>Prelude\<close>: machine arithmetic, vectors, loops that may panic, ordered maps and sets with the
    locale \<open>ordered_map\<close>.
  \<^item> \<open>Committee\<close> (\<^verbatim>\<open>config/src/committee.rs\<close>): \<open>committee_new\<close> and the thresholds; two quorums share
    more than the faulty stake.
  \<^item> \<open>Stake_Aggregator\<close>, \<open>Threshold_Clock\<close>: the vote counter and the round clock; the exact condition
    of a quorum and the round the clock shows.
  \<^item> \<open>Block\<close> (\<^verbatim>\<open>types/src/block.rs\<close>, \<^verbatim>\<open>block.rs\<close>, \<^verbatim>\<open>context.rs\<close>) and \<open>Commits\<close> (\<^verbatim>\<open>commit.rs\<close>): the data.
  \<^item> \<open>Block_Verifier\<close> (\<^verbatim>\<open>block_verifier.rs\<close>): what the verifier accepts and each of its errors.
  \<^item> \<open>Block_Manager\<close> (\<^verbatim>\<open>block_manager.rs\<close>) is the state of suspended blocks and its operations.
    \<open>Block_Manager_Properties\<close> has its invariant and the abstract specification \<open>deliver\<close>: the blocks in
    the DAG are those received whose history has been received.  \<open>Block_Manager_Operations\<close> shows that
    the operations refine it, that every suspended block waits for a missing one, and that the
    release loops end.  An authority's own blocks are assumed to be one per round (the argument
    \<open>own\<close>), because \<open>accept_block\<close> drops a second one.
  \<^item> \<open>Quorum_Rounds\<close> (\<^verbatim>\<open>commit_vote_monitor.rs\<close>, \<^verbatim>\<open>round_tracker.rs\<close>): the commit index and the rounds a
    quorum has reached, and that faulty reports cannot move them out of the honest range.
  \<^item> \<open>Ancestor_State\<close> (\<^verbatim>\<open>ancestor.rs\<close>): the authorities left out have a bounded stake.
  \<^item> \<open>Proposer\<close> (\<^verbatim>\<open>core/proposer.rs\<close>): the ancestors of a proposal, shown to pass the verifier.
  \<^item> \<open>Core\<close> (\<^verbatim>\<open>core.rs\<close>, \<^verbatim>\<open>core/\<close>, \<^verbatim>\<open>core_signals.rs\<close>, \<^verbatim>\<open>commit_observer.rs\<close>): the core thread, which owns the state of
    the other parts and calls them in turn.  \<open>Core_Properties\<close> shows that a block it proposes has a
    higher round than its earlier ones and passes the verifier of every peer, which guards a proposal has
    to pass, that a cold start ignores the last known proposed round, and where system transactions put the
    pulled ones.
  \<^item> \<open>Round_Maps\<close>: maps keyed by block references, cut off at a round.
  \<^item> \<open>Transaction_Pool\<close> (\<^verbatim>\<open>transaction.rs\<close>, and the system transactions of \<^verbatim>\<open>core/proposer.rs\<close>): the limits of a
    proposal, every submission is served in order, and the blocks built from the pool pass the verifier.
  \<^item> \<open>Transaction_Certifier\<close> (\<^verbatim>\<open>transaction_certifier.rs\<close>): each certified block has the quorums it claims, and
    two authorities certify a block with the same rejected transactions.
  \<^item> \<open>Commit_Finalizer\<close> (\<^verbatim>\<open>commit_finalizer.rs\<close>) has the buffer of pending commits and the links between
    their blocks.  \<open>Finalizer_Properties\<close> has its invariant \<open>finalizer_inv\<close>: processing a commit does not
    panic, keeps the order of the commits, holds a commit back for less than three rounds, and
    finalizes a disputed transaction only with a quorum of accepting descendants.  That the certifier
    still has the votes on the blocks of the pending commits is a hypothesis (\<open>next_commit\<close>, \<open>state_ok\<close>).
  \<^item> \<open>Commit_Syncer\<close> (\<^verbatim>\<open>commit_syncer.rs\<close>): the scheduler of commit fetches, the verification of the answers and
    the retry loop.  \<open>Commit_Certification\<close> shows what an accepted answer is, that answers agree, and that the votes
    nodes cast are not the ones counted, because their references carry a global execution index.
    \<open>Commit_Syncer_Properties\<close> has the step relation \<open>sync_reachable\<close>: no scheduled commit is lost and batches
    reach the core in order, without a gap.  Commit indices are bounded so that a batch does not leave 32 bits.
  \<^item> \<open>Mem_Store\<close> (\<^verbatim>\<open>storage/mem_store.rs\<close>): reads after writes and the ordered scans.
  \<^item> \<open>Dag_State\<close> (\<^verbatim>\<open>dag_state/\<close>) is the state and its operations.  \<open>Dag_Properties\<close> has the invariant
    \<open>dag_inv\<close> and shows that accepting, marking and flushing keep it, \<open>Dag_Traversal\<close> has the loops
    over ancestors, \<open>Dag_Commits\<close> the commits and votes, \<open>Dag_Recovery\<close> the constructor,
    \<open>Dag_Reachable\<close> the step relation \<open>dag_reachable\<close> and the invariant \<open>dag_view\<close> of every
    reachable state.
  \<^item> \<open>Leader_Scoring\<close>, \<open>Leader_Schedule\<close>: reputation scores, the swap table, leader election.
  \<^item> \<open>Base_Committer\<close> and \<open>Universal_Committer\<close> are the decision rules.  \<open>Committer_Spec\<close> states votes and
    certificates as sets, \<open>Committer_Safety\<close> shows that two authorities never decide a slot
    differently, \<open>Sequence_Agreement\<close> that their decided sequences are prefixes of each other.
  \<^item> \<open>Linearizer\<close> with the locale \<open>block_store\<close> over the store interface, interpreted on the DAG state in
    \<open>Linearizer_Properties\<close>; \<open>Commit_Timestamps\<close> (the median timestamp), \<open>Commit_Sequence\<close>
    (\<open>handle_commit\<close>) and \<open>Consensus_Agreement\<close>: committer and linearizer together give every pair of
    authorities the same sub-DAGs.
  \<^item> \<open>Example_Dag\<close>, \<open>Example_Commits\<close>, \<open>Example_Blocks\<close>, \<open>Example_Certifier\<close>, \<open>Example_Finalizer\<close>,
    \<open>Example_Core\<close>, \<open>Example_Commit_Sync\<close>: concrete DAGs and answers on which the theorems are applied.

  \<^bold>\<open>Loops.\<close>  Structural loops are \<open>fun\<close>; the worklists of \<open>link_causal_history\<close>, \<open>unsuspend_loop\<close> and
  \<open>gc_unsuspend_loop\<close>, the traversal \<open>visit_blocks\<close> of the finalizer and the loop \<open>schedule_ranges\<close> of the commit
  syncer have a termination proof.
  The traversal of the linearizer may run forever on a cyclic store, so it is a
  \<open>partial_function (option)\<close>, and \<open>linearize_sub_dag_spec\<close> shows that it returns on every DAG view.
  So is the walk \<open>origin_loop\<close> of the finalizer, shown to return because rounds decrease.  The loop
  \<open>finalize_loop\<close> has as fuel one more than the number of pending commits: each iteration but the
  last removes one.  The loop \<open>commit_loop\<close> of the core is a \<open>partial_function (option)\<close> too; no theorem
  claims that it returns.  \<open>fetch_loop\<close> of the commit syncer retries until a peer's answer is accepted, so it is
  one as well; \<open>fetch_loop_returns\<close> shows that it returns when this happens in some round.

  \<^bold>\<open>Not modelled.\<close>  The synchronizer, the round prober, the leader timeout, the
  network servers and clients, subscriptions and broadcasts are asynchronous tasks and I/O around
  this core.  The RocksDB store implements the interface of the in-memory store on a third-party
  library.  The commit observer's replay of stored commits after a restart is left out.
  Metrics, the protocol configuration table and the node's process and epoch management
  (\<^verbatim>\<open>src/metanode/src\<close>) are outside the consensus core.
\<close>

end
